(* ===== verification/Prelude.thy ===== *)
theory Prelude
  imports Main "HOL-Library.Word"
begin

text \<open>
  Shared vocabulary of the development: the machine integers of the C++ sources as words,
  bounds-checked access to \<open>std::vector\<close> elements, and the generic lemmas on words, lists
  and options that the component theories use. A C++ read or write outside a vector is
  undefined behaviour; here it is the value \<open>None\<close>, so that a theorem saying an operation
  returns \<open>Some\<close> also says that it stays inside its buffers.
\<close>

unbundle bit_operations_syntax

type_synonym u8 = "8 word"
type_synonym u16 = "16 word"
type_synonym u32 = "32 word"
type_synonym u64 = "64 word"

named_theorems unat_conv \<open>comparisons and arithmetic on words, as natural numbers\<close>

subsection \<open>Vectors\<close>

definition vec_set :: "nat \<Rightarrow> 'a \<Rightarrow> 'a list \<Rightarrow> 'a list option" where
  "vec_set i x v = (if i < length v then Some (v[i := x]) else None)"

definition vec_get :: "nat \<Rightarrow> 'a list \<Rightarrow> 'a option" where
  "vec_get i v = (if i < length v then Some (v ! i) else None)"

lemma vec_set_Some [simp]: "i < length v \<Longrightarrow> vec_set i x v = Some (v[i := x])"
  by (simp add: vec_set_def)

lemma vec_get_Some [simp]: "i < length v \<Longrightarrow> vec_get i v = Some (v ! i)"
  by (simp add: vec_get_def)

lemma vec_set_eq_SomeD: "vec_set i x v = Some w \<Longrightarrow> i < length v \<and> w = v[i := x]"
  by (auto simp: vec_set_def split: if_splits)

lemma vec_get_eq_SomeD: "vec_get i v = Some x \<Longrightarrow> i < length v \<and> x = v ! i"
  by (auto simp: vec_get_def split: if_splits)

subsection \<open>Exceptions\<close>

text \<open>The exceptions that the modelled code throws.\<close>

datatype mule_exception =
  CInvalidParamsEx | CInvalidStateEx | CEOFException | CIOFailureException | CInvalidPacket | wxString_exception

subsection \<open>Words as natural numbers\<close>

lemmas [unat_conv] = word_le_nat_alt word_less_nat_alt word_unat_eq_iff

lemma unat_add_1: "unat (x::'a::len word) + 1 < 2 ^ LENGTH('a) \<Longrightarrow> unat (x + 1) = unat x + 1"
  by (simp add: unat_word_ariths)

lemma unat_sub_1: "(x::'a::len word) \<noteq> 0 \<Longrightarrow> unat (x - 1) = unat x - 1"
  by (simp add: unat_minus_one)

lemma unat_sub_le: "(y::'a::len word) \<le> x \<Longrightarrow> unat (x - y) = unat x - unat y"
  by (simp add: unat_sub word_le_nat_alt)

lemma unat_add_small:
  "unat (x::'a::len word) + unat y < 2 ^ LENGTH('a) \<Longrightarrow> unat (x + y) = unat x + unat y"
  by (simp add: unat_word_ariths)

lemma unat_mult_small:
  "unat (x::'a::len word) * unat y < 2 ^ LENGTH('a) \<Longrightarrow> unat (x * y) = unat x * unat y"
  by (simp add: unat_word_ariths)

lemma unat_ucast_small:
  "unat (x::'a::len word) < 2 ^ LENGTH('b) \<Longrightarrow> unat (ucast x :: 'b::len word) = unat x"
  by (simp add: unsigned_ucast_eq take_bit_nat_eq_self)

lemma unat_of_nat_small: "n < 2 ^ LENGTH('a) \<Longrightarrow> unat (of_nat n :: 'a::len word) = n"
  by (simp add: unat_of_nat)

lemma word_eq_of_nat: "unat (x::'a::len word) = n \<Longrightarrow> x = of_nat n"
  using unat_of_nat_small [of n, where ?'a = 'a] by (auto simp: word_unat_eq_iff unat_of_nat)

lemma unat_ucast_up:
  assumes "LENGTH('a) \<le> LENGTH('b)"
  shows "unat (ucast (x::'a::len word) :: 'b::len word) = unat x"
proof (rule unat_ucast_small)
  have "unat x < 2 ^ LENGTH('a)" by simp
  also have "\<dots> \<le> 2 ^ LENGTH('b)" using assms by simp
  finally show "unat x < 2 ^ LENGTH('b)" .
qed

lemma unat_lt_64 [simp]: "unat (x::u64) < 18446744073709551616"
  using unsigned_less [of x, where ?'a = nat] by simp

lemma unat_lt_32 [simp]: "unat (x::u32) < 4294967296"
  using unsigned_less [of x, where ?'a = nat] by simp

lemma unat_lt_16 [simp]: "unat (x::u16) < 65536"
  using unsigned_less [of x, where ?'a = nat] by simp

lemma unat_lt_8 [simp]: "unat (x::u8) < 256"
  using unsigned_less [of x, where ?'a = nat] by simp

subsection \<open>Lists\<close>

lemma dropWhile_append_all:
  "(\<And>x. x \<in> set xs \<Longrightarrow> P x) \<Longrightarrow> dropWhile P (xs @ ys) = dropWhile P ys"
  by (induction xs) auto

lemma takeWhile_dropWhile_split:
  obtains "xs = takeWhile P xs @ dropWhile P xs" "\<forall>x \<in> set (takeWhile P xs). P x"
  using set_takeWhileD by fastforce

lemma sorted_wrt_mid:
  "sorted_wrt R (xs @ y # ys) \<longleftrightarrow>
     sorted_wrt R (xs @ ys) \<and> (\<forall>x \<in> set xs. R x y) \<and> (\<forall>z \<in> set ys. R y z)"
  by (auto simp: sorted_wrt_append)

end
