(* ===== verification/ArchSpecific.thy ===== *)
theory ArchSpecific
  imports Prelude
begin

text \<open>
  The byte-order primitives of src/amule-3.0.1/src/ArchSpecific.h: raw access to integers in a
  byte buffer, the wxWidgets byte-swap macros, and the \<open>Peek\<close>/\<open>Poke\<close> functions that
  always use little-endian order. The host's byte order is an argument of every operation; the
  theorems show that what \<open>Peek\<close> and \<open>Poke\<close> do to the bytes does not depend on it. A
  pointer is a buffer with an offset, and an access that does not fit is \<open>None\<close>.
\<close>

datatype host = LittleEndian | BigEndian

subsection \<open>Integers as bytes\<close>

primrec le_join :: "u8 list \<Rightarrow> 'a::len word" where
  "le_join [] = 0"
| "le_join (b # bs) = ucast b OR push_bit 8 (le_join bs)"

definition le_split :: "nat \<Rightarrow> 'a::len word \<Rightarrow> u8 list" where
  "le_split n w = map (\<lambda>i. ucast (drop_bit (8 * i) w)) [0..<n]"

text \<open>How the host lays an integer of \<open>n\<close> bytes out in memory.\<close>

definition raw_join :: "host \<Rightarrow> u8 list \<Rightarrow> 'a::len word" where
  "raw_join h bs = (if h = LittleEndian then le_join bs else le_join (rev bs))"

definition raw_split :: "host \<Rightarrow> nat \<Rightarrow> 'a::len word \<Rightarrow> u8 list" where
  "raw_split h n w = (if h = LittleEndian then le_split n w else rev (le_split n w))"

definition byte_swap :: "nat \<Rightarrow> 'a::len word \<Rightarrow> 'a word" where
  "byte_swap n w = le_join (rev (le_split n w))"

definition swap_on_be :: "host \<Rightarrow> nat \<Rightarrow> 'a::len word \<Rightarrow> 'a word" where
  "swap_on_be h n w = (if h = BigEndian then byte_swap n w else w)"

definition swap_on_le :: "host \<Rightarrow> nat \<Rightarrow> 'a::len word \<Rightarrow> 'a word" where
  "swap_on_le h n w = (if h = LittleEndian then byte_swap n w else w)"

subsection \<open>The functions of the header\<close>

definition raw_peek :: "host \<Rightarrow> nat \<Rightarrow> u8 list \<Rightarrow> nat \<Rightarrow> 'a::len word option" where
  "raw_peek h n buf off =
     (if off + n \<le> length buf then Some (raw_join h (take n (drop off buf))) else None)"

definition raw_poke :: "host \<Rightarrow> nat \<Rightarrow> nat \<Rightarrow> 'a::len word \<Rightarrow> u8 list \<Rightarrow> u8 list option" where
  "raw_poke h n off v buf =
     (if off + n \<le> length buf then Some (take off buf @ raw_split h n v @ drop (off + n) buf) else None)"

definition RawPeekUInt16 :: "host \<Rightarrow> u8 list \<Rightarrow> nat \<Rightarrow> u16 option" where
  "RawPeekUInt16 h p off = raw_peek h 2 p off"

definition RawPeekUInt32 :: "host \<Rightarrow> u8 list \<Rightarrow> nat \<Rightarrow> u32 option" where
  "RawPeekUInt32 h p off = raw_peek h 4 p off"

definition RawPeekUInt64 :: "host \<Rightarrow> u8 list \<Rightarrow> nat \<Rightarrow> u64 option" where
  "RawPeekUInt64 h p off = raw_peek h 8 p off"

definition PeekUInt8 :: "u8 list \<Rightarrow> nat \<Rightarrow> u8 option" where
  "PeekUInt8 p off = vec_get off p"

definition PeekUInt16 :: "host \<Rightarrow> u8 list \<Rightarrow> nat \<Rightarrow> u16 option" where
  "PeekUInt16 h p off = map_option (swap_on_be h 2) (RawPeekUInt16 h p off)"

definition PeekUInt32 :: "host \<Rightarrow> u8 list \<Rightarrow> nat \<Rightarrow> u32 option" where
  "PeekUInt32 h p off = map_option (swap_on_be h 4) (RawPeekUInt32 h p off)"

definition PeekUInt64 :: "host \<Rightarrow> u8 list \<Rightarrow> nat \<Rightarrow> u64 option" where
  "PeekUInt64 h p off = map_option (swap_on_be h 8) (RawPeekUInt64 h p off)"

definition RawPokeUInt16 :: "host \<Rightarrow> nat \<Rightarrow> u16 \<Rightarrow> u8 list \<Rightarrow> u8 list option" where
  "RawPokeUInt16 h off nVal p = raw_poke h 2 off nVal p"

definition RawPokeUInt32 :: "host \<Rightarrow> nat \<Rightarrow> u32 \<Rightarrow> u8 list \<Rightarrow> u8 list option" where
  "RawPokeUInt32 h off nVal p = raw_poke h 4 off nVal p"

definition RawPokeUInt64 :: "host \<Rightarrow> nat \<Rightarrow> u64 \<Rightarrow> u8 list \<Rightarrow> u8 list option" where
  "RawPokeUInt64 h off nVal p = raw_poke h 8 off nVal p"

definition PokeUInt8 :: "nat \<Rightarrow> u8 \<Rightarrow> u8 list \<Rightarrow> u8 list option" where
  "PokeUInt8 off nVal p = vec_set off nVal p"

definition PokeUInt16 :: "host \<Rightarrow> nat \<Rightarrow> u16 \<Rightarrow> u8 list \<Rightarrow> u8 list option" where
  "PokeUInt16 h off nVal p = RawPokeUInt16 h off (swap_on_be h 2 nVal) p"

definition PokeUInt32 :: "host \<Rightarrow> nat \<Rightarrow> u32 \<Rightarrow> u8 list \<Rightarrow> u8 list option" where
  "PokeUInt32 h off nVal p = RawPokeUInt32 h off (swap_on_be h 4 nVal) p"

definition PokeUInt64 :: "host \<Rightarrow> nat \<Rightarrow> u64 \<Rightarrow> u8 list \<Rightarrow> u8 list option" where
  "PokeUInt64 h off nVal p = RawPokeUInt64 h off (swap_on_be h 8 nVal) p"

subsection \<open>Bytes and bits\<close>

lemma length_le_split [simp]: "length (le_split n w) = n"
  by (simp add: le_split_def)

lemma le_split_nth [simp]: "i < n \<Longrightarrow> le_split n w ! i = ucast (drop_bit (8 * i) w)"
  by (simp add: le_split_def)

lemma bit_le_join:
  "bit (le_join bs :: 'a::len word) k \<longleftrightarrow>
     k < LENGTH('a) \<and> k div 8 < length bs \<and> bit (bs ! (k div 8)) (k mod 8)"
proof (induction bs arbitrary: k)
  case (Cons b bs)
  show ?case
  proof (cases "k < 8")
    case True
    then show ?thesis by (auto simp: bit_simps)
  next
    case False
    then obtain j where k: "k = j + 8" by (metis le_add_diff_inverse2 not_less)
    have "\<not> bit b k" using False bit_imp_le_length [of b k] by auto
    moreover have "(j + 8) div 8 = Suc (j div 8)" by simp
    ultimately show ?thesis using Cons.IH [of j] k by (auto simp: bit_simps)
  qed
qed simp

lemma bit_le_split:
  "i < n \<Longrightarrow> bit (le_split n (w::'a::len word) ! i) k \<longleftrightarrow> k < 8 \<and> bit w (8 * i + k)"
  by (auto simp: bit_simps dest: bit_imp_le_length)

lemma le_join_split [simp]:
  assumes "LENGTH('a) \<le> 8 * n"
  shows "le_join (le_split n w) = (w :: 'a::len word)"
proof (rule bit_word_eqI)
  fix k assume "k < LENGTH('a)"
  moreover from this assms have "k div 8 < n" by simp
  ultimately show "bit (le_join (le_split n w) :: 'a word) k = bit w k"
    by (simp add: bit_le_join bit_le_split del: le_split_nth)
qed

lemma le_split_join [simp]:
  assumes "8 * length bs \<le> LENGTH('a)" "n = length bs"
  shows "le_split n (le_join bs :: 'a::len word) = bs"
proof (rule nth_equalityI)
  fix i assume i: "i < length (le_split n (le_join bs :: 'a word))"
  show "le_split n (le_join bs :: 'a word) ! i = bs ! i"
  proof (rule bit_word_eqI)
    fix k assume "k < LENGTH(8)"
    with i assms show "bit (le_split n (le_join bs :: 'a word) ! i) k = bit (bs ! i) k"
      by (simp add: bit_le_split bit_le_join del: le_split_nth)
  qed
qed (simp add: assms)

lemma raw_join_split [simp]:
  "LENGTH('a) \<le> 8 * n \<Longrightarrow> raw_join h (raw_split h n w) = (w :: 'a::len word)"
  by (simp add: raw_join_def raw_split_def)

lemma raw_split_join [simp]:
  "8 * length bs \<le> LENGTH('a) \<Longrightarrow> n = length bs \<Longrightarrow> raw_split h n (raw_join h bs :: 'a::len word) = bs"
  by (simp add: raw_join_def raw_split_def)

lemma length_raw_split [simp]: "length (raw_split h n w) = n"
  by (simp add: raw_split_def)

text \<open>A swap on the host where it is needed yields the fixed byte order on every host.\<close>

lemma swap_on_be_join:
  "LENGTH('a) = 8 * n \<Longrightarrow> length bs = n \<Longrightarrow> swap_on_be h n (raw_join h bs :: 'a::len word) = le_join bs"
  by (cases h) (simp_all add: swap_on_be_def raw_join_def byte_swap_def)

lemma swap_on_be_split:
  "LENGTH('a) = 8 * n \<Longrightarrow> raw_split h n (swap_on_be h n (w::'a::len word)) = le_split n w"
  by (cases h) (simp_all add: swap_on_be_def raw_split_def byte_swap_def)

lemma swap_on_le_join:
  "LENGTH('a) = 8 * n \<Longrightarrow> length bs = n \<Longrightarrow> swap_on_le h n (raw_join h bs :: 'a::len word) = le_join (rev bs)"
  by (cases h) (simp_all add: swap_on_le_def raw_join_def byte_swap_def)

lemma swap_on_le_split:
  "LENGTH('a) = 8 * n \<Longrightarrow> raw_split h n (swap_on_le h n (w::'a::len word)) = rev (le_split n w)"
  by (cases h) (simp_all add: swap_on_le_def raw_split_def byte_swap_def)

lemma Peek_le:
  "PeekUInt16 h p off = (if off + 2 \<le> length p then Some (le_join (take 2 (drop off p))) else None)"
  "PeekUInt32 h p off = (if off + 4 \<le> length p then Some (le_join (take 4 (drop off p))) else None)"
  "PeekUInt64 h p off = (if off + 8 \<le> length p then Some (le_join (take 8 (drop off p))) else None)"
  by (simp_all add: PeekUInt16_def RawPeekUInt16_def PeekUInt32_def RawPeekUInt32_def
      PeekUInt64_def RawPeekUInt64_def raw_peek_def swap_on_be_join)

lemma Poke_le:
  "PokeUInt16 h off v p =
     (if off + 2 \<le> length p then Some (take off p @ le_split 2 v @ drop (off + 2) p) else None)"
  "PokeUInt32 h off w p =
     (if off + 4 \<le> length p then Some (take off p @ le_split 4 w @ drop (off + 4) p) else None)"
  "PokeUInt64 h off x p =
     (if off + 8 \<le> length p then Some (take off p @ le_split 8 x @ drop (off + 8) p) else None)"
  by (simp_all add: PokeUInt16_def RawPokeUInt16_def PokeUInt32_def RawPokeUInt32_def
      PokeUInt64_def RawPokeUInt64_def raw_poke_def swap_on_be_split)

subsection \<open>Properties\<close>

text \<open>A value poked into a buffer on one host and peeked on another, whatever the two byte
  orders, is the value itself; nothing outside its bytes changes.\<close>

theorem peek_poke_across_hosts:
  assumes "off + 4 \<le> length buf" "PokeUInt32 h off v buf = Some buf'"
  shows "PeekUInt32 h' buf' off = Some v \<and> length buf' = length buf \<and>
    take off buf' = take off buf \<and> drop (off + 4) buf' = drop (off + 4) buf"
  using assms by (auto simp: Poke_le Peek_le)

theorem peek_poke_across_hosts_witness:
  "PeekUInt32 LittleEndian [9, 4, 3, 2, 1, 9] 1 = Some 0x01020304"
proof -
  have "PokeUInt32 BigEndian 1 0x01020304 [9, 0, 0, 0, 0, 9] = Some [9, 4, 3, 2, 1, 9]"
    by (simp add: Poke_le le_split_def upt_rec)
  from peek_poke_across_hosts [OF _ this, of LittleEndian] show ?thesis by simp
qed

end
