(* ===== verification/UInt128.thy ===== *)
theory UInt128
  imports ArchSpecific
begin

text \<open>
  \<open>Kademlia::CUInt128\<close> (src/amule-3.0.1/src/kademlia/utils/UInt128.h and UInt128.cpp): the
  128-bit identifiers of the Kademlia network, kept as four 32-bit words, least significant
  first. The abstraction \<open>uval\<close> is the number they stand for; the carry loops, the shift, the
  comparison, the bit and chunk accessors and the byte conversions are shown to be the
  arithmetic of numbers modulo \<open>2 ^ 128\<close>, and the type becomes a linear order whose order is
  the class's \<open>operator<\<close>.

  The class overlays two 64-bit members on the four 32-bit ones; exclusive or, the zero test and
  copying act on every bit alone, so they are written on the 32-bit words. The \<open>int64_t\<close>
  carries are integers: they never leave the range of the type (\<open>add_sum_bounds\<close>,
  \<open>shift_sum_bounds\<close>).
\<close>

subsection \<open>The class\<close>

datatype CUInt128 = CUInt128 (u32_0: u32) (u32_1: u32) (u32_2: u32) (u32_3: u32)

fun u32_data :: "CUInt128 \<Rightarrow> nat \<Rightarrow> u32" where
  "u32_data x i = (if i = 0 then u32_0 x else if i = 1 then u32_1 x else if i = 2 then u32_2 x else u32_3 x)"

fun set_u32_data :: "nat \<Rightarrow> u32 \<Rightarrow> CUInt128 \<Rightarrow> CUInt128" where
  "set_u32_data i v (CUInt128 a b c d) =
     (if i = 0 then CUInt128 v b c d else if i = 1 then CUInt128 a v c d
      else if i = 2 then CUInt128 a b v d else CUInt128 a b c v)"

definition CUInt128_fill :: "bool \<Rightarrow> CUInt128" where
  "CUInt128_fill fill = (let v = (if fill then - 1 else 0) in CUInt128 v v v v)"

definition CUInt128_uint32 :: "u32 \<Rightarrow> CUInt128" where
  "CUInt128_uint32 value = CUInt128 value 0 0 0"

definition GetBitNumber :: "CUInt128 \<Rightarrow> nat \<Rightarrow> nat" where
  "GetBitNumber x b =
     (if b \<le> 127 then unat (drop_bit ((127 - b) mod 32) (u32_data x ((127 - b) div 32)) AND 1) else 0)"

definition SetBitNumber :: "nat \<Rightarrow> nat \<Rightarrow> CUInt128 \<Rightarrow> CUInt128" where
  "SetBitNumber b value x =
     (if \<not> b \<le> 127 then x
      else let i = (127 - b) div 32; m = push_bit ((127 - b) mod 32) 1
           in if value \<noteq> 0 then set_u32_data i (u32_data x i OR m) x
              else set_u32_data i (u32_data x i AND NOT m) x)"

definition Get32BitChunk :: "CUInt128 \<Rightarrow> nat \<Rightarrow> u32" where
  "Get32BitChunk x val = (if val < 4 then u32_data x (3 - val) else 0)"

definition Set32BitChunk :: "nat \<Rightarrow> u32 \<Rightarrow> CUInt128 \<Rightarrow> CUInt128" where
  "Set32BitChunk chunk value x = (if \<not> chunk < 4 then x else set_u32_data (3 - chunk) value x)"

text \<open>The constructor that copies a prefix and fills the rest with \<open>rand()\<close>; the \<open>k\<close>-th
  result of \<open>rand()\<close> is \<open>rnd k\<close>, and the data start uninitialised, as \<open>x0\<close>.\<close>

definition CUInt128_prefix :: "(nat \<Rightarrow> u32) \<Rightarrow> CUInt128 \<Rightarrow> CUInt128 \<Rightarrow> nat \<Rightarrow> CUInt128" where
  "CUInt128_prefix rnd x0 value numBits =
     (let n1 = numBits div 32;
          x1 = fold (\<lambda>i. Set32BitChunk i (Get32BitChunk value i)) [0..<n1] x0;
          x2 = fold (\<lambda>i. SetBitNumber i (GetBitNumber value i)) [n1 * 32..<numBits] x1;
          n2 = (numBits + 31) div 32;
          x3 = fold (\<lambda>i. SetBitNumber i (unat (rnd (i - numBits)) mod 2)) [numBits..<n2 * 32] x2
      in fold (\<lambda>i. Set32BitChunk i (rnd (n2 * 32 - numBits + (i - n2)))) [n2..<4] x3)"

definition hex_digit :: "nat \<Rightarrow> char" where
  "hex_digit n = (if n < 10 then char_of (48 + n) else char_of (55 + n))"

text \<open>\<open>CFormat("%08X")\<close> of a 32-bit value.\<close>

definition format_08X :: "u32 \<Rightarrow> string" where
  "format_08X w = map (\<lambda>i. hex_digit (unat (drop_bit (28 - 4 * i) w AND 15))) [0..<8]"

definition ToHexString :: "CUInt128 \<Rightarrow> string" where
  "ToHexString x = concat (map (\<lambda>i. format_08X (u32_data x i)) [3, 2, 1, 0])"

fun ToBinaryString_loop :: "CUInt128 \<Rightarrow> nat list \<Rightarrow> bool \<Rightarrow> string \<Rightarrow> string" where
  "ToBinaryString_loop x [] trim str = str"
| "ToBinaryString_loop x (i # is) trim str =
     (let b = GetBitNumber x i
      in if \<not> trim \<or> b \<noteq> 0
         then ToBinaryString_loop x is False (str @ (if b \<noteq> 0 then ''1'' else ''0''))
         else ToBinaryString_loop x is trim str)"

definition ToBinaryString :: "CUInt128 \<Rightarrow> bool \<Rightarrow> string" where
  "ToBinaryString x trim =
     (let str = ToBinaryString_loop x [0..<128] trim '''' in if length str = 0 then ''0'' else str)"

definition SetValueBE :: "host \<Rightarrow> u8 list \<Rightarrow> CUInt128 option" where
  "SetValueBE h valueBE =
     (case (RawPeekUInt32 h valueBE 0, RawPeekUInt32 h valueBE 4,
            RawPeekUInt32 h valueBE 8, RawPeekUInt32 h valueBE 12) of
        (Some w3, Some w2, Some w1, Some w0) \<Rightarrow>
          Some (CUInt128 (swap_on_le h 4 w0) (swap_on_le h 4 w1) (swap_on_le h 4 w2) (swap_on_le h 4 w3))
      | _ \<Rightarrow> None)"

definition ToByteArray :: "host \<Rightarrow> CUInt128 \<Rightarrow> u8 list \<Rightarrow> u8 list option" where
  "ToByteArray h x b =
     Option.bind (RawPokeUInt32 h 0 (swap_on_le h 4 (u32_data x 3)) b) (\<lambda>b.
     Option.bind (RawPokeUInt32 h 4 (swap_on_le h 4 (u32_data x 2)) b) (\<lambda>b.
     Option.bind (RawPokeUInt32 h 8 (swap_on_le h 4 (u32_data x 1)) b) (\<lambda>b.
     RawPokeUInt32 h 12 (swap_on_le h 4 (u32_data x 0)) b)))"

definition StoreCryptValue :: "host \<Rightarrow> CUInt128 \<Rightarrow> u8 list \<Rightarrow> u8 list option" where
  "StoreCryptValue h x buf =
     Option.bind (RawPokeUInt32 h 0 (swap_on_be h 4 (u32_data x 3)) buf) (\<lambda>buf.
     Option.bind (RawPokeUInt32 h 4 (swap_on_be h 4 (u32_data x 2)) buf) (\<lambda>buf.
     Option.bind (RawPokeUInt32 h 8 (swap_on_be h 4 (u32_data x 1)) buf) (\<lambda>buf.
     RawPokeUInt32 h 12 (swap_on_be h 4 (u32_data x 0)) buf)))"

fun CompareTo_loop :: "CUInt128 \<Rightarrow> CUInt128 \<Rightarrow> nat list \<Rightarrow> int" where
  "CompareTo_loop x y [] = 0"
| "CompareTo_loop x y (i # is) =
     (if u32_data x i < u32_data y i then - 1
      else if u32_data x i > u32_data y i then 1
      else CompareTo_loop x y is)"

definition CompareTo :: "CUInt128 \<Rightarrow> CUInt128 \<Rightarrow> int" where
  "CompareTo x other = CompareTo_loop x other [3, 2, 1, 0]"

definition CompareTo_uint32 :: "CUInt128 \<Rightarrow> u32 \<Rightarrow> int" where
  "CompareTo_uint32 x value =
     (if u32_data x 2 > 0 \<or> u32_data x 3 > 0 \<or> u32_data x 1 > 0 \<or> u32_data x 0 > value then 1
      else if u32_data x 0 < value then - 1 else 0)"

definition IsZero :: "CUInt128 \<Rightarrow> bool" where
  "IsZero x \<longleftrightarrow> u32_0 x OR u32_1 x OR u32_2 x OR u32_3 x = 0"

definition Add_step :: "CUInt128 \<Rightarrow> nat \<Rightarrow> int \<times> CUInt128 \<Rightarrow> int \<times> CUInt128" where
  "Add_step value i s =
     (let sum = fst s + uint (u32_data (snd s) i) + uint (u32_data value i)
      in (drop_bit 32 sum, set_u32_data i (word_of_int sum) (snd s)))"

definition Add :: "CUInt128 \<Rightarrow> CUInt128 \<Rightarrow> CUInt128" where
  "Add x value = (if IsZero value then x else snd (fold (Add_step value) [0, 1, 2, 3] (0, x)))"

definition Add_uint32 :: "CUInt128 \<Rightarrow> u32 \<Rightarrow> CUInt128" where
  "Add_uint32 x value = (if value \<noteq> 0 then Add x (CUInt128_uint32 value) else x)"

definition Subtract_step :: "CUInt128 \<Rightarrow> nat \<Rightarrow> int \<times> CUInt128 \<Rightarrow> int \<times> CUInt128" where
  "Subtract_step value i s =
     (let sum = fst s + uint (u32_data (snd s) i) - uint (u32_data value i)
      in (drop_bit 32 sum, set_u32_data i (word_of_int sum) (snd s)))"

definition Subtract :: "CUInt128 \<Rightarrow> CUInt128 \<Rightarrow> CUInt128" where
  "Subtract x value = (if IsZero value then x else snd (fold (Subtract_step value) [0, 1, 2, 3] (0, x)))"

definition Subtract_uint32 :: "CUInt128 \<Rightarrow> u32 \<Rightarrow> CUInt128" where
  "Subtract_uint32 x value = (if value \<noteq> 0 then Subtract x (CUInt128_uint32 value) else x)"

definition ShiftLeft_step :: "CUInt128 \<Rightarrow> nat \<Rightarrow> nat \<Rightarrow> int \<times> CUInt128 \<Rightarrow> int \<times> CUInt128" where
  "ShiftLeft_step x bits i s =
     (let shifted = fst s + push_bit (bits mod 32) (uint (u32_data x (3 - i)))
      in (drop_bit 32 shifted, set_u32_data (3 - i + bits div 32) (word_of_int shifted) (snd s)))"

definition ShiftLeft :: "nat \<Rightarrow> CUInt128 \<Rightarrow> CUInt128" where
  "ShiftLeft bits x =
     (if bits = 0 \<or> IsZero x then x
      else if bits > 127 then CUInt128_uint32 0
      else snd (fold (ShiftLeft_step x bits) (rev [bits div 32..<4]) (0, CUInt128 0 0 0 0)))"

definition XOR_op :: "CUInt128 \<Rightarrow> CUInt128 \<Rightarrow> CUInt128" where
  "XOR_op x value =
     CUInt128 (u32_0 x XOR u32_0 value) (u32_1 x XOR u32_1 value)
              (u32_2 x XOR u32_2 value) (u32_3 x XOR u32_3 value)"

subsection \<open>The number an identifier stands for\<close>

definition uval :: "CUInt128 \<Rightarrow> int" where
  "uval x = uint (u32_0 x) + 2 ^ 32 * (uint (u32_1 x) + 2 ^ 32 * (uint (u32_2 x) + 2 ^ 32 * uint (u32_3 x)))"

lemma uint_lt_32 [simp]: "uint (w::u32) < 4294967296"
  using unsigned_less [of w, where ?'a = int] by simp

lemma digit_split:
  assumes "0 < B" "0 \<le> M"
  shows "(s + B * t) mod (B * M) = s mod B + B * ((s div B + t) mod (M::int))"
  using assms by (simp add: zmod_zmult2_eq add.commute)

text \<open>A chain of four digits with carries is one sum modulo the fourth power of the base.\<close>

lemma carry_chain:
  fixes s0 s1 s2 s3 B :: int
  assumes "0 < B"
  shows "s0 mod B + B * ((s0 div B + s1) mod B + B * (((s0 div B + s1) div B + s2) mod B +
      B * ((((s0 div B + s1) div B + s2) div B + s3) mod B)))
    = (s0 + B * (s1 + B * (s2 + B * s3))) mod (B * (B * (B * B)))"
  using assms by (simp only: digit_split add.assoc [symmetric] mult_nonneg_nonneg less_imp_le)

lemma uval_bounds: "0 \<le> uval x" "uval x < 2 ^ 128"
proof -
  show "0 \<le> uval x" by (simp add: uval_def)
  have "uint w \<le> 4294967295" for w :: u32 using uint_lt_32 [of w] by linarith
  from this [of "u32_0 x"] this [of "u32_1 x"] this [of "u32_2 x"] this [of "u32_3 x"]
  show "uval x < 2 ^ 128" by (simp add: uval_def)
qed

lemma uval_mod [simp]: "uval x mod 340282366920938463463374607431768211456 = uval x"
  using uval_bounds [of x] by simp

lemma uval_inject: "uval x = uval y \<longleftrightarrow> x = y"
proof
  assume eq: "uval x = uval y"
  have d: "a = b \<and> r = s" if "uint a + 2 ^ 32 * r = uint b + 2 ^ 32 * s" for a b :: u32 and r s :: int
  proof -
    have "(uint a + 2 ^ 32 * r) mod 2 ^ 32 = uint a" "(uint b + 2 ^ 32 * s) mod 2 ^ 32 = uint b"
      by simp_all
    with that have "uint a = uint b" by metis
    with that show ?thesis by (simp add: word_uint_eq_iff)
  qed
  from d [OF eq [unfolded uval_def]] have "u32_0 x = u32_0 y"
    and e1: "uint (u32_1 x) + 2 ^ 32 * (uint (u32_2 x) + 2 ^ 32 * uint (u32_3 x)) =
       uint (u32_1 y) + 2 ^ 32 * (uint (u32_2 y) + 2 ^ 32 * uint (u32_3 y))"
    by blast+
  moreover from d [OF e1] have "u32_1 x = u32_1 y"
    and e2: "uint (u32_2 x) + 2 ^ 32 * uint (u32_3 x) = uint (u32_2 y) + 2 ^ 32 * uint (u32_3 y)"
    by blast+
  moreover from d [OF e2] have "u32_2 x = u32_2 y" "u32_3 x = u32_3 y"
    by (simp_all add: word_uint_eq_iff)
  ultimately show "x = y" by (simp add: CUInt128.expand)
qed simp

lemma IsZero_iff: "IsZero x \<longleftrightarrow> uval x = 0"
proof -
  have "IsZero x \<longleftrightarrow> x = CUInt128 0 0 0 0"
    by (cases x) (auto simp: IsZero_def bit_eq_iff bit_simps)
  also have "\<dots> \<longleftrightarrow> uval x = 0"
    using uval_inject [of x "CUInt128 0 0 0 0"] by (simp add: uval_def)
  finally show ?thesis .
qed

subsection \<open>Arithmetic\<close>

lemma fold_four: "fold f [0, 1, 2, 3] s = f 3 (f 2 (f 1 (f (0::nat) s)))"
  by simp

lemma uint_word_of_int_32 [simp]: "uint (word_of_int k :: u32) = k mod 4294967296"
  by (simp add: unsigned_of_int take_bit_eq_mod)

lemma drop_bit_32 [simp]: "drop_bit 32 (k::int) = k div 4294967296"
  by (simp add: drop_bit_eq_div)

definition carry_words :: "int \<Rightarrow> int \<Rightarrow> int \<Rightarrow> int \<Rightarrow> CUInt128" where
  "carry_words d0 d1 d2 d3 =
     (let s1 = drop_bit 32 d0 + d1; s2 = drop_bit 32 s1 + d2; s3 = drop_bit 32 s2 + d3
      in CUInt128 (word_of_int d0) (word_of_int s1) (word_of_int s2) (word_of_int s3))"

lemma uval_carry_words:
  "uval (carry_words d0 d1 d2 d3) =
     (d0 + 4294967296 * (d1 + 4294967296 * (d2 + 4294967296 * d3))) mod 2 ^ 128"
proof -
  have "(2 ^ 128 :: int) = 4294967296 * (4294967296 * (4294967296 * 4294967296))" "(2 ^ 32 :: int) = 4294967296"
    by simp_all
  then show ?thesis
    by (simp only: carry_words_def uval_def Let_def CUInt128.sel uint_word_of_int_32 drop_bit_32
        carry_chain [of 4294967296] zero_less_numeral)
qed

lemma Add_carry_words:
  assumes "\<not> IsZero y"
  shows "Add x y = carry_words (uint (u32_0 x) + uint (u32_0 y)) (uint (u32_1 x) + uint (u32_1 y))
    (uint (u32_2 x) + uint (u32_2 y)) (uint (u32_3 x) + uint (u32_3 y))"
  using assms
  by (cases x) (simp add: Add_def Add_step_def carry_words_def Let_def add.assoc)

lemma Subtract_carry_words:
  assumes "\<not> IsZero y"
  shows "Subtract x y = carry_words (uint (u32_0 x) - uint (u32_0 y)) (uint (u32_1 x) - uint (u32_1 y))
    (uint (u32_2 x) - uint (u32_2 y)) (uint (u32_3 x) - uint (u32_3 y))"
  using assms
  by (cases x) (simp add: Subtract_def Subtract_step_def carry_words_def Let_def add_diff_eq)

lemma uval_Add: "uval (Add x y) = (uval x + uval y) mod 2 ^ 128"
proof (cases "IsZero y")
  case True
  then show ?thesis by (simp add: Add_def IsZero_iff)
next
  case False
  have "uint (u32_0 x) + uint (u32_0 y) + 4294967296 * (uint (u32_1 x) + uint (u32_1 y) +
      4294967296 * (uint (u32_2 x) + uint (u32_2 y) + 4294967296 * (uint (u32_3 x) + uint (u32_3 y)))) =
    uval x + uval y"
    by (simp add: uval_def)
  then show ?thesis by (simp only: Add_carry_words [OF False] uval_carry_words)
qed

lemma uval_Subtract: "uval (Subtract x y) = (uval x - uval y) mod 2 ^ 128"
proof (cases "IsZero y")
  case True
  then show ?thesis by (simp add: Subtract_def IsZero_iff)
next
  case False
  have "uint (u32_0 x) - uint (u32_0 y) + 4294967296 * (uint (u32_1 x) - uint (u32_1 y) +
      4294967296 * (uint (u32_2 x) - uint (u32_2 y) + 4294967296 * (uint (u32_3 x) - uint (u32_3 y)))) =
    uval x - uval y"
    by (simp add: uval_def)
  then show ?thesis by (simp only: Subtract_carry_words [OF False] uval_carry_words)
qed

lemma uval_uint32: "uval (CUInt128_uint32 v) = uint v"
  by (simp add: CUInt128_uint32_def uval_def)

lemma uval_Add_uint32: "uval (Add_uint32 x v) = (uval x + uint v) mod 2 ^ 128"
  by (simp add: Add_uint32_def uval_Add uval_uint32)

lemma uval_Subtract_uint32: "uval (Subtract_uint32 x v) = (uval x - uint v) mod 2 ^ 128"
  by (simp add: Subtract_uint32_def uval_Subtract uval_uint32)

text \<open>The carries stay inside the 64-bit type.\<close>

lemma carry_range:
  "- 4294967296 \<le> (a::int) \<Longrightarrow> a < 8589934592 \<Longrightarrow> - 1 \<le> a div 4294967296 \<and> a div 4294967296 \<le> 1"
  by linarith

lemma add_sum_bounds:
  assumes "- 1 \<le> fst s" "fst s \<le> 1"
  shows "- 1 \<le> fst (Add_step y i s) \<and> fst (Add_step y i s) \<le> 1"
    "- 1 \<le> fst (Subtract_step y i s) \<and> fst (Subtract_step y i s) \<le> 1"
  using assms uint_lt_32 [of "u32_data (snd s) i"] uint_lt_32 [of "u32_data y i"]
    uint_nonnegative [of "u32_data (snd s) i"] uint_nonnegative [of "u32_data y i"]
  unfolding Add_step_def Subtract_step_def Let_def fst_conv drop_bit_32
  by (intro carry_range; linarith)+

lemma ShiftLeft_carry_words:
  assumes "\<not> IsZero x" "bits \<noteq> 0" "bits \<le> 127"
  defines "p \<equiv> \<lambda>w::u32. push_bit (bits mod 32) (uint w)"
  shows "ShiftLeft bits x =
    (if bits div 32 = 0 then carry_words (p (u32_0 x)) (p (u32_1 x)) (p (u32_2 x)) (p (u32_3 x))
     else if bits div 32 = 1 then carry_words 0 (p (u32_0 x)) (p (u32_1 x)) (p (u32_2 x))
     else if bits div 32 = 2 then carry_words 0 0 (p (u32_0 x)) (p (u32_1 x))
     else carry_words 0 0 0 (p (u32_0 x)))"
proof -
  have "bits div 32 < 4" using assms(3) by simp
  then consider "bits div 32 = 0" | "bits div 32 = 1" | "bits div 32 = 2" | "bits div 32 = 3" by linarith
  then show ?thesis
    unfolding ShiftLeft_def using assms(1-3)
    by cases (simp_all add: ShiftLeft_step_def carry_words_def Let_def p_def upt_rec)
qed

lemma uval_ShiftLeft: "uval (ShiftLeft bits x) = (uval x * 2 ^ bits) mod 2 ^ 128"
proof -
  consider (zero) "bits = 0 \<or> IsZero x" | (big) "\<not> (bits = 0 \<or> IsZero x)" "bits > 127"
    | (shift) "\<not> IsZero x" "bits \<noteq> 0" "bits \<le> 127" by linarith
  then show ?thesis
  proof cases
    case zero
    then show ?thesis by (auto simp: ShiftLeft_def IsZero_iff)
  next
    case big
    then have "(2::int) ^ bits = 2 ^ 128 * 2 ^ (bits - 128)"
      by (subst power_add [symmetric]) simp
    with big show ?thesis by (simp add: ShiftLeft_def uval_uint32)
  next
    case shift
    let ?r = "2 ^ (bits mod 32) :: int" and ?B = "4294967296 :: int"
    let ?a = "uint (u32_0 x)" and ?b = "uint (u32_1 x)" and ?c = "uint (u32_2 x)" and ?d = "uint (u32_3 x)"
    have drop_top: "(u + 2 ^ 128 * k) mod 2 ^ 128 = u mod (2 ^ 128 :: int)" for u k by simp
    have "(2::int) ^ bits = 2 ^ (32 * (bits div 32) + bits mod 32)" by simp
    then have pw: "(2::int) ^ bits = ?B ^ (bits div 32) * ?r"
      by (simp only: power_add power_mult) simp
    have "bits div 32 < 4" using shift(3) by simp
    then consider "bits div 32 = 0" | "bits div 32 = 1" | "bits div 32 = 2" | "bits div 32 = 3" by linarith
    then show ?thesis
    proof cases
      case 1
      have "?a * ?r + ?B * (?b * ?r + ?B * (?c * ?r + ?B * (?d * ?r))) = uval x * 2 ^ bits"
        by (simp add: pw 1 uval_def algebra_simps)
      then show ?thesis
        by (simp only: ShiftLeft_carry_words [OF shift] 1 uval_carry_words push_bit_eq_mult if_True simp_thms)
    next
      case 2
      have "0 + ?B * (?a * ?r + ?B * (?b * ?r + ?B * (?c * ?r))) + 2 ^ 128 * (?d * ?r) = uval x * 2 ^ bits"
        by (simp add: pw 2 uval_def algebra_simps)
      then show ?thesis
        using drop_top [of "0 + ?B * (?a * ?r + ?B * (?b * ?r + ?B * (?c * ?r)))" "?d * ?r"]
        by (simp add: ShiftLeft_carry_words [OF shift] 2 uval_carry_words push_bit_eq_mult del: add_0)
    next
      case 3
      have "?B * (?B * (?a * ?r + ?B * (?b * ?r))) + 2 ^ 128 * (?c * ?r + ?B * (?d * ?r)) = uval x * 2 ^ bits"
        by (simp add: pw 3 uval_def algebra_simps)
      then show ?thesis
        using drop_top [of "?B * (?B * (?a * ?r + ?B * (?b * ?r)))" "?c * ?r + ?B * (?d * ?r)"]
        by (simp add: ShiftLeft_carry_words [OF shift] 3 uval_carry_words push_bit_eq_mult)
    next
      case 4
      have "?B * (?B * (?B * (?a * ?r))) + 2 ^ 128 * (?b * ?r + ?B * (?c * ?r + ?B * (?d * ?r))) = uval x * 2 ^ bits"
        by (simp add: pw 4 uval_def algebra_simps)
      then show ?thesis
        using drop_top [of "?B * (?B * (?B * (?a * ?r)))" "?b * ?r + ?B * (?c * ?r + ?B * (?d * ?r))"]
        by (simp add: ShiftLeft_carry_words [OF shift] 4 uval_carry_words push_bit_eq_mult)
    qed
  qed
qed

subsection \<open>Bits and chunks\<close>

lemma bit_digit: "bit (uint (w::u32) + 4294967296 * r) k = (if k < 32 then bit w k else bit r (k - 32))"
proof -
  have "uint w + 4294967296 * r = concat_bit 32 (uint w) r"
    by (simp add: concat_bit_eq push_bit_eq_mult take_bit_eq_mod)
  then show ?thesis by (simp add: bit_concat_bit_iff bit_uint_iff)
qed

lemma bit_uval: "bit (uval x) k \<longleftrightarrow> k < 128 \<and> bit (u32_data x (k div 32)) (k mod 32)"
proof -
  have top: "bit (uint (u32_3 x)) j \<longleftrightarrow> j < 32 \<and> bit (u32_3 x) j" for j
    by (auto simp: bit_uint_iff dest: bit_imp_le_length)
  have q: "k div 32 = n \<longleftrightarrow> 32 * n \<le> k \<and> k < 32 * n + 32" for n
    using div_nat_eqI [of 32 n k] div_times_less_eq_dividend [of k 32] by auto
  have m: "32 * n \<le> k \<Longrightarrow> k < 32 * n + 32 \<Longrightarrow> k mod 32 = k - 32 * n" for n
    using q [of n] by (simp add: minus_mult_div_eq_mod [symmetric])
  have p32: "(2::int) ^ 32 = 4294967296" by simp
  consider "k < 32" | "32 \<le> k" "k < 64" | "64 \<le> k" "k < 96" | "96 \<le> k" "k < 128" | "128 \<le> k" by linarith
  then show ?thesis
    unfolding uval_def p32 bit_digit
    by cases (simp_all add: top q less_diff_conv2 m [of 0] m [of 1] m [of 2] m [of 3])
qed

lemma uval_eqI: "(\<And>k. k < 128 \<Longrightarrow> bit (uval x) k = bit (uval y) k) \<Longrightarrow> x = y"
  by (subst uval_inject [symmetric], rule bit_eqI) (metis bit_uval)

lemma GetBitNumber_bit: "GetBitNumber x b = (if b \<le> 127 then of_bool (bit (uval x) (127 - b)) else 0)"
proof -
  have "drop_bit n w AND 1 = of_bool (bit w n)" for n and w :: u32
    by (simp add: bit_iff_odd_drop_bit and_one_eq mod_2_eq_odd)
  then show ?thesis by (auto simp: GetBitNumber_def bit_uval simp del: u32_data.simps)
qed

lemma u32_data_set [simp]:
  "i < 4 \<Longrightarrow> j < 4 \<Longrightarrow> u32_data (set_u32_data i v x) j = (if i = j then v else u32_data x j)"
  by (cases x) auto

lemma bit_SetBitNumber:
  "bit (uval (SetBitNumber b v x)) k \<longleftrightarrow>
     (if b \<le> 127 \<and> k = 127 - b then v \<noteq> 0 else bit (uval x) k)"
proof (cases "b \<le> 127 \<and> k < 128")
  case True
  let ?n = "127 - b"
  have ix: "?n div 32 < 4" "k div 32 < 4" using True by (simp_all add: div_less_iff_less_mult)
  have same: "k = ?n \<longleftrightarrow> k div 32 = ?n div 32 \<and> k mod 32 = ?n mod 32" by (metis div_mult_mod_eq)
  have one: "bit (2 ^ m :: u32) j \<longleftrightarrow> j = m \<and> j < 32" for m j
    by (auto simp: bit_simps)
  have m: "k mod 32 < 32" "?n mod 32 < 32" by simp_all
  show ?thesis
  proof (cases "k div 32 = ?n div 32")
    case c: True
    show ?thesis using True ix same c m
      by (cases "v = 0") (simp_all add: SetBitNumber_def Let_def bit_uval bit_or_iff bit_and_iff bit_not_iff one
        del: u32_data.simps)
  next
    case False
    then have "k \<noteq> ?n" by auto
    with False True ix show ?thesis
      by (simp add: SetBitNumber_def Let_def bit_uval del: u32_data.simps)
  qed
next
  case False
  then show ?thesis by (auto simp: SetBitNumber_def bit_uval)
qed

lemma bit_Set32BitChunk:
  "bit (uval (Set32BitChunk c v x)) k \<longleftrightarrow>
     (if c < 4 \<and> k div 32 = 3 - c then bit v (k mod 32) else bit (uval x) k)"
proof (cases "k < 128")
  case True
  then have "k div 32 < 4" by (simp add: div_less_iff_less_mult)
  with True show ?thesis
    by (auto simp: Set32BitChunk_def bit_uval simp del: u32_data.simps)
next
  case False
  then have "4 \<le> k div 32" by (simp add: less_eq_div_iff_mult_less_eq)
  with False show ?thesis by (auto simp: bit_uval)
qed

lemma bit_Get32BitChunk:
  "c < 4 \<Longrightarrow> j < 32 \<Longrightarrow> bit (Get32BitChunk x c) j \<longleftrightarrow> bit (uval x) (32 * (3 - c) + j)"
  by (auto simp: Get32BitChunk_def bit_uval simp del: u32_data.simps)

lemma bit_XOR: "bit (uval (XOR_op x y)) k \<longleftrightarrow> bit (uval x) k \<noteq> bit (uval y) k"
  by (auto simp: XOR_op_def bit_uval bit_simps)

lemma uval_XOR: "uval (XOR_op x y) = uval x XOR uval y"
  by (rule bit_eqI) (simp add: bit_XOR bit_xor_iff)

subsection \<open>Order\<close>

lemma digit_less:
  "uint (a::u32) + 4294967296 * r < uint (b::u32) + 4294967296 * s \<longleftrightarrow> r < s \<or> r = s \<and> a < b"
proof -
  note b = uint_lt_32 [of a] uint_lt_32 [of b] uint_nonnegative [of a] uint_nonnegative [of b]
  consider "r < s" | "r = s" | "s < r" by linarith
  then show ?thesis unfolding word_less_def using b by cases linarith+
qed

lemma CompareTo_less: "CompareTo x y < 0 \<longleftrightarrow> uval x < uval y"
proof -
  have p32: "(2::int) ^ 32 = 4294967296" by simp
  have top: "uint (u32_3 x) < uint (u32_3 y) \<longleftrightarrow> u32_3 x < u32_3 y" by (simp add: word_less_def)
  have eq: "uint a + 4294967296 * r = uint b + 4294967296 * s \<longleftrightarrow> r = s \<and> a = b" for a b :: u32 and r s
    using digit_less [of a r b s] digit_less [of b s a r] by (auto simp: word_uint_eq_iff)
  show ?thesis
    unfolding uval_def p32 digit_less eq top
    by (auto simp: CompareTo_def word_uint_eq_iff word_less_def)
qed

lemma CompareTo_swap: "CompareTo y x = - CompareTo x y"
  by (auto simp: CompareTo_def)

lemma CompareTo_sgn: "CompareTo x y = sgn (uval x - uval y)"
proof -
  have "CompareTo x y \<in> {- 1, 0, 1}" by (simp add: CompareTo_def)
  then show ?thesis
    using CompareTo_less [of x y] CompareTo_less [of y x] CompareTo_swap [of x y] by auto
qed

lemma CompareTo_uint32_sgn: "CompareTo_uint32 x v = sgn (uval x - uint v)"
proof -
  have "CompareTo_uint32 x v = CompareTo x (CUInt128_uint32 v)"
    by (auto simp: CompareTo_uint32_def CompareTo_def CUInt128_uint32_def word_gt_0)
  then show ?thesis by (simp add: CompareTo_sgn uval_uint32)
qed

instantiation CUInt128 :: linorder
begin

definition less_eq_CUInt128 :: "CUInt128 \<Rightarrow> CUInt128 \<Rightarrow> bool" where
  "less_eq_CUInt128 x y \<longleftrightarrow> CompareTo x y \<le> 0"

definition less_CUInt128 :: "CUInt128 \<Rightarrow> CUInt128 \<Rightarrow> bool" where
  "less_CUInt128 x y \<longleftrightarrow> CompareTo x y < 0"

instance
proof
  fix x y z :: CUInt128
  have le: "a \<le> b \<longleftrightarrow> uval a \<le> uval b" for a b :: CUInt128
    by (auto simp: less_eq_CUInt128_def CompareTo_sgn sgn_if)
  have lt: "a < b \<longleftrightarrow> uval a < uval b" for a b :: CUInt128
    by (simp add: less_CUInt128_def CompareTo_less)
  show "(x < y) = (x \<le> y \<and> \<not> y \<le> x)" "x \<le> x" "x \<le> y \<or> y \<le> x" by (auto simp: le lt)
  show "x \<le> y \<Longrightarrow> y \<le> z \<Longrightarrow> x \<le> z" by (simp add: le)
  show "x \<le> y \<Longrightarrow> y \<le> x \<Longrightarrow> x = y" by (simp add: le flip: uval_inject)
qed

end

lemma CUInt128_le_iff: "x \<le> y \<longleftrightarrow> uval x \<le> uval y"
  by (auto simp: less_eq_CUInt128_def CompareTo_sgn sgn_if)

lemma CUInt128_less_iff: "x < y \<longleftrightarrow> uval x < uval y"
  by (simp add: less_CUInt128_def CompareTo_less)

subsection \<open>A random identifier with a given prefix\<close>

lemma bit_fold_SetBitNumber:
  "bit (uval (fold (\<lambda>i. SetBitNumber i (f i)) is x)) k \<longleftrightarrow>
     (if k < 128 \<and> 127 - k \<in> set is then f (127 - k) \<noteq> 0 else bit (uval x) k)"
proof (induction "is" arbitrary: x)
  case (Cons i "is")
  have "i \<le> 127 \<and> k = 127 - i \<longleftrightarrow> k < 128 \<and> i = 127 - k" by auto
  with Cons show ?case by (auto simp: bit_SetBitNumber)
qed simp

lemma bit_fold_Set32BitChunk:
  "bit (uval (fold (\<lambda>i. Set32BitChunk i (f i)) is x)) k \<longleftrightarrow>
     (if k < 128 \<and> 3 - k div 32 \<in> set is then bit (f (3 - k div 32)) (k mod 32) else bit (uval x) k)"
proof (induction "is" arbitrary: x)
  case (Cons i "is")
  have "i < 4 \<and> k div 32 = 3 - i \<longleftrightarrow> k < 128 \<and> i = 3 - k div 32"
    by (auto simp: div_less_iff_less_mult less_eq_div_iff_mult_less_eq)
  with Cons show ?case by (auto simp: bit_Set32BitChunk)
qed simp

lemma prefix_bits:
  assumes "n \<le> 128" "k < 128"
  shows "bit (uval (CUInt128_prefix rnd x0 v n)) k \<longleftrightarrow>
    (if 127 - k < n then bit (uval v) k
     else if 127 - k < (n + 31) div 32 * 32 then odd (unat (rnd (127 - k - n)))
     else bit (rnd ((n + 31) div 32 * 32 - n + (3 - k div 32 - (n + 31) div 32))) (k mod 32))"
proof -
  let ?q = "(n + 31) div 32"
  have flip: "3 - k div 32 = (127 - k) div 32"
  proof -
    have "127 - k = 32 * (3 - k div 32) + (31 - k mod 32)"
      using assms(2) div_mult_mod_eq [of k 32] mod_less_divisor [of 32 k] by linarith
    then have "(127 - k) div 32 = (32 * (3 - k div 32) + (31 - k mod 32)) div 32" by simp
    also have "\<dots> = 3 - k div 32" by simp
    finally show ?thesis by simp
  qed
  have last: "3 - k div 32 \<in> set [?q..<4] \<longleftrightarrow> \<not> 127 - k < ?q * 32"
    unfolding flip using assms(2) by (auto simp: less_eq_div_iff_mult_less_eq div_less_iff_less_mult)
  have first: "3 - k div 32 \<in> set [0..<n div 32] \<longleftrightarrow> 127 - k < n div 32 * 32"
    unfolding flip by (simp add: div_less_iff_less_mult)
  have le: "n div 32 * 32 \<le> n" "n \<le> ?q * 32" by linarith+
  have chunk: "bit (Get32BitChunk v (3 - k div 32)) (k mod 32) \<longleftrightarrow> bit (uval v) k"
    using assms(2) by (subst bit_Get32BitChunk) (auto simp: div_less_iff_less_mult)
  have getbit: "GetBitNumber v (127 - k) \<noteq> 0 \<longleftrightarrow> bit (uval v) k"
    using assms(2) by (auto simp: GetBitNumber_bit)
  show ?thesis
    unfolding CUInt128_prefix_def Let_def bit_fold_SetBitNumber bit_fold_Set32BitChunk last first
    using assms(2) le chunk getbit by (auto simp: odd_iff_mod_2_eq_one)
qed

subsection \<open>Text\<close>

definition digits_value :: "nat \<Rightarrow> string \<Rightarrow> int" where
  "digits_value base = foldl (\<lambda>v c. int base * v + int (if of_char c < (58::nat) then of_char c - 48 else of_char c - 55)) 0"

lemma digits_value_simps [simp]:
  "digits_value b [] = 0"
  "digits_value b (s @ [c]) = int b * digits_value b s + int (if of_char c < (58::nat) then of_char c - 48 else of_char c - 55)"
  by (simp_all add: digits_value_def)

lemma ToBinaryString_loop_value:
  assumes "j \<le> 128" "digits_value 2 str = drop_bit (128 - j) (uval x)" "trim \<longrightarrow> str = []"
  shows "digits_value 2 (ToBinaryString_loop x [j..<128] trim str) = uval x"
  using assms
proof (induction "128 - j" arbitrary: j trim str)
  case 0
  then show ?case by simp
next
  case (Suc n)
  then have j: "j < 128" by simp
  let ?b = "bit (uval x) (127 - j)"
  have g: "GetBitNumber x j = of_bool ?b" using j by (simp add: GetBitNumber_bit)
  have step: "drop_bit (128 - Suc j) (uval x) = 2 * drop_bit (128 - j) (uval x) + of_bool ?b"
  proof -
    have "128 - j = Suc (127 - j)" using j by simp
    then have "drop_bit (128 - j) (uval x) = drop_bit (127 - j) (uval x) div 2"
      by (simp add: drop_bit_Suc drop_bit_half)
    moreover have "of_bool ?b = drop_bit (127 - j) (uval x) mod 2"
      by (simp add: bit_iff_odd_drop_bit mod_2_eq_odd)
    ultimately show ?thesis by simp
  qed
  have n: "n = 128 - Suc j" using Suc.hyps(2) by simp
  have "[j..<128] = j # [Suc j..<128]" using j by (simp add: upt_conv_Cons)
  then show ?case
    using Suc.hyps(1) [OF n, of "str @ (if ?b then ''1'' else ''0'')" False]
      Suc.hyps(1) [OF n, of str trim] Suc.prems step j
    by (auto simp: g Let_def)
qed

lemma ToBinaryString_value: "digits_value 2 (ToBinaryString x trim) = uval x"
proof -
  have "drop_bit 128 (uval x) = 0"
    using uval_bounds [of x] by (simp add: drop_bit_eq_div)
  then have "digits_value 2 (ToBinaryString_loop x [0..<128] trim []) = uval x"
    by (intro ToBinaryString_loop_value) simp_all
  then show ?thesis by (auto simp: ToBinaryString_def Let_def digits_value_def)
qed

lemma digits_value_append:
  "digits_value b (s @ t) = int b ^ length t * digits_value b s + digits_value b t"
proof (induction t rule: rev_induct)
  case (snoc c t)
  have "digits_value b (s @ t @ [c]) = digits_value b ((s @ t) @ [c])" by simp
  also have "\<dots> = int b ^ length (t @ [c]) * digits_value b s + digits_value b (t @ [c])"
    by (simp only: digits_value_simps snoc) (simp add: algebra_simps)
  finally show ?case .
qed simp

lemma hex_digit_value:
  "n < 16 \<Longrightarrow> (if of_char (hex_digit n) < (58::nat) then of_char (hex_digit n) - 48 else of_char (hex_digit n) - 55) = n"
  by (auto simp: hex_digit_def)

lemma format_08X_length [simp]: "length (format_08X w) = 8"
  by (simp add: format_08X_def)

lemma hex_prefix_value:
  assumes "j \<le> 8"
  shows "digits_value 16 (map (\<lambda>i. hex_digit (unat (drop_bit (28 - 4 * i) w AND 15))) [0..<j]) =
    int (unat (w::u32) div 16 ^ (8 - j))"
  using assms
proof (induction j)
  case 0
  have "unat w div 4294967296 = 0" by simp
  then show ?case by simp
next
  case (Suc j)
  let ?d = "unat (drop_bit (28 - 4 * j) w AND 15)"
  have "drop_bit (28 - 4 * j) w AND 15 = take_bit 4 (drop_bit (28 - 4 * j) w)"
    by (simp only: take_bit_eq_mask mask_eq_exp_minus_1) simp
  then have "?d = unat w div 2 ^ (28 - 4 * j) mod 16"
    by (simp only: unsigned_take_bit_eq unsigned_drop_bit_eq) (simp add: drop_bit_eq_div take_bit_eq_mod)
  moreover have "(2::nat) ^ (28 - 4 * j) = 16 ^ (8 - Suc j)"
  proof -
    have "28 - 4 * j = 4 * (8 - Suc j)" using Suc.prems by simp
    then show ?thesis by (simp add: power_mult)
  qed
  ultimately have d: "?d = unat w div 16 ^ (8 - Suc j) mod 16" by simp
  have lt: "?d < 16" unfolding d by simp
  have "8 - j = Suc (8 - Suc j)" using Suc.prems by simp
  then have "unat w div 16 ^ (8 - j) = unat w div 16 ^ (8 - Suc j) div 16"
    by (simp add: div_mult2_eq [symmetric] mult.commute)
  then have "16 * (unat w div 16 ^ (8 - j)) + ?d = unat w div 16 ^ (8 - Suc j)"
    unfolding d by simp
  then have "int 16 * int (unat w div 16 ^ (8 - j)) + int ?d = int (unat w div 16 ^ (8 - Suc j))"
    by (metis of_nat_add of_nat_mult)
  then show ?case
    using Suc hex_digit_value [OF lt] by (simp del: of_nat_numeral)
qed

lemma format_08X_value: "digits_value 16 (format_08X w) = uint w"
  using hex_prefix_value [of 8 w] by (simp add: format_08X_def)

lemma ToHexString_value: "digits_value 16 (ToHexString x) = uval x" "length (ToHexString x) = 32"
  by (simp_all add: ToHexString_def digits_value_append format_08X_value uval_def)

subsection \<open>Bytes\<close>

lemma RawPeek_swap:
  "map_option (swap_on_le h 4) (RawPeekUInt32 h p off) =
     (if off + 4 \<le> length p then Some (le_join (rev (take 4 (drop off p)))) else None)"
  by (simp add: RawPeekUInt32_def raw_peek_def swap_on_le_join)

lemma SetValueBE_eq:
  assumes "16 \<le> length p"
  shows "SetValueBE h p = Some (CUInt128 (le_join (rev (take 4 (drop 12 p)))) (le_join (rev (take 4 (drop 8 p))))
      (le_join (rev (take 4 (drop 4 p)))) (le_join (rev (take 4 p))))"
  using assms by (simp add: SetValueBE_def RawPeekUInt32_def raw_peek_def swap_on_le_join)

lemma ToByteArray_eq:
  assumes "length b = 16"
  shows "ToByteArray h x b = Some (rev (le_split 4 (u32_3 x)) @ rev (le_split 4 (u32_2 x)) @
      rev (le_split 4 (u32_1 x)) @ rev (le_split 4 (u32_0 x)))"
  using assms by (simp add: ToByteArray_def RawPokeUInt32_def raw_poke_def swap_on_le_split)

lemma StoreCryptValue_eq:
  assumes "length b = 16"
  shows "StoreCryptValue h x b = Some (le_split 4 (u32_3 x) @ le_split 4 (u32_2 x) @
      le_split 4 (u32_1 x) @ le_split 4 (u32_0 x))"
  using assms by (simp add: StoreCryptValue_def RawPokeUInt32_def raw_poke_def swap_on_be_split)

lemma SetValueBE_ToByteArray:
  "length b = 16 \<Longrightarrow> Option.bind (ToByteArray h x b) (SetValueBE h') = Some x"
  by (cases x) (simp add: ToByteArray_eq SetValueBE_eq)

lemma ToByteArray_SetValueBE:
  assumes "length p = 16" "length b = 16"
  shows "Option.bind (SetValueBE h p) (\<lambda>x. ToByteArray h' x b) = Some p"
proof -
  have "p = take 4 p @ take 4 (drop 4 p) @ take 4 (drop 8 p) @ take 4 (drop 12 p)"
    using assms(1) append_take_drop_id [of 4 p] append_take_drop_id [of 4 "drop 4 p"]
      append_take_drop_id [of 4 "drop 8 p"] by simp
  then show ?thesis using assms by (simp add: SetValueBE_eq ToByteArray_eq)
qed

subsection \<open>The exclusive-or distance\<close>

text \<open>What the routing table relies on when it keys contacts by their distance to a target.\<close>

locale key_distance =
  fixes dist :: "'k \<Rightarrow> 'k \<Rightarrow> 'd::linorder" and origin :: 'd
  assumes dist_self: "dist x x = origin"
    and dist_sym: "dist x y = dist y x"
    and dist_inj: "dist x y = dist x z \<Longrightarrow> y = z"
    and origin_least: "origin \<le> d"
begin

lemma dist_origin_iff: "dist x y = origin \<longleftrightarrow> x = y"
  using dist_self dist_inj by metis

lemma inj_on_dist: "inj_on (dist x) A"
  by (rule inj_onI) (rule dist_inj)

lemma closest_unique:
  assumes "finite A" "A \<noteq> {}"
  shows "\<exists>!y. y \<in> A \<and> (\<forall>z \<in> A. dist x y \<le> dist x z)"
proof -
  have "Min (dist x ` A) \<in> dist x ` A" using assms by simp
  then obtain y where "y \<in> A" "Min (dist x ` A) = dist x y" by blast
  with assms have "y \<in> A \<and> (\<forall>z \<in> A. dist x y \<le> dist x z)" by (metis Min_le finite_imageI imageI)
  then show ?thesis by (metis dist_inj order_antisym)
qed

end

interpretation kad: key_distance XOR_op "CUInt128 0 0 0 0"
proof
  fix x y z :: CUInt128
  show "XOR_op x x = CUInt128 0 0 0 0" by (simp add: XOR_op_def)
  show "XOR_op x y = XOR_op y x" by (simp add: XOR_op_def xor.commute)
  show "XOR_op x y = XOR_op x z \<Longrightarrow> y = z"
    by (rule uval_eqI) (metis bit_XOR)
  show "CUInt128 0 0 0 0 \<le> x"
    using uval_bounds(1) [of x] by (simp add: CUInt128_le_iff uval_def [of "CUInt128 0 0 0 0"])
qed

subsection \<open>Properties\<close>

text \<open>C22: addition and subtraction with carries over four words, the left shift through a
  64-bit accumulator and the 32-bit variants are arithmetic modulo \<open>2 ^ 128\<close>.\<close>

theorem arithmetic_mod_2_128:
  "uval (Add x y) = (uval x + uval y) mod 2 ^ 128 \<and>
   uval (Subtract x y) = (uval x - uval y) mod 2 ^ 128 \<and>
   uval (ShiftLeft bits x) = (uval x * 2 ^ bits) mod 2 ^ 128 \<and>
   uval (Add_uint32 x v) = (uval x + uint v) mod 2 ^ 128 \<and>
   uval (Subtract_uint32 x v) = (uval x - uint v) mod 2 ^ 128"
  by (intro conjI uval_Add uval_Subtract uval_ShiftLeft uval_Add_uint32 uval_Subtract_uint32)

text \<open>\<open>CompareTo\<close>, on which all six comparison operators rest, is the order of the numbers,
  against another identifier and against a 32-bit value; equality of the numbers is equality
  of the identifiers.\<close>

theorem CompareTo_orders_numbers:
  "CompareTo x y = sgn (uval x - uval y) \<and> CompareTo_uint32 x v = sgn (uval x - uint v) \<and>
   (CompareTo x y = 0 \<longleftrightarrow> x = y)"
  by (simp add: CompareTo_sgn CompareTo_uint32_sgn sgn_eq_0_iff uval_inject)

text \<open>The constructor for random lookups produces an identifier that agrees with the given
  one on the first \<open>numBits\<close> bits, and none of its bits is left uninitialised.\<close>

theorem prefix_constructor_keeps_prefix:
  assumes "numBits \<le> 128"
  shows "(\<forall>i < numBits. GetBitNumber (CUInt128_prefix rnd x0 value numBits) i = GetBitNumber value i) \<and>
    CUInt128_prefix rnd x0 value numBits = CUInt128_prefix rnd x1 value numBits"
proof
  show "\<forall>i < numBits. GetBitNumber (CUInt128_prefix rnd x0 value numBits) i = GetBitNumber value i"
    using assms by (auto simp: GetBitNumber_bit prefix_bits)
  show "CUInt128_prefix rnd x0 value numBits = CUInt128_prefix rnd x1 value numBits"
    by (rule uval_eqI) (simp add: prefix_bits [OF assms])
qed

theorem prefix_constructor_keeps_prefix_witness:
  "GetBitNumber (CUInt128_prefix (\<lambda>k. of_nat (7 * k)) (CUInt128 9 9 9 9) (CUInt128 0 0 0 0x80000000) 40) 0 = 1"
  using prefix_constructor_keeps_prefix [of 40 "\<lambda>k. of_nat (7 * k)" "CUInt128 9 9 9 9" "CUInt128 0 0 0 0x80000000" "CUInt128 9 9 9 9"]
    GetBitNumber_def [of "CUInt128 0 0 0 0x80000000" 0]
  by simp

text \<open>An identifier written as 16 big-endian bytes on one host and read on another is the
  same identifier, and every 16-byte string is read and written back unchanged.\<close>

theorem byte_array_round_trip:
  assumes "length b = 16" "length p = 16"
  shows "Option.bind (ToByteArray h x b) (SetValueBE h') = Some x \<and>
    Option.bind (SetValueBE h p) (\<lambda>y. ToByteArray h' y b) = Some p"
  using SetValueBE_ToByteArray [OF assms(1)] ToByteArray_SetValueBE [OF assms(2,1)] by simp

theorem byte_array_round_trip_witness:
  "Option.bind (ToByteArray BigEndian (CUInt128 1 2 3 4) (replicate 16 0)) (SetValueBE LittleEndian) = Some (CUInt128 1 2 3 4)"
  using byte_array_round_trip [of "replicate 16 0" "replicate 16 0" BigEndian "CUInt128 1 2 3 4" LittleEndian] by simp

text \<open>The hexadecimal and binary texts of an identifier, trimmed or not, are numerals of its
  value.\<close>

theorem text_denotes_value:
  "digits_value 16 (ToHexString x) = uval x \<and> length (ToHexString x) = 32 \<and>
   digits_value 2 (ToBinaryString x trim) = uval x"
  by (simp add: ToHexString_value ToBinaryString_value)

text \<open>The exclusive-or of identifiers is the distance Kademlia needs: it is zero only
  between equal identifiers, symmetric, and for every target and finite set of identifiers
  exactly one identifier is closest.\<close>

theorem xor_distance_unique_closest:
  assumes "finite A" "A \<noteq> {}"
  shows "uval (XOR_op x y) = uval x XOR uval y \<and> (IsZero (XOR_op x y) \<longleftrightarrow> x = y) \<and>
    XOR_op x y = XOR_op y x \<and>
    (\<exists>!c. c \<in> A \<and> (\<forall>z \<in> A. XOR_op x c \<le> XOR_op x z))"
proof -
  have "IsZero d \<longleftrightarrow> d = CUInt128 0 0 0 0" for d
    using uval_inject [of d "CUInt128 0 0 0 0"] by (simp add: IsZero_iff uval_def [of "CUInt128 0 0 0 0"])
  then show ?thesis
    using kad.dist_origin_iff kad.dist_sym kad.closest_unique [OF assms] uval_XOR by blast
qed

theorem xor_distance_unique_closest_witness:
  "\<exists>!c. c \<in> {CUInt128 1 0 0 0, CUInt128 2 0 0 0} \<and>
     (\<forall>z \<in> {CUInt128 1 0 0 0, CUInt128 2 0 0 0}. XOR_op (CUInt128 3 0 0 0) c \<le> XOR_op (CUInt128 3 0 0 0) z)"
  by (rule xor_distance_unique_closest [THEN conjunct2, THEN conjunct2, THEN conjunct2]) simp_all

end
