(* ===== verification/StdMap.thy ===== *)
theory StdMap
  imports Prelude
begin

text \<open>
  The ordered containers of the C++ standard library that the sources use, as association
  lists in ascending key order: \<open>find\<close>, \<open>insert\<close> (which keeps an existing entry),
  \<open>operator[]\<close> assignment, \<open>erase\<close>, \<open>lower_bound\<close> and \<open>upper_bound\<close> (the
  rest of the map from an iterator on). The locale \<open>ordered_map\<close> is the contract that the
  component proofs use; it is interpreted on these functions, and its derived laws are proved
  once for every client.
\<close>

type_synonym ('k, 'v) std_map = "('k \<times> 'v) list"

definition map_wf :: "('k::linorder, 'v) std_map \<Rightarrow> bool" where
  "map_wf m \<longleftrightarrow> sorted_wrt (<) (map fst m)"

definition std_find :: "('k, 'v) std_map \<Rightarrow> 'k \<Rightarrow> 'v option" where
  "std_find m k = map_of m k"

fun std_insert :: "'k::linorder \<Rightarrow> 'v \<Rightarrow> ('k, 'v) std_map \<Rightarrow> ('k, 'v) std_map" where
  "std_insert k v [] = [(k, v)]"
| "std_insert k v ((a, b) # m) =
     (if k < a then (k, v) # (a, b) # m
      else if k = a then (a, b) # m
      else (a, b) # std_insert k v m)"

fun std_set :: "'k::linorder \<Rightarrow> 'v \<Rightarrow> ('k, 'v) std_map \<Rightarrow> ('k, 'v) std_map" where
  "std_set k v [] = [(k, v)]"
| "std_set k v ((a, b) # m) =
     (if k < a then (k, v) # (a, b) # m
      else if k = a then (k, v) # m
      else (a, b) # std_set k v m)"

fun std_erase :: "'k \<Rightarrow> ('k, 'v) std_map \<Rightarrow> ('k, 'v) std_map" where
  "std_erase k [] = []"
| "std_erase k ((a, b) # m) = (if k = a then m else (a, b) # std_erase k m)"

definition std_lower_bound :: "'k::linorder \<Rightarrow> ('k, 'v) std_map \<Rightarrow> ('k, 'v) std_map" where
  "std_lower_bound k m = dropWhile (\<lambda>p. fst p < k) m"

definition std_upper_bound :: "'k::linorder \<Rightarrow> ('k, 'v) std_map \<Rightarrow> ('k, 'v) std_map" where
  "std_upper_bound k m = dropWhile (\<lambda>p. fst p \<le> k) m"

subsection \<open>Structure lemmas\<close>

lemma map_wf_Nil [simp]: "map_wf []"
  by (simp add: map_wf_def)

lemma map_wf_Cons [simp]: "map_wf ((a, b) # m) \<longleftrightarrow> (\<forall>p \<in> set m. a < fst p) \<and> map_wf m"
  by (auto simp: map_wf_def)

lemma map_wf_append:
  "map_wf (xs @ ys) \<longleftrightarrow> map_wf xs \<and> map_wf ys \<and> (\<forall>p \<in> set xs. \<forall>q \<in> set ys. fst p < fst q)"
  by (auto simp: map_wf_def sorted_wrt_append)

lemma map_wf_distinct: "map_wf m \<Longrightarrow> distinct (map fst m)"
  by (auto simp: map_wf_def strict_sorted_iff)

lemma std_insert_append:
  "(\<And>p. p \<in> set xs \<Longrightarrow> fst p < k) \<Longrightarrow> std_insert k v (xs @ ys) = xs @ std_insert k v ys"
proof (induction xs)
  case (Cons p xs)
  then have "fst p < k" by simp
  with Cons show ?case by (cases p) auto
qed simp

lemma std_insert_before:
  "(\<And>p. p \<in> set ys \<Longrightarrow> k < fst p) \<Longrightarrow> std_insert k v ys = (k, v) # ys"
proof (cases ys)
  case (Cons p zs)
  assume "\<And>p. p \<in> set ys \<Longrightarrow> k < fst p"
  with Cons have "k < fst p" by simp
  with Cons show ?thesis by (cases p) simp
qed simp

lemma std_insert_between:
  assumes "\<And>p. p \<in> set xs \<Longrightarrow> fst p < k" and "\<And>p. p \<in> set ys \<Longrightarrow> k < fst p"
  shows "std_insert k v (xs @ ys) = xs @ (k, v) # ys"
  using assms by (simp add: std_insert_append std_insert_before)

lemma std_erase_append:
  "(\<And>p. p \<in> set xs \<Longrightarrow> fst p \<noteq> k) \<Longrightarrow> std_erase k (xs @ (k, v) # ys) = xs @ ys"
proof (induction xs)
  case (Cons p xs)
  then have "fst p \<noteq> k" by simp
  with Cons show ?case by (cases p) auto
qed simp

lemma std_set_append:
  "(\<And>p. p \<in> set xs \<Longrightarrow> fst p < k) \<Longrightarrow> std_set k v (xs @ ys) = xs @ std_set k v ys"
proof (induction xs)
  case (Cons p xs)
  then have "fst p < k" by simp
  with Cons show ?case by (cases p) auto
qed simp

lemma std_set_at:
  "(\<And>p. p \<in> set xs \<Longrightarrow> fst p < k) \<Longrightarrow> std_set k v (xs @ (k, w) # ys) = xs @ (k, v) # ys"
  by (simp add: std_set_append)

lemma std_lower_bound_split:
  assumes "map_wf m"
  obtains pre where "m = pre @ std_lower_bound k m" "\<And>p. p \<in> set pre \<Longrightarrow> fst p < k"
    "\<And>p. p \<in> set (std_lower_bound k m) \<Longrightarrow> k \<le> fst p"
proof -
  have after: "k \<le> fst p" if "p \<in> set (std_lower_bound k m)" for p
    using assms that unfolding std_lower_bound_def
    by (induction m) (force split: if_splits)+
  show thesis
    by (rule that [of "takeWhile (\<lambda>p. fst p < k) m"])
       (use after in \<open>auto simp: std_lower_bound_def dest: set_takeWhileD\<close>)
qed

lemma std_upper_bound_split:
  assumes "map_wf m"
  obtains pre where "m = pre @ std_upper_bound k m" "\<And>p. p \<in> set pre \<Longrightarrow> fst p \<le> k"
    "\<And>p. p \<in> set (std_upper_bound k m) \<Longrightarrow> k < fst p"
proof -
  have after: "k < fst p" if "p \<in> set (std_upper_bound k m)" for p
    using assms that unfolding std_upper_bound_def
    by (induction m) (force split: if_splits)+
  show thesis
    by (rule that [of "takeWhile (\<lambda>p. fst p \<le> k) m"])
       (use after in \<open>auto simp: std_upper_bound_def dest: set_takeWhileD\<close>)
qed

lemma set_std_insert: "set (std_insert k v m) \<subseteq> insert (k, v) (set m)"
  by (induction m) (auto split: if_splits)

lemma set_std_set: "set (std_set k v m) \<subseteq> insert (k, v) (set m)"
  by (induction m) (auto split: if_splits)

lemma set_std_erase: "set (std_erase k m) \<subseteq> set m"
  by (induction m) (auto split: if_splits)

subsection \<open>The map contract\<close>

locale ordered_map =
  fixes find :: "'m \<Rightarrow> 'k \<Rightarrow> 'v option"
    and ins :: "'k \<Rightarrow> 'v \<Rightarrow> 'm \<Rightarrow> 'm"
    and put :: "'k \<Rightarrow> 'v \<Rightarrow> 'm \<Rightarrow> 'm"
    and del :: "'k \<Rightarrow> 'm \<Rightarrow> 'm"
    and wf :: "'m \<Rightarrow> bool"
  assumes find_ins: "wf m \<Longrightarrow> find (ins k v m) j = (if j = k \<and> find m k = None then Some v else find m j)"
    and find_put: "wf m \<Longrightarrow> find (put k v m) j = (if j = k then Some v else find m j)"
    and find_del: "wf m \<Longrightarrow> find (del k m) j = (if j = k then None else find m j)"
    and wf_ins: "wf m \<Longrightarrow> wf (ins k v m)"
    and wf_put: "wf m \<Longrightarrow> wf (put k v m)"
    and wf_del: "wf m \<Longrightarrow> wf (del k m)"
begin

lemma find_put_same: "wf m \<Longrightarrow> find (put k v m) k = Some v"
  by (simp add: find_put)

lemma find_put_put: "wf m \<Longrightarrow> find (put k v (put k w m)) = find (put k v m)"
  by (rule ext) (simp add: find_put wf_put)

lemma find_del_put: "wf m \<Longrightarrow> find m k = None \<Longrightarrow> find (del k (put k v m)) = find m"
  by (rule ext) (simp add: find_put find_del wf_put)

end

lemma std_find_Nil [simp]: "std_find [] k = None"
  by (simp add: std_find_def)

lemma std_find_Cons [simp]: "std_find ((a, b) # m) k = (if k = a then Some b else std_find m k)"
  by (simp add: std_find_def)

lemma std_find_NoneI: "(\<And>p. p \<in> set m \<Longrightarrow> k < fst p) \<Longrightarrow> std_find m (k::'k::linorder) = None"
  by (fastforce simp: std_find_def map_of_eq_None_iff)

lemma std_find_Some_iff: "map_wf m \<Longrightarrow> std_find m k = Some v \<longleftrightarrow> (k, v) \<in> set m"
  by (simp add: std_find_def map_wf_distinct)

lemma std_find_insert:
  "map_wf m \<Longrightarrow> std_find (std_insert k v m) j =
     (if j = k \<and> std_find m k = None then Some v else std_find m j)"
proof (induction m)
  case (Cons p m)
  obtain a b where p: "p = (a, b)" by (cases p)
  have "k < a \<Longrightarrow> std_find m k = None"
    using Cons.prems p by (intro std_find_NoneI) fastforce
  with Cons p show ?case by auto
qed simp

lemma std_find_set: "std_find (std_set k v m) j = (if j = k then Some v else std_find m j)"
  by (induction m) auto

lemma std_find_erase:
  "map_wf m \<Longrightarrow> std_find (std_erase k m) j = (if j = k then None else std_find m j)"
  by (induction m) (auto simp: std_find_NoneI)

lemma map_wf_insert: "map_wf m \<Longrightarrow> map_wf (std_insert k v m)"
  by (induction m) (use set_std_insert in fastforce)+

lemma map_wf_set: "map_wf m \<Longrightarrow> map_wf (std_set k v m)"
  by (induction m) (use set_std_set in fastforce)+

lemma map_wf_erase: "map_wf m \<Longrightarrow> map_wf (std_erase k m)"
  by (induction m) (use set_std_erase in fastforce)+

interpretation stdmap: ordered_map std_find std_insert std_set std_erase map_wf
  by unfold_locales
     (simp_all add: std_find_insert std_find_set std_find_erase map_wf_insert map_wf_set map_wf_erase)

end
