(* ===== verification/RangeMap.thy ===== *)
theory RangeMap
  imports StdMap
begin

text \<open>
  \<open>CRangeMap\<close> (src/amule-3.0.1/src/RangeMap.h): a map from disjoint key ranges to values that
  splits, crops and merges ranges on insertion. The keys are unsigned words of any width, as the
  template's \<open>KEYTYPE\<close>; the value type's \<open>operator==\<close> is equality. An iterator is the rest
  of the map from its position on; the iterator that an operation returns is given by the start
  key of the range it points to.

  The abstraction \<open>points\<close> is the set of (key, value) pairs the map covers. Insertion is
  overwriting on it, erasing is removal, \<open>find_range\<close> is lookup, and the representation is
  canonical: two maps built by the operations are equal exactly when they cover the same points.
\<close>

type_synonym ('a, 'v) range_map = "('a word, 'a word \<times> 'v) std_map"

subsection \<open>The class\<close>

definition resize :: "'a::len word \<Rightarrow> 'a word \<Rightarrow> 'a word \<Rightarrow> 'v \<Rightarrow> ('a, 'v) range_map \<Rightarrow> ('a, 'v) range_map" where
  "resize startPos endPos it_first it_value m =
     std_insert startPos (endPos, it_value) (std_erase it_first m)"

definition get_insert_it :: "'a::len word \<Rightarrow> ('a, 'v) range_map \<Rightarrow> ('a, 'v) range_map" where
  "get_insert_it start m =
     (if m = [] then []
      else let it = length m - 1
           in if start \<le> fst (m ! it)
              then let it = (if start \<noteq> fst (m ! it)
                             then length m - length (std_lower_bound start m) else it)
                   in drop (if it \<noteq> 0 then it - 1 else it) m
              else drop it m)"

text \<open>The loop of \<open>do_insert\<close>. A range that is resized to start where it did keeps its place,
  so the iterator behind it is the rest of the loop's list.\<close>

fun do_insert_loop :: "bool \<Rightarrow> ('a::len, 'v) range_map \<Rightarrow> 'a word \<Rightarrow> 'a word \<Rightarrow> 'v \<Rightarrow>
    ('a, 'v) range_map \<Rightarrow> 'a word \<times> ('a, 'v) range_map" where
  "do_insert_loop merge [] start entry_end value m = (start, std_insert start (entry_end, value) m)"
| "do_insert_loop merge ((it_first, (it_last, it_value)) # it) start entry_end value m =
     (if start \<le> it_first then
        (if entry_end < it_first - 1 \<and> it_first \<noteq> 0 then (start, std_insert start (entry_end, value) m)
         else if entry_end = it_first - 1 \<and> it_first \<noteq> 0 then
           (if merge \<and> value = it_value
            then (start, std_insert start (it_last, value) (std_erase it_first m))
            else (start, std_insert start (entry_end, value) m))
         else if entry_end < it_last then
           (if merge \<and> value = it_value
            then (start, std_insert start (it_last, value) (std_erase it_first m))
            else (start, std_insert start (entry_end, value) (resize (entry_end + 1) it_last it_first it_value m)))
         else do_insert_loop merge it start entry_end value (std_erase it_first m))
      else if start \<le> it_last then
        (if entry_end < it_last then
           (if merge \<and> value = it_value then (it_first, m)
            else (start, std_insert start (entry_end, value)
                    (std_set it_first (start - 1, it_value)
                      (std_insert (entry_end + 1) (it_last, it_value) m))))
         else if merge \<and> value = it_value
           then do_insert_loop merge it it_first entry_end value (std_erase it_first m)
           else do_insert_loop merge it start entry_end value (resize it_first (start - 1) it_first it_value m))
      else if start = it_last + 1 \<and> merge \<and> value = it_value
        then do_insert_loop merge it it_first entry_end value (std_erase it_first m)
        else do_insert_loop merge it start entry_end value m)"

definition do_insert :: "bool \<Rightarrow> 'a::len word \<Rightarrow> 'a word \<Rightarrow> 'v \<Rightarrow> ('a, 'v) range_map \<Rightarrow>
    mule_exception + 'a word \<times> ('a, 'v) range_map" where
  "do_insert merge start entry_end value m =
     (if \<not> start \<le> entry_end then Inl CInvalidParamsEx
      else Inr (do_insert_loop merge (get_insert_it start m) start entry_end value m))"

definition insert_range :: "'a::len word \<Rightarrow> 'a word \<Rightarrow> 'v \<Rightarrow> ('a, 'v) range_map \<Rightarrow>
    mule_exception + 'a word \<times> ('a, 'v) range_map" where
  "insert_range startPos endPos value m = do_insert True startPos endPos value m"

text \<open>The default-initialised entry of \<open>erase_range\<close> is the parameter \<open>dflt\<close>.\<close>

definition erase_range :: "'v \<Rightarrow> 'a::len word \<Rightarrow> 'a word \<Rightarrow> ('a, 'v) range_map \<Rightarrow>
    mule_exception + ('a, 'v) range_map" where
  "erase_range dflt startPos endPos m =
     (case do_insert False startPos endPos dflt m of
        Inl e \<Rightarrow> Inl e
      | Inr (pos, m') \<Rightarrow> Inr (std_erase pos m'))"

definition find_range :: "'a::len word \<Rightarrow> ('a, 'v) range_map \<Rightarrow> ('a word \<times> 'a word \<times> 'v) option" where
  "find_range key m =
     (let it = length m - length (std_upper_bound key m)
      in if m \<noteq> [] \<and> it \<noteq> 0
         then let p = m ! (it - 1) in if key \<le> fst (snd p) then Some p else None
         else None)"

subsection \<open>The points of a map\<close>

definition rstart :: "'a::len word \<times> 'a word \<times> 'v \<Rightarrow> nat" where "rstart p = unat (fst p)"
definition rend :: "'a::len word \<times> 'a word \<times> 'v \<Rightarrow> nat" where "rend p = unat (fst (snd p))"
definition rvalue :: "'a::len word \<times> 'a word \<times> 'v \<Rightarrow> 'v" where "rvalue p = snd (snd p)"

definition range_points :: "'a::len word \<times> 'a word \<times> 'v \<Rightarrow> (nat \<times> 'v) set" where
  "range_points p = {rstart p .. rend p} \<times> {rvalue p}"

definition points :: "('a::len, 'v) range_map \<Rightarrow> (nat \<times> 'v) set" where
  "points m = (\<Union>p \<in> set m. range_points p)"

definition separate :: "'a::len word \<times> 'a word \<times> 'v \<Rightarrow> 'a word \<times> 'a word \<times> 'v \<Rightarrow> bool" where
  "separate p q \<longleftrightarrow> rend p < rstart q \<and> (rend p + 1 < rstart q \<or> rvalue p \<noteq> rvalue q)"

definition ranges_wf :: "('a::len, 'v) range_map \<Rightarrow> bool" where
  "ranges_wf m \<longleftrightarrow> sorted_wrt separate m \<and> (\<forall>p \<in> set m. rstart p \<le> rend p)"

text \<open>The points outside an interval.\<close>

definition outside :: "nat \<Rightarrow> nat \<Rightarrow> (nat \<times> 'v) set \<Rightarrow> (nat \<times> 'v) set" where
  "outside a b P = {x \<in> P. \<not> (a \<le> fst x \<and> fst x \<le> b)}"

lemma range_sel [simp]: "rstart (s, e, v) = unat s" "rend (s, e, v) = unat e" "rvalue (s, e, v) = v"
  by (simp_all add: rstart_def rend_def rvalue_def)

lemma points_simps [simp]:
  "points [] = {}" "points (p # m) = range_points p \<union> points m" "points (m @ m') = points m \<union> points m'"
  by (auto simp: points_def)

lemma ranges_wf_simps [simp]:
  "ranges_wf []"
  "ranges_wf (p # m) \<longleftrightarrow> rstart p \<le> rend p \<and> (\<forall>q \<in> set m. separate p q) \<and> ranges_wf m"
  by (auto simp: ranges_wf_def)

lemma ranges_wf_append:
  "ranges_wf (xs @ ys) \<longleftrightarrow> ranges_wf xs \<and> ranges_wf ys \<and> (\<forall>p \<in> set xs. \<forall>q \<in> set ys. separate p q)"
  by (auto simp: ranges_wf_def sorted_wrt_append)

lemma ranges_wf_start_le: "ranges_wf m \<Longrightarrow> p \<in> set m \<Longrightarrow> rstart p \<le> rend p"
  by (auto simp: ranges_wf_def)

lemma ranges_wf_map_wf: "ranges_wf m \<Longrightarrow> map_wf m"
proof (induction m)
  case (Cons p m)
  have "fst p < fst q" if "q \<in> set m" for q
    using Cons.prems that by (force simp: separate_def rstart_def word_less_nat_alt)
  with Cons show ?case by (cases p) auto
qed simp

text \<open>Inserting, erasing and replacing at the position between two parts of the map.\<close>

lemma insert_here:
  fixes s :: "'a::len word"
  assumes "\<And>p. p \<in> set pre \<Longrightarrow> rstart p < unat s" "\<And>q. q \<in> set suf \<Longrightarrow> unat s < rstart q"
  shows "std_insert s ev (pre @ suf) = pre @ (s, ev) # suf"
  by (rule std_insert_between) (use assms in \<open>simp_all add: rstart_def word_less_nat_alt\<close>)

lemma erase_here:
  fixes s :: "'a::len word"
  assumes "\<And>p. p \<in> set pre \<Longrightarrow> rstart p < unat s"
  shows "std_erase s (pre @ (s, ev) # suf) = pre @ suf"
  by (rule std_erase_append) (use assms in \<open>force simp: rstart_def\<close>)

text \<open>The result of an insertion: the new range stands between a part of the old map before it and
  one behind it; merging also keeps it separate from its neighbours.\<close>

definition placed :: "bool \<Rightarrow> ('a::len, 'v) range_map \<Rightarrow> 'a word \<times> 'a word \<times> 'v \<Rightarrow> ('a, 'v) range_map \<Rightarrow> bool" where
  "placed merge pre r suf \<longleftrightarrow>
     ranges_wf (pre @ suf) \<and> rstart r \<le> rend r \<and>
     (\<forall>p \<in> set pre. rend p < rstart r \<and> (merge \<longrightarrow> separate p r)) \<and>
     (\<forall>q \<in> set suf. rend r < rstart q \<and> (merge \<longrightarrow> separate r q))"

lemma placed_insert:
  assumes "placed merge pre (s, e, v) suf"
  shows "std_insert s (e, v) (pre @ suf) = pre @ (s, e, v) # suf"
proof (rule insert_here)
  show "rstart p < unat s" if "p \<in> set pre" for p
    using assms that ranges_wf_start_le [of pre p] by (fastforce simp: placed_def ranges_wf_append)
  show "unat s < rstart q" if "q \<in> set suf" for q
    using assms that by (fastforce simp: placed_def)
qed

lemma placed_merge_wf: "placed True pre r suf \<Longrightarrow> ranges_wf (pre @ r # suf)"
  by (auto simp: placed_def ranges_wf_append)

subsection \<open>Insertion overwrites\<close>

lemma points_before: "(\<And>p. p \<in> set m \<Longrightarrow> rend p < n) \<Longrightarrow> x \<in> points m \<Longrightarrow> fst x < n"
  by (fastforce simp: points_def range_points_def)

lemma points_behind: "(\<And>p. p \<in> set m \<Longrightarrow> n < rstart p) \<Longrightarrow> x \<in> points m \<Longrightarrow> n < fst x"
  by (fastforce simp: points_def range_points_def)

lemma outside_Un [simp]: "outside a b (P \<union> Q) = outside a b P \<union> outside a b Q"
  by (auto simp: outside_def)

lemma outside_before: "(\<And>x. x \<in> P \<Longrightarrow> fst x < a) \<Longrightarrow> outside a b P = P"
  by (fastforce simp: outside_def)

lemma outside_behind: "(\<And>x. x \<in> P \<Longrightarrow> b < fst x) \<Longrightarrow> outside a b P = P"
  by (fastforce simp: outside_def)

definition overwritten :: "nat \<Rightarrow> nat \<Rightarrow> 'v \<Rightarrow> (nat \<times> 'v) set \<Rightarrow> (nat \<times> 'v) set" where
  "overwritten a b v P = outside a b P \<union> {a .. b} \<times> {v}"

definition insert_result :: "bool \<Rightarrow> 'a::len word \<Rightarrow> 'a word \<Rightarrow> 'v \<Rightarrow> (nat \<times> 'v) set \<Rightarrow>
    'a word \<times> ('a, 'v) range_map \<Rightarrow> bool" where
  "insert_result merge s e v P r \<longleftrightarrow>
     (\<exists>pre s' e' suf. r = (s', pre @ (s', e', v) # suf) \<and> placed merge pre (s', e', v) suf \<and>
        s' \<le> s \<and> e \<le> e' \<and> (\<not> merge \<longrightarrow> s' = s \<and> e' = e) \<and>
        points pre \<union> {unat s' .. unat e'} \<times> {v} \<union> points suf = P)"

lemma insert_resultI:
  assumes "placed merge pre (s', e', v) suf" "r = (s', std_insert s' (e', v) (pre @ suf))"
    "s' \<le> s" "e \<le> e'" "\<not> merge \<Longrightarrow> s' = s \<and> e' = e" "points pre \<union> {unat s' .. unat e'} \<times> {v} \<union> points suf = P"
  shows "insert_result merge s e v P r"
proof -
  have "r = (s', pre @ (s', e', v) # suf)" using assms(2) placed_insert [OF assms(1)] by simp
  then show ?thesis
    unfolding insert_result_def
    by (intro exI [of _ pre] exI [of _ s'] exI [of _ e'] exI [of _ suf])
       (simp add: assms(1,3,4,5,6))
qed

lemma insert_result_merge: "insert_result True s e v P r \<Longrightarrow> s \<le> s2 \<Longrightarrow> insert_result True s2 e v P r"
  unfolding insert_result_def by (elim exE conjE, intro exI conjI) (assumption | simp | erule (1) order_trans)+

lemma unat_add_1_less: "(e::'a::len word) < l \<Longrightarrow> unat (e + 1) = unat e + 1"
proof (rule unat_add_1)
  assume "e < l"
  moreover have "unat l < 2 ^ LENGTH('a)" by (rule unsigned_less)
  ultimately show "unat e + 1 < 2 ^ LENGTH('a)" unfolding word_less_nat_alt by linarith
qed

lemma unat_sub_1_less: "(k::'a::len word) < s \<Longrightarrow> unat (s - 1) = unat s - 1"
  by (rule unat_sub_1) auto

lemma do_insert_loop_correct:
  fixes s e :: "'a::len word"
  assumes "ranges_wf (pre @ it)" "s \<le> e"
    and "\<And>p. p \<in> set pre \<Longrightarrow> rend p < unat s \<and> (merge \<longrightarrow> separate p (s, e, v))"
  shows "insert_result merge s e v (overwritten (unat s) (unat e) v (points (pre @ it)))
    (do_insert_loop merge it s e v (pre @ it))"
  using assms
proof (induction it arbitrary: pre s)
  case Nil
  have "placed merge pre (s, e, v) []"
    using Nil by (auto simp: placed_def word_le_nat_alt)
  moreover have "outside (unat s) (unat e) (points pre) = points pre"
    by (rule outside_before) (use Nil.prems(3) points_before in blast)
  ultimately show ?case
    by (intro insert_resultI [of merge pre s e v "[]"]) (auto simp: overwritten_def)
next
  case (Cons p it)
  obtain k l w where p: "p = (k, l, w)" by (metis prod_cases3)
  note wf = Cons.prems(1) [unfolded p]
  note s_e = Cons.prems(2) [unfolded word_le_nat_alt]
  have kl: "unat k \<le> unat l" and wf': "ranges_wf (pre @ it)"
    and pre_k: "\<And>q. q \<in> set pre \<Longrightarrow> separate q (k, l, w)"
    and it_l: "\<And>q. q \<in> set it \<Longrightarrow> separate (k, l, w) q"
    using wf by (auto simp: ranges_wf_append)
  have pre_lt: "fst x < unat k" "fst x < unat s" if "x \<in> points pre" for x
    using points_before [OF _ that] pre_k Cons.prems(3) by (auto simp: separate_def)
  have it_gt: "unat l < fst x" if "x \<in> points it" for x
    using points_behind [OF _ that] it_l by (auto simp: separate_def)
  have out_pre: "outside (unat s) b (points pre) = points pre" "outside (unat k) b (points pre) = points pre" for b
    using pre_lt by (auto intro!: outside_before)
  have out_it: "outside a b (points it) = points it" if "b \<le> unat l" for a b
    using it_gt that by (intro outside_behind) fastforce
  have er: "std_erase k (pre @ (k, l, w) # it) = pre @ it"
    by (rule erase_here) (use wf pre_k ranges_wf_start_le in \<open>fastforce simp: separate_def ranges_wf_append\<close>)
  have pre_start: "rstart q < unat k" if "q \<in> set pre" for q
    using that pre_k [OF that] ranges_wf_start_le [of pre q] wf by (auto simp: separate_def ranges_wf_append)
  have k1: "unat (k - 1) = unat k - 1" if "k \<noteq> 0" using that by (rule unat_sub_1)
  let ?P = "overwritten (unat s) (unat e) v (points (pre @ p # it))"
  let ?r = "do_insert_loop merge (p # it) s e v (pre @ p # it)"
  have P: "?P = points pre \<union> outside (unat s) (unat e) ({unat k .. unat l} \<times> {w}) \<union>
      points it \<union> {unat s .. unat e} \<times> {v}" if "unat e \<le> unat l"
    using that out_pre out_it by (auto simp: p overwritten_def range_points_def)
  have order: "(e < k - 1 \<and> k \<noteq> 0) \<or> (e = k - 1 \<and> k \<noteq> 0) \<or> unat k \<le> unat e"
    "e = k - 1 \<and> k \<noteq> 0 \<Longrightarrow> e < l" "unat k \<le> unat e \<Longrightarrow> \<not> (e < k - 1 \<and> k \<noteq> 0)"
    "e < l \<or> unat l \<le> unat e" "\<not> s \<le> l \<Longrightarrow> \<not> s \<le> k"
    using kl k1 unat_eq_0 [of k]
    by (cases "k = 0"; simp add: word_le_nat_alt word_less_nat_alt word_unat_eq_iff [of e]; linarith)+
  consider (gap) "s \<le> k" "e < k - 1 \<and> k \<noteq> 0"
    | (join) "s \<le> k" "\<not> (e < k - 1 \<and> k \<noteq> 0)" "e < l" "merge \<and> v = w"
    | (touch) "s \<le> k" "e = k - 1 \<and> k \<noteq> 0" "\<not> (merge \<and> v = w)"
    | (crop) "s \<le> k" "unat k \<le> unat e" "e < l" "\<not> (merge \<and> v = w)"
    | (cover) "s \<le> k" "unat l \<le> unat e"
    | (within) "\<not> s \<le> k" "s \<le> l" "e < l" "merge \<and> v = w"
    | (split) "\<not> s \<le> k" "s \<le> l" "e < l" "\<not> (merge \<and> v = w)"
    | (extend) "\<not> s \<le> k" "s \<le> l \<and> \<not> e < l \<or> \<not> s \<le> l \<and> s = l + 1" "merge \<and> v = w"
    | (shrink) "\<not> s \<le> k" "s \<le> l" "\<not> e < l" "\<not> (merge \<and> v = w)"
    | (skip) "\<not> s \<le> k" "\<not> s \<le> l" "\<not> (s = l + 1 \<and> merge \<and> v = w)"
    using order by satx
  then show ?case
  proof cases
    case gap
    then have e: "unat e + 1 < unat k" using k1 by (auto simp: word_less_nat_alt)
    then have pl: "placed merge pre (s, e, v) (p # it)"
      using Cons.prems(3) wf s_e it_l kl by (fastforce simp: placed_def p separate_def)
    have r: "?r = (s, std_insert s (e, v) (pre @ p # it))" using gap by (simp add: p)
    have "points pre \<union> {unat s .. unat e} \<times> {v} \<union> points (p # it) = ?P"
      by (subst P) (use e kl in \<open>auto simp: p outside_def range_points_def\<close>)
    with pl r show ?thesis by (intro insert_resultI [OF pl r]) auto
  next
    case join
    have e: "unat k \<le> unat e + 1"
      using join k1 by (cases "k = 0") (auto simp: word_less_nat_alt)
    have pl: "placed merge pre (s, l, v) it"
      using Cons.prems(3) wf' join s_e it_l kl
      by (fastforce simp: placed_def separate_def word_less_nat_alt word_le_nat_alt)
    have r: "?r = (s, std_insert s (l, v) (pre @ it))"
      using join by (auto simp: p er)
    have "points pre \<union> {unat s .. unat l} \<times> {v} \<union> points it = ?P"
      by (subst P) (use e kl join in \<open>auto simp: outside_def word_less_nat_alt word_le_nat_alt\<close>)
    then show ?thesis by (intro insert_resultI [OF pl r]) (use join in auto)
  next
    case touch
    have e: "unat e + 1 = unat k" using touch k1 unat_gt_0 [of k] by auto
    have pl: "placed merge pre (s, e, v) (p # it)"
      using Cons.prems(3) wf s_e it_l kl e touch(3) by (fastforce simp: placed_def p separate_def)
    have r: "?r = (s, std_insert s (e, v) (pre @ p # it))" using touch by (auto simp: p)
    have "points pre \<union> {unat s .. unat e} \<times> {v} \<union> points (p # it) = ?P"
      by (subst P) (use e kl in \<open>auto simp: p outside_def range_points_def\<close>)
    then show ?thesis by (intro insert_resultI [OF pl r]) auto
  next
    case crop
    have e1: "unat (e + 1) = unat e + 1" by (rule unat_add_1_less [OF crop(3)])
    have "ranges_wf (pre @ (e + 1, l, w) # it)"
      using wf e1 crop(2,3) it_l pre_k
      by (fastforce simp: ranges_wf_append separate_def word_less_nat_alt)
    then have pl: "placed merge pre (s, e, v) ((e + 1, l, w) # it)"
      using Cons.prems(3) s_e e1 crop it_l
      by (fastforce simp: placed_def separate_def word_less_nat_alt)
    have "std_insert (e + 1) (l, w) (pre @ it) = pre @ (e + 1, l, w) # it"
    proof (rule insert_here)
      show "rstart q < unat (e + 1)" if "q \<in> set pre" for q
        using pre_start [OF that] e1 crop(2) by simp
      show "unat (e + 1) < rstart q" if "q \<in> set it" for q
        using it_l [OF that] e1 crop(3) by (auto simp: separate_def word_less_nat_alt)
    qed
    moreover have "\<not> (e < k - 1 \<and> k \<noteq> 0)" "\<not> (e = k - 1 \<and> k \<noteq> 0)"
      using crop(2) order(3) k1 unat_gt_0 [of k] by auto
    ultimately have r: "?r = (s, std_insert s (e, v) (pre @ (e + 1, l, w) # it))"
      using crop(1,3,4) by (auto simp: p er resize_def)
    have "points pre \<union> {unat s .. unat e} \<times> {v} \<union> points ((e + 1, l, w) # it) = ?P"
      by (subst P) (use e1 kl crop in \<open>auto simp: outside_def range_points_def word_less_nat_alt word_le_nat_alt\<close>)
    then show ?thesis by (intro insert_resultI [OF pl r]) auto
  next
    case cover
    have ke: "unat k \<le> unat e" using cover(2) kl by simp
    have "\<not> (e = k - 1 \<and> k \<noteq> 0)" using ke k1 unat_gt_0 [of k] by auto
    moreover have "\<not> e < l" using cover(2) by (simp add: word_less_nat_alt)
    ultimately have "?r = do_insert_loop merge it s e v (pre @ it)"
      using cover(1) order(3) [OF ke] by (auto simp: p er)
    moreover have "?P = overwritten (unat s) (unat e) v (points (pre @ it))"
      using cover by (auto simp: p overwritten_def outside_def range_points_def word_le_nat_alt)
    ultimately show ?thesis using Cons.IH [OF wf' Cons.prems(2,3)] by simp
  next
    case within
    have pl: "placed merge pre (k, l, v) it"
      using wf within by (auto simp: placed_def ranges_wf_append separate_def)
    then have r: "?r = (k, std_insert k (l, v) (pre @ it))"
      using placed_insert [OF pl] within by (simp add: p)
    have "points pre \<union> {unat k .. unat l} \<times> {v} \<union> points it = ?P"
      by (subst P) (use kl within in \<open>auto simp: outside_def word_less_nat_alt word_le_nat_alt\<close>)
    then show ?thesis by (intro insert_resultI [OF pl r]) (use within in auto)
  next
    case split
    have e1: "unat (e + 1) = unat e + 1" by (rule unat_add_1_less [OF split(3)])
    have s1: "unat (s - 1) = unat s - 1" "unat k < unat s"
      using split(1) unat_sub_1_less [of k s] by (simp_all add: not_le word_less_nat_alt)
    let ?pre = "pre @ [(k, s - 1, w)]" and ?suf = "(e + 1, l, w) # it"
    have "ranges_wf (?pre @ ?suf)"
      using wf e1 s1 split s_e it_l pre_k
      by (fastforce simp: ranges_wf_append separate_def word_less_nat_alt word_le_nat_alt)
    then have pl: "placed merge ?pre (s, e, v) ?suf"
      using Cons.prems(3) s_e e1 s1 split it_l
      by (fastforce simp: placed_def separate_def word_less_nat_alt word_le_nat_alt)
    have "std_insert (e + 1) (l, w) ((pre @ [(k, l, w)]) @ it) = (pre @ [(k, l, w)]) @ (e + 1, l, w) # it"
    proof (rule insert_here)
      show "rstart q < unat (e + 1)" if "q \<in> set (pre @ [(k, l, w)])" for q
        using that pre_start e1 s1 s_e by fastforce
      show "unat (e + 1) < rstart q" if "q \<in> set it" for q
        using it_l [OF that] e1 split(3) by (auto simp: separate_def word_less_nat_alt)
    qed
    moreover have "std_set k (s - 1, w) (pre @ (k, l, w) # (e + 1, l, w) # it) = ?pre @ ?suf"
      using pre_start by (subst std_set_at) (auto simp: rstart_def word_less_nat_alt)
    ultimately have r: "?r = (s, std_insert s (e, v) (?pre @ ?suf))"
      using split by (auto simp: p)
    have "points ?pre \<union> {unat s .. unat e} \<times> {v} \<union> points ?suf = ?P"
      by (subst P) (use kl e1 s1 s_e split in \<open>auto simp: outside_def range_points_def word_less_nat_alt word_le_nat_alt\<close>)
    then show ?thesis by (intro insert_resultI [OF pl r]) auto
  next
    case extend
    have l: "unat s \<le> unat l + 1" "unat l \<le> unat e" "unat k < unat s"
      using extend s_e unat_word_ariths(1) [of l 1]
      by (auto simp: word_le_nat_alt word_less_nat_alt mod_Suc split: if_splits)
    have "?r = do_insert_loop merge it k e v (pre @ it)"
      using extend l by (auto simp: p er)
    moreover have "insert_result True k e v (overwritten (unat k) (unat e) v (points (pre @ it)))
        (do_insert_loop True it k e v (pre @ it))"
      using Cons.IH [OF wf', of k] extend(3) l s_e pre_k
      by (auto simp: word_le_nat_alt separate_def)
    moreover have "unat s \<le> fst x" "unat k \<le> fst x" if "x \<in> points it" for x
      using it_gt [OF that] l by linarith+
    then have "outside (unat s) (unat e) (points it) = outside (unat k) (unat e) (points it)"
      by (auto simp: outside_def)
    then have "?P = overwritten (unat k) (unat e) v (points (pre @ it))"
      using extend(3) l out_pre unfolding overwritten_def p
      by (simp add: range_points_def) (auto simp: outside_def)
    ultimately show ?thesis using extend(1,3) insert_result_merge [of k e v _ _ s] by fastforce
  next
    case shrink
    have s1: "unat (s - 1) = unat s - 1" "unat k < unat s"
      using shrink(1) unat_sub_1_less [of k s] by (simp_all add: not_le word_less_nat_alt)
    let ?pre = "pre @ [(k, s - 1, w)]"
    have "ranges_wf (?pre @ it)"
      using wf s1 shrink it_l pre_k
      by (fastforce simp: ranges_wf_append separate_def word_less_nat_alt word_le_nat_alt)
    moreover have "std_insert k (s - 1, w) (pre @ it) = ?pre @ it"
      using insert_here [of pre k it "(s - 1, w)"] pre_start it_l kl by (force simp: separate_def)
    then have "?r = do_insert_loop merge it s e v (?pre @ it)"
      using shrink by (auto simp: p er resize_def)
    moreover have "?P = overwritten (unat s) (unat e) v (points (?pre @ it))"
      using shrink s1 by (auto simp: p overwritten_def outside_def range_points_def word_le_nat_alt word_less_nat_alt)
    moreover have "rend q < unat s \<and> (merge \<longrightarrow> separate q (s, e, v))" if "q \<in> set ?pre" for q
      using that Cons.prems(3) [of q] s1 shrink by (auto simp: separate_def word_le_nat_alt)
    ultimately show ?thesis using Cons.IH [of ?pre s] Cons.prems(2) by simp
  next
    case skip
    have "?r = do_insert_loop merge it s e v ((pre @ [p]) @ it)"
      using skip by (auto simp: p)
    moreover have "rend q < unat s \<and> (merge \<longrightarrow> separate q (s, e, v))" if "q \<in> set (pre @ [p])" for q
      using that Cons.prems(3) [of q] skip unat_add_1_less [of l s]
      by (auto simp: p separate_def word_le_nat_alt word_less_nat_alt word_unat_eq_iff)
    ultimately show ?thesis using Cons.IH [of "pre @ [p]" s] Cons.prems(1,2) by simp
  qed
qed

lemma lower_bound_index:
  "length m - length (std_lower_bound s m) = length (takeWhile (\<lambda>p. fst p < s) m)"
  "length m - length (std_upper_bound s m) = length (takeWhile (\<lambda>p. fst p \<le> s) m)"
  unfolding std_lower_bound_def std_upper_bound_def
  by (metis add_diff_cancel_right' length_append takeWhile_dropWhile_id)+

lemma get_insert_it_drop:
  assumes "map_wf m"
  obtains i where "get_insert_it s m = drop i m" "i \<noteq> 0 \<Longrightarrow> i < length m \<and> fst (m ! i) < s"
proof (cases "m = []")
  case True
  then show ?thesis using that [of 0] by (simp add: get_insert_it_def)
next
  case False
  let ?n = "length m - 1" and ?t = "length (takeWhile (\<lambda>p. fst p < s) m)"
  have below: "fst (m ! j) < s" "j < length m" if "j < ?t" for j
    using that nth_mem [of j "takeWhile (\<lambda>p. fst p < s) m"] length_takeWhile_le [of "\<lambda>p. fst p < s" m]
    by (auto simp: takeWhile_nth dest: set_takeWhileD)
  have srt: "fst (m ! j) < fst (m ! ?n)" if "j < ?n" for j
    using assms that by (auto simp: map_wf_def sorted_wrt_iff_nth_less)
  consider (behind) "\<not> s \<le> fst (m ! ?n)" | (at) "s = fst (m ! ?n)" | (lower) "s < fst (m ! ?n)" by fastforce
  then show ?thesis
  proof cases
    case behind
    then show ?thesis using False that [of ?n] by (simp add: get_insert_it_def Let_def not_le)
  next
    case at
    then show ?thesis
      using False srt [of "?n - 1"]
      by (intro that [of "if ?n \<noteq> 0 then ?n - 1 else ?n"]) (auto simp: get_insert_it_def Let_def)
  next
    case lower
    then show ?thesis
      using False below [of "?t - 1"]
      by (intro that [of "if ?t \<noteq> 0 then ?t - 1 else ?t"])
         (auto simp: get_insert_it_def Let_def lower_bound_index)
  qed
qed

lemma get_insert_it_split:
  assumes wf: "ranges_wf m"
  obtains pre where "m = pre @ get_insert_it s m"
    "\<And>p. p \<in> set pre \<Longrightarrow> rend p + 1 < unat s"
proof -
  obtain i where i: "get_insert_it s m = drop i m" "i \<noteq> 0 \<Longrightarrow> i < length m \<and> fst (m ! i) < s"
    using get_insert_it_drop [OF ranges_wf_map_wf [OF wf]] by blast
  have "rend p + 1 < unat s" if "p \<in> set (take i m)" for p
  proof -
    from that have 0: "i \<noteq> 0" by (cases i) auto
    have "m = take i m @ m ! i # drop (Suc i) m" using i(2) [OF 0] by (simp add: id_take_nth_drop)
    then have "separate p (m ! i)"
      using wf that by (metis list.set_intros(1) ranges_wf_append)
    moreover have "rstart (m ! i) < unat s" using i(2) [OF 0] by (simp add: rstart_def word_less_nat_alt)
    ultimately show ?thesis by (simp add: separate_def)
  qed
  then show thesis using that [of "take i m"] i(1) by simp
qed

lemma do_insert_correct:
  assumes "ranges_wf m" "s \<le> e"
  shows "\<exists>r. do_insert merge s e v m = Inr r \<and>
    insert_result merge s e v (overwritten (unat s) (unat e) v (points m)) r"
proof -
  obtain pre where pre: "m = pre @ get_insert_it s m" "\<And>p. p \<in> set pre \<Longrightarrow> rend p + 1 < unat s"
    using get_insert_it_split [OF assms(1)] by blast
  have "rend p < unat s \<and> (merge \<longrightarrow> separate p (s, e, v))" if "p \<in> set pre" for p
    using pre(2) [OF that] by (simp add: separate_def)
  then have "insert_result merge s e v (overwritten (unat s) (unat e) v (points (pre @ get_insert_it s m)))
      (do_insert_loop merge (get_insert_it s m) s e v (pre @ get_insert_it s m))"
    using assms pre(1) by (intro do_insert_loop_correct) simp_all
  then show ?thesis using assms(2) pre(1) by (simp add: do_insert_def)
qed

lemma insert_range_correct:
  assumes "ranges_wf m" "s \<le> e"
  shows "\<exists>k m'. insert_range s e v m = Inr (k, m') \<and> ranges_wf m' \<and>
    points m' = overwritten (unat s) (unat e) v (points m) \<and>
    (\<exists>l. (k, l, v) \<in> set m' \<and> k \<le> s \<and> e \<le> l)"
proof -
  obtain pre k l suf where r: "do_insert True s e v m = Inr (k, pre @ (k, l, v) # suf)"
    "placed True pre (k, l, v) suf" "k \<le> s" "e \<le> l"
    "points pre \<union> {unat k .. unat l} \<times> {v} \<union> points suf = overwritten (unat s) (unat e) v (points m)"
    using do_insert_correct [OF assms, of True v] by (auto simp: insert_result_def)
  let ?m = "pre @ (k, l, v) # suf"
  have "points ?m = points pre \<union> {unat k .. unat l} \<times> {v} \<union> points suf"
    by (auto simp: range_points_def)
  with r placed_merge_wf [OF r(2)] show ?thesis
    by (intro exI [of _ k] exI [of _ ?m]) (auto simp: insert_range_def)
qed

lemma outside_overwritten: "outside a b (overwritten a b v P) = outside a b P"
  by (auto simp: overwritten_def outside_def)

lemma erase_range_correct:
  assumes "ranges_wf m" "s \<le> e"
  shows "\<exists>m'. erase_range dflt s e m = Inr m' \<and> ranges_wf m' \<and>
    points m' = outside (unat s) (unat e) (points m)"
proof -
  obtain pre suf where r: "do_insert False s e dflt m = Inr (s, pre @ (s, e, dflt) # suf)"
    "placed False pre (s, e, dflt) suf"
    "points pre \<union> {unat s .. unat e} \<times> {dflt} \<union> points suf = overwritten (unat s) (unat e) dflt (points m)"
    using do_insert_correct [OF assms, of False dflt] by (auto simp: insert_result_def)
  have pl: "ranges_wf (pre @ suf)" "\<And>p. p \<in> set pre \<Longrightarrow> rend p < unat s"
    "\<And>q. q \<in> set suf \<Longrightarrow> unat e < rstart q"
    using r(2) by (auto simp: placed_def)
  have "std_erase s (pre @ (s, e, dflt) # suf) = pre @ suf"
    by (rule erase_here) (use pl ranges_wf_start_le in \<open>fastforce simp: ranges_wf_append\<close>)
  moreover have "outside (unat s) (unat e) (points pre) = points pre"
    by (rule outside_before) (rule points_before [OF pl(2)])
  moreover have "outside (unat s) (unat e) (points suf) = points suf"
    by (rule outside_behind) (rule points_behind [OF pl(3)])
  moreover have "outside (unat s) (unat e) ({unat s .. unat e} \<times> {dflt}) = {}"
    by (auto simp: outside_def)
  ultimately have "points (pre @ suf) = outside (unat s) (unat e) (points m)"
    using arg_cong [OF r(3), of "outside (unat s) (unat e)"] by (simp add: outside_overwritten)
  then show ?thesis
    using r(1) pl(1) \<open>std_erase s (pre @ (s, e, dflt) # suf) = pre @ suf\<close> by (simp add: erase_range_def)
qed

subsection \<open>Lookup\<close>

lemma ranges_wf_unique:
  assumes "ranges_wf m" "p \<in> set m" "q \<in> set m" "n \<in> {rstart p .. rend p}" "n \<in> {rstart q .. rend q}"
  shows "p = q"
  using assms by (induction m) (auto simp: separate_def)

lemma find_range_iff:
  assumes wf: "ranges_wf m"
  shows "find_range key m = Some p \<longleftrightarrow> p \<in> set m \<and> rstart p \<le> unat key \<and> unat key \<le> rend p"
proof -
  let ?t = "takeWhile (\<lambda>p. fst p \<le> key) m"
  have fr: "find_range key m = (if ?t = [] then None
      else if key \<le> fst (snd (List.last ?t)) then Some (List.last ?t) else None)"
  proof -
    have "m ! (length ?t - 1) = List.last ?t" if "?t \<noteq> []"
      using that by (simp add: last_conv_nth takeWhile_nth)
    then show ?thesis unfolding find_range_def lower_bound_index Let_def by auto
  qed
  have m: "m = ?t @ dropWhile (\<lambda>p. fst p \<le> key) m" by simp
  have before: "unat key < rstart q" if "q \<in> set (dropWhile (\<lambda>p. fst p \<le> key) m)" for q
  proof -
    have "key < fst q" if "q \<in> set (std_upper_bound key m)" for q
      by (rule std_upper_bound_split [OF ranges_wf_map_wf [OF wf], of key]) (use that in blast)
    with that show ?thesis by (simp add: std_upper_bound_def rstart_def word_less_nat_alt)
  qed
  have low: "fst q \<le> key" if "q \<in> set ?t" for q using that set_takeWhileD by fastforce
  have earlier: "q = List.last ?t \<or> rend q < rstart (List.last ?t)" if "q \<in> set ?t" for q
  proof -
    from that have "?t = butlast ?t @ [List.last ?t]" by (metis append_butlast_last_id empty_iff list.set(1))
    moreover have "ranges_wf ?t" using wf m ranges_wf_append by metis
    ultimately show ?thesis using that
      by (metis (no_types, lifting) Un_iff empty_iff in_set_butlast_appendI list.set(1) list.set_intros(1) ranges_wf_append separate_def set_ConsD set_append)
  qed
  show ?thesis
  proof
    assume "find_range key m = Some p"
    then have "p = List.last ?t" "?t \<noteq> []" "key \<le> fst (snd p)" by (auto simp: fr split: if_splits)
    then have "p \<in> set ?t" "key \<le> fst (snd p)" by simp_all
    with low [of p] m show "p \<in> set m \<and> rstart p \<le> unat key \<and> unat key \<le> rend p"
      by (auto simp: rstart_def rend_def word_le_nat_alt dest: set_takeWhileD)
  next
    assume p: "p \<in> set m \<and> rstart p \<le> unat key \<and> unat key \<le> rend p"
    then have t: "p \<in> set ?t" using before [of p] m by (metis Un_iff not_less set_append)
    then have ne: "?t \<noteq> []" by auto
    then have lt: "List.last ?t \<in> set ?t" by (rule last_in_set)
    have "p = List.last ?t"
      using earlier [OF t] p low [OF lt] by (auto simp: rstart_def word_le_nat_alt)
    then show "find_range key m = Some p"
      using ne p by (auto simp: fr rend_def word_le_nat_alt)
  qed
qed

lemma find_range_points:
  assumes "ranges_wf m"
  shows "(unat key, v) \<in> points m \<longleftrightarrow> (\<exists>s e. find_range key m = Some (s, e, v))"
proof -
  have "(unat key, v) \<in> points m \<longleftrightarrow> (\<exists>p \<in> set m. rstart p \<le> unat key \<and> unat key \<le> rend p \<and> rvalue p = v)"
    by (auto simp: points_def range_points_def)
  also have "\<dots> \<longleftrightarrow> (\<exists>s e. (s, e, v) \<in> set m \<and> unat s \<le> unat key \<and> unat key \<le> unat e)"
    by force
  finally show ?thesis by (simp add: find_range_iff [OF assms])
qed

subsection \<open>The representation is canonical\<close>

lemma points_head:
  assumes "ranges_wf (p # m)" "points (p # m) \<subseteq> points (q # n)" "ranges_wf (q # n)"
    "rstart p = rstart q" "rvalue p = rvalue q"
  shows "rend p \<le> rend q"
proof (rule ccontr)
  assume "\<not> rend p \<le> rend q"
  then have "(rend q + 1, rvalue q) \<in> range_points p"
    using assms(1,3,4,5) by (auto simp: range_points_def)
  then have "(rend q + 1, rvalue q) \<in> points (q # n)" using assms(2) by auto
  then have "(rend q + 1, rvalue q) \<in> points n" by (auto simp: range_points_def)
  then obtain r where "r \<in> set n" "rstart r \<le> rend q + 1" "rvalue r = rvalue q"
    by (auto simp: points_def range_points_def)
  then show False using assms(3) by (force simp: separate_def)
qed

lemma points_inject:
  "ranges_wf m \<Longrightarrow> ranges_wf n \<Longrightarrow> points m = points n \<Longrightarrow> m = n"
proof (induction m arbitrary: n)
  case Nil
  then show ?case by (cases n) (auto simp: range_points_def)
next
  case (Cons p m)
  have ne: "(rstart r, rvalue r) \<in> range_points r" if "rstart r \<le> rend r" for r :: "'a word \<times> 'a word \<times> 'b"
    using that by (simp add: range_points_def)
  obtain q n' where n: "n = q # n'"
    using Cons.prems ne [of p] by (cases n) auto
  note wf = Cons.prems(1) Cons.prems(2) [unfolded n] and eq = Cons.prems(3) [unfolded n]
  have low: "rstart a \<le> fst x" if "ranges_wf (a # l)" "x \<in> points (a # l)" for a x and l :: "('a, 'b) range_map"
    using that by (fastforce simp: points_def range_points_def separate_def)
  have first: "x \<in> range_points a" if "ranges_wf (a # l)" "x \<in> points (a # l)" "fst x = rstart a" for a x and l :: "('a, 'b) range_map"
    using that by (fastforce simp: points_def range_points_def separate_def)
  have in_p: "(rstart p, rvalue p) \<in> points (p # m)" and in_q: "(rstart q, rvalue q) \<in> points (q # n')"
    using ne [of p] ne [of q] wf by auto
  have s: "rstart p = rstart q"
    using low [OF wf(1), of "(rstart q, rvalue q)"] low [OF wf(2), of "(rstart p, rvalue p)"] in_p in_q unfolding eq by simp
  have v: "rvalue p = rvalue q"
    using first [OF wf(2), of "(rstart p, rvalue p)"] in_p s unfolding eq by (auto simp: range_points_def)
  have e: "rend p = rend q"
    using points_head [OF wf(1) _ wf(2)] points_head [OF wf(2) _ wf(1)] eq s v by fastforce
  have pq: "p = q" using s v e by (auto simp: rstart_def rend_def rvalue_def word_unat_eq_iff prod_eq_iff)
  have disj: "points l = points (a # l) - range_points a" if "ranges_wf (a # l)" for a and l :: "('a, 'b) range_map"
    using that by (fastforce simp: points_def range_points_def separate_def)
  have "points m = points n'" using disj [OF wf(1)] disj [OF wf(2)] eq pq by simp
  with Cons.IH wf pq n show ?case by simp
qed

subsection \<open>The contract of a range map, and its clients\<close>

text \<open>A client builds a map by inserting ranges one after the other; the last range that covers a
  key decides its value.\<close>

primrec insert_all :: "('k \<Rightarrow> 'k \<Rightarrow> 'v \<Rightarrow> 'm \<Rightarrow> 'e + 'r \<times> 'm) \<Rightarrow> ('k \<times> 'k \<times> 'v) list \<Rightarrow> 'm \<Rightarrow> 'e + 'm" where
  "insert_all put [] m = Inr m"
| "insert_all put (r # rs) m =
     (case put (fst r) (fst (snd r)) (snd (snd r)) m of
        Inl e \<Rightarrow> Inl e
      | Inr p \<Rightarrow> insert_all put rs (snd p))"

definition last_covering :: "nat \<Rightarrow> ('a::len word \<times> 'a word \<times> 'v) list \<Rightarrow> 'v option" where
  "last_covering n rs = map_option rvalue (find (\<lambda>r. rstart r \<le> n \<and> n \<le> rend r) (rev rs))"

lemma find_snoc:
  "find P (xs @ [x]) = (case find P xs of None \<Rightarrow> if P x then Some x else None | Some y \<Rightarrow> Some y)"
  by (induction xs) auto

locale interval_map =
  fixes inv :: "'m \<Rightarrow> bool" and pts :: "'m \<Rightarrow> (nat \<times> 'v) set"
    and put :: "'a::len word \<Rightarrow> 'a word \<Rightarrow> 'v \<Rightarrow> 'm \<Rightarrow> 'e + 'r \<times> 'm"
  assumes put_overwrites: "inv m \<Longrightarrow> s \<le> e \<Longrightarrow>
      \<exists>k m'. put s e v m = Inr (k, m') \<and> inv m' \<and> pts m' = overwritten (unat s) (unat e) v (pts m)"
begin

lemma insert_all_last_wins:
  assumes "inv m" "\<And>r. r \<in> set rs \<Longrightarrow> fst r \<le> fst (snd r)"
  shows "\<exists>m'. insert_all put rs m = Inr m' \<and> inv m' \<and>
    (\<forall>n v. (n, v) \<in> pts m' \<longleftrightarrow>
       (case last_covering n rs of None \<Rightarrow> (n, v) \<in> pts m | Some w \<Rightarrow> v = w))"
  using assms
proof (induction rs arbitrary: m)
  case Nil
  then show ?case by (simp add: last_covering_def)
next
  case (Cons r rs)
  obtain s e w where r: "r = (s, e, w)" by (metis prod_cases3)
  have "s \<le> e" using Cons.prems(2) [of r] r by simp
  then obtain k m1 where m1: "put s e w m = Inr (k, m1)" "inv m1"
    "pts m1 = overwritten (unat s) (unat e) w (pts m)"
    using put_overwrites [OF Cons.prems(1)] by blast
  from Cons.IH [OF m1(2)] Cons.prems(2) obtain m' where m': "insert_all put rs m1 = Inr m'" "inv m'"
    "\<And>n v. (n, v) \<in> pts m' \<longleftrightarrow> (case last_covering n rs of None \<Rightarrow> (n, v) \<in> pts m1 | Some x \<Rightarrow> v = x)"
    by auto
  have "last_covering n (r # rs) =
      (case last_covering n rs of None \<Rightarrow> if unat s \<le> n \<and> n \<le> unat e then Some w else None | Some x \<Rightarrow> Some x)" for n
    by (auto simp: last_covering_def r find_snoc split: option.splits)
  then have "(n, v) \<in> pts m' \<longleftrightarrow>
      (case last_covering n (r # rs) of None \<Rightarrow> (n, v) \<in> pts m | Some x \<Rightarrow> v = x)" for n v
    using m1(3) m'(3) [of n v] by (auto simp: overwritten_def outside_def split: option.splits)
  with m1(1) m'(1,2) r show ?case by simp
qed

end

interpretation ranges: interval_map ranges_wf points "insert_range :: 'a::len word \<Rightarrow> _"
  by unfold_locales (use insert_range_correct in fast)

subsection \<open>Properties\<close>

text \<open>C13: inserting a range keeps the map canonical, gives every key of the range the new value and
  leaves every other key as it was, whatever ranges it overlaps, splits, crops, touches or
  covers; the returned iterator points to a range with that value that covers the inserted
  one.\<close>

theorem insert_range_overwrites:
  assumes "ranges_wf m" "startPos \<le> endPos"
  shows "\<exists>k l m'. insert_range startPos endPos value m = Inr (k, m') \<and> ranges_wf m' \<and>
    (\<forall>n v. (n, v) \<in> points m' \<longleftrightarrow>
       (if unat startPos \<le> n \<and> n \<le> unat endPos then v = value else (n, v) \<in> points m)) \<and>
    (k, l, value) \<in> set m' \<and> k \<le> startPos \<and> endPos \<le> l"
proof -
  obtain k l m' where r: "insert_range startPos endPos value m = Inr (k, m')" "ranges_wf m'"
    "points m' = overwritten (unat startPos) (unat endPos) value (points m)"
    "(k, l, value) \<in> set m'" "k \<le> startPos" "endPos \<le> l"
    using insert_range_correct [OF assms, of "value"] by blast
  have "\<forall>n v. (n, v) \<in> points m' \<longleftrightarrow>
       (if unat startPos \<le> n \<and> n \<le> unat endPos then v = value else (n, v) \<in> points m)"
    unfolding r(3) by (auto simp: overwritten_def outside_def)
  with r show ?thesis by blast
qed

theorem insert_range_overwrites_witness:
  "\<exists>k l m'. insert_range (5::u32) 20 True [(0, 9, True), (15, 30, False)] = Inr (k, m') \<and> ranges_wf m' \<and>
    (k, l, True) \<in> set m' \<and> k \<le> 5 \<and> 20 \<le> l"
proof -
  have "ranges_wf [(0::u32, 9, True), (15, 30, False)]" by (simp add: separate_def)
  from insert_range_overwrites [OF this, of 5 20 True] show ?thesis by auto
qed

text \<open>Erasing a range removes exactly its keys and keeps the map canonical.\<close>

theorem erase_range_removes:
  assumes "ranges_wf m" "startPos \<le> endPos"
  shows "\<exists>m'. erase_range dflt startPos endPos m = Inr m' \<and> ranges_wf m' \<and>
    (\<forall>n v. (n, v) \<in> points m' \<longleftrightarrow> (n, v) \<in> points m \<and> \<not> (unat startPos \<le> n \<and> n \<le> unat endPos))"
  using erase_range_correct [OF assms, of dflt] by (auto simp: outside_def)

theorem erase_range_removes_witness:
  "\<exists>m'. erase_range False (5::u32) 20 [(0, 9, True), (15, 30, False)] = Inr m' \<and> ranges_wf m'"
proof -
  have "ranges_wf [(0::u32, 9, True), (15, 30, False)]" by (simp add: separate_def)
  from erase_range_removes [OF this, of 5 20 False] show ?thesis by auto
qed

text \<open>\<open>find_range\<close> returns the range that covers a key, and nothing when no range does.\<close>

theorem find_range_finds:
  assumes "ranges_wf m"
  shows "(find_range key m = Some (s, e, v) \<longleftrightarrow> (s, e, v) \<in> set m \<and> s \<le> key \<and> key \<le> e) \<and>
    (find_range key m = None \<longleftrightarrow> (\<forall>w. (unat key, w) \<notin> points m))"
proof -
  have "find_range key m = None \<longleftrightarrow> (\<forall>w. (unat key, w) \<notin> points m)"
    using find_range_points [OF assms, of key] by (cases "find_range key m") auto
  then show ?thesis by (simp add: find_range_iff [OF assms] word_le_nat_alt)
qed

theorem find_range_finds_witness:
  "find_range (16::u32) [(0, 9, True), (15, 30, False)] = Some (15, 30, False)"
proof -
  have "ranges_wf [(0::u32, 9, True), (15, 30, False)]" by (simp add: separate_def)
  from find_range_finds [OF this, of 16 15 30 False] show ?thesis by simp
qed

text \<open>The representation is canonical: two maps that assign the same values to the same keys
  are the same list of ranges, so \<open>operator==\<close> compares the assignments.\<close>

theorem range_map_canonical:
  assumes "ranges_wf m" "ranges_wf n"
  shows "m = n \<longleftrightarrow> points m = points n"
  using points_inject [OF assms] by blast

theorem range_map_canonical_witness:
  "points [(0::u32, 9::u32, True)] \<noteq> points [(0::u32, 4::u32, True)]"
  using range_map_canonical [of "[(0::u32, 9::u32, True)]" "[(0, 4, True)]"] by simp

text \<open>C0: an inverted range is refused with an exception and nothing else raises it.\<close>

theorem do_insert_error:
  "do_insert merge start entry_end value m = Inl e \<longleftrightarrow> entry_end < start \<and> e = CInvalidParamsEx"
  by (cases e) (auto simp: do_insert_def)

end
