(* ===== verification/IPFilter.thy ===== *)
theory IPFilter
  imports RangeMap ArchSpecific
begin

text \<open>
  The IP filter (src/amule-3.0.1/src/IPFilter.cpp). \<open>CIPFilterTask\<close> collects the ranges of the
  filter files in a \<open>CRangeMap\<close> keyed by the address in host order, then writes the blocked
  ranges to two parallel vectors: the first address of each entry, and its length minus one in
  an encoding of 16 bits, for which long ranges are cut into several entries. \<open>IsFiltered\<close>
  looks an address up in the vectors by binary search.

  The lexer of the filter files, the preferences and the statistics display are outside: the
  lexer's output is a list of ranges with an access level, the preferences are arguments, and
  the two counters of filtered clients and servers are part of the state. The state handed over
  by \<open>OnIPFilterEvent\<close> is modelled; the network start-up it triggers is not.
\<close>

type_synonym ip_map = "(32, u8) range_map"

subsection \<open>Loading\<close>

definition AddIPRange :: "u32 \<Rightarrow> u32 \<Rightarrow> u16 \<Rightarrow> ip_map \<Rightarrow> mule_exception + bool \<times> ip_map" where
  "AddIPRange IPStart IPEnd AccessLevel m =
     (if AccessLevel < 256 \<and> IPStart \<le> IPEnd
      then case insert_range IPStart IPEnd (ucast AccessLevel :: u8) m of
             Inl e \<Rightarrow> Inl e
           | Inr (_, m') \<Rightarrow> Inr (True, m')
      else Inr (False, m))"

text \<open>The loop of \<open>LoadFromFile\<close> over what the lexer delivers; the access level arrives as a
  \<open>uint32\<close> and is passed as a \<open>uint16\<close>. The result is the number of ranges read.\<close>

fun LoadFromFile_loop :: "(u32 \<times> u32 \<times> u32) list \<Rightarrow> nat \<Rightarrow> ip_map \<Rightarrow> mule_exception + nat \<times> ip_map" where
  "LoadFromFile_loop [] filtercount m = Inr (filtercount, m)"
| "LoadFromFile_loop ((IPStart, IPEnd, IPAccessLevel) # ls) filtercount m =
     (case AddIPRange IPStart IPEnd (ucast IPAccessLevel) m of
        Inl e \<Rightarrow> Inl e
      | Inr (_, m') \<Rightarrow> LoadFromFile_loop ls (filtercount + 1) m')"

subsection \<open>The table of blocked ranges\<close>

definition cur_length :: "u32 \<Rightarrow> u32" where
  "cur_length realLength =
     (if realLength \<le> 0x8000 then realLength
      else if realLength \<ge> 0x08000000 then 0x08000000
      else realLength AND 0x07FFF000)"

definition push_length :: "u32 \<Rightarrow> u16" where
  "push_length realLength =
     (if realLength \<le> 0x8000 then ucast (realLength - 1)
      else ucast (drop_bit 12 (cur_length realLength - 1) OR 0x8000))"

lemma cur_length_cut:
  assumes "\<not> r \<le> 0x8000" "\<not> r \<ge> 0x08000000"
  shows "unat (r AND 0x07FFF000 :: u32) = unat r div 4096 * 4096"
proof -
  have "(0x07FFF000 :: u32) = push_bit 12 (mask 15)" by (simp add: mask_eq_exp_minus_1)
  moreover have "r AND push_bit 12 (mask 15) = push_bit 12 (take_bit 15 (drop_bit 12 r))"
    by (rule bit_word_eqI) (auto simp: bit_simps)
  moreover have "unat r div 4096 < 32768"
    using assms(2) by (simp add: word_le_nat_alt div_less_iff_less_mult)
  moreover from this have "unat (take_bit 15 (drop_bit 12 r)) = unat r div 4096"
    by (simp only: unsigned_take_bit_eq unsigned_drop_bit_eq)
       (simp add: drop_bit_eq_div take_bit_nat_eq_self)
  ultimately show ?thesis
    by (simp only: unsigned_push_bit_eq) (simp add: push_bit_eq_mult take_bit_nat_eq_self)
qed

lemma cur_length_bounds:
  assumes "r \<noteq> 0"
  shows "0 < unat (cur_length r)" "unat (cur_length r) \<le> unat r"
proof -
  have "0 < unat (cur_length r) \<and> unat (cur_length r) \<le> unat r"
  proof (cases "\<not> r \<le> 0x8000 \<and> \<not> r \<ge> 0x08000000")
    case True
    then have "8 \<le> unat r div 4096"
      by (auto simp: word_le_nat_alt less_eq_div_iff_mult_less_eq)
    with True show ?thesis using cur_length_cut [of r] by (simp add: cur_length_def)
  next
    case False
    then show ?thesis using assms unat_gt_0 [of r] by (auto simp: cur_length_def word_le_nat_alt)
  qed
  then show "0 < unat (cur_length r)" "unat (cur_length r) \<le> unat r" by auto
qed

function split_range :: "u32 \<Rightarrow> u32 \<Rightarrow> (u32 \<times> u16) list" where
  "split_range startIP realLength =
     (if realLength = 0 then []
      else (startIP, push_length realLength) #
             split_range (startIP + cur_length realLength) (realLength - cur_length realLength))"
  by pat_completeness auto
termination
proof (relation "measure (\<lambda>(s, r). unat r)", goal_cases)
  case (2 s r)
  then show ?case
    using cur_length_bounds [of r] unat_sub_le [of "cur_length r" r] by (simp add: word_le_nat_alt)
qed simp

declare split_range.simps [simp del]

definition filter_table :: "u8 \<Rightarrow> ip_map \<Rightarrow> (u32 \<times> u16) list" where
  "filter_table accessLevel m =
     concat (map (\<lambda>(keyStart, keyEnd, level).
       if level < accessLevel then split_range keyStart (keyEnd - keyStart + 1) else []) m)"

subsection \<open>Lookup\<close>

record ipfilter =
  m_rangeIPs :: "u32 list"
  m_rangeLengths :: "u16 list"
  m_ready :: bool
  filteredServers :: nat
  filteredClients :: nat

definition OnIPFilterEvent :: "(u32 \<times> u16) list \<Rightarrow> ipfilter \<Rightarrow> ipfilter" where
  "OnIPFilterEvent table f =
     f\<lparr>m_rangeIPs := map fst table, m_rangeLengths := map snd table, m_ready := True\<rparr>"

definition decode_length :: "u16 \<Rightarrow> u32" where
  "decode_length l =
     (let curLength = ucast l :: u32
      in if curLength \<ge> 0x8000 then push_bit 12 (curLength AND 0x7fff) + 0xfff else curLength)"

text \<open>The binary search; the result is \<open>None\<close> for an access outside the vectors.\<close>

function IsFiltered_loop :: "u32 list \<Rightarrow> u16 list \<Rightarrow> u32 \<Rightarrow> int \<Rightarrow> int \<Rightarrow> bool option" where
  "IsFiltered_loop ips lens ip imin imax =
     (if imin \<le> imax then
        let i = (imin + imax) div 2
        in Option.bind (vec_get (nat i) ips) (\<lambda>curIP.
             if curIP \<le> ip then
               Option.bind (vec_get (nat i) lens) (\<lambda>l.
                 if curIP + decode_length l \<ge> ip then Some True
                 else IsFiltered_loop ips lens ip (i + 1) imax)
             else IsFiltered_loop ips lens ip imin (i - 1))
      else Some False)"
  by pat_completeness auto
termination
  by (relation "measure (\<lambda>(ips, lens, ip, imin, imax). nat (imax - imin + 1))") auto

declare IsFiltered_loop.simps [simp del]

definition AddFiltered :: "bool \<Rightarrow> ipfilter \<Rightarrow> ipfilter" where
  "AddFiltered isServer f =
     (if isServer then f\<lparr>filteredServers := filteredServers f + 1\<rparr>
      else f\<lparr>filteredClients := filteredClients f + 1\<rparr>)"

definition IsFiltered :: "bool \<Rightarrow> bool \<Rightarrow> u32 \<Rightarrow> bool \<Rightarrow> ipfilter \<Rightarrow> (bool \<times> ipfilter) option" where
  "IsFiltered filteringClients filteringServers IPTest isServer f =
     (if \<not> filteringClients \<and> \<not> isServer \<or> \<not> filteringServers \<and> isServer then Some (False, f)
      else if \<not> m_ready f then Some (True, AddFiltered isServer f)
      else let ip = byte_swap 4 IPTest
           in Option.bind
                (IsFiltered_loop (m_rangeIPs f) (m_rangeLengths f) ip 0 (int (length (m_rangeIPs f)) - 1))
                (\<lambda>found. Some (if found then (True, AddFiltered isServer f) else (False, f))))"

subsection \<open>The encoding of lengths\<close>

lemma decode_push_length:
  assumes "r \<noteq> 0"
  shows "unat (decode_length (push_length r)) = unat (cur_length r) - 1"
proof (cases "r \<le> 0x8000")
  case True
  have r1: "unat (r - 1) = unat r - 1" by (rule unat_sub_1 [OF assms])
  have "unat (ucast (r - 1) :: u16) = unat r - 1"
    using True r1 by (subst unat_ucast_small) (simp_all add: word_le_nat_alt)
  then have "unat (ucast (ucast (r - 1) :: u16) :: u32) = unat r - 1"
    by (subst unat_ucast_up) simp_all
  moreover have "unat r - 1 < 32768" using True by (simp add: word_le_nat_alt)
  ultimately show ?thesis
    using True by (simp add: decode_length_def push_length_def cur_length_def word_le_nat_alt Let_def)
next
  case False
  obtain q where q: "unat (cur_length r) = 4096 * q" "0 < q" "q \<le> 32768"
  proof (cases "r \<ge> 0x08000000")
    case True
    then show ?thesis using False that [of 32768] by (simp add: cur_length_def)
  next
    case l: False
    have "8 \<le> unat r div 4096" "unat r div 4096 \<le> 32768"
      using False l by (auto simp: word_le_nat_alt less_eq_div_iff_mult_less_eq div_le_mono intro: less_imp_le
          simp: div_less_iff_less_mult)
    then show ?thesis
      using False l that [of "unat r div 4096"] cur_length_cut [of r] by (simp add: cur_length_def)
  qed
  let ?t = "drop_bit 12 (cur_length r - 1)"
  obtain j where j: "q = Suc j" "j < 32768" using q by (cases q) auto
  have "cur_length r \<noteq> 0" using q by auto
  then have c1: "unat (cur_length r - 1) = 4096 * q - 1" using q by (simp add: unat_sub_1)
  have "(4096 * q - 1) div 4096 = j"
    using j by (intro div_nat_eqI) auto
  then have t: "unat ?t = j"
    using c1 by (simp add: drop_bit_eq_div unat_div)
  have tk: "take_bit 15 ?t = ?t"
    using t j by (intro word_unat_eq_iff [THEN iffD2])
      (simp add: unsigned_take_bit_eq take_bit_nat_eq_self)
  have "?t OR 0x8000 = ?t + 0x8000"
  proof (rule disjunctive_add [symmetric])
    fix k
    have "(0x8000 :: u32) = 2 ^ 15" by simp
    then have "bit (0x8000 :: u32) k \<Longrightarrow> k = 15" by (metis bit_exp_iff)
    moreover have "\<not> bit ?t 15" using tk by (metis bit_take_bit_iff less_irrefl)
    ultimately show "\<not> bit ?t k \<or> \<not> bit (0x8000 :: u32) k" by blast
  qed
  then have x: "unat (?t OR 0x8000) = j + 32768"
    using t j by (simp add: unat_add_small)
  let ?x = "ucast (ucast (?t OR 0x8000) :: u16) :: u32"
  have ux: "unat ?x = j + 32768"
    using x j by (simp add: unat_ucast_up unat_ucast_small)
  have "?x AND 0x7fff = take_bit 15 ?x"
    by (simp only: take_bit_eq_mask mask_eq_exp_minus_1) simp
  then have ua: "unat (?x AND 0x7fff) = j"
    using j by (simp only: unsigned_take_bit_eq ux) (simp add: take_bit_eq_mod)
  have "unat (push_bit 12 (?x AND 0x7fff)) = 4096 * j"
    using j by (simp only: unsigned_push_bit_eq ua) (simp add: push_bit_eq_mult take_bit_nat_eq_self)
  then have "unat (push_bit 12 (?x AND 0x7fff) + 0xfff) = 4096 * j + 4095"
    using j by (subst unat_add_small) simp_all
  moreover have "4096 * j + 4095 = 4096 * q - 1" using j by simp
  moreover have "0x8000 \<le> ?x" using ux by (simp only: word_le_nat_alt) simp
  ultimately show ?thesis
    using False q(1) unfolding decode_length_def push_length_def Let_def by simp
qed

subsection \<open>The addresses of a table\<close>

definition entry_end :: "u32 \<times> u16 \<Rightarrow> nat" where
  "entry_end p = unat (fst p) + unat (decode_length (snd p))"

definition table_keys :: "(u32 \<times> u16) list \<Rightarrow> nat set" where
  "table_keys t = (\<Union>p \<in> set t. {unat (fst p) .. entry_end p})"

definition table_ok :: "(u32 \<times> u16) list \<Rightarrow> bool" where
  "table_ok t \<longleftrightarrow> sorted_wrt (\<lambda>p q. entry_end p < unat (fst q)) t \<and> (\<forall>p \<in> set t. entry_end p < 2 ^ 32)"

lemma table_simps [simp]:
  "table_ok []" "table_keys [] = {}"
  "table_keys (p # t) = {unat (fst p) .. entry_end p} \<union> table_keys t"
  "table_keys (t @ t') = table_keys t \<union> table_keys t'"
  "table_ok (p # t) \<longleftrightarrow> entry_end p < 2 ^ 32 \<and> (\<forall>q \<in> set t. entry_end p < unat (fst q)) \<and> table_ok t"
  by (auto simp: table_ok_def table_keys_def)

lemma table_ok_append:
  "table_ok (t @ t') \<longleftrightarrow> table_ok t \<and> table_ok t' \<and> (\<forall>p \<in> set t. \<forall>q \<in> set t'. entry_end p < unat (fst q))"
  by (auto simp: table_ok_def sorted_wrt_append)

lemma entry_in_keys: "p \<in> set t \<Longrightarrow> unat (fst p) \<in> table_keys t" "p \<in> set t \<Longrightarrow> entry_end p \<in> table_keys t"
  by (force simp: table_keys_def entry_end_def)+

lemma split_range_0 [simp]: "split_range s 0 = []"
  by (simp add: split_range.simps)

lemma split_range_correct:
  "unat s + unat r \<le> 2 ^ 32 \<Longrightarrow>
     table_ok (split_range s r) \<and> table_keys (split_range s r) = {unat s ..< unat s + unat r}"
proof (induction s r rule: split_range.induct)
  case (1 s r)
  show ?case
  proof (cases "r = 0")
    case True
    then show ?thesis by (simp add: split_range.simps)
  next
    case False
    let ?c = "cur_length r"
    have c: "0 < unat ?c" "unat ?c \<le> unat r" using cur_length_bounds [OF False] by auto
    have rc: "unat (r - ?c) = unat r - unat ?c" using c by (simp add: unat_sub_le word_le_nat_alt)
    have e: "entry_end (s, push_length r) = unat s + (unat ?c - 1)"
      by (simp add: entry_end_def decode_push_length [OF False])
    show ?thesis
    proof (cases "unat ?c = unat r")
      case True
      then have "r - ?c = 0" using rc by (simp add: unat_eq_zero [symmetric])
      then have "split_range s r = [(s, push_length r)]"
        using False by (simp add: split_range.simps [of s r])
      with e c True "1.prems" show ?thesis by auto
    next
      case less: False
      have sc: "unat (s + ?c) = unat s + unat ?c"
        using c less "1.prems" by (intro unat_add_small) simp
      have IH: "table_ok (split_range (s + ?c) (r - ?c))"
        "table_keys (split_range (s + ?c) (r - ?c)) = {unat s + unat ?c ..< unat s + unat r}"
        using "1.IH" [OF False] "1.prems" c sc rc by auto
      have "entry_end (s, push_length r) < unat (fst q)" if "q \<in> set (split_range (s + ?c) (r - ?c))" for q
        using entry_in_keys(1) [OF that] IH(2) e c by auto
      with IH e c "1.prems" show ?thesis
        using False by (subst (1 2) split_range.simps) auto
    qed
  qed
qed

definition blocked :: "u8 \<Rightarrow> ip_map \<Rightarrow> nat set" where
  "blocked accessLevel m = {n. \<exists>v < accessLevel. (n, v) \<in> points m}"

definition no_full_range :: "u8 \<Rightarrow> ip_map \<Rightarrow> bool" where
  "no_full_range accessLevel m \<longleftrightarrow> (\<forall>v < accessLevel. (0, - 1, v) \<notin> set m)"

lemma range_length:
  assumes "s \<le> (e::u32)" "\<not> (s = 0 \<and> e = - 1)"
  shows "unat (e - s + 1) = unat e - unat s + 1"
proof -
  have "unat (e - s) = unat e - unat s" using assms(1) by (rule unat_sub_le)
  moreover have "unat e - unat s + 1 < 2 ^ 32"
  proof (rule ccontr)
    assume "\<not> unat e - unat s + 1 < 2 ^ 32"
    then have "4294967295 \<le> unat e - unat s" by simp
    with unat_lt_32 [of e] have "unat s = 0" "unat e = 4294967295" by linarith+
    with assms(2) show False
      by (simp add: word_unat_eq_iff unsigned_minus_1_eq_mask mask_eq_exp_minus_1)
  qed
  ultimately show ?thesis by (simp add: unat_add_1)
qed

lemma filter_table_correct:
  assumes "ranges_wf m" "no_full_range lvl m"
  shows "table_ok (filter_table lvl m) \<and> table_keys (filter_table lvl m) = blocked lvl m"
  using assms
proof (induction m)
  case Nil
  then show ?case by (simp add: filter_table_def blocked_def)
next
  case (Cons p m)
  obtain s e v where p: "p = (s, e, v)" by (metis prod_cases3)
  have IH: "table_ok (filter_table lvl m)" "table_keys (filter_table lvl m) = blocked lvl m"
    using Cons by (auto simp: no_full_range_def)
  have se: "s \<le> e" using Cons.prems(1) by (simp add: p word_le_nat_alt)
  have split: "filter_table lvl (p # m) = (if v < lvl then split_range s (e - s + 1) else []) @ filter_table lvl m"
    by (simp add: filter_table_def p)
  have b: "blocked lvl (p # m) = (if v < lvl then {unat s .. unat e} else {}) \<union> blocked lvl m"
    by (cases "v < lvl") (auto simp: blocked_def p range_points_def)
  show ?case
  proof (cases "v < lvl")
    case True
    then have len: "unat (e - s + 1) = unat e - unat s + 1"
      using Cons.prems(2) se by (intro range_length) (auto simp: no_full_range_def p)
    have sum: "unat s + unat (e - s + 1) = unat e + 1" using len se by (simp add: word_le_nat_alt)
    have "unat e + 1 \<le> 2 ^ 32" using unsigned_less [of e, where ?'a = nat] by (simp only: Suc_eq_plus1 [symmetric] Suc_le_eq) simp
    moreover have "{unat s ..< unat e + 1} = {unat s .. unat e}" by auto
    ultimately have sr: "table_ok (split_range s (e - s + 1))"
      "table_keys (split_range s (e - s + 1)) = {unat s .. unat e}"
      using split_range_correct [of s "e - s + 1", unfolded sum] by blast+
    have "entry_end a < unat (fst c)" if "a \<in> set (split_range s (e - s + 1))" "c \<in> set (filter_table lvl m)" for a c
    proof -
      have "unat (fst c) \<in> blocked lvl m" using entry_in_keys(1) [OF that(2)] IH(2) by simp
      then have "unat e < unat (fst c)"
        using Cons.prems(1) by (fastforce simp: blocked_def p points_def range_points_def separate_def)
      moreover have "entry_end a \<le> unat e" using entry_in_keys(2) [OF that(1)] sr(2) by simp
      ultimately show ?thesis by simp
    qed
    with IH sr True show ?thesis by (auto simp: split b table_ok_append)
  next
    case False
    with IH show ?thesis by (simp add: split b)
  qed
qed

subsection \<open>The binary search\<close>

lemma IsFiltered_loop_correct:
  assumes ok: "table_ok t"
  shows "0 \<le> imin \<Longrightarrow> imax < int (length t) \<Longrightarrow>
    IsFiltered_loop (map fst t) (map snd t) ip imin imax =
      Some (\<exists>j. imin \<le> int j \<and> int j \<le> imax \<and> unat (fst (t ! j)) \<le> unat ip \<and> unat ip \<le> entry_end (t ! j))"
proof (induction "map fst t" "map snd t" ip imin imax rule: IsFiltered_loop.induct)
  case (1 ip imin imax)
  define covers where "covers j \<longleftrightarrow> unat (fst (t ! j)) \<le> unat ip \<and> unat ip \<le> entry_end (t ! j)" for j
  show ?case
  proof (cases "imin \<le> imax")
    case False
    then show ?thesis by (auto simp: IsFiltered_loop.simps)
  next
    case True
    define i where "i = nat ((imin + imax) div 2)"
    have i: "(imin + imax) div 2 = int i" "imin \<le> int i" "int i \<le> imax" "i < length t"
      using True 1(3,4) by (auto simp: i_def)
    have end_lt: "entry_end (t ! i) < 2 ^ 32" using ok i(4) by (auto simp: table_ok_def)
    then have sum: "unat (fst (t ! i) + decode_length (snd (t ! i))) = entry_end (t ! i)"
      unfolding entry_end_def by (intro unat_add_small) simp
    have order: "entry_end (t ! j) < unat (fst (t ! k))" if "j < k" "k < length t" for j k
      using ok that by (auto simp: table_ok_def sorted_wrt_iff_nth_less)
    show ?thesis
    proof (cases "fst (t ! i) \<le> ip")
      case le: True
      show ?thesis
      proof (cases "fst (t ! i) + decode_length (snd (t ! i)) \<ge> ip")
        case True
        then have "covers i" using le sum by (simp add: covers_def word_le_nat_alt)
        then show ?thesis
          using True le i \<open>imin \<le> imax\<close>
          by (subst IsFiltered_loop.simps) (auto simp: covers_def)
      next
        case out: False
        have "\<not> covers j" if "int j \<le> int i" for j
          using that order [of j i] i(4) le out sum by (cases "j = i") (auto simp: covers_def word_le_nat_alt)
        then have "int i + 1 \<le> int j \<and> int j \<le> imax \<and> covers j \<longleftrightarrow> imin \<le> int j \<and> int j \<le> imax \<and> covers j" for j
          using i(2) by (cases "j \<le> i") auto
        moreover have "IsFiltered_loop (map fst t) (map snd t) ip (int i + 1) imax =
            Some (\<exists>j. int i + 1 \<le> int j \<and> int j \<le> imax \<and> covers j)"
          using 1(1) [OF True refl, of "fst (t ! i)" "snd (t ! i)"] i le out 1(3,4) by (simp add: covers_def)
        ultimately show ?thesis
          using True le out i by (subst IsFiltered_loop.simps) (simp add: covers_def)
      qed
    next
      case gt: False
      have "\<not> covers j" if "i \<le> j" "j < length t" for j
        using that order [of i j] gt by (cases "j = i") (auto simp: covers_def word_le_nat_alt entry_end_def)
      then have "imin \<le> int j \<and> int j \<le> int i - 1 \<and> covers j \<longleftrightarrow> imin \<le> int j \<and> int j \<le> imax \<and> covers j" for j
        using i(3) 1(4) by (cases "i \<le> j") auto
      moreover have "IsFiltered_loop (map fst t) (map snd t) ip imin (int i - 1) =
          Some (\<exists>j. imin \<le> int j \<and> int j \<le> int i - 1 \<and> covers j)"
        using 1(2) [OF True refl, of "fst (t ! i)"] i gt 1(3,4) by (simp add: covers_def)
      ultimately show ?thesis
        using True gt i by (subst IsFiltered_loop.simps) (simp add: covers_def)
    qed
  qed
qed

lemma lookup_table:
  assumes "table_ok t"
  shows "IsFiltered_loop (map fst t) (map snd t) ip 0 (int (length (map fst t)) - 1) = Some (unat ip \<in> table_keys t)"
proof -
  have "(\<exists>j. 0 \<le> int j \<and> int j \<le> int (length t) - 1 \<and> unat (fst (t ! j)) \<le> unat ip \<and> unat ip \<le> entry_end (t ! j)) \<longleftrightarrow>
      unat ip \<in> table_keys t"
    by (force simp: table_keys_def in_set_conv_nth)
  then show ?thesis using IsFiltered_loop_correct [OF assms, of 0 "int (length t) - 1" ip] by simp
qed

lemma OnIPFilterEvent_sel [simp]:
  "m_rangeIPs (OnIPFilterEvent t f) = map fst t" "m_rangeLengths (OnIPFilterEvent t f) = map snd t"
  "m_ready (OnIPFilterEvent t f)"
  by (simp_all add: OnIPFilterEvent_def)

subsection \<open>Loading the files\<close>

text \<open>The lines that \<open>AddIPRange\<close> accepts, with the level it stores.\<close>

definition accepted :: "(u32 \<times> u32 \<times> u32) list \<Rightarrow> (u32 \<times> u32 \<times> u8) list" where
  "accepted ls = map (\<lambda>(s, e, l). (s, e, ucast l)) (filter (\<lambda>(s, e, l). (ucast l :: u16) < 256 \<and> s \<le> e) ls)"

lemma ucast_level: "(ucast (l::u32) :: u16) < 256 \<Longrightarrow> ucast (ucast l :: u16) = (ucast l :: u8)"
  by (rule bit_word_eqI) (auto simp: bit_simps)

lemma LoadFromFile_accepted:
  assumes "ranges_wf m"
  shows "LoadFromFile_loop ls c m = map_sum id (\<lambda>m'. (c + length ls, m')) (insert_all insert_range (accepted ls) m)"
  using assms
proof (induction ls arbitrary: c m)
  case Nil
  then show ?case by (simp add: accepted_def)
next
  case (Cons r ls)
  obtain s e l where r: "r = (s, e, l)" by (metis prod_cases3)
  show ?case
  proof (cases "(ucast l :: u16) < 256 \<and> s \<le> e")
    case True
    obtain k m' where "insert_range s e (ucast l :: u8) m = Inr (k, m')" "ranges_wf m'"
      using insert_range_correct [OF Cons.prems, of s e "ucast l :: u8"] True by blast
    moreover have "accepted (r # ls) = (s, e, ucast l) # accepted ls" using True by (simp add: accepted_def r)
    ultimately show ?thesis
      using True Cons.IH [of m' "c + 1"] by (simp add: r AddIPRange_def ucast_level)
  next
    case False
    then have "accepted (r # ls) = accepted ls" by (simp add: accepted_def r)
    moreover have "AddIPRange s e (ucast l) m = Inr (False, m)" using False by (auto simp: AddIPRange_def)
    ultimately show ?thesis using Cons.IH [OF Cons.prems, of "c + 1"] by (simp add: r)
  qed
qed

lemma LoadFromFile_last_wins:
  "\<exists>m. LoadFromFile_loop ls 0 [] = Inr (length ls, m) \<and> ranges_wf m \<and>
    (\<forall>n v. (n, v) \<in> points m \<longleftrightarrow> last_covering n (accepted ls) = Some v)"
proof -
  have "fst r \<le> fst (snd r)" if "r \<in> set (accepted ls)" for r
    using that by (auto simp: accepted_def)
  from ranges.insert_all_last_wins [of "[]" "accepted ls", OF _ this]
  obtain m where "insert_all insert_range (accepted ls) [] = Inr m" "ranges_wf m"
    "\<forall>n v. (n, v) \<in> points m \<longleftrightarrow>
       (case last_covering n (accepted ls) of None \<Rightarrow> (n, v) \<in> points ([] :: ip_map) | Some w \<Rightarrow> v = w)"
    by auto
  then show ?thesis by (auto simp: LoadFromFile_accepted split: option.splits)
qed

subsection \<open>Properties\<close>

text \<open>C7: from the filter files to the verdict: after the lexer's ranges were inserted, the blocked
  ones encoded and handed to the filter, \<open>IsFiltered\<close> answers, without leaving its vectors, that
  an address is blocked exactly when the last accepted range that covers it has a level below the
  filter level; it counts the blocked peer, and changes nothing else. The one exception is a
  blocked range of the whole address space.\<close>

theorem IsFiltered_decides_last_rule:
  fixes old :: ipfilter and IPTest :: u32
  assumes "LoadFromFile_loop ls 0 [] = Inr (c, m)" "no_full_range lvl m"
    and "if isServer then filteringServers else filteringClients"
  defines "f \<equiv> OnIPFilterEvent (filter_table lvl m) old"
  defines "hit \<equiv> \<exists>v. last_covering (unat (byte_swap 4 IPTest)) (accepted ls) = Some v \<and> v < lvl"
  shows "IsFiltered filteringClients filteringServers IPTest isServer f =
    Some (hit, if hit then AddFiltered isServer f else f)"
proof -
  obtain m' where "LoadFromFile_loop ls 0 [] = Inr (length ls, m')" "ranges_wf m'"
    "\<forall>n v. (n, v) \<in> points m' \<longleftrightarrow> last_covering n (accepted ls) = Some v"
    using LoadFromFile_last_wins by blast
  with assms(1) have m: "ranges_wf m" "\<forall>n v. (n, v) \<in> points m \<longleftrightarrow> last_covering n (accepted ls) = Some v"
    by auto
  note t = filter_table_correct [OF m(1) assms(2)]
  have "unat (byte_swap 4 IPTest) \<in> blocked lvl m \<longleftrightarrow> hit"
    using m(2) by (auto simp: blocked_def hit_def)
  with t have "IsFiltered_loop (m_rangeIPs f) (m_rangeLengths f) (byte_swap 4 IPTest) 0
      (int (length (m_rangeIPs f)) - 1) = Some hit"
    using lookup_table [of "filter_table lvl m" "byte_swap 4 IPTest"] by (simp add: f_def)
  then show ?thesis
    using assms(3) by (auto simp: IsFiltered_def f_def Let_def split: if_splits)
qed

definition empty_filter :: ipfilter where
  "empty_filter = \<lparr>m_rangeIPs = [], m_rangeLengths = [], m_ready = False, filteredServers = 0, filteredClients = 0\<rparr>"

lemma sample_load:
  "LoadFromFile_loop [(0x0a000000, 0x0a0000ff, 100)] 0 [] = Inr (1, [(0x0a000000, 0x0a0000ff, 100)])"
  by (simp add: AddIPRange_def insert_range_def do_insert_def get_insert_it_def)

theorem IsFiltered_decides_last_rule_witness:
  "\<exists>f. IsFiltered True True 0x0500000a False f = Some (True, AddFiltered False f) \<and>
    IsFiltered True True 0x0500000b False f = Some (False, f)"
proof -
  let ?f = "OnIPFilterEvent (filter_table 127 [(0x0a000000, 0x0a0000ff, 100)]) empty_filter"
  have nf: "no_full_range 127 [(0x0a000000, 0x0a0000ff, 100)]" by (simp add: no_full_range_def)
  have sw: "byte_swap 4 (0x0500000a :: u32) = 0x0a000005" "byte_swap 4 (0x0500000b :: u32) = 0x0b000005"
    by (simp_all add: byte_swap_def le_split_def upt_rec)
  have lc: "last_covering 0x0a000005 (accepted [(0x0a000000, 0x0a0000ff, 100)]) = Some 100"
    "last_covering 0x0b000005 (accepted [(0x0a000000, 0x0a0000ff, 100)]) = None"
    by (simp_all add: last_covering_def accepted_def)
  from IsFiltered_decides_last_rule [OF sample_load nf, where isServer = False and filteringServers = True
      and filteringClients = True and old = empty_filter and IPTest = "0x0500000a"]
    IsFiltered_decides_last_rule [OF sample_load nf, where isServer = False and filteringServers = True
      and filteringClients = True and old = empty_filter and IPTest = "0x0500000b"]
  show ?thesis by (intro exI [of _ ?f]) (simp add: sw lc)
qed

text \<open>C28: the table of blocked ranges is sorted, its entries are disjoint, none reaches past the
  last address, and together they are exactly the blocked addresses, however long ranges were cut
  to fit the 16-bit length encoding.\<close>

theorem filter_table_exact:
  assumes "ranges_wf m" "no_full_range lvl m"
  shows "table_ok (filter_table lvl m) \<and> table_keys (filter_table lvl m) = blocked lvl m"
  by (rule filter_table_correct [OF assms])

theorem filter_table_exact_witness:
  "table_ok (filter_table 127 [(0x0a000000, 0x0a0fffff, 100), (0x0b000000, 0xfeffffff, 5)])"
proof -
  have "ranges_wf [(0x0a000000::u32, 0x0a0fffff, 100::u8), (0x0b000000, 0xfeffffff, 5)]"
    by (simp add: separate_def)
  moreover have "no_full_range 127 [(0x0a000000::u32, 0x0a0fffff, 100::u8), (0x0b000000, 0xfeffffff, 5)]"
    by (simp add: no_full_range_def)
  ultimately show ?thesis using filter_table_exact by blast
qed

text \<open>C34: a range that covers the whole address space has a length that wraps to zero, so no entry
  is written for it and nothing is blocked.\<close>

theorem full_range_blocks_nothing:
  "0 < lvl \<Longrightarrow> LoadFromFile_loop [(0, - 1, 0)] 0 [] = Inr (1, [(0, - 1, 0)]) \<and>
     filter_table lvl [(0, - 1, 0)] = [] \<and> blocked lvl [(0, - 1, 0)] = {0 .. 4294967295}"
  by (auto simp: AddIPRange_def insert_range_def do_insert_def get_insert_it_def filter_table_def
      blocked_def range_points_def unsigned_minus_1_eq_mask mask_eq_exp_minus_1)

theorem full_range_blocks_nothing_witness: "filter_table 127 [(0, - 1, 0)] = []"
  using full_range_blocks_nothing [of 127] by simp

text \<open>C0: before the filter is loaded every peer that is subject to filtering is blocked and
  counted.\<close>

theorem not_ready_blocks:
  assumes "\<not> m_ready f" "if isServer then filteringServers else filteringClients"
  shows "IsFiltered filteringClients filteringServers IPTest isServer f = Some (True, AddFiltered isServer f)"
  using assms by (auto simp: IsFiltered_def split: if_splits)

theorem not_ready_blocks_witness:
  "IsFiltered True False 0x01020304 False empty_filter = Some (True, AddFiltered False empty_filter)"
  using not_ready_blocks [of empty_filter False False True] by (simp add: empty_filter_def)

end
