(* ===== verification/NetworkFunctions.thy ===== *)
theory NetworkFunctions
  imports ArchSpecific
begin

text \<open>
  The address helpers of src/amule-3.0.1/src/NetworkFunctions.h and NetworkFunctions.cpp: dotted
  quads, and the classification of reserved, private, loopback and link-local addresses. An
  address is a 32-bit word in anti-host order, so its lowest byte is the first number of the
  quad. Host name resolution (\<open>StringHosttoUint32\<close>) is not modelled.
\<close>

subsection \<open>Text\<close>

text \<open>\<open>CFormat("%u")\<close>: the decimal digits of a number.\<close>

fun format_u :: "nat \<Rightarrow> string" where
  "format_u n = (if n < 10 then [char_of (48 + n)] else format_u (n div 10) @ [char_of (48 + n mod 10)])"

declare format_u.simps [simp del]

definition octet :: "u32 \<Rightarrow> nat \<Rightarrow> nat" where
  "octet ip k = unat (ucast (drop_bit (8 * k) ip) :: u8)"

definition Uint32toStringIP :: "u32 \<Rightarrow> string" where
  "Uint32toStringIP ip =
     format_u (octet ip 0) @ ''.'' @ format_u (octet ip 1) @ ''.'' @
     format_u (octet ip 2) @ ''.'' @ format_u (octet ip 3)"

definition Uint32_16toStringIP_Port :: "u32 \<Rightarrow> u16 \<Rightarrow> string" where
  "Uint32_16toStringIP_Port ip port = Uint32toStringIP ip @ '':'' @ format_u (unat port)"

definition KadIPToString :: "u32 \<Rightarrow> string" where
  "KadIPToString ip =
     format_u (octet ip 3) @ ''.'' @ format_u (octet ip 2) @ ''.'' @
     format_u (octet ip 1) @ ''.'' @ format_u (octet ip 0)"

definition KadIPPortToString :: "u32 \<Rightarrow> u16 \<Rightarrow> string" where
  "KadIPPortToString ip port = KadIPToString ip @ '':'' @ format_u (unat port)"

text \<open>\<open>wxString::Strip(both)\<close> removes white space at both ends.\<close>

definition wx_isspace :: "char \<Rightarrow> bool" where
  "wx_isspace c \<longleftrightarrow> of_char c \<in> {9, 10, 11, 12, 13, 32::nat}"

definition Strip_both :: "string \<Rightarrow> string" where
  "Strip_both s = rev (dropWhile wx_isspace (rev (dropWhile wx_isspace s)))"

fun StringIPtoUint32_loop :: "string \<Rightarrow> u32 \<Rightarrow> nat \<Rightarrow> u32 \<Rightarrow> u32 \<Rightarrow> u32 option" where
  "StringIPtoUint32_loop [] digit field val tmp_ip =
     (if field = 3 \<and> digit \<noteq> 0 \<and> drop_bit 8 val = 0 then Some (tmp_ip OR push_bit 24 val) else None)"
| "StringIPtoUint32_loop (c # str) digit field val tmp_ip =
     (if of_char CHR ''0'' \<le> (of_char c :: nat) \<and> of_char c \<le> (of_char CHR ''9'' :: nat) \<and> drop_bit 8 val = 0 then
        StringIPtoUint32_loop str (digit + 1) field (val * 10 + of_nat (of_char c - of_char CHR ''0'')) tmp_ip
      else if c = CHR ''.'' then
        (if digit \<noteq> 0 \<and> drop_bit 8 val = 0
         then StringIPtoUint32_loop str 0 (field + 1) 0 (tmp_ip OR push_bit (field * 8) val)
         else None)
      else None)"

definition StringIPtoUint32 :: "string \<Rightarrow> u32 option" where
  "StringIPtoUint32 strIP = StringIPtoUint32_loop (Strip_both strIP) 0 0 0 0"

definition StringIPtoUint32_or_0 :: "string \<Rightarrow> u32" where
  "StringIPtoUint32_or_0 strIP = (case StringIPtoUint32 strIP of None \<Rightarrow> 0 | Some ip \<Rightarrow> ip)"

subsection \<open>Address classes\<close>

definition reserved_ranges :: "(u32 \<times> u32) list" where
  "reserved_ranges =
     [(0x00000000, 0x000000ff), (0x00000027, 0x000000ff), (0x0000007f, 0x000000ff),
      (0x00000080, 0x0000ffff), (0x0000fea9, 0x0000ffff), (0x0000ffbf, 0x0000ffff),
      (0x000000c0, 0x00ffffff), (0x000200c0, 0x00ffffff), (0x006358c0, 0x00ffffff),
      (0x000012c6, 0x0000feff), (0x00ffffdf, 0x00ffffff), (0x000000e0, 0x000000f0),
      (0x000000f0, 0x000000f0)]"

definition lan_ranges :: "(u32 \<times> u32) list" where
  "lan_ranges = [(0x0000000a, 0x000000ff), (0x000010ac, 0x0000f0ff), (0x0000a8c0, 0x0000ffff)]"

definition in_ranges :: "(u32 \<times> u32) list \<Rightarrow> u32 \<Rightarrow> bool" where
  "in_ranges rs ip \<longleftrightarrow> (\<exists>r \<in> set rs. (ip XOR fst r) AND snd r = 0)"

definition IsLanIP :: "u32 \<Rightarrow> bool" where
  "IsLanIP ip \<longleftrightarrow> in_ranges lan_ranges ip"

definition IsGoodIP :: "u32 \<Rightarrow> bool \<Rightarrow> bool" where
  "IsGoodIP ip filterLAN \<longleftrightarrow> \<not> in_ranges reserved_ranges ip \<and> \<not> (filterLAN \<and> IsLanIP ip)"

definition IsGoodIPPort :: "u32 \<Rightarrow> u16 \<Rightarrow> bool" where
  "IsGoodIPPort nIP nPort \<longleftrightarrow> IsGoodIP nIP True \<and> nPort \<noteq> 0"

definition IsLoopbackIP :: "u32 \<Rightarrow> bool" where
  "IsLoopbackIP ip \<longleftrightarrow> ip AND 0x000000ff = 0x0000007f"

definition IsLinkLocalIP :: "u32 \<Rightarrow> bool" where
  "IsLinkLocalIP ip \<longleftrightarrow> ip AND 0x0000ffff = 0x0000fea9"

subsection \<open>The quad of an address\<close>

lemma octet_lt [simp]: "octet ip k < 256"
  by (simp add: octet_def)

lemma unat_octets: "unat ip = octet ip 0 + 256 * (octet ip 1 + 256 * (octet ip 2 + 256 * octet ip 3))"
proof -
  have o: "octet ip k = unat ip div 2 ^ (8 * k) mod 256" for k
    unfolding octet_def unsigned_ucast_eq unsigned_drop_bit_eq by (simp add: drop_bit_eq_div take_bit_eq_mod)
  have "unat ip div 16777216 < 256" using unat_lt_32 [of ip] by (simp add: div_less_iff_less_mult)
  then have "octet ip 3 = unat ip div 16777216" by (simp add: o)
  moreover have "unat ip div 256 div 256 = unat ip div 65536" "unat ip div 65536 div 256 = unat ip div 16777216"
    by (simp_all flip: div_mult2_eq)
  ultimately have a: "unat ip div 65536 = octet ip 2 + 256 * octet ip 3"
    and b: "unat ip div 256 = octet ip 1 + 256 * (unat ip div 65536)"
    using mult_div_mod_eq [of 256 "unat ip div 65536"] mult_div_mod_eq [of 256 "unat ip div 256"]
    by (simp_all add: o add.commute)
  have "unat ip = octet ip 0 + 256 * (unat ip div 256)" by (simp add: o)
  also have "\<dots> = octet ip 0 + 256 * (octet ip 1 + 256 * (octet ip 2 + 256 * octet ip 3))"
    by (simp only: a b)
  finally show ?thesis .
qed

lemma word_octets:
  "ip = of_nat (octet ip 0) OR push_bit 8 (of_nat (octet ip 1)) OR push_bit 16 (of_nat (octet ip 2)) OR
     push_bit 24 (of_nat (octet ip 3))"
proof (rule bit_word_eqI)
  fix n assume n: "n < LENGTH(32)"
  have b: "bit (of_nat (octet ip k) :: u32) j \<longleftrightarrow> j < 8 \<and> bit ip (8 * k + j)" for k j
  proof -
    have "(of_nat (octet ip k) :: u32) = ucast (ucast (drop_bit (8 * k) ip) :: u8)"
      by (simp add: octet_def)
    then show ?thesis by (auto simp: bit_simps dest: bit_imp_le_length)
  qed
  consider "n < 8" | "8 \<le> n" "n < 16" | "16 \<le> n" "n < 24" | "24 \<le> n" "n < 32" using n by fastforce
  then show "bit ip n = bit (of_nat (octet ip 0) OR push_bit 8 (of_nat (octet ip 1)) OR
      push_bit 16 (of_nat (octet ip 2)) OR push_bit 24 (of_nat (octet ip 3)) :: u32) n"
    by cases (simp_all add: bit_or_iff bit_push_bit_iff b less_diff_conv2)
qed

subsection \<open>Parsing inverts printing\<close>

lemma small_val: "n < 256 \<Longrightarrow> drop_bit 8 (of_nat n :: u32) = 0"
proof -
  assume "n < 256"
  moreover from this have "unat (of_nat n :: u32) = n" by (intro unat_of_nat_small) simp
  ultimately have "unat (drop_bit 8 (of_nat n :: u32)) = 0"
    by (simp only: unsigned_drop_bit_eq) (simp add: drop_bit_eq_div take_bit_nat_eq_self)
  then show ?thesis by (simp add: unat_eq_zero)
qed

lemma digit_char:
  "d < 10 \<Longrightarrow> of_char (char_of (48 + d :: nat)) = (48 + d :: nat)"
  by simp

lemma parse_digit:
  assumes "d < 10" "n < 256"
  shows "StringIPtoUint32_loop (char_of (48 + d) # str) k field (of_nat n) ip =
    StringIPtoUint32_loop str (k + 1) field (of_nat (n * 10 + d)) ip"
  using assms by (simp add: small_val)

declare StringIPtoUint32_loop.simps [simp del]

lemma parse_number:
  assumes "n < 256"
  shows "\<exists>k. 0 < unat k \<and> unat k \<le> n + 1 \<and> StringIPtoUint32_loop (format_u n @ str) 0 field 0 ip =
    StringIPtoUint32_loop str k field (of_nat n) ip"
  using assms
proof (induction n arbitrary: str rule: format_u.induct)
  case (1 n)
  show ?case
  proof (cases "n < 10")
    case True
    then show ?thesis
      using parse_digit [of n 0 str 0 field ip] by (intro exI [of _ 1]) (simp add: format_u.simps [of n])
  next
    case False
    then obtain k where k: "0 < unat k" "unat k \<le> n div 10 + 1"
      "StringIPtoUint32_loop (format_u (n div 10) @ char_of (48 + n mod 10) # str) 0 field 0 ip =
       StringIPtoUint32_loop (char_of (48 + n mod 10) # str) k field (of_nat (n div 10)) ip"
      using "1.IH" [OF False, of "char_of (48 + n mod 10) # str"] le_less_trans [OF div_le_dividend "1.prems"] by blast
    have "unat (k + 1) = unat k + 1" using k(2) "1.prems" by (intro unat_add_1) simp
    moreover have "StringIPtoUint32_loop (format_u n @ str) 0 field 0 ip =
        StringIPtoUint32_loop str (k + 1) field (of_nat n) ip"
      using k(3) parse_digit [of "n mod 10" "n div 10" str k field ip] False "1.prems"
      by (subst format_u.simps) (simp del: of_nat_add of_nat_mult)
    ultimately show ?thesis using k(2) False by (intro exI [of _ "k + 1"]) auto
  qed
qed

lemma parse_dot:
  "k \<noteq> 0 \<Longrightarrow> n < 256 \<Longrightarrow> StringIPtoUint32_loop (CHR ''.'' # str) k field (of_nat n) ip =
     StringIPtoUint32_loop str 0 (field + 1) 0 (ip OR push_bit (field * 8) (of_nat n))"
  by (simp add: small_val StringIPtoUint32_loop.simps)

lemma parse_field:
  assumes "n < 256"
  shows "StringIPtoUint32_loop (format_u n @ CHR ''.'' # str) 0 field 0 ip =
    StringIPtoUint32_loop str 0 (field + 1) 0 (ip OR push_bit (field * 8) (of_nat n))"
  using parse_number [OF assms, of "CHR ''.'' # str" field ip] parse_dot [OF _ assms]
  by (metis unat_0 less_irrefl)

lemma parse_last:
  assumes "n < 256"
  shows "StringIPtoUint32_loop (format_u n) 0 3 0 ip = Some (ip OR push_bit 24 (of_nat n))"
proof -
  obtain k where "0 < unat k" "StringIPtoUint32_loop (format_u n @ []) 0 3 0 ip = StringIPtoUint32_loop [] k 3 (of_nat n) ip"
    using parse_number [OF assms] by blast
  then show ?thesis using small_val [OF assms] by (auto simp: StringIPtoUint32_loop.simps)
qed

lemma digit_not_space: "d < 10 \<Longrightarrow> \<not> wx_isspace (char_of (48 + d :: nat))"
  by (simp add: wx_isspace_def)

lemma format_u_digits: "c \<in> set (format_u n) \<Longrightarrow> \<not> wx_isspace c"
proof (induction n rule: format_u.induct)
  case (1 n)
  then show ?case
    using digit_not_space [of n] digit_not_space [of "n mod 10"]
    by (cases "n < 10") (auto simp: format_u.simps [of n])
qed

lemma dropWhile_none: "(\<And>c. c \<in> set s \<Longrightarrow> \<not> P c) \<Longrightarrow> dropWhile P s = s"
  by (cases s) auto

lemma Strip_both_id: "(\<And>c. c \<in> set s \<Longrightarrow> \<not> wx_isspace c) \<Longrightarrow> Strip_both s = s"
  using dropWhile_none [of s wx_isspace] dropWhile_none [of "rev s" wx_isspace]
  by (simp add: Strip_both_def)

lemma StringIP_round_trip: "StringIPtoUint32 (Uint32toStringIP ip) = Some ip"
proof -
  have "Strip_both (Uint32toStringIP ip) = Uint32toStringIP ip"
    by (rule Strip_both_id) (auto simp: Uint32toStringIP_def wx_isspace_def dest: format_u_digits)
  then show ?thesis
    using word_octets [of ip]
    by (simp add: StringIPtoUint32_def Uint32toStringIP_def parse_field parse_last [unfolded numeral_3_eq_3] or.assoc)
qed

subsection \<open>Classes by their quads\<close>

definition quad :: "u32 \<Rightarrow> nat \<Rightarrow> u8" where
  "quad ip k = ucast (drop_bit (8 * k) ip)"

lemma octet_quad: "octet ip k = unat (quad ip k)"
  by (simp add: octet_def quad_def)

lemma masked_bytewise:
  "(ip XOR a) AND m = 0 \<longleftrightarrow>
     (quad ip 0 XOR quad a 0) AND quad m 0 = 0 \<and> (quad ip 1 XOR quad a 1) AND quad m 1 = 0 \<and>
     (quad ip 2 XOR quad a 2) AND quad m 2 = 0 \<and> (quad ip 3 XOR quad a 3) AND quad m 3 = 0"
proof -
  let ?x = "(ip XOR a) AND m"
  have q: "(quad ip k XOR quad a k) AND quad m k = quad ?x k" for k
    by (rule bit_word_eqI) (auto simp: quad_def bit_simps)
  have "?x = 0 \<longleftrightarrow> quad ?x 0 = 0 \<and> quad ?x 1 = 0 \<and> quad ?x 2 = 0 \<and> quad ?x 3 = 0"
  proof
    assume "quad ?x 0 = 0 \<and> quad ?x 1 = 0 \<and> quad ?x 2 = 0 \<and> quad ?x 3 = 0"
    then have "octet ?x 0 = 0" "octet ?x 1 = 0" "octet ?x 2 = 0" "octet ?x 3 = 0"
      by (simp_all add: octet_quad)
    with unat_octets [of ?x] show "?x = 0" by (simp add: unat_eq_zero)
  qed (simp add: quad_def)
  then show ?thesis by (simp only: q)
qed

lemma high_bits_zero:
  "x AND push_bit k (mask (8 - k)) = 0 \<longleftrightarrow> drop_bit k (x::u8) = 0" if "k \<le> 8"
proof -
  have "drop_bit k x = drop_bit k (x AND push_bit k (mask (8 - k)))"
    by (rule bit_word_eqI) (auto simp: bit_simps dest: bit_imp_le_length)
  moreover have "x AND push_bit k (mask (8 - k)) = push_bit k (drop_bit k x)"
    by (rule bit_word_eqI) (use that in \<open>auto simp: bit_simps dest: bit_imp_le_length\<close>)
  ultimately show ?thesis by (metis drop_bit_of_0 push_bit_of_0)
qed

lemma word_xor_eq_0: "x XOR y = 0 \<longleftrightarrow> x = (y :: 'a::len word)"
  by (auto simp: bit_eq_iff bit_xor_iff)

lemma high_bits_range:
  assumes "k \<le> 8"
  shows "(w XOR a) AND push_bit k (mask (8 - k)) = 0 \<longleftrightarrow> unat (w::u8) div 2 ^ k = unat a div 2 ^ k"
proof -
  have "drop_bit k (w XOR a) = 0 \<longleftrightarrow> drop_bit k w = drop_bit k a"
    by (simp add: word_xor_eq_0)
  also have "\<dots> \<longleftrightarrow> unat w div 2 ^ k = unat a div 2 ^ k"
    by (simp only: word_unat_eq_iff unsigned_drop_bit_eq) (simp add: drop_bit_eq_div take_bit_nat_eq_self)
  finally show ?thesis by (simp only: high_bits_zero [OF assms])
qed

lemma quad_masks:
  "(w XOR a) AND 0xff = 0 \<longleftrightarrow> w = (a::u8)"
  "(w XOR a) AND 0xf0 = 0 \<longleftrightarrow> unat w div 16 = unat a div 16"
  "(w XOR a) AND 0xfe = 0 \<longleftrightarrow> unat w div 2 = unat a div 2"
proof -
  have m: "(0xff :: u8) = push_bit 0 (mask (8 - 0))" "(0xf0 :: u8) = push_bit 4 (mask (8 - 4))"
    "(0xfe :: u8) = push_bit 1 (mask (8 - 1))"
    by (simp_all add: mask_eq_exp_minus_1)
  show "(w XOR a) AND 0xff = 0 \<longleftrightarrow> w = a"
    unfolding m high_bits_range [OF le0] by (simp add: word_unat_eq_iff)
  show "(w XOR a) AND 0xf0 = 0 \<longleftrightarrow> unat w div 16 = unat a div 16"
    using high_bits_range [of 4 w a] unfolding m by simp
  show "(w XOR a) AND 0xfe = 0 \<longleftrightarrow> unat w div 2 = unat a div 2"
    using high_bits_range [of 1 w a] unfolding m by simp
qed

lemma div_range: "0 < k \<Longrightarrow> n div k = (q::nat) \<longleftrightarrow> k * q \<le> n \<and> n < k * q + k"
  using div_nat_eqI [of k q n] dividend_less_times_div [of k n] div_times_less_eq_dividend [of n k]
  by (auto simp: algebra_simps)

lemma octet_eq: "octet ip k = n \<longleftrightarrow> quad ip k = of_nat n" if "n < 256"
  using that by (simp add: octet_quad word_unat_eq_iff unat_of_nat_small)

lemma in_ranges_simps [simp]:
  "\<not> in_ranges [] ip"
  "in_ranges ((a, m) # rs) ip \<longleftrightarrow> (ip XOR a) AND m = 0 \<or> in_ranges rs ip"
  by (auto simp: in_ranges_def)

lemma quad_of_nat: "quad ip k = of_nat (unat ip div 2 ^ (8 * k) mod 256)"
proof (rule word_eq_of_nat)
  show "unat (quad ip k) = unat ip div 2 ^ (8 * k) mod 256"
    unfolding quad_def unsigned_ucast_eq unsigned_drop_bit_eq
    by (simp add: drop_bit_eq_div take_bit_eq_mod)
qed

lemmas quad_numeral = quad_of_nat [of "numeral n" for n] quad_of_nat [of 0]

lemma IsLanIP_quads:
  "IsLanIP ip \<longleftrightarrow> octet ip 0 = 10 \<or> octet ip 0 = 172 \<and> octet ip 1 \<in> {16..31} \<or>
     octet ip 0 = 192 \<and> octet ip 1 = 168"
  unfolding IsLanIP_def lan_ranges_def in_ranges_simps masked_bytewise
  by (auto simp: quad_numeral quad_masks octet_eq octet_quad [symmetric] div_range)

lemma block_8:
  "(ip XOR 0x00000000) AND 0x000000ff = 0 \<longleftrightarrow> octet ip 0 = 0"
  "(ip XOR 0x00000027) AND 0x000000ff = 0 \<longleftrightarrow> octet ip 0 = 39"
  "(ip XOR 0x0000007f) AND 0x000000ff = 0 \<longleftrightarrow> octet ip 0 = 127"
  unfolding masked_bytewise
  by (simp_all add: quad_numeral quad_masks quad_masks(1) [of _ 0, simplified] word_xor_eq_0 octet_eq)

lemma block_16:
  "(ip XOR 0x00000080) AND 0x0000ffff = 0 \<longleftrightarrow> octet ip 0 = 128 \<and> octet ip 1 = 0"
  "(ip XOR 0x0000fea9) AND 0x0000ffff = 0 \<longleftrightarrow> octet ip 0 = 169 \<and> octet ip 1 = 254"
  "(ip XOR 0x0000ffbf) AND 0x0000ffff = 0 \<longleftrightarrow> octet ip 0 = 191 \<and> octet ip 1 = 255"
  unfolding masked_bytewise
  by (simp_all add: quad_numeral quad_masks quad_masks(1) [of _ 0, simplified] word_xor_eq_0 octet_eq)

lemma block_24:
  "(ip XOR 0x000000c0) AND 0x00ffffff = 0 \<longleftrightarrow> octet ip 0 = 192 \<and> octet ip 1 = 0 \<and> octet ip 2 = 0"
  "(ip XOR 0x000200c0) AND 0x00ffffff = 0 \<longleftrightarrow> octet ip 0 = 192 \<and> octet ip 1 = 0 \<and> octet ip 2 = 2"
  "(ip XOR 0x006358c0) AND 0x00ffffff = 0 \<longleftrightarrow> octet ip 0 = 192 \<and> octet ip 1 = 88 \<and> octet ip 2 = 99"
  "(ip XOR 0x00ffffdf) AND 0x00ffffff = 0 \<longleftrightarrow> octet ip 0 = 223 \<and> octet ip 1 = 255 \<and> octet ip 2 = 255"
  unfolding masked_bytewise
  by (simp_all add: quad_numeral quad_masks quad_masks(1) [of _ 0, simplified] word_xor_eq_0 octet_eq)

lemma block_partial:
  "(ip XOR 0x000012c6) AND 0x0000feff = 0 \<longleftrightarrow> octet ip 0 = 198 \<and> 18 \<le> octet ip 1 \<and> octet ip 1 < 20"
  "(ip XOR 0x000000e0) AND 0x000000f0 = 0 \<longleftrightarrow> 224 \<le> octet ip 0 \<and> octet ip 0 < 240"
  "(ip XOR 0x000000f0) AND 0x000000f0 = 0 \<longleftrightarrow> 240 \<le> octet ip 0 \<and> octet ip 0 < 256"
  unfolding masked_bytewise
  by (simp_all add: quad_numeral quad_masks octet_eq octet_quad [symmetric] div_range)

lemma reserved_quads:
  "in_ranges reserved_ranges ip \<longleftrightarrow>
     octet ip 0 \<in> {0, 39, 127} \<or> octet ip 0 = 128 \<and> octet ip 1 = 0 \<or>
     octet ip 0 = 169 \<and> octet ip 1 = 254 \<or> octet ip 0 = 191 \<and> octet ip 1 = 255 \<or>
     octet ip 0 = 192 \<and> octet ip 1 = 0 \<and> octet ip 2 \<in> {0, 2} \<or>
     octet ip 0 = 192 \<and> octet ip 1 = 88 \<and> octet ip 2 = 99 \<or>
     octet ip 0 = 198 \<and> octet ip 1 \<in> {18, 19} \<or>
     octet ip 0 = 223 \<and> octet ip 1 = 255 \<and> octet ip 2 = 255 \<or>
     octet ip 0 \<in> {224..255}"
proof -
  have "octet ip 1 \<in> {18, 19} \<longleftrightarrow> 18 \<le> octet ip 1 \<and> octet ip 1 < 20" by auto
  moreover have "octet ip 0 \<in> {224..255} \<longleftrightarrow> 224 \<le> octet ip 0 \<and> octet ip 0 < 240 \<or> 240 \<le> octet ip 0 \<and> octet ip 0 < 256"
    using octet_lt [of ip 0] unfolding atLeastAtMost_iff by linarith
  moreover have "\<not> in_ranges [] ip" by simp
  ultimately show ?thesis
    unfolding reserved_ranges_def in_ranges_simps(2) block_8 block_16 block_24 block_partial insert_iff empty_iff
    by argo
qed

subsection \<open>Properties\<close>

text \<open>Printing an address as a dotted quad and parsing it gives the address back.\<close>

theorem StringIPtoUint32_Uint32toStringIP:
  "StringIPtoUint32 (Uint32toStringIP ip) = Some ip"
  by (rule StringIP_round_trip)

text \<open>An address is good exactly when it is outside the reserved blocks of the table, written as
  dotted quads, and, when local networks are filtered, outside the private ones.\<close>

theorem IsGoodIP_quads:
  "IsGoodIP ip filterLAN \<longleftrightarrow>
     \<not> (octet ip 0 \<in> {0, 39, 127} \<or> octet ip 0 = 128 \<and> octet ip 1 = 0 \<or>
        octet ip 0 = 169 \<and> octet ip 1 = 254 \<or> octet ip 0 = 191 \<and> octet ip 1 = 255 \<or>
        octet ip 0 = 192 \<and> octet ip 1 = 0 \<and> octet ip 2 \<in> {0, 2} \<or>
        octet ip 0 = 192 \<and> octet ip 1 = 88 \<and> octet ip 2 = 99 \<or>
        octet ip 0 = 198 \<and> octet ip 1 \<in> {18, 19} \<or>
        octet ip 0 = 223 \<and> octet ip 1 = 255 \<and> octet ip 2 = 255 \<or>
        octet ip 0 \<in> {224..255}) \<and>
     \<not> (filterLAN \<and> (octet ip 0 = 10 \<or> octet ip 0 = 172 \<and> octet ip 1 \<in> {16..31} \<or>
        octet ip 0 = 192 \<and> octet ip 1 = 168))"
  unfolding IsGoodIP_def reserved_quads IsLanIP_quads by (rule refl)

end
