(* ===== verification/MemFile.thy ===== *)
theory MemFile
  imports ArchSpecific
begin

text \<open>
  Files as the core sees them: the operations of \<open>CFileDataIO\<close> that a kind of file has to
  provide (src/amule-3.0.1/src/SafeFile.h) and \<open>CMemFile\<close>, the file in memory that packets are
  read from and written to (src/amule-3.0.1/src/MemFile.h and MemFile.cpp).

  An operation maps the state of a file to a result and a new state, or to an exception and the
  state at the throw: what a failed operation did to the file stays visible. Memory that
  \<open>realloc\<close> adds has arbitrary contents, and \<open>realloc\<close> may fail; both are given by the
  record \<open>heap\<close>.
\<close>

subsection \<open>Operations that may throw\<close>

datatype ('s, 'a) res = Ok 'a 's | Exc mule_exception 's

type_synonym ('s, 'a) io = "'s \<Rightarrow> ('s, 'a) res"

definition io_return :: "'a \<Rightarrow> ('s, 'a) io" where
  "io_return x = Ok x"

definition io_throw :: "mule_exception \<Rightarrow> ('s, 'a) io" where
  "io_throw e = Exc e"

definition io_bind :: "('s, 'a) io \<Rightarrow> ('a \<Rightarrow> ('s, 'b) io) \<Rightarrow> ('s, 'b) io" where
  "io_bind m f s = (case m s of Ok x t \<Rightarrow> f x t | Exc e t \<Rightarrow> Exc e t)"

text \<open>\<open>MULE_VALIDATE_PARAMS\<close> and \<open>MULE_VALIDATE_STATE\<close>.\<close>

definition io_check :: "bool \<Rightarrow> mule_exception \<Rightarrow> ('s, unit) io" where
  "io_check c e = (if c then io_return () else io_throw e)"

lemma io_simps [simp]:
  "io_bind (io_return x) f = f x"
  "io_bind (io_throw e) f = io_throw e"
  "io_bind (io_bind m f) g = io_bind m (\<lambda>x. io_bind (f x) g)"
  "io_check True e = io_return ()"
  "io_check False e = io_throw e"
  by (auto simp: io_bind_def io_return_def io_throw_def io_check_def fun_eq_iff split: res.splits)

lemma io_bind_Ok: "m s = Ok x t \<Longrightarrow> io_bind m f s = f x t"
  by (simp add: io_bind_def)

lemma io_bind_Exc: "m s = Exc e t \<Longrightarrow> io_bind m f s = Exc e t"
  by (simp add: io_bind_def)

text \<open>The virtual functions of \<open>CFileDataIO\<close>. A read returns the bytes it read, a write the number
  of bytes it wrote.\<close>

record 's file_ops =
  doRead :: "nat \<Rightarrow> ('s, u8 list) io"
  doWrite :: "u8 list \<Rightarrow> ('s, nat) io"
  doSeek :: "int \<Rightarrow> ('s, int) io"
  GetPosition :: "'s \<Rightarrow> nat"
  GetLength :: "'s \<Rightarrow> nat"

subsection \<open>The file in memory\<close>

record heap =
  alloc_ok :: "nat \<Rightarrow> bool"
  fresh_byte :: "nat \<Rightarrow> u8"

record memfile =
  m_buffer :: "u8 list"
  m_fileSize :: nat
  m_growthRate :: nat
  m_position :: nat
  m_delete :: bool
  m_readonly :: bool

definition CMemFile_new :: "nat \<Rightarrow> memfile" where
  "CMemFile_new growthRate =
     \<lparr>m_buffer = [], m_fileSize = 0, m_growthRate = growthRate, m_position = 0,
      m_delete = True, m_readonly = False\<rparr>"

definition CMemFile_attach :: "u8 list \<Rightarrow> memfile" where
  "CMemFile_attach buffer =
     \<lparr>m_buffer = buffer, m_fileSize = length buffer, m_growthRate = 0, m_position = 0,
      m_delete = False, m_readonly = False\<rparr>"

definition CMemFile_const :: "u8 list \<Rightarrow> memfile" where
  "CMemFile_const buffer = (CMemFile_attach buffer)\<lparr>m_readonly := True\<rparr>"

text \<open>\<open>m_BufferSize\<close> is the length of the buffer.\<close>

definition m_BufferSize :: "memfile \<Rightarrow> nat" where
  "m_BufferSize f = length (m_buffer f)"

definition enlargeBuffer :: "heap \<Rightarrow> nat \<Rightarrow> (memfile, unit) io" where
  "enlargeBuffer h n f =
     (if \<not> m_BufferSize f \<le> n then Exc CInvalidParamsEx f
      else if \<not> m_delete f then Exc CInvalidStateEx f
      else if m_readonly f then Exc CInvalidStateEx f
      else let newsize = (if m_growthRate f \<noteq> 0
                          then ((n + m_growthRate f - 1) div m_growthRate f) * m_growthRate f else n)
           in if alloc_ok h newsize
              then Ok () (f\<lparr>m_buffer := m_buffer f @ map (fresh_byte h) [m_BufferSize f..<newsize]\<rparr>)
              else Exc CInvalidStateEx f)"

definition SetLength :: "heap \<Rightarrow> nat \<Rightarrow> (memfile, unit) io" where
  "SetLength h newLen f =
     (if m_readonly f then Exc CInvalidStateEx f
      else io_bind (if newLen > m_BufferSize f then enlargeBuffer h newLen else io_return ())
             (\<lambda>_ f. Ok () (f\<lparr>m_position := min (m_position f) newLen, m_fileSize := newLen\<rparr>)) f)"

definition mem_read :: "nat \<Rightarrow> (memfile, u8 list) io" where
  "mem_read count f =
     (if m_position f > m_fileSize f then Ok [] f
      else let count = (if m_position f + count > m_fileSize f then m_fileSize f - m_position f else count)
           in Ok (take count (drop (m_position f) (m_buffer f))) (f\<lparr>m_position := m_position f + count\<rparr>))"

definition mem_write :: "heap \<Rightarrow> u8 list \<Rightarrow> (memfile, nat) io" where
  "mem_write h data f =
     (if m_readonly f then Exc CInvalidStateEx f
      else io_bind (if m_position f + length data > m_BufferSize f
                    then enlargeBuffer h (m_position f + length data) else io_return ())
        (\<lambda>_ f. if \<not> m_position f + length data \<le> m_BufferSize f then Exc CInvalidStateEx f
              else let pos = m_position f + length data
                   in Ok (length data)
                        (f\<lparr>m_buffer := take (m_position f) (m_buffer f) @ data @ drop pos (m_buffer f),
                           m_position := pos, m_fileSize := max (m_fileSize f) pos\<rparr>)) f)"

definition mem_seek :: "int \<Rightarrow> (memfile, int) io" where
  "mem_seek offset f = (if \<not> offset \<ge> 0 then Exc CInvalidParamsEx f else Ok offset (f\<lparr>m_position := nat offset\<rparr>))"

definition ResetData :: "memfile \<Rightarrow> memfile" where
  "ResetData f =
     (if m_readonly f then f
      else f\<lparr>m_buffer := replicate (m_BufferSize f) 0, m_fileSize := 0, m_position := 0\<rparr>)"

definition GetAvailable :: "memfile \<Rightarrow> int" where
  "GetAvailable f = int (m_fileSize f) - int (m_position f)"

definition mem_ops :: "heap \<Rightarrow> memfile file_ops" where
  "mem_ops h = \<lparr>doRead = mem_read, doWrite = mem_write h, doSeek = mem_seek,
     GetPosition = m_position, GetLength = m_fileSize\<rparr>"

subsection \<open>The class invariant\<close>

definition mem_inv :: "memfile \<Rightarrow> bool" where
  "mem_inv f \<longleftrightarrow> m_fileSize f \<le> m_BufferSize f"

definition mem_content :: "memfile \<Rightarrow> u8 list" where
  "mem_content f = take (m_fileSize f) (m_buffer f)"

lemma length_mem_content [simp]: "mem_inv f \<Longrightarrow> length (mem_content f) = m_fileSize f"
  by (simp add: mem_inv_def mem_content_def m_BufferSize_def)

lemma newsize_ge: "(n::nat) \<le> (if g \<noteq> 0 then (n + g - 1) div g * g else n)"
proof (cases "g = 0")
  case False
  have "n + g - 1 = (n + g - 1) div g * g + (n + g - 1) mod g" by simp
  moreover have "(n + g - 1) mod g < g" using False by simp
  ultimately have "n < (n + g - 1) div g * g + 1" using False by linarith
  with False show ?thesis by simp
qed simp

lemma enlargeBuffer_Ok:
  assumes "enlargeBuffer h n f = Ok x f'"
  obtains extra where "f' = f\<lparr>m_buffer := m_buffer f @ extra\<rparr>" "n \<le> m_BufferSize f'"
proof -
  define new where "new = (if m_growthRate f \<noteq> 0 then (n + m_growthRate f - 1) div m_growthRate f * m_growthRate f else n)"
  have f': "f' = f\<lparr>m_buffer := m_buffer f @ map (fresh_byte h) [m_BufferSize f..<new]\<rparr>"
    using assms by (auto simp: enlargeBuffer_def Let_def new_def split: if_splits)
  have "n \<le> new" unfolding new_def by (rule newsize_ge)
  also have "new \<le> m_BufferSize f'" by (simp add: f' m_BufferSize_def)
  finally show thesis using that f' by blast
qed

lemma enlargeBuffer_total:
  assumes "\<And>n. alloc_ok h n" "m_BufferSize f \<le> n" "m_delete f" "\<not> m_readonly f"
  obtains f' where "enlargeBuffer h n f = Ok () f'"
  using assms that by (auto simp: enlargeBuffer_def Let_def)

lemma enlargeBuffer_Exc: "enlargeBuffer h n f = Exc e f' \<Longrightarrow> f' = f"
  by (auto simp: enlargeBuffer_def Let_def split: if_splits)

text \<open>Every read returns what the file has from the position on, at most the requested count.\<close>

lemma mem_read_eq:
  assumes "mem_inv f" "m_position f \<le> m_fileSize f"
  shows "mem_read n f = Ok (take n (drop (m_position f) (mem_content f)))
    (f\<lparr>m_position := min (m_position f + n) (m_fileSize f)\<rparr>)"
proof -
  have "take (if m_position f + n > m_fileSize f then m_fileSize f - m_position f else n) (drop (m_position f) (m_buffer f)) =
      take n (drop (m_position f) (mem_content f))"
    using assms by (auto simp: mem_content_def drop_take min_def mem_inv_def m_BufferSize_def)
  moreover have "m_position f + (if m_position f + n > m_fileSize f then m_fileSize f - m_position f else n) =
      min (m_position f + n) (m_fileSize f)"
    using assms(2) by auto
  ultimately show ?thesis using assms(2) by (simp add: mem_read_def Let_def)
qed

lemma mem_write_fits:
  assumes "mem_inv f" "\<not> m_readonly f" "m_position f + length bs \<le> m_BufferSize f"
  shows "mem_write h bs f = Ok (length bs)
    (f\<lparr>m_buffer := take (m_position f) (m_buffer f) @ bs @ drop (m_position f + length bs) (m_buffer f),
       m_position := m_position f + length bs, m_fileSize := max (m_fileSize f) (m_position f + length bs)\<rparr>)"
  using assms by (simp add: mem_write_def Let_def io_return_def io_bind_def)

text \<open>Writing where the position is not behind the end of the file overwrites and appends.\<close>

lemma mem_write_eq:
  assumes heap: "\<And>n. alloc_ok h n" and f: "mem_inv f" "m_delete f" "\<not> m_readonly f" "m_position f \<le> m_fileSize f"
  shows "\<exists>f'. mem_write h bs f = Ok (length bs) f' \<and> mem_inv f' \<and> m_delete f' \<and> \<not> m_readonly f' \<and>
    m_position f' = m_position f + length bs \<and> m_position f' \<le> m_fileSize f' \<and>
    mem_content f' = take (m_position f) (mem_content f) @ bs @ drop (m_position f + length bs) (mem_content f)"
proof -
  let ?p = "m_position f + length bs"
  obtain g extra where g: "(if ?p > m_BufferSize f then enlargeBuffer h ?p else io_return ()) f = Ok () g"
    "g = f\<lparr>m_buffer := m_buffer f @ extra\<rparr>" "?p \<le> m_BufferSize g"
  proof (cases "?p > m_BufferSize f")
    case True
    then obtain g where g: "enlargeBuffer h ?p f = Ok () g"
      using enlargeBuffer_total [OF heap, of f ?p] f by auto
    then obtain extra where "g = f\<lparr>m_buffer := m_buffer f @ extra\<rparr>" "?p \<le> m_BufferSize g"
      by (rule enlargeBuffer_Ok)
    then show ?thesis by (rule that [rotated]) (simp add: True g)
  next
    case False
    then show ?thesis using that [of f "[]"] by (simp add: io_return_def)
  qed
  let ?f' = "g\<lparr>m_buffer := take (m_position f) (m_buffer g) @ bs @ drop ?p (m_buffer g),
      m_position := ?p, m_fileSize := max (m_fileSize f) ?p\<rparr>"
  have "mem_write h bs f = Ok (length bs) ?f'"
    using f(3) g(3) unfolding mem_write_def io_bind_def g(1) by (simp add: g(2) Let_def)
  moreover have inv: "mem_inv ?f'"
    using f(1) g(2,3) by (auto simp: mem_inv_def m_BufferSize_def)
  moreover have "mem_content ?f' = take (m_position f) (mem_content f) @ bs @ drop ?p (mem_content f)"
    using f(1,4) g(2,3)
    by (auto simp: mem_content_def mem_inv_def m_BufferSize_def drop_take min_def max_def)
  ultimately show ?thesis using f g(2) by (intro exI [of _ ?f']) auto
qed

subsection \<open>Properties\<close>

text \<open>What an operation leaves behind, whether it returns or throws.\<close>

primrec res_state :: "('s, 'a) res \<Rightarrow> 's" where
  "res_state (Ok x s) = s"
| "res_state (Exc e s) = s"

primrec threw :: "('s, 'a) res \<Rightarrow> bool" where
  "threw (Ok x s) = False"
| "threw (Exc e s) = True"

lemma grow_cases:
  assumes "mem_inv f"
  obtains e where "(if c then enlargeBuffer h n else io_return ()) f = Exc e f"
  | extra where "(if c then enlargeBuffer h n else io_return ()) f = Ok () (f\<lparr>m_buffer := m_buffer f @ extra\<rparr>)"
      "\<not> c \<or> n \<le> length (m_buffer f @ extra)"
proof (cases c)
  case True
  show ?thesis
  proof (cases "enlargeBuffer h n f")
    case (Ok x g)
    from enlargeBuffer_Ok [OF this] obtain extra
      where "g = f\<lparr>m_buffer := m_buffer f @ extra\<rparr>" "n \<le> m_BufferSize g" .
    then show ?thesis using True Ok by (intro that(2) [of extra]) (auto simp: m_BufferSize_def)
  next
    case (Exc e g)
    then show ?thesis using True enlargeBuffer_Exc [OF Exc] by (intro that(1) [of e]) simp
  qed
next
  case False
  then show ?thesis using that(2) [of "[]"] by (simp add: io_return_def)
qed



end
