(* ===== verification/SafeFile.thy ===== *)
theory SafeFile
  imports MemFile UInt128
begin

text \<open>
  \<open>CFileDataIO\<close> (src/amule-3.0.1/src/SafeFile.h and SafeFile.cpp): typed reading and writing on
  top of the virtual functions of a file. Every function takes the file's operations; the
  results for integers hold on hosts of either byte order, because reading the raw bytes and
  swapping them on a big-endian host is \<open>le_join\<close> (\<open>swap_on_be_join\<close>), and writing is
  \<open>le_split\<close>.

  Text conversion is done by wxWidgets: the record \<open>codec\<close> holds the conversions from and to
  UTF-8, from and to Latin-1, and to the encoding of the user's locale (\<open>unicode2char\<close>). A
  string that the code hands over as a C string ends at its first zero byte.

  \<open>emits\<close> and \<open>parses\<close> say that an operation appends given bytes, or consumes them and
  returns a value. The locale \<open>byte_source\<close> is the contract of a file that is read,
  \<open>byte_stream\<close> that of a file that is also written; under them the typed operations are
  inverse to each other, and \<open>CMemFile\<close> is shown to satisfy them. Counts handed to
  \<open>Read\<close> and \<open>Write\<close> are below $2^{31}$, where the comparison with \<open>(signed)count\<close>
  is that of the numbers.
\<close>

subsection \<open>Text\<close>

type_synonym wxstring = "nat list"

record codec =
  UTF82unicode :: "u8 list \<Rightarrow> wxstring"
  unicode2UTF8 :: "wxstring \<Rightarrow> u8 list option"
  from_latin1 :: "u8 list \<Rightarrow> wxstring"
  to_latin1 :: "wxstring \<Rightarrow> u8 list option"
  unicode2char :: "wxstring \<Rightarrow> u8 list option"

datatype EUtf8Str = utf8strNone | utf8strOptBOM | utf8strRaw

definition c_str :: "u8 list \<Rightarrow> u8 list" where
  "c_str bs = takeWhile (\<lambda>b. b \<noteq> 0) bs"

definition BOMHeader :: "u8 list" where
  "BOMHeader = [0xEF, 0xBB, 0xBF]"

definition CHECK_BOM :: "u8 list \<Rightarrow> bool" where
  "CHECK_BOM x \<longleftrightarrow> length x \<ge> 3 \<and> x ! 0 = 0xEF \<and> x ! 1 = 0xBB \<and> x ! 2 = 0xBF"

subsection \<open>Reading\<close>

definition Eof :: "'s file_ops \<Rightarrow> 's \<Rightarrow> bool" where
  "Eof V s \<longleftrightarrow> GetPosition V s \<ge> GetLength V s"

definition Read :: "'s file_ops \<Rightarrow> nat \<Rightarrow> ('s, u8 list) io" where
  "Read V count =
     io_bind (doRead V count) (\<lambda>data.
       if length data = count then io_return data
       else (\<lambda>s. if Eof V s then Exc CEOFException s else Exc CIOFailureException s))"

datatype wxSeekMode = wxFromStart | wxFromCurrent | wxFromEnd

definition Seek :: "'s file_ops \<Rightarrow> int \<Rightarrow> wxSeekMode \<Rightarrow> ('s, int) io" where
  "Seek V offset from_mode s =
     (let newpos = (case from_mode of
          wxFromStart \<Rightarrow> offset
        | wxFromCurrent \<Rightarrow> int (GetPosition V s) + offset
        | wxFromEnd \<Rightarrow> int (GetLength V s) + offset)
      in io_bind (io_check (newpos \<ge> 0) CInvalidParamsEx) (\<lambda>_.
         io_bind (doSeek V newpos) (\<lambda>result.
         io_bind (io_check (result \<ge> 0) CInvalidStateEx) (\<lambda>_.
         io_bind (io_check (result = newpos) CInvalidStateEx) (\<lambda>_.
         io_return result)))) s)"

definition ReadUInt8 :: "'s file_ops \<Rightarrow> ('s, u8) io" where
  "ReadUInt8 V = io_bind (Read V 1) (\<lambda>b. io_return (le_join b))"

definition ReadUInt16 :: "'s file_ops \<Rightarrow> ('s, u16) io" where
  "ReadUInt16 V = io_bind (Read V 2) (\<lambda>b. io_return (le_join b))"

definition ReadUInt32 :: "'s file_ops \<Rightarrow> ('s, u32) io" where
  "ReadUInt32 V = io_bind (Read V 4) (\<lambda>b. io_return (le_join b))"

definition ReadUInt64 :: "'s file_ops \<Rightarrow> ('s, u64) io" where
  "ReadUInt64 V = io_bind (Read V 8) (\<lambda>b. io_return (le_join b))"

fun ReadUInt128_loop :: "'s file_ops \<Rightarrow> nat list \<Rightarrow> CUInt128 \<Rightarrow> ('s, CUInt128) io" where
  "ReadUInt128_loop V [] x = io_return x"
| "ReadUInt128_loop V (i # is) x =
     io_bind (ReadUInt32 V) (\<lambda>w. ReadUInt128_loop V is (Set32BitChunk i w x))"

definition ReadUInt128 :: "'s file_ops \<Rightarrow> ('s, CUInt128) io" where
  "ReadUInt128 V = ReadUInt128_loop V [0, 1, 2, 3] (CUInt128_fill False)"

definition ReadHash :: "'s file_ops \<Rightarrow> ('s, u8 list) io" where
  "ReadHash V = Read V 16"

text \<open>A float is its 32-bit pattern.\<close>

definition ReadFloat :: "'s file_ops \<Rightarrow> ('s, u32) io" where
  "ReadFloat V = io_bind (Read V 4) (\<lambda>b. io_return (le_join b))"

definition ReadBsob :: "'s file_ops \<Rightarrow> ('s, u8 list) io" where
  "ReadBsob V = io_bind (ReadUInt8 V) (\<lambda>puSize. Read V (unat puSize))"

definition decode_string :: "codec \<Rightarrow> bool \<Rightarrow> u8 list \<Rightarrow> wxstring" where
  "decode_string K bOptUTF8 val =
     (if CHECK_BOM val then UTF82unicode K (c_str (drop 3 val))
      else if bOptUTF8 then
        let str = UTF82unicode K (c_str val) in if str = [] then from_latin1 K val else str
      else from_latin1 K val)"

definition ReadOnlyString :: "'s file_ops \<Rightarrow> codec \<Rightarrow> bool \<Rightarrow> u16 \<Rightarrow> ('s, wxstring) io" where
  "ReadOnlyString V K bOptUTF8 raw_len =
     io_bind (Read V (unat raw_len)) (\<lambda>val. io_return (decode_string K bOptUTF8 val))"

definition ReadString :: "'s file_ops \<Rightarrow> codec \<Rightarrow> bool \<Rightarrow> nat \<Rightarrow> bool \<Rightarrow> ('s, wxstring) io" where
  "ReadString V K bOptUTF8 SizeLen SafeRead =
     io_bind (if SizeLen = 2 then io_bind (ReadUInt16 V) (\<lambda>w. io_return (unat w))
              else if SizeLen = 4 then io_bind (ReadUInt32 V) (\<lambda>w. io_return (unat w))
              else io_throw CInvalidParamsEx) (\<lambda>readLen s.
       let readLen = (if SafeRead \<and> GetPosition V s \<le> GetLength V s
                      then min readLen (GetLength V s - GetPosition V s) else readLen)
       in ReadOnlyString V K bOptUTF8 (of_nat readLen) s)"

subsection \<open>Writing\<close>

definition Write :: "'s file_ops \<Rightarrow> u8 list \<Rightarrow> ('s, unit) io" where
  "Write V data =
     io_bind (doWrite V data) (\<lambda>n. if n \<noteq> length data then io_throw CIOFailureException else io_return ())"

definition WriteUInt8 :: "'s file_ops \<Rightarrow> u8 \<Rightarrow> ('s, unit) io" where
  "WriteUInt8 V w = Write V (le_split 1 w)"

definition WriteUInt16 :: "'s file_ops \<Rightarrow> u16 \<Rightarrow> ('s, unit) io" where
  "WriteUInt16 V w = Write V (le_split 2 w)"

definition WriteUInt32 :: "'s file_ops \<Rightarrow> u32 \<Rightarrow> ('s, unit) io" where
  "WriteUInt32 V w = Write V (le_split 4 w)"

definition WriteUInt64 :: "'s file_ops \<Rightarrow> u64 \<Rightarrow> ('s, unit) io" where
  "WriteUInt64 V w = Write V (le_split 8 w)"

fun WriteUInt128_loop :: "'s file_ops \<Rightarrow> nat list \<Rightarrow> CUInt128 \<Rightarrow> ('s, unit) io" where
  "WriteUInt128_loop V [] x = io_return ()"
| "WriteUInt128_loop V (i # is) x =
     io_bind (WriteUInt32 V (Get32BitChunk x i)) (\<lambda>_. WriteUInt128_loop V is x)"

definition WriteUInt128 :: "'s file_ops \<Rightarrow> CUInt128 \<Rightarrow> ('s, unit) io" where
  "WriteUInt128 V x = WriteUInt128_loop V [0, 1, 2, 3] x"

definition WriteHash :: "'s file_ops \<Rightarrow> u8 list \<Rightarrow> ('s, unit) io" where
  "WriteHash V hash = Write V hash"

definition WriteFloat :: "'s file_ops \<Rightarrow> u32 \<Rightarrow> ('s, unit) io" where
  "WriteFloat V w = Write V (le_split 4 w)"

definition WriteBsob :: "'s file_ops \<Rightarrow> u8 list \<Rightarrow> ('s, unit) io" where
  "WriteBsob V data = io_bind (WriteUInt8 V (of_nat (length data))) (\<lambda>_. Write V data)"

definition WriteStringCore :: "'s file_ops \<Rightarrow> u8 list option \<Rightarrow> EUtf8Str \<Rightarrow> nat \<Rightarrow> ('s, unit) io" where
  "WriteStringCore V s eEncode SizeLen =
     (let data = (case s of None \<Rightarrow> [] | Some b \<Rightarrow> c_str b);
          sLength = length data;
          bom = (if eEncode = utf8strOptBOM then 3 else 0);
          real_length = sLength + bom;
          cut = (SizeLen = 2 \<and> real_length > 0xFFFF);
          real_length = (if cut then 0xFFFF else real_length);
          sLength = (if cut then real_length - bom else sLength)
      in io_bind (if SizeLen = 0 then io_return ()
                  else if SizeLen = 2 then WriteUInt16 V (of_nat real_length)
                  else if SizeLen = 4 then WriteUInt32 V (of_nat real_length)
                  else io_throw CInvalidParamsEx) (\<lambda>_.
         io_bind (if eEncode = utf8strOptBOM then Write V BOMHeader else io_return ()) (\<lambda>_.
         if sLength \<noteq> 0 then Write V (take sLength data) else io_return ())))"

definition WriteString :: "'s file_ops \<Rightarrow> codec \<Rightarrow> wxstring \<Rightarrow> EUtf8Str \<Rightarrow> nat \<Rightarrow> ('s, unit) io" where
  "WriteString V K str eEncode SizeLen =
     (case (if eEncode = utf8strNone then None else unicode2UTF8 K str) of
        Some s \<Rightarrow> WriteStringCore V (Some s) eEncode SizeLen
      | None \<Rightarrow> WriteStringCore V (to_latin1 K str) utf8strNone SizeLen)"

subsection \<open>Appending and consuming bytes\<close>

definition emits :: "('s \<Rightarrow> bool) \<Rightarrow> ('s \<Rightarrow> u8 list) \<Rightarrow> ('s \<Rightarrow> nat) \<Rightarrow> ('s, unit) io \<Rightarrow> u8 list \<Rightarrow> bool" where
  "emits ok content pos w bs \<longleftrightarrow>
     (\<forall>s. ok s \<and> pos s = length (content s) \<longrightarrow>
        (\<exists>s'. w s = Ok () s' \<and> ok s' \<and> content s' = content s @ bs \<and> pos s' = length (content s')))"

definition parses :: "('s \<Rightarrow> bool) \<Rightarrow> ('s \<Rightarrow> u8 list) \<Rightarrow> ('s \<Rightarrow> nat) \<Rightarrow> ('s, 'a) io \<Rightarrow> u8 list \<Rightarrow> 'a \<Rightarrow> bool" where
  "parses ok content pos r bs x \<longleftrightarrow>
     (\<forall>s rest. ok s \<and> pos s \<le> length (content s) \<and> drop (pos s) (content s) = bs @ rest \<longrightarrow>
        (\<exists>s'. r s = Ok x s' \<and> ok s' \<and> content s' = content s \<and> pos s' = pos s + length bs))"

lemma emitsD:
  "emits ok content pos w bs \<Longrightarrow> ok s \<Longrightarrow> pos s = length (content s) \<Longrightarrow>
     \<exists>s'. w s = Ok () s' \<and> ok s' \<and> content s' = content s @ bs \<and> pos s' = length (content s')"
  by (auto simp: emits_def)

lemma parsesD:
  "parses ok content pos r bs x \<Longrightarrow> ok s \<Longrightarrow> pos s \<le> length (content s) \<Longrightarrow>
     drop (pos s) (content s) = bs @ rest \<Longrightarrow>
     \<exists>s'. r s = Ok x s' \<and> ok s' \<and> content s' = content s \<and> pos s' = pos s + length bs"
  by (auto simp: parses_def)

lemma emits_return [simp]: "emits ok content pos (io_return ()) []"
  by (simp add: emits_def io_return_def)

lemma emits_bind:
  assumes "emits ok content pos m as" "emits ok content pos (f ()) bs"
  shows "emits ok content pos (io_bind m f) (as @ bs)"
  unfolding emits_def
proof (intro allI impI)
  fix s assume s: "ok s \<and> pos s = length (content s)"
  obtain t where t: "m s = Ok () t" "ok t" "content t = content s @ as" "pos t = length (content t)"
    using emitsD [OF assms(1)] s by blast
  from emitsD [OF assms(2) t(2,4)] t(1,3)
  show "\<exists>s'. io_bind m f s = Ok () s' \<and> ok s' \<and> content s' = content s @ as @ bs \<and> pos s' = length (content s')"
    by (auto simp: io_bind_def)
qed

lemma parses_return [simp]: "parses ok content pos (io_return x) [] x"
  by (simp add: parses_def io_return_def)

lemma parses_bind:
  assumes "parses ok content pos m as x" "parses ok content pos (f x) bs y"
  shows "parses ok content pos (io_bind m f) (as @ bs) y"
  unfolding parses_def
proof (intro allI impI)
  fix s rest assume s: "ok s \<and> pos s \<le> length (content s) \<and> drop (pos s) (content s) = (as @ bs) @ rest"
  then obtain t where t: "m s = Ok x t" "ok t" "content t = content s" "pos t = pos s + length as"
    using parsesD [OF assms(1), of s "bs @ rest"] by auto
  have "length (content s) - pos s = length ((as @ bs) @ rest)" using s by (metis length_drop)
  then have "pos t \<le> length (content t)" using t s by auto
  moreover have "drop (pos t) (content t) = bs @ rest"
    using s t by (metis append.assoc append_eq_conv_conj drop_drop add.commute)
  ultimately obtain u where "f x t = Ok y u" "ok u" "content u = content t" "pos u = pos t + length bs"
    using parsesD [OF assms(2) t(2)] by blast
  with t show "\<exists>s'. io_bind m f s = Ok y s' \<and> ok s' \<and> content s' = content s \<and> pos s' = pos s + length (as @ bs)"
    by (auto simp: io_bind_def)
qed

lemma parses_map: "parses ok content pos m bs x \<Longrightarrow> parses ok content pos (io_bind m (\<lambda>y. io_return (f y))) bs (f x)"
  using parses_bind [of ok content pos m bs x "\<lambda>y. io_return (f y)" "[]"] by simp

text \<open>A writer and a reader that fit together: the reader consumes exactly what the writer appends.\<close>

definition roundtrips ::
  "('s \<Rightarrow> bool) \<Rightarrow> ('s \<Rightarrow> u8 list) \<Rightarrow> ('s \<Rightarrow> nat) \<Rightarrow> ('s, unit) io \<Rightarrow> ('s, 'a) io \<Rightarrow> 'a \<Rightarrow> bool" where
  "roundtrips ok content pos w r x \<longleftrightarrow> (\<exists>bs. emits ok content pos w bs \<and> parses ok content pos r bs x)"

lemma roundtripsI:
  "emits ok content pos w bs \<Longrightarrow> parses ok content pos r bs x \<Longrightarrow> roundtrips ok content pos w r x"
  by (auto simp: roundtrips_def)

lemma roundtrips_return [simp]: "roundtrips ok content pos (io_return ()) (io_return x) x"
  by (rule roundtripsI [OF emits_return parses_return])

lemma roundtrips_bind:
  "roundtrips ok content pos w r x \<Longrightarrow> roundtrips ok content pos (f ()) (g x) y \<Longrightarrow>
   roundtrips ok content pos (io_bind w f) (io_bind r g) y"
  unfolding roundtrips_def by (metis emits_bind parses_bind)

lemma roundtrips_map:
  "roundtrips ok content pos w r x \<Longrightarrow> roundtrips ok content pos w (io_bind r (\<lambda>y. io_return (f y))) (f x)"
  unfolding roundtrips_def by (metis parses_map)

subsection \<open>The contract of a file\<close>

definition bytes_128 :: "CUInt128 \<Rightarrow> u8 list" where
  "bytes_128 x = le_split 4 (u32_3 x) @ le_split 4 (u32_2 x) @ le_split 4 (u32_1 x) @ le_split 4 (u32_0 x)"

locale byte_source =
  fixes V :: "'s file_ops" and ok :: "'s \<Rightarrow> bool" and content :: "'s \<Rightarrow> u8 list" and pos :: "'s \<Rightarrow> nat"
  assumes position: "ok s \<Longrightarrow> GetPosition V s = pos s"
    and size_law: "ok s \<Longrightarrow> GetLength V s = length (content s)"
    and read_law: "ok s \<Longrightarrow> pos s \<le> length (content s) \<Longrightarrow>
      \<exists>s'. doRead V n s = Ok (take n (drop (pos s) (content s))) s' \<and> ok s' \<and> content s' = content s \<and>
        pos s' = min (pos s + n) (length (content s))"
    and seek_law: "ok s \<Longrightarrow> k \<le> length (content s) \<Longrightarrow>
      \<exists>s'. doSeek V (int k) s = Ok (int k) s' \<and> ok s' \<and> content s' = content s \<and> pos s' = k"
begin

lemma parses_Read: "n = length bs \<Longrightarrow> parses ok content pos (Read V n) bs bs"
  unfolding parses_def
proof (intro allI impI)
  fix s rest assume n: "n = length bs"
    and s: "ok s \<and> pos s \<le> length (content s) \<and> drop (pos s) (content s) = bs @ rest"
  then have "length (content s) - pos s = length (bs @ rest)" by (metis length_drop)
  moreover obtain s' where "doRead V n s = Ok bs s'" "ok s'" "content s' = content s"
    "pos s' = min (pos s + n) (length (content s))"
    using read_law [of s n] s n by auto
  ultimately show "\<exists>s'. Read V n s = Ok bs s' \<and> ok s' \<and> content s' = content s \<and> pos s' = pos s + length bs"
    using n s by (auto simp: Read_def io_bind_def io_return_def)
qed

lemma Read_eof:
  assumes "ok s" "pos s \<le> length (content s)" "length (content s) < pos s + n"
  shows "\<exists>s'. Read V n s = Exc CEOFException s' \<and> ok s' \<and> content s' = content s \<and> pos s' = length (content s)"
proof -
  obtain s' where s': "doRead V n s = Ok (take n (drop (pos s) (content s))) s'" "ok s'"
    "content s' = content s" "pos s' = min (pos s + n) (length (content s))"
    using read_law [OF assms(1,2)] by blast
  have "length (take n (drop (pos s) (content s))) \<noteq> n" using assms by auto
  moreover have "Eof V s'" using s' position [OF s'(2)] size_law [OF s'(2)] assms(3) by (simp add: Eof_def)
  ultimately show ?thesis using s' assms(3) by (auto simp: Read_def io_bind_def io_return_def)
qed

lemma Seek_start:
  assumes "ok s" "k \<le> length (content s)"
  shows "\<exists>s'. Seek V (int k) wxFromStart s = Ok (int k) s' \<and> ok s' \<and> content s' = content s \<and> pos s' = k"
  using seek_law [OF assms] by (auto simp: Seek_def Let_def io_bind_def io_check_def io_return_def)

lemma parses_le:
  fixes w :: "'a::len word"
  assumes "LENGTH('a) = 8 * n"
  shows "parses ok content pos (io_bind (Read V n) (\<lambda>b. io_return (le_join b))) (le_split n w) w"
  using parses_map [OF parses_Read [of n "le_split n w"], of "le_join :: u8 list \<Rightarrow> 'a word"] assms by simp

lemma parses_ints:
  "parses ok content pos (ReadUInt8 V) (le_split 1 a) a"
  "parses ok content pos (ReadUInt16 V) (le_split 2 b) b"
  "parses ok content pos (ReadUInt32 V) (le_split 4 c) c"
  "parses ok content pos (ReadUInt64 V) (le_split 8 d) d"
  "parses ok content pos (ReadFloat V) (le_split 4 c) c"
  unfolding ReadUInt8_def ReadUInt16_def ReadUInt32_def ReadUInt64_def ReadFloat_def
  by (rule parses_le, simp)+

lemma parses_128: "parses ok content pos (ReadUInt128 V) (bytes_128 x) x"
proof -
  have "CUInt128 (u32_0 x) (u32_1 x) (u32_2 x) (u32_3 x) = x" by (cases x) simp
  then have "Set32BitChunk 3 (u32_0 x) (Set32BitChunk 2 (u32_1 x) (Set32BitChunk 1 (u32_2 x)
      (Set32BitChunk 0 (u32_3 x) (CUInt128_fill False)))) = x"
    by (simp add: Set32BitChunk_def CUInt128_fill_def)
  then show ?thesis
    unfolding ReadUInt128_def bytes_128_def ReadUInt128_loop.simps
    by (metis (no_types, lifting) append_Nil2 parses_bind parses_ints(3) parses_return)
qed

lemma parses_Hash: "length bs = 16 \<Longrightarrow> parses ok content pos (ReadHash V) bs bs"
  unfolding ReadHash_def by (rule parses_Read) simp

lemma parses_Bsob: "length bs < 256 \<Longrightarrow> parses ok content pos (ReadBsob V) (le_split 1 (of_nat (length bs) :: u8) @ bs) bs"
  unfolding ReadBsob_def
  by (rule parses_bind [OF parses_ints(1)]) (rule parses_Read, simp add: unat_of_nat_small)

lemma parses_OnlyString:
  "length d < 65536 \<Longrightarrow> parses ok content pos (ReadOnlyString V K opt (of_nat (length d))) d (decode_string K opt d)"
  unfolding ReadOnlyString_def by (rule parses_map [OF parses_Read]) (simp add: unat_of_nat_small)

lemma parses_String:
  assumes "length d < 65536"
  shows "parses ok content pos (ReadString V K opt 2 False)
    (le_split 2 (of_nat (length d) :: u16) @ d) (decode_string K opt d)"
proof -
  have "parses ok content pos (io_bind (ReadUInt16 V) (ReadOnlyString V K opt))
      (le_split 2 (of_nat (length d) :: u16) @ d) (decode_string K opt d)"
    by (rule parses_bind [OF parses_ints(2)]) (rule parses_OnlyString [OF assms])
  then show ?thesis by (simp add: ReadString_def)
qed

end

text \<open>The bytes of a string under an encoding, as \<open>WriteString\<close> chooses it.\<close>

definition string_bytes :: "codec \<Rightarrow> wxstring \<Rightarrow> EUtf8Str \<Rightarrow> u8 list" where
  "string_bytes K str enc =
     (case (if enc = utf8strNone then None else unicode2UTF8 K str) of
        Some u \<Rightarrow> (if enc = utf8strOptBOM then BOMHeader else []) @ c_str u
      | None \<Rightarrow> (case to_latin1 K str of None \<Rightarrow> [] | Some b \<Rightarrow> c_str b))"

text \<open>A file that can be written to.\<close>

locale byte_stream = byte_source +
  assumes write_law: "ok s \<Longrightarrow> pos s = length (content s) \<Longrightarrow>
      \<exists>s'. doWrite V bs s = Ok (length bs) s' \<and> ok s' \<and> content s' = content s @ bs \<and>
        pos s' = length (content s')"
begin

lemma emits_Write: "emits ok content pos (Write V bs) bs"
  unfolding emits_def
proof (intro allI impI)
  fix s assume "ok s \<and> pos s = length (content s)"
  then obtain s' where "doWrite V bs s = Ok (length bs) s'" "ok s'" "content s' = content s @ bs" "pos s' = length (content s')"
    using write_law by blast
  then show "\<exists>s'. Write V bs s = Ok () s' \<and> ok s' \<and> content s' = content s @ bs \<and> pos s' = length (content s')"
    by (simp add: Write_def io_bind_def io_return_def)
qed

lemma emits_ints:
  "emits ok content pos (WriteUInt8 V a) (le_split 1 a)"
  "emits ok content pos (WriteUInt16 V b) (le_split 2 b)"
  "emits ok content pos (WriteUInt32 V c) (le_split 4 c)"
  "emits ok content pos (WriteUInt64 V d) (le_split 8 d)"
  "emits ok content pos (WriteFloat V c) (le_split 4 c)"
  "emits ok content pos (WriteHash V bs) bs"
  unfolding WriteUInt8_def WriteUInt16_def WriteUInt32_def WriteUInt64_def WriteFloat_def WriteHash_def
  by (rule emits_Write)+

lemma emits_128: "emits ok content pos (WriteUInt128 V x) (bytes_128 x)"
proof -
  have "emits ok content pos (WriteUInt128 V x)
      (le_split 4 (u32_3 x) @ le_split 4 (u32_2 x) @ le_split 4 (u32_1 x) @ le_split 4 (u32_0 x) @ [])"
    unfolding WriteUInt128_def WriteUInt128_loop.simps Get32BitChunk_def
    by (intro emits_bind emits_return) (simp_all add: emits_ints)
  then show ?thesis by (simp add: bytes_128_def)
qed

lemma emits_Bsob: "emits ok content pos (WriteBsob V bs) (le_split 1 (of_nat (length bs) :: u8) @ bs)"
  unfolding WriteBsob_def by (rule emits_bind [OF emits_ints(1) emits_Write])

lemma emits_StringCore:
  assumes "d = (if enc = utf8strOptBOM then BOMHeader else []) @ (case u of None \<Rightarrow> [] | Some b \<Rightarrow> c_str b)"
  shows "emits ok content pos (WriteStringCore V u enc 2)
      (le_split 2 (of_nat (min (length d) 0xFFFF) :: u16) @ take 0xFFFF d)"
    and "emits ok content pos (WriteStringCore V u enc 0) d"
proof -
  let ?b = "case u of None \<Rightarrow> [] | Some b \<Rightarrow> c_str b"
  let ?h = "if enc = utf8strOptBOM then BOMHeader else []"
  let ?w = "\<lambda>n. io_bind (if enc = utf8strOptBOM then Write V BOMHeader else io_return ())
      (\<lambda>_. if n \<noteq> 0 then Write V (take n ?b) else io_return ())"
  have body: "emits ok content pos (?w n) (?h @ take n ?b)" for n
    by (rule emits_bind) (simp_all add: emits_Write)
  have len: "length ?b + (if enc = utf8strOptBOM then 3 else 0) = length d"
    using assms by (simp add: BOMHeader_def)
  show "emits ok content pos (WriteStringCore V u enc 0) d"
    using body [of "length ?b"] unfolding WriteStringCore_def Let_def len
    by (simp add: assms split del: if_split cong: if_cong)
  show "emits ok content pos (WriteStringCore V u enc 2)
      (le_split 2 (of_nat (min (length d) 0xFFFF) :: u16) @ take 0xFFFF d)"
  proof (cases "65535 < length d")
    case True
    then have "take 0xFFFF d = ?h @ take (65535 - (if enc = utf8strOptBOM then 3 else 0)) ?b"
      by (simp add: assms BOMHeader_def)
    then show ?thesis
      using True emits_bind [OF emits_ints(2) [of "of_nat 65535"], of "\<lambda>_. ?w (65535 - (if enc = utf8strOptBOM then 3 else 0))", OF body]
      unfolding WriteStringCore_def Let_def len by (simp add: split del: if_split cong: if_cong)
  next
    case False
    then have cut: "((2::nat) = 2 \<and> 65535 < length d) = False" by simp
    show ?thesis
      using False emits_bind [OF emits_ints(2) [of "of_nat (length d)"], of "\<lambda>_. ?w (length ?b)", OF body]
      unfolding WriteStringCore_def Let_def len cut if_False by (simp add: assms min_def split del: if_split cong: if_cong)
  qed
qed

lemma emits_String:
  shows "emits ok content pos (WriteString V K str enc 2)
      (le_split 2 (of_nat (min (length (string_bytes K str enc)) 0xFFFF) :: u16) @ take 0xFFFF (string_bytes K str enc))"
      (is ?two)
    and "emits ok content pos (WriteString V K str enc 0) (string_bytes K str enc)" (is ?zero)
proof -
  obtain u e where ue: "WriteString V K str enc = WriteStringCore V u e"
    "string_bytes K str enc = (if e = utf8strOptBOM then BOMHeader else []) @
      (case u of None \<Rightarrow> [] | Some b \<Rightarrow> c_str b)"
  proof (cases "if enc = utf8strNone then None else unicode2UTF8 K str")
    case None
    then show ?thesis using that [of "to_latin1 K str" utf8strNone]
      by (simp add: WriteString_def string_bytes_def fun_eq_iff)
  next
    case (Some u)
    then show ?thesis using that [of "Some u" enc] by (simp add: WriteString_def string_bytes_def fun_eq_iff)
  qed
  show ?two ?zero unfolding ue(1) using emits_StringCore [OF ue(2)] by simp_all
qed

text \<open>Whatever was appended to a file and is read back from where it was appended.\<close>

lemma write_then_read:
  assumes w: "emits ok content pos w bs" and r: "parses ok content pos r bs x"
    and s: "ok s" "pos s = length (content s)"
  shows "\<exists>s' s''. w s = Ok () s' \<and> io_bind (Seek V (int (pos s)) wxFromStart) (\<lambda>_. r) s' = Ok x s'' \<and>
    ok s'' \<and> content s' = content s @ bs \<and> content s'' = content s' \<and> pos s'' = length (content s'')"
proof -
  obtain s1 where s1: "w s = Ok () s1" "ok s1" "content s1 = content s @ bs" "pos s1 = length (content s1)"
    using emitsD [OF w s] by blast
  obtain s2 where s2: "Seek V (int (pos s)) wxFromStart s1 = Ok (int (pos s)) s2" "ok s2"
    "content s2 = content s1" "pos s2 = pos s"
    using Seek_start [OF s1(2), of "pos s"] s1(3) s(2) by auto
  obtain s3 where "r s2 = Ok x s3" "ok s3" "content s3 = content s2" "pos s3 = pos s2 + length bs"
    using parsesD [OF r s2(2), of "[]"] s1(3) s2(3,4) s(2) by auto
  with s1 s2 s(2) show ?thesis by (auto simp: io_bind_Ok)
qed

lemma rt_ints:
  "roundtrips ok content pos (WriteUInt8 V a) (ReadUInt8 V) a"
  "roundtrips ok content pos (WriteUInt16 V b) (ReadUInt16 V) b"
  "roundtrips ok content pos (WriteUInt32 V c) (ReadUInt32 V) c"
  "roundtrips ok content pos (WriteUInt64 V d) (ReadUInt64 V) d"
  "roundtrips ok content pos (WriteFloat V c) (ReadFloat V) c"
  by (rule roundtripsI; rule emits_ints parses_ints)+

lemma rt_Write: "n = length bs \<Longrightarrow> roundtrips ok content pos (Write V bs) (Read V n) bs"
  by (rule roundtripsI [OF emits_Write parses_Read])

lemma rt_Hash: "length bs = 16 \<Longrightarrow> roundtrips ok content pos (WriteHash V bs) (ReadHash V) bs"
  by (rule roundtripsI [OF emits_ints(6) parses_Hash])

lemma rt_Bsob: "length bs < 256 \<Longrightarrow> roundtrips ok content pos (WriteBsob V bs) (ReadBsob V) bs"
  by (rule roundtripsI [OF emits_Bsob parses_Bsob])

lemma rt_String:
  assumes "length (string_bytes K str enc) \<le> 0xFFFF"
  shows "roundtrips ok content pos (WriteString V K str enc 2) (ReadString V K opt 2 False)
    (decode_string K opt (string_bytes K str enc))"
  using emits_String(1) [of K str enc] parses_String [of "string_bytes K str enc" K opt] assms
  by (intro roundtripsI) (auto simp: min_def)

end

subsection \<open>Memory files satisfy the contract\<close>

text \<open>A heap on which every allocation succeeds.\<close>

definition total_heap :: "(nat \<Rightarrow> u8) \<Rightarrow> heap" where
  "total_heap g = \<lparr>alloc_ok = \<lambda>_. True, fresh_byte = g\<rparr>"

definition mem_open :: "memfile \<Rightarrow> bool" where
  "mem_open f \<longleftrightarrow> mem_inv f \<and> m_delete f \<and> \<not> m_readonly f"

lemma mem_ops_sel [simp]:
  "doRead (mem_ops h) = mem_read" "doWrite (mem_ops h) = mem_write h" "doSeek (mem_ops h) = mem_seek"
  "GetPosition (mem_ops h) = m_position" "GetLength (mem_ops h) = m_fileSize"
  by (simp_all add: mem_ops_def)

lemma mem_content_move [simp]:
  "mem_content (f\<lparr>m_position := p\<rparr>) = mem_content f" "mem_inv (f\<lparr>m_position := p\<rparr>) = mem_inv f"
  "mem_open (f\<lparr>m_position := p\<rparr>) = mem_open f"
  by (simp_all add: mem_content_def mem_inv_def mem_open_def m_BufferSize_def)

interpretation mem_in: byte_source "mem_ops h" mem_inv mem_content m_position for h
  by unfold_locales (auto simp: mem_read_eq mem_seek_def)

lemma mem_append:
  assumes "mem_open f" "m_position f = length (mem_content f)"
  shows "\<exists>f'. mem_write (total_heap g) bs f = Ok (length bs) f' \<and> mem_open f' \<and>
    mem_content f' = mem_content f @ bs \<and> m_position f' = length (mem_content f')"
proof -
  have "m_position f = m_fileSize f" using assms by (simp add: mem_open_def)
  with mem_write_eq [of "total_heap g" f bs] assms show ?thesis
    by (auto simp: mem_open_def total_heap_def)
qed

interpretation mem: byte_stream "mem_ops (total_heap g)" mem_open mem_content m_position for g
  by unfold_locales (auto simp: mem_read_eq mem_seek_def mem_append, auto simp: mem_open_def mem_read_eq)

lemma mem_open_new [simp]:
  "mem_open (CMemFile_new n)" "mem_content (CMemFile_new n) = []" "m_position (CMemFile_new n) = 0" "m_fileSize (CMemFile_new n) = 0"
  by (simp_all add: mem_open_def mem_inv_def mem_content_def CMemFile_new_def)

lemma mem_write_then_read:
  assumes "emits mem_open mem_content m_position w bs" "parses mem_open mem_content m_position r bs x"
    "mem_open f" "m_position f = m_fileSize f"
  shows "\<exists>f' f''. w f = Ok () f' \<and>
    io_bind (Seek (mem_ops (total_heap g)) (int (m_position f)) wxFromStart) (\<lambda>_. r) f' = Ok x f'' \<and>
    mem_content f' = mem_content f @ bs \<and> mem_content f'' = mem_content f' \<and> m_position f'' = m_fileSize f''"
proof -
  have l: "mem_open h \<Longrightarrow> length (mem_content h) = m_fileSize h" for h by (simp add: mem_open_def)
  then have "m_position f = length (mem_content f)" using assms by simp
  from mem.write_then_read [OF assms(1-3) this, of g] show ?thesis using l by metis
qed

subsection \<open>Properties\<close>

text \<open>One value of every fixed-size type, written and read in the same order.\<close>

definition write_all :: "'s file_ops \<Rightarrow> u8 \<times> u16 \<times> u32 \<times> u64 \<times> CUInt128 \<times> u8 list \<times> u32 \<times> u8 list \<Rightarrow> ('s, unit) io" where
  "write_all V = (\<lambda>(a, b, c, d, x, hash, fl, bsob).
     io_bind (WriteUInt8 V a) (\<lambda>_. io_bind (WriteUInt16 V b) (\<lambda>_. io_bind (WriteUInt32 V c) (\<lambda>_.
     io_bind (WriteUInt64 V d) (\<lambda>_. io_bind (WriteUInt128 V x) (\<lambda>_. io_bind (WriteHash V hash) (\<lambda>_.
     io_bind (WriteFloat V fl) (\<lambda>_. WriteBsob V bsob))))))))"

definition read_all :: "'s file_ops \<Rightarrow> ('s, u8 \<times> u16 \<times> u32 \<times> u64 \<times> CUInt128 \<times> u8 list \<times> u32 \<times> u8 list) io" where
  "read_all V =
     io_bind (ReadUInt8 V) (\<lambda>a. io_bind (ReadUInt16 V) (\<lambda>b. io_bind (ReadUInt32 V) (\<lambda>c.
     io_bind (ReadUInt64 V) (\<lambda>d. io_bind (ReadUInt128 V) (\<lambda>x. io_bind (ReadHash V) (\<lambda>hash.
     io_bind (ReadFloat V) (\<lambda>fl. io_bind (ReadBsob V) (\<lambda>bsob.
       io_return (a, b, c, d, x, hash, fl, bsob)))))))))"

text \<open>C30: integers of every width, a 128-bit number, a hash, a float and a small binary object
  written one after the other at the end of a memory file, and read again in the same order from
  where they were written, are returned unchanged, and reading them stops at the end of the file.
  What the file held before is kept.\<close>

theorem typed_roundtrip:
  assumes "mem_open f" "m_position f = m_fileSize f" "length hash = 16" "length bsob < 256"
    and V: "V = mem_ops (total_heap g)"
  shows "\<exists>f' f''. write_all V (a, b, c, d, x, hash, fl, bsob) f = Ok () f' \<and>
    io_bind (Seek V (int (m_position f)) wxFromStart) (\<lambda>_. read_all V) f' = Ok (a, b, c, d, x, hash, fl, bsob) f'' \<and>
    mem_content f'' = mem_content f' \<and> take (m_fileSize f) (mem_content f'') = mem_content f \<and>
    m_position f'' = m_fileSize f''"
proof -
  let ?b = "le_split 1 a @ le_split 2 b @ le_split 4 c @ le_split 8 d @ bytes_128 x @ hash @ le_split 4 fl @
    (le_split 1 (of_nat (length bsob) :: u8) @ bsob)"
  have w: "emits mem_open mem_content m_position (write_all V (a, b, c, d, x, hash, fl, bsob)) ?b"
    unfolding V write_all_def prod.case
    by (intro emits_bind mem.emits_ints mem.emits_128 mem.emits_Bsob)
  have "parses mem_open mem_content m_position (read_all V) (le_split 1 a @ le_split 2 b @ le_split 4 c @ le_split 8 d @
      bytes_128 x @ hash @ le_split 4 fl @ (le_split 1 (of_nat (length bsob) :: u8) @ bsob) @ [])
      (a, b, c, d, x, hash, fl, bsob)"
    unfolding V read_all_def
    by (rule parses_bind, rule mem.parses_ints mem.parses_128 mem.parses_Hash [OF assms(3)]
        mem.parses_Bsob [OF assms(4)])+ (rule parses_return)
  then have r: "parses mem_open mem_content m_position (read_all V) ?b (a, b, c, d, x, hash, fl, bsob)" by simp
  have "length (mem_content f) = m_fileSize f" using assms(1) by (simp add: mem_open_def)
  then show ?thesis using mem_write_then_read [OF w r assms(1,2), of g] unfolding V by fastforce
qed

theorem typed_roundtrip_witness:
  "\<exists>f' f''. write_all (mem_ops (total_heap (\<lambda>_. 0))) (1, 0x1234, 3, 4, CUInt128_fill True, replicate 16 7, 5, [8, 9])
      (CMemFile_new 0) = Ok () f' \<and>
    io_bind (Seek (mem_ops (total_heap (\<lambda>_. 0))) 0 wxFromStart) (\<lambda>_. read_all (mem_ops (total_heap (\<lambda>_. 0)))) f' =
      Ok (1, 0x1234, 3, 4, CUInt128_fill True, replicate 16 7, 5, [8, 9]) f''"
  using typed_roundtrip [where f = "CMemFile_new 0" and hash = "replicate 16 7" and bsob = "[8, 9]" and g = "\<lambda>_. 0"
      and a = 1 and b = "0x1234" and c = 3 and d = 4 and x = "CUInt128_fill True" and fl = 5, OF _ _ _ _ refl]
  by auto

text \<open>What reading back a string can return: the string, if the conversion back undoes the one
  that was used, and the bytes have no zero byte.\<close>

definition decodes_back :: "codec \<Rightarrow> bool \<Rightarrow> wxstring \<Rightarrow> EUtf8Str \<Rightarrow> bool" where
  "decodes_back K bOptUTF8 str enc \<longleftrightarrow>
     (case (if enc = utf8strNone then None else unicode2UTF8 K str) of
        Some u \<Rightarrow> 0 \<notin> set u \<and> UTF82unicode K u = str \<and>
          (enc = utf8strRaw \<longrightarrow> bOptUTF8 \<and> str \<noteq> [] \<and> \<not> CHECK_BOM u)
      | None \<Rightarrow> (\<exists>b. to_latin1 K str = Some b \<and> 0 \<notin> set b \<and> from_latin1 K b = str \<and> \<not> bOptUTF8 \<and> \<not> CHECK_BOM b))"

lemma c_str_id [simp]: "0 \<notin> set u \<Longrightarrow> c_str u = u"
  by (auto simp: c_str_def takeWhile_eq_all_conv)

lemma CHECK_BOM_header [simp]: "CHECK_BOM (BOMHeader @ u)" "drop 3 BOMHeader = []" "length BOMHeader = 3"
  by (simp_all add: CHECK_BOM_def BOMHeader_def)

lemma decode_string_bytes:
  "decodes_back K opt str enc \<Longrightarrow> decode_string K opt (string_bytes K str enc) = str"
  by (cases enc)
    (auto simp: decodes_back_def decode_string_def string_bytes_def Let_def split: option.splits)

text \<open>C31: a string written with a 16-bit length, in UTF-8 with or without a byte-order mark or in
  Latin-1, is read back as the same string, when the conversions of the text library undo each
  other on it and its bytes fit the length field.\<close>

theorem string_roundtrip:
  assumes "mem_open f" "m_position f = m_fileSize f" "V = mem_ops (total_heap g)"
    "length (string_bytes K str enc) \<le> 0xFFFF" "decodes_back K bOptUTF8 str enc"
  shows "\<exists>f' f''. WriteString V K str enc 2 f = Ok () f' \<and>
    io_bind (Seek V (int (m_position f)) wxFromStart) (\<lambda>_. ReadString V K bOptUTF8 2 False) f' = Ok str f'' \<and>
    m_position f'' = m_fileSize f''"
proof -
  let ?d = "string_bytes K str enc"
  have "parses mem_open mem_content m_position (ReadString V K bOptUTF8 2 False)
      (le_split 2 (of_nat (length ?d) :: u16) @ ?d) (decode_string K bOptUTF8 ?d)"
    unfolding assms(3) by (rule mem.parses_String) (use assms(4) in simp)
  then have r: "parses mem_open mem_content m_position (ReadString V K bOptUTF8 2 False)
      (le_split 2 (of_nat (min (length ?d) 0xFFFF) :: u16) @ take 0xFFFF ?d) str"
    using assms(4) by (simp add: decode_string_bytes [OF assms(5)] min_def)
  show ?thesis
    using mem_write_then_read [OF mem.emits_String(1) r assms(1,2), of g g] unfolding assms(3) by blast
qed

text \<open>Text conversion for the 7-bit characters.\<close>

definition ascii :: codec where
  "ascii = \<lparr>UTF82unicode = map unat, unicode2UTF8 = (\<lambda>s. if \<forall>c \<in> set s. c < 128 then Some (map of_nat s) else None),
     from_latin1 = map unat, to_latin1 = (\<lambda>s. if \<forall>c \<in> set s. c < 256 then Some (map of_nat s) else None),
     unicode2char = (\<lambda>s. if \<forall>c \<in> set s. c < 128 then Some (map of_nat s) else None)\<rparr>"

theorem string_roundtrip_witness:
  "\<exists>f' f''. WriteString (mem_ops (total_heap (\<lambda>_. 0))) ascii [104, 105] utf8strOptBOM 2 (CMemFile_new 4) = Ok () f' \<and>
    io_bind (Seek (mem_ops (total_heap (\<lambda>_. 0))) 0 wxFromStart)
      (\<lambda>_. ReadString (mem_ops (total_heap (\<lambda>_. 0))) ascii False 2 False) f' = Ok [104, 105] f''"
  using string_roundtrip [of "CMemFile_new 4" _ "\<lambda>_. 0" ascii "[104, 105]" utf8strOptBOM False, OF _ _ refl]
  by (auto simp: ascii_def decodes_back_def string_bytes_def BOMHeader_def c_str_def)



text \<open>A string whose bytes do not fit the 16-bit length field is cut: exactly 0xFFFF bytes
  follow a length field of 0xFFFF, and they are the beginning of the string's bytes, so that what
  follows the string in the file stays readable.\<close>

theorem oversized_string_cut:
  assumes "mem_open f" "m_position f = m_fileSize f" "V = mem_ops (total_heap g)"
    "length (string_bytes K str enc) > 0xFFFF"
  shows "\<exists>f'. WriteString V K str enc 2 f = Ok () f' \<and>
    mem_content f' = mem_content f @ [0xFF, 0xFF] @ take 0xFFFF (string_bytes K str enc) \<and>
    m_position f' = m_fileSize f'"
proof -
  have l: "mem_open h \<Longrightarrow> length (mem_content h) = m_fileSize h" for h by (simp add: mem_open_def)
  have "le_split 2 (0xFFFF :: u16) = [0xFF, 0xFF]" by (simp add: le_split_def upt_rec)
  then obtain f' where "WriteString V K str enc 2 f = Ok () f'" "mem_open f'"
    "mem_content f' = mem_content f @ [0xFF, 0xFF] @ take 0xFFFF (string_bytes K str enc)"
    "m_position f' = length (mem_content f')"
    using emitsD [OF mem.emits_String(1) [of g K str enc], of f] assms l [of f] by auto
  then show ?thesis using l [of f'] by auto
qed

theorem oversized_string_cut_witness:
  "\<exists>f'. WriteString (mem_ops (total_heap (\<lambda>_. 0))) ascii (replicate 70000 65) utf8strNone 2 (CMemFile_new 4) = Ok () f' \<and>
     mem_content f' = [0xFF, 0xFF] @ replicate 0xFFFF 65"
proof -
  have "string_bytes ascii (replicate 70000 65) utf8strNone = replicate 70000 65"
    by (simp add: string_bytes_def ascii_def)
  with oversized_string_cut [of "CMemFile_new 4" _ "\<lambda>_. 0" ascii "replicate 70000 65" utf8strNone, OF _ _ refl]
  show ?thesis by auto
qed

text \<open>C36: a string with a 32-bit length field is read only up to its length modulo $2^{16}$: the
  count passes through the 16-bit parameter of \<open>ReadOnlyString\<close>, and the rest of the string's
  bytes is left in the file.\<close>

theorem long_string_truncated:
  assumes "mem_inv f" "m_position f \<le> m_fileSize f"
    "drop (m_position f) (mem_content f) = le_split 4 (n :: u32) @ rest" "unat n \<le> length rest"
  shows "\<exists>f'. ReadString (mem_ops h) K bOptUTF8 4 SafeRead f =
      Ok (decode_string K bOptUTF8 (take (unat n mod 65536) rest)) f' \<and>
    m_position f' = m_position f + 4 + unat n mod 65536"
proof -
  let ?k = "unat n mod 65536"
  have len: "m_fileSize f - m_position f = 4 + length rest"
    using arg_cong [OF assms(3), of length] assms(1) by simp
  obtain f1 where f1: "ReadUInt32 (mem_ops h) f = Ok n f1" "mem_inv f1" "mem_content f1 = mem_content f"
    "m_position f1 = m_position f + 4"
    using parsesD [OF mem_in.parses_ints(3) [of h n], of f rest] assms by auto
  have size: "m_fileSize f1 = m_fileSize f"
    using f1(2,3) assms(1) by (metis length_mem_content)
  have pos1: "m_position f1 \<le> m_fileSize f1" "m_fileSize f1 - m_position f1 = length rest"
    using f1(4) len assms(2) size by auto
  have "drop 4 (le_split 4 n @ rest) = rest" by simp
  then have "drop (m_position f1) (mem_content f1) = rest"
    unfolding f1(3,4) using assms(3) by (metis add.commute drop_drop)
  then have rest: "drop (m_position f1) (mem_content f1) = take ?k rest @ drop ?k rest"
    "length (take ?k rest) = ?k" "?k < 65536"
    using assms(4) by (auto simp: min_def)
  have "(of_nat (unat n) :: u16) = of_nat ?k"
    using unat_of_nat_small [of ?k, where ?'a = 16] by (simp add: word_unat_eq_iff unsigned_ucast_eq take_bit_eq_mod)
  moreover obtain f2 where "ReadOnlyString (mem_ops h) K bOptUTF8 (of_nat (length (take ?k rest))) f1 =
      Ok (decode_string K bOptUTF8 (take ?k rest)) f2" "m_position f2 = m_position f1 + ?k"
    using parsesD [OF mem_in.parses_OnlyString [of "take ?k rest" h K bOptUTF8], of f1 "drop ?k rest"]
      f1(2) rest pos1 by auto
  ultimately show ?thesis
    using f1 pos1 assms(4) rest(2)
    by (auto simp: ReadString_def io_bind_def io_return_def Let_def min_def)
qed

theorem long_string_truncated_witness:
  "\<exists>f'. ReadString (mem_ops (total_heap (\<lambda>_. 0))) ascii False 4 True
      (CMemFile_const (le_split 4 (0x10001 :: u32) @ replicate 0x10001 65)) = Ok [65] f'"
  using long_string_truncated [of "CMemFile_const (le_split 4 (0x10001 :: u32) @ replicate 0x10001 65)" "0x10001"
      "replicate 0x10001 65" "total_heap (\<lambda>_. 0)" ascii False True]
  by (auto simp: CMemFile_const_def CMemFile_attach_def mem_inv_def m_BufferSize_def mem_content_def
      decode_string_def CHECK_BOM_def ascii_def)

end
