(* ===== verification/Tag.thy ===== *)
theory Tag
  imports SafeFile
begin

text \<open>
  Metadata tags (src/amule-3.0.1/src/Tag.h, Tag.cpp, and \<open>ReadTag\<close>, \<open>WriteTag\<close> and their list
  versions in SafeFile.cpp). A tag is a typed value with a name that is a string or one byte.
  There are three wire formats: \<open>WriteTag\<close> and the reading constructor of \<open>CTag\<close> (met files),
  \<open>WriteNewEd2kTag\<close> and that constructor (compressed form, sent to servers and clients), and
  \<open>WriteTag\<close> and \<open>ReadTag\<close> (Kademlia).

  The union of \<open>CTag\<close> is the datatype \<open>tag_val\<close>; a selector applied to another member than
  the one stored has no specified value. \<open>tag_wf\<close> says that the member stored is the one the
  tag's type asks for. Floats are their bit patterns, which two of the functions transfer in the
  host's byte order, so that these take the host as an argument.
\<close>

subsection \<open>Types\<close>

definition TAGTYPE_HASH16 :: u8 where "TAGTYPE_HASH16 = 0x01"
definition TAGTYPE_STRING :: u8 where "TAGTYPE_STRING = 0x02"
definition TAGTYPE_UINT32 :: u8 where "TAGTYPE_UINT32 = 0x03"
definition TAGTYPE_FLOAT32 :: u8 where "TAGTYPE_FLOAT32 = 0x04"
definition TAGTYPE_BOOL :: u8 where "TAGTYPE_BOOL = 0x05"
definition TAGTYPE_BOOLARRAY :: u8 where "TAGTYPE_BOOLARRAY = 0x06"
definition TAGTYPE_BLOB :: u8 where "TAGTYPE_BLOB = 0x07"
definition TAGTYPE_UINT16 :: u8 where "TAGTYPE_UINT16 = 0x08"
definition TAGTYPE_UINT8 :: u8 where "TAGTYPE_UINT8 = 0x09"
definition TAGTYPE_BSOB :: u8 where "TAGTYPE_BSOB = 0x0A"
definition TAGTYPE_UINT64 :: u8 where "TAGTYPE_UINT64 = 0x0B"
definition TAGTYPE_STR1 :: u8 where "TAGTYPE_STR1 = 0x11"
definition TAGTYPE_STR16 :: u8 where "TAGTYPE_STR16 = 0x20"

lemmas tag_types = TAGTYPE_HASH16_def TAGTYPE_STRING_def TAGTYPE_UINT32_def TAGTYPE_FLOAT32_def
  TAGTYPE_BOOL_def TAGTYPE_BOOLARRAY_def TAGTYPE_BLOB_def TAGTYPE_UINT16_def TAGTYPE_UINT8_def
  TAGTYPE_BSOB_def TAGTYPE_UINT64_def TAGTYPE_STR1_def TAGTYPE_STR16_def

datatype tag_val =
    NoVal
  | IntVal (m_uVal: u64)
  | StrVal (m_pstrVal: wxstring)
  | FloatVal (m_fVal: u32)
  | HashVal (m_hashVal: "u8 list")
  | DataVal (m_pData: "u8 list")

record CTag =
  m_uType :: u8
  m_uName :: u8
  m_Name :: wxstring
  m_val :: tag_val

definition IsStr :: "CTag \<Rightarrow> bool" where "IsStr t \<longleftrightarrow> m_uType t = TAGTYPE_STRING"

definition IsInt :: "CTag \<Rightarrow> bool" where
  "IsInt t \<longleftrightarrow> m_uType t = TAGTYPE_UINT64 \<or> m_uType t = TAGTYPE_UINT32 \<or>
     m_uType t = TAGTYPE_UINT16 \<or> m_uType t = TAGTYPE_UINT8"

definition IsFloat :: "CTag \<Rightarrow> bool" where "IsFloat t \<longleftrightarrow> m_uType t = TAGTYPE_FLOAT32"
definition IsHash :: "CTag \<Rightarrow> bool" where "IsHash t \<longleftrightarrow> m_uType t = TAGTYPE_HASH16"
definition IsBlob :: "CTag \<Rightarrow> bool" where "IsBlob t \<longleftrightarrow> m_uType t = TAGTYPE_BLOB"
definition IsBsob :: "CTag \<Rightarrow> bool" where "IsBsob t \<longleftrightarrow> m_uType t = TAGTYPE_BSOB"

lemmas tag_is = IsStr_def IsInt_def IsFloat_def IsHash_def IsBlob_def IsBsob_def

subsection \<open>Constructors and accessors\<close>

datatype tag_name = NameStr wxstring | NameID u8

definition CTag_base :: "tag_name \<Rightarrow> CTag" where
  "CTag_base nm = (case nm of
     NameStr s \<Rightarrow> \<lparr>m_uType = 0, m_uName = 0, m_Name = s, m_val = IntVal 0\<rparr>
   | NameID i \<Rightarrow> \<lparr>m_uType = 0, m_uName = i, m_Name = [], m_val = IntVal 0\<rparr>)"

definition CTagIntSized_Init :: "u64 \<Rightarrow> nat \<Rightarrow> CTag \<Rightarrow> mule_exception + CTag" where
  "CTagIntSized_Init v bitsize t =
     (if bitsize = 64 then Inr (t\<lparr>m_val := IntVal v, m_uType := TAGTYPE_UINT64\<rparr>)
      else if bitsize = 32 then Inr (t\<lparr>m_val := IntVal v, m_uType := TAGTYPE_UINT32\<rparr>)
      else if bitsize = 16 then Inr (t\<lparr>m_val := IntVal v, m_uType := TAGTYPE_UINT16\<rparr>)
      else if bitsize = 8 then Inr (t\<lparr>m_val := IntVal v, m_uType := TAGTYPE_UINT8\<rparr>)
      else Inl wxString_exception)"

definition CTagVarInt_SizedInit :: "u64 \<Rightarrow> nat \<Rightarrow> CTag \<Rightarrow> mule_exception + CTag" where
  "CTagVarInt_SizedInit v forced_bits t =
     (if forced_bits \<noteq> 0 then CTagIntSized_Init v forced_bits t
      else let t = t\<lparr>m_val := IntVal v\<rparr> in
        if v \<le> 0xFF then Inr (t\<lparr>m_uType := TAGTYPE_UINT8\<rparr>)
        else if v \<le> 0xFFFF then Inr (t\<lparr>m_uType := TAGTYPE_UINT16\<rparr>)
        else if v \<le> 0xFFFFFFFF then Inr (t\<lparr>m_uType := TAGTYPE_UINT32\<rparr>)
        else Inr (t\<lparr>m_uType := TAGTYPE_UINT64\<rparr>))"

definition CTagInt64 :: "tag_name \<Rightarrow> u64 \<Rightarrow> CTag" where
  "CTagInt64 nm v = (CTag_base nm)\<lparr>m_val := IntVal v, m_uType := TAGTYPE_UINT64\<rparr>"

definition CTagInt32 :: "tag_name \<Rightarrow> u64 \<Rightarrow> CTag" where
  "CTagInt32 nm v = (CTag_base nm)\<lparr>m_val := IntVal v, m_uType := TAGTYPE_UINT32\<rparr>"

definition CTagInt16 :: "tag_name \<Rightarrow> u64 \<Rightarrow> CTag" where
  "CTagInt16 nm v = (CTag_base nm)\<lparr>m_val := IntVal v, m_uType := TAGTYPE_UINT16\<rparr>"

definition CTagInt8 :: "tag_name \<Rightarrow> u64 \<Rightarrow> CTag" where
  "CTagInt8 nm v = (CTag_base nm)\<lparr>m_val := IntVal v, m_uType := TAGTYPE_UINT8\<rparr>"

definition CTagFloat :: "tag_name \<Rightarrow> u32 \<Rightarrow> CTag" where
  "CTagFloat nm v = (CTag_base nm)\<lparr>m_val := FloatVal v, m_uType := TAGTYPE_FLOAT32\<rparr>"

definition CTagString :: "tag_name \<Rightarrow> wxstring \<Rightarrow> CTag" where
  "CTagString nm v = (CTag_base nm)\<lparr>m_val := StrVal v, m_uType := TAGTYPE_STRING\<rparr>"

definition CTagHash :: "tag_name \<Rightarrow> u8 list \<Rightarrow> CTag" where
  "CTagHash nm v = (CTag_base nm)\<lparr>m_val := HashVal v, m_uType := TAGTYPE_HASH16\<rparr>"

definition CTagBsob :: "wxstring \<Rightarrow> u8 list \<Rightarrow> CTag" where
  "CTagBsob nm v = (CTag_base (NameStr nm))\<lparr>m_val := DataVal v, m_uType := TAGTYPE_BSOB\<rparr>"

definition CTagBlob :: "wxstring \<Rightarrow> u8 list \<Rightarrow> CTag" where
  "CTagBlob nm v = (CTag_base (NameStr nm))\<lparr>m_val := DataVal v, m_uType := TAGTYPE_BLOB\<rparr>"

lemmas tag_ctors = CTagInt64_def CTagInt32_def CTagInt16_def CTagInt8_def CTagFloat_def CTagString_def
  CTagHash_def CTagBsob_def CTagBlob_def CTag_base_def

definition GetInt :: "CTag \<Rightarrow> mule_exception + u64" where
  "GetInt t = (if IsInt t then Inr (m_uVal (m_val t)) else Inl CInvalidPacket)"

definition GetStr :: "CTag \<Rightarrow> mule_exception + wxstring" where
  "GetStr t = (if IsStr t then Inr (m_pstrVal (m_val t)) else Inl CInvalidPacket)"

definition GetFloat :: "CTag \<Rightarrow> mule_exception + u32" where
  "GetFloat t = (if IsFloat t then Inr (m_fVal (m_val t)) else Inl CInvalidPacket)"

definition GetHash :: "CTag \<Rightarrow> mule_exception + u8 list" where
  "GetHash t = (if IsHash t then Inr (m_hashVal (m_val t)) else Inl CInvalidPacket)"

definition GetBlob :: "CTag \<Rightarrow> mule_exception + u8 list" where
  "GetBlob t = (if IsBlob t then Inr (m_pData (m_val t)) else Inl CInvalidPacket)"

definition GetBlobSize :: "CTag \<Rightarrow> mule_exception + u32" where
  "GetBlobSize t = (if IsBlob t then Inr (of_nat (length (m_pData (m_val t)))) else Inl CInvalidPacket)"

definition GetBsob :: "CTag \<Rightarrow> mule_exception + u8 list" where
  "GetBsob t = (if IsBsob t then Inr (m_pData (m_val t)) else Inl CInvalidPacket)"

definition GetBsobSize :: "CTag \<Rightarrow> mule_exception + u32" where
  "GetBsobSize t = (if IsBsob t then Inr (of_nat (length (m_pData (m_val t)))) else Inl CInvalidPacket)"

text \<open>The value that the copying constructor and the assignment take from another tag. The
  accessors they call cannot throw, since each is called for its own type.\<close>

definition copied_val :: "CTag \<Rightarrow> tag_val" where
  "copied_val r =
     (if IsStr r then StrVal (m_pstrVal (m_val r))
      else if IsInt r then IntVal (m_uVal (m_val r))
      else if IsFloat r then FloatVal (m_fVal (m_val r))
      else if IsHash r then HashVal (m_hashVal (m_val r))
      else if IsBlob r then DataVal (m_pData (m_val r))
      else if IsBsob r then DataVal (m_pData (m_val r))
      else IntVal 0)"

definition CTag_copy :: "CTag \<Rightarrow> CTag" where
  "CTag_copy r = \<lparr>m_uType = m_uType r, m_uName = m_uName r, m_Name = m_Name r, m_val = copied_val r\<rparr>"

text \<open>Assignment frees the pointer that the union holds before it stores a new one of the same kind.
  Freeing a member that is not such a pointer (nor null) is undefined behaviour: \<open>None\<close>. Assigning a
  tag to itself does nothing.\<close>

definition deletable :: "CTag \<Rightarrow> tag_val \<Rightarrow> bool" where
  "deletable r v = (case v of
     NoVal \<Rightarrow> True
   | IntVal i \<Rightarrow> i = 0
   | StrVal _ \<Rightarrow> IsStr r
   | HashVal _ \<Rightarrow> IsHash r
   | DataVal _ \<Rightarrow> IsBlob r \<or> IsBsob r
   | FloatVal _ \<Rightarrow> False)"

definition CTag_assign :: "CTag \<Rightarrow> CTag \<Rightarrow> CTag option" where
  "CTag_assign this r =
     (if (IsStr r \<or> IsHash r \<or> IsBlob r \<or> IsBsob r) \<and> \<not> deletable r (m_val this) then None
      else Some (this\<lparr>m_uType := m_uType r, m_uName := m_uName r, m_Name := m_Name r, m_val := copied_val r\<rparr>))"

subsection \<open>Reading\<close>

text \<open>The name part of a tag: a set high bit of the type says that one byte of name follows; otherwise
  a length follows, and a name of length one is a byte too.\<close>

definition CTag_read_head :: "'s file_ops \<Rightarrow> codec \<Rightarrow> ('s, u8 \<times> u8 \<times> wxstring) io" where
  "CTag_read_head V K =
     io_bind (ReadUInt8 V) (\<lambda>uType.
       if uType AND 0x80 \<noteq> 0 then
         io_bind (ReadUInt8 V) (\<lambda>uName. io_return (uType AND 0x7F, uName, []))
       else
         io_bind (ReadUInt16 V) (\<lambda>len.
           if len = 1 then io_bind (ReadUInt8 V) (\<lambda>uName. io_return (uType, uName, []))
           else io_bind (ReadOnlyString V K False len) (\<lambda>nm. io_return (uType, 0, nm))))"

definition CTag_read_value :: "host \<Rightarrow> 's file_ops \<Rightarrow> codec \<Rightarrow> bool \<Rightarrow> u8 \<Rightarrow> ('s, u8 \<times> tag_val) io" where
  "CTag_read_value h V K bOptUTF8 uType =
     (if uType = TAGTYPE_STRING then
        io_bind (ReadString V K bOptUTF8 2 False) (\<lambda>s. io_return (uType, StrVal s))
      else if uType = TAGTYPE_UINT32 then
        io_bind (ReadUInt32 V) (\<lambda>w. io_return (uType, IntVal (ucast w)))
      else if uType = TAGTYPE_UINT64 then
        io_bind (ReadUInt64 V) (\<lambda>w. io_return (uType, IntVal w))
      else if uType = TAGTYPE_UINT16 then
        io_bind (ReadUInt16 V) (\<lambda>w. io_return (TAGTYPE_UINT32, IntVal (ucast w)))
      else if uType = TAGTYPE_UINT8 then
        io_bind (ReadUInt8 V) (\<lambda>w. io_return (TAGTYPE_UINT32, IntVal (ucast w)))
      else if uType = TAGTYPE_FLOAT32 then
        io_bind (Read V 4) (\<lambda>b. io_return (uType, FloatVal (raw_join h b)))
      else if uType = TAGTYPE_HASH16 then
        io_bind (ReadHash V) (\<lambda>x. io_return (uType, HashVal x))
      else if uType = TAGTYPE_BOOL then
        io_bind (ReadUInt8 V) (\<lambda>_. io_return (uType, NoVal))
      else if uType = TAGTYPE_BOOLARRAY then
        io_bind (ReadUInt16 V) (\<lambda>len.
          io_bind (Seek V (int (unat len div 8) + 1) wxFromCurrent) (\<lambda>_. io_return (uType, NoVal)))
      else if uType = TAGTYPE_BLOB then
        io_bind (ReadUInt32 V) (\<lambda>nSize.
          io_bind (\<lambda>s. if GetPosition V s \<le> GetLength V s \<and> unat nSize > GetLength V s - GetPosition V s
                      then Exc CInvalidPacket s else Ok () s) (\<lambda>_.
          io_bind (Read V (unat nSize)) (\<lambda>d. io_return (uType, DataVal d))))
      else if TAGTYPE_STR1 \<le> uType \<and> uType \<le> TAGTYPE_STR16 then
        io_bind (ReadOnlyString V K bOptUTF8 (ucast (uType - TAGTYPE_STR1 + 1)))
          (\<lambda>s. io_return (TAGTYPE_STRING, StrVal s))
      else io_throw CInvalidPacket)"

definition CTag_read :: "host \<Rightarrow> 's file_ops \<Rightarrow> codec \<Rightarrow> bool \<Rightarrow> ('s, CTag) io" where
  "CTag_read h V K bOptUTF8 =
     io_bind (CTag_read_head V K) (\<lambda>(uType, uName, nm).
       io_bind (CTag_read_value h V K bOptUTF8 uType) (\<lambda>(uType, v).
         io_return \<lparr>m_uType = uType, m_uName = uName, m_Name = nm, m_val = v\<rparr>))"

definition ReadTag :: "'s file_ops \<Rightarrow> codec \<Rightarrow> bool \<Rightarrow> ('s, CTag) io" where
  "ReadTag V K bOptACP =
     io_bind (ReadUInt8 V) (\<lambda>type.
     io_bind (ReadString V K False 2 False) (\<lambda>nm.
       if type = TAGTYPE_HASH16 then io_bind (ReadHash V) (\<lambda>x. io_return (CTagHash (NameStr nm) x))
       else if type = TAGTYPE_STRING then
         io_bind (ReadString V K bOptACP 2 False) (\<lambda>s. io_return (CTagString (NameStr nm) s))
       else if type = TAGTYPE_UINT64 then io_bind (ReadUInt64 V) (\<lambda>w. io_return (CTagInt64 (NameStr nm) w))
       else if type = TAGTYPE_UINT32 then io_bind (ReadUInt32 V) (\<lambda>w. io_return (CTagInt32 (NameStr nm) (ucast w)))
       else if type = TAGTYPE_UINT16 then io_bind (ReadUInt16 V) (\<lambda>w. io_return (CTagInt16 (NameStr nm) (ucast w)))
       else if type = TAGTYPE_UINT8 then io_bind (ReadUInt8 V) (\<lambda>w. io_return (CTagInt8 (NameStr nm) (ucast w)))
       else if type = TAGTYPE_FLOAT32 then io_bind (ReadFloat V) (\<lambda>w. io_return (CTagFloat (NameStr nm) w))
       else if type = TAGTYPE_BSOB then io_bind (ReadBsob V) (\<lambda>d. io_return (CTagBsob nm d))
       else io_throw wxString_exception))"

fun ReadTagPtrList_loop :: "'s file_ops \<Rightarrow> codec \<Rightarrow> bool \<Rightarrow> nat \<Rightarrow> ('s, CTag list) io" where
  "ReadTagPtrList_loop V K bOptACP 0 = io_return []"
| "ReadTagPtrList_loop V K bOptACP (Suc n) =
     io_bind (ReadTag V K bOptACP) (\<lambda>t. io_bind (ReadTagPtrList_loop V K bOptACP n) (\<lambda>ts. io_return (t # ts)))"

definition ReadTagPtrList :: "'s file_ops \<Rightarrow> codec \<Rightarrow> bool \<Rightarrow> ('s, CTag list) io" where
  "ReadTagPtrList V K bOptACP = io_bind (ReadUInt8 V) (\<lambda>count. ReadTagPtrList_loop V K bOptACP (unat count))"

definition GetIntTagValue :: "'s file_ops \<Rightarrow> codec \<Rightarrow> ('s, u64) io" where
  "GetIntTagValue V K =
     io_bind (ReadUInt8 V) (\<lambda>type. io_bind (ReadString V K False 2 False) (\<lambda>_.
       if type = TAGTYPE_UINT64 then ReadUInt64 V
       else if type = TAGTYPE_UINT32 then io_bind (ReadUInt32 V) (\<lambda>w. io_return (ucast w))
       else if type = TAGTYPE_UINT16 then io_bind (ReadUInt16 V) (\<lambda>w. io_return (ucast w))
       else if type = TAGTYPE_UINT8 then io_bind (ReadUInt8 V) (\<lambda>w. io_return (ucast w))
       else io_throw wxString_exception))"

subsection \<open>Writing\<close>

definition GetRawSize :: "codec \<Rightarrow> wxstring \<Rightarrow> EUtf8Str \<Rightarrow> nat" where
  "GetRawSize K rstr eEncode =
     (case (if eEncode = utf8strNone then None else unicode2UTF8 K rstr) of
        Some s \<Rightarrow> (if eEncode = utf8strOptBOM then 3 else 0) + length (c_str s)
      | None \<Rightarrow> (case unicode2char K rstr of Some s \<Rightarrow> length (c_str s) | None \<Rightarrow> 0))"

definition NewEd2k_type :: "codec \<Rightarrow> EUtf8Str \<Rightarrow> CTag \<Rightarrow> u8" where
  "NewEd2k_type K eStrEncode t =
     (if IsInt t then
        let v = m_uVal (m_val t) in
        if v \<le> 0xFF then TAGTYPE_UINT8
        else if v \<le> 0xFFFF then TAGTYPE_UINT16
        else if v \<le> 0xFFFFFFFF then TAGTYPE_UINT32
        else TAGTYPE_UINT64
      else if IsStr t then
        let uStrValLen = (of_nat (GetRawSize K (m_pstrVal (m_val t)) eStrEncode) :: u16) in
        if 1 \<le> uStrValLen \<and> uStrValLen \<le> 16 then TAGTYPE_STR1 + ucast uStrValLen - 1 else TAGTYPE_STRING
      else m_uType t)"

definition WriteNewEd2k_value :: "host \<Rightarrow> 's file_ops \<Rightarrow> codec \<Rightarrow> EUtf8Str \<Rightarrow> u8 \<Rightarrow> tag_val \<Rightarrow> ('s, unit) io option" where
  "WriteNewEd2k_value h V K eStrEncode uType v =
     (if uType = TAGTYPE_STRING then Some (WriteString V K (m_pstrVal v) eStrEncode 2)
      else if uType = TAGTYPE_UINT64 then Some (WriteUInt64 V (m_uVal v))
      else if uType = TAGTYPE_UINT32 then Some (WriteUInt32 V (ucast (m_uVal v)))
      else if uType = TAGTYPE_UINT16 then Some (WriteUInt16 V (ucast (m_uVal v)))
      else if uType = TAGTYPE_UINT8 then Some (WriteUInt8 V (ucast (m_uVal v)))
      else if uType = TAGTYPE_FLOAT32 then Some (Write V (raw_split h 4 (m_fVal v)))
      else if uType = TAGTYPE_HASH16 then Some (WriteHash V (m_hashVal v))
      else if uType = TAGTYPE_BLOB then
        Some (io_bind (WriteUInt32 V (of_nat (length (m_pData v)))) (\<lambda>_. Write V (m_pData v)))
      else if TAGTYPE_STR1 \<le> uType \<and> uType \<le> TAGTYPE_STR16 then
        Some (WriteString V K (m_pstrVal v) eStrEncode 0)
      else None)"

definition WriteNewEd2k_head :: "'s file_ops \<Rightarrow> codec \<Rightarrow> u8 \<Rightarrow> CTag \<Rightarrow> ('s, unit) io" where
  "WriteNewEd2k_head V K uType t =
     (if m_Name t \<noteq> [] then io_bind (WriteUInt8 V uType) (\<lambda>_. WriteString V K (m_Name t) utf8strNone 2)
      else io_bind (WriteUInt8 V (uType OR 0x80)) (\<lambda>_. WriteUInt8 V (m_uName t)))"

definition WriteNewEd2kTag :: "host \<Rightarrow> 's file_ops \<Rightarrow> codec \<Rightarrow> EUtf8Str \<Rightarrow> CTag \<Rightarrow> ('s, bool) io" where
  "WriteNewEd2kTag h V K eStrEncode t =
     (let uType = NewEd2k_type K eStrEncode t in
      io_bind (WriteNewEd2k_head V K uType t) (\<lambda>_.
        case WriteNewEd2k_value h V K eStrEncode uType (m_val t) of
          Some w \<Rightarrow> io_bind w (\<lambda>_. io_return True)
        | None \<Rightarrow> io_return False))"

definition WriteTag_value :: "'s file_ops \<Rightarrow> codec \<Rightarrow> CTag \<Rightarrow> ('s, unit) io" where
  "WriteTag_value V K t =
     (let uType = m_uType t; v = m_val t in
        if uType = TAGTYPE_HASH16 then WriteHash V (m_hashVal v)
        else if uType = TAGTYPE_STRING then WriteString V K (m_pstrVal v) utf8strRaw 2
        else if uType = TAGTYPE_UINT64 then WriteUInt64 V (m_uVal v)
        else if uType = TAGTYPE_UINT32 then WriteUInt32 V (ucast (m_uVal v))
        else if uType = TAGTYPE_FLOAT32 then WriteFloat V (m_fVal v)
        else if uType = TAGTYPE_BSOB then WriteBsob V (take (length (m_pData v) mod 256) (m_pData v))
        else if uType = TAGTYPE_UINT16 then WriteUInt16 V (ucast (m_uVal v))
        else if uType = TAGTYPE_UINT8 then WriteUInt8 V (ucast (m_uVal v))
        else if uType = TAGTYPE_BLOB then
          io_bind (WriteUInt32 V (of_nat (length (m_pData v)))) (\<lambda>_. Write V (m_pData v))
        else io_return ())"

definition WriteTag :: "'s file_ops \<Rightarrow> codec \<Rightarrow> CTag \<Rightarrow> ('s, unit) io" where
  "WriteTag V K t =
     io_bind (io_bind (WriteUInt8 V (m_uType t)) (\<lambda>_.
        if m_Name t \<noteq> [] then WriteString V K (m_Name t) utf8strNone 2
        else io_bind (WriteUInt16 V 1) (\<lambda>_. WriteUInt8 V (m_uName t)))) (\<lambda>_.
     WriteTag_value V K t)"

definition WriteTagToFile :: "'s file_ops \<Rightarrow> codec \<Rightarrow> bool \<Rightarrow> CTag \<Rightarrow> ('s, bool) io" where
  "WriteTagToFile V K restrictive t =
     (if \<not> restrictive \<or> (IsStr t \<or> IsInt t \<or> IsFloat t \<or> IsBlob t)
      then io_bind (WriteTag V K t) (\<lambda>_. io_return True) else io_return False)"

fun WriteTagPtrList_loop :: "'s file_ops \<Rightarrow> codec \<Rightarrow> CTag list \<Rightarrow> ('s, unit) io" where
  "WriteTagPtrList_loop V K [] = io_return ()"
| "WriteTagPtrList_loop V K (t # ts) = io_bind (WriteTag V K t) (\<lambda>_. WriteTagPtrList_loop V K ts)"

definition WriteTagPtrList :: "'s file_ops \<Rightarrow> codec \<Rightarrow> CTag list \<Rightarrow> ('s, unit) io" where
  "WriteTagPtrList V K tagList =
     io_bind (WriteUInt8 V (of_nat (length tagList))) (\<lambda>_. WriteTagPtrList_loop V K tagList)"

subsection \<open>Well-formed tags\<close>

definition tag_wf :: "CTag \<Rightarrow> bool" where
  "tag_wf t \<longleftrightarrow>
     (IsStr t \<longrightarrow> is_StrVal (m_val t)) \<and> (IsInt t \<longrightarrow> is_IntVal (m_val t)) \<and>
     (IsFloat t \<longrightarrow> is_FloatVal (m_val t)) \<and> (IsHash t \<longrightarrow> is_HashVal (m_val t)) \<and>
     (IsBlob t \<or> IsBsob t \<longrightarrow> is_DataVal (m_val t))"

lemma io_bind_OkE:
  assumes "io_bind m f s = Ok x t"
  obtains y u where "m s = Ok y u" "f y u = Ok x t"
  using assms by (auto simp: io_bind_def split: res.splits)

lemma CTag_read_value_wf:
  "CTag_read_value h V K opt uType s = Ok (ty, v) s' \<Longrightarrow>
     tag_wf \<lparr>m_uType = ty, m_uName = i, m_Name = nm, m_val = v\<rparr> \<and> ty \<noteq> TAGTYPE_UINT16 \<and> ty \<noteq> TAGTYPE_UINT8"
  by (auto simp: CTag_read_value_def tag_wf_def tag_is tag_types io_return_def io_throw_def
      elim!: io_bind_OkE split: if_splits)

text \<open>The part of a tag's name that the formats keep: a name of one byte becomes the name byte.\<close>

definition kept_name :: "codec \<Rightarrow> CTag \<Rightarrow> u8 \<times> wxstring" where
  "kept_name K t =
     (if m_Name t = [] then (m_uName t, [])
      else let d = string_bytes K (m_Name t) utf8strNone in if length d = 1 then (hd d, []) else (0, m_Name t))"

text \<open>Tags whose name and value fit the wire formats and whose strings the text conversions keep.\<close>

definition name_fits :: "codec \<Rightarrow> wxstring \<Rightarrow> bool" where
  "name_fits K nm \<longleftrightarrow> nm = [] \<or>
     length (string_bytes K nm utf8strNone) \<le> 0xFFFF \<and> decodes_back K False nm utf8strNone"

definition tag_fits :: "codec \<Rightarrow> EUtf8Str \<Rightarrow> CTag \<Rightarrow> bool" where
  "tag_fits K enc t \<longleftrightarrow> tag_wf t \<and> name_fits K (m_Name t) \<and>
     (IsStr t \<longrightarrow> length (string_bytes K (m_pstrVal (m_val t)) enc) \<le> 0xFFFF \<and>
        decodes_back K True (m_pstrVal (m_val t)) enc) \<and>
     (m_uType t = TAGTYPE_UINT32 \<longrightarrow> m_uVal (m_val t) \<le> 0xFFFFFFFF) \<and>
     (m_uType t = TAGTYPE_UINT16 \<longrightarrow> m_uVal (m_val t) \<le> 0xFFFF) \<and>
     (m_uType t = TAGTYPE_UINT8 \<longrightarrow> m_uVal (m_val t) \<le> 0xFF) \<and>
     (IsHash t \<longrightarrow> length (m_hashVal (m_val t)) = 16) \<and>
     (IsBlob t \<longrightarrow> length (m_pData (m_val t)) < 2 ^ 32) \<and>
     (IsBsob t \<longrightarrow> length (m_pData (m_val t)) < 256)"

lemma ucast_down_up:
  fixes v :: u64
  shows "v \<le> 0xFFFFFFFF \<Longrightarrow> ucast (ucast v :: u32) = v"
    and "v \<le> 0xFFFF \<Longrightarrow> ucast (ucast v :: u16) = v"
    and "v \<le> 0xFF \<Longrightarrow> ucast (ucast v :: u8) = v"
  by (simp_all add: word_unat_eq_iff word_le_nat_alt unat_ucast_up unat_ucast_small)

lemma parses_cong:
  assumes "parses ok content pos r bs x"
    and "\<And>s rest. ok s \<Longrightarrow> pos s \<le> length (content s) \<Longrightarrow> drop (pos s) (content s) = bs @ rest \<Longrightarrow> r' s = r s"
  shows "parses ok content pos r' bs x"
  using assms unfolding parses_def by metis

context byte_stream
begin

lemma rt_name_string:
  assumes "nm \<noteq> []" "name_fits K nm"
  shows "roundtrips ok content pos (WriteString V K nm utf8strNone 2) (ReadString V K False 2 False) nm"
  using rt_String [of K nm utf8strNone False] assms by (auto simp: name_fits_def decode_string_bytes)

lemma rt_name_old:
  assumes "name_fits K (m_Name t)"
  shows "roundtrips ok content pos
    (if m_Name t \<noteq> [] then WriteString V K (m_Name t) utf8strNone 2
     else io_bind (WriteUInt16 V 1) (\<lambda>_. WriteUInt8 V (m_uName t)))
    (io_bind (ReadUInt16 V) (\<lambda>len.
       if len = 1 then io_bind (ReadUInt8 V) (\<lambda>uName. io_return (ty, uName, []))
       else io_bind (ReadOnlyString V K False len) (\<lambda>nm. io_return (ty, 0, nm))))
    (ty, kept_name K t)"
proof (cases "m_Name t = []")
  case True
  then show ?thesis
    by (auto simp: kept_name_def intro!: roundtrips_bind [OF rt_ints(2)] roundtrips_map rt_ints(1))
next
  case False
  let ?d = "string_bytes K (m_Name t) utf8strNone"
  have d: "length ?d \<le> 0xFFFF" "decode_string K False ?d = m_Name t"
    using assms False by (auto simp: name_fits_def decode_string_bytes)
  have e: "emits ok content pos (WriteString V K (m_Name t) utf8strNone 2)
      (le_split 2 (of_nat (length ?d) :: u16) @ ?d)"
    using emits_String(1) [of K "m_Name t" utf8strNone] d(1) by (simp add: min_def)
  have one: "(of_nat (length ?d) :: u16) = 1 \<longleftrightarrow> length ?d = 1"
    using d(1) unat_of_nat_small [of "length ?d", where ?'a = 16] by (auto simp: word_unat_eq_iff)
  have "parses ok content pos
      (if (of_nat (length ?d) :: u16) = 1 then io_bind (ReadUInt8 V) (\<lambda>uName. io_return (ty, uName, []))
       else io_bind (ReadOnlyString V K False (of_nat (length ?d))) (\<lambda>nm. io_return (ty, 0, nm)))
      ?d (ty, kept_name K t)"
  proof (cases "length ?d = 1")
    case True
    then obtain b where b: "?d = [b]" by (auto simp: length_Suc_conv)
    have "le_split 1 b = [b]" by (simp add: le_split_def)
    then show ?thesis
      using parses_map [OF parses_ints(1) [of b], of "\<lambda>uName. (ty, uName, [])"] False b
      by (simp add: kept_name_def)
  next
    case n: False
    then show ?thesis
      using parses_map [OF parses_OnlyString [of ?d K False], of "\<lambda>nm. (ty, 0, nm)"] d False
      unfolding one by (simp add: kept_name_def)
  qed
  then have "parses ok content pos (io_bind (ReadUInt16 V) (\<lambda>len.
       if len = 1 then io_bind (ReadUInt8 V) (\<lambda>uName. io_return (ty, uName, []))
       else io_bind (ReadOnlyString V K False len) (\<lambda>nm. io_return (ty, 0, nm))))
      (le_split 2 (of_nat (length ?d) :: u16) @ ?d) (ty, kept_name K t)"
    by (rule parses_bind [OF parses_ints(2)])
  then show ?thesis using False e by (simp add: roundtripsI)
qed

lemma rt_head_old:
  assumes "name_fits K (m_Name t)" "ty AND 0x80 = 0"
  shows "roundtrips ok content pos
    (io_bind (WriteUInt8 V ty) (\<lambda>_. if m_Name t \<noteq> [] then WriteString V K (m_Name t) utf8strNone 2
       else io_bind (WriteUInt16 V 1) (\<lambda>_. WriteUInt8 V (m_uName t))))
    (CTag_read_head V K) (ty, kept_name K t)"
  unfolding CTag_read_head_def
  by (rule roundtrips_bind [OF rt_ints(1)])
    (simp add: assms(2) rt_name_old [OF assms(1)] split del: if_split)

lemma rt_blob:
  assumes "length d < 2 ^ 32"
  shows "roundtrips ok content pos (io_bind (WriteUInt32 V (of_nat (length d))) (\<lambda>_. Write V d))
    (io_bind (ReadUInt32 V) (\<lambda>nSize.
       io_bind (\<lambda>s. if GetPosition V s \<le> GetLength V s \<and> unat nSize > GetLength V s - GetPosition V s
                   then Exc CInvalidPacket s else Ok () s) (\<lambda>_.
       io_bind (Read V (unat nSize)) (\<lambda>d. io_return (ty, DataVal d))))) (ty, DataVal d)"
proof (rule roundtrips_bind [OF rt_ints(3)], rule roundtripsI [OF emits_Write])
  let ?check = "\<lambda>s. if GetPosition V s \<le> GetLength V s \<and>
      unat (word_of_nat (length d) :: u32) > GetLength V s - GetPosition V s then Exc CInvalidPacket s else Ok () s"
  have n: "unat (word_of_nat (length d) :: u32) = length d" using assms by (simp add: unat_of_nat_small)
  have "parses ok content pos (io_bind (Read V (length d)) (\<lambda>d. io_return (ty, DataVal d))) d (ty, DataVal d)"
    by (rule parses_map [OF parses_Read]) simp
  then show "parses ok content pos (io_bind ?check (\<lambda>_. io_bind (Read V (unat (word_of_nat (length d) :: u32)))
      (\<lambda>d. io_return (ty, DataVal d)))) d (ty, DataVal d)"
  proof (rule parses_cong)
    fix s rest assume s: "ok s" "pos s \<le> length (content s)" "drop (pos s) (content s) = d @ rest"
    then have "length (content s) - pos s = length (d @ rest)" by (metis length_drop)
    then show "io_bind ?check (\<lambda>_. io_bind (Read V (unat (word_of_nat (length d) :: u32)))
        (\<lambda>d. io_return (ty, DataVal d))) s = io_bind (Read V (length d)) (\<lambda>d. io_return (ty, DataVal d)) s"
      unfolding n by (subst io_bind_Ok [of _ s "()" s]) (use s in \<open>auto simp: position size_law\<close>)
  qed
qed

end

text \<open>Integers narrower than 32 bits come back as 32-bit tags.\<close>

definition widened :: "u8 \<Rightarrow> u8" where
  "widened ty = (if ty = TAGTYPE_UINT16 \<or> ty = TAGTYPE_UINT8 then TAGTYPE_UINT32 else ty)"

definition old_kept :: "codec \<Rightarrow> CTag \<Rightarrow> CTag" where
  "old_kept K t = \<lparr>m_uType = widened (m_uType t), m_uName = fst (kept_name K t), m_Name = snd (kept_name K t), m_val = m_val t\<rparr>"

definition new_kept :: "codec \<Rightarrow> CTag \<Rightarrow> CTag" where
  "new_kept K t = (old_kept K t)\<lparr>m_uType :=
     (if IsInt t then if m_uVal (m_val t) \<le> 0xFFFFFFFF then TAGTYPE_UINT32 else TAGTYPE_UINT64 else m_uType t)\<rparr>"

context byte_stream
begin

lemma rt_value_old:
  assumes f: "tag_fits K utf8strRaw t" and ty: "IsStr t \<or> IsInt t \<or> IsHash t \<or> IsBlob t \<or> IsFloat t \<and> h = LittleEndian"
  shows "roundtrips ok content pos (WriteTag_value V K t) (CTag_read_value h V K True (m_uType t))
    (widened (m_uType t), m_val t)"
proof -
  note [simp] = tag_types tag_is widened_def
  note d = WriteTag_value_def CTag_read_value_def Let_def
  consider "m_uType t = TAGTYPE_STRING" | "m_uType t = TAGTYPE_UINT64" | "m_uType t = TAGTYPE_UINT32"
    | "m_uType t = TAGTYPE_UINT16" | "m_uType t = TAGTYPE_UINT8" | "m_uType t = TAGTYPE_HASH16"
    | "m_uType t = TAGTYPE_BLOB" | "m_uType t = TAGTYPE_FLOAT32" "h = LittleEndian"
    using ty by (auto simp del: tag_types)
  then show ?thesis
  proof cases
    case 1
    then obtain s where s: "m_val t = StrVal s" "length (string_bytes K s utf8strRaw) \<le> 0xFFFF" "decodes_back K True s utf8strRaw"
      using f by (auto simp: tag_fits_def tag_wf_def is_StrVal_def)
    show ?thesis using roundtrips_map [OF rt_String [OF s(2), of True], of "Pair TAGTYPE_STRING \<circ> StrVal"] 1 s
      by (simp add: d decode_string_bytes)
  next
    case 2
    then obtain v where "m_val t = IntVal v" using f by (auto simp: tag_fits_def tag_wf_def is_IntVal_def)
    then show ?thesis using 2 roundtrips_map [OF rt_ints(4) [of v], of "Pair TAGTYPE_UINT64 \<circ> IntVal"] by (simp add: d)
  next
    case 3
    then obtain v where "m_val t = IntVal v" "v \<le> 0xFFFFFFFF" using f by (auto simp: tag_fits_def tag_wf_def is_IntVal_def)
    then show ?thesis using 3 roundtrips_map [OF rt_ints(3) [of "ucast v"], of "\<lambda>w. (TAGTYPE_UINT32, IntVal (ucast w))"]
      by (simp add: d ucast_down_up)
  next
    case 4
    then obtain v where "m_val t = IntVal v" "v \<le> 0xFFFF" using f by (auto simp: tag_fits_def tag_wf_def is_IntVal_def)
    then show ?thesis using 4 roundtrips_map [OF rt_ints(2) [of "ucast v"], of "\<lambda>w. (TAGTYPE_UINT32, IntVal (ucast w))"]
      by (simp add: d ucast_down_up)
  next
    case 5
    then obtain v where "m_val t = IntVal v" "v \<le> 0xFF" using f by (auto simp: tag_fits_def tag_wf_def is_IntVal_def)
    then show ?thesis using 5 roundtrips_map [OF rt_ints(1) [of "ucast v"], of "\<lambda>w. (TAGTYPE_UINT32, IntVal (ucast w))"]
      by (simp add: d ucast_down_up)
  next
    case 6
    then obtain x where "m_val t = HashVal x" "length x = 16" using f by (auto simp: tag_fits_def tag_wf_def is_HashVal_def)
    then show ?thesis using 6 roundtrips_map [OF rt_Hash, of x "Pair TAGTYPE_HASH16 \<circ> HashVal"] by (simp add: d)
  next
    case 7
    then obtain x where "m_val t = DataVal x" "length x < 2 ^ 32" using f by (auto simp: tag_fits_def tag_wf_def is_DataVal_def)
    then show ?thesis using 7 rt_blob [of x TAGTYPE_BLOB] by (simp add: d)
  next
    case 8
    then obtain x where "m_val t = FloatVal x" using f by (auto simp: tag_fits_def tag_wf_def is_FloatVal_def)
    then show ?thesis using 8 roundtrips_map [OF rt_ints(5) [of x], of "Pair TAGTYPE_FLOAT32 \<circ> FloatVal"]
      by (simp add: d ReadFloat_def raw_join_def)
  qed
qed

lemma rt_tag_old:
  assumes f: "tag_fits K utf8strRaw t" and ty: "IsStr t \<or> IsInt t \<or> IsHash t \<or> IsBlob t \<or> IsFloat t \<and> h = LittleEndian"
  shows "roundtrips ok content pos (WriteTag V K t) (CTag_read h V K True) (old_kept K t)"
proof -
  have ty': "m_uType t AND 0x80 = 0" using ty by (auto simp: tag_is tag_types)
  have n: "name_fits K (m_Name t)" using f by (simp add: tag_fits_def)
  show ?thesis unfolding WriteTag_def CTag_read_def
    by (rule roundtrips_bind [OF rt_head_old [OF n ty']])
      (use roundtrips_map [OF rt_value_old [OF f ty], of "\<lambda>(uType, v). \<lparr>m_uType = uType, m_uName = fst (kept_name K t),
        m_Name = snd (kept_name K t), m_val = v\<rparr>"] in \<open>simp add: old_kept_def case_prod_beta'\<close>)
qed

end

lemma short_string_types:
  "\<forall>n \<in> set [1..<17]. let ty = TAGTYPE_STR1 + ucast (of_nat n :: u16) - 1 in
     TAGTYPE_STR1 \<le> ty \<and> ty \<le> TAGTYPE_STR16 \<and> ty AND 0x80 = 0 \<and>
     (ucast (ty - TAGTYPE_STR1 + 1) :: u16) = of_nat n \<and> ty OR 0x80 = of_nat (0x90 + n)"
  by code_simp

lemma short_string_type:
  assumes "1 \<le> n" "n \<le> 16" "ty = TAGTYPE_STR1 + ucast (of_nat n :: u16) - 1"
  shows "TAGTYPE_STR1 \<le> ty \<and> ty \<le> TAGTYPE_STR16 \<and> ty AND 0x80 = 0 \<and>
    (ucast (ty - TAGTYPE_STR1 + 1) :: u16) = of_nat n" "ty OR 0x80 = of_nat (0x90 + n)"
proof -
  have "n \<in> set [1..<17]" using assms(1,2) by simp
  from short_string_types [rule_format, OF this] assms(3)
  show "TAGTYPE_STR1 \<le> ty \<and> ty \<le> TAGTYPE_STR16 \<and> ty AND 0x80 = 0 \<and>
      (ucast (ty - TAGTYPE_STR1 + 1) :: u16) = of_nat n" "ty OR 0x80 = of_nat (0x90 + n)"
    unfolding Let_def by blast+
qed

lemma short_type_other:
  "TAGTYPE_STR1 \<le> ty \<Longrightarrow> ty \<noteq> TAGTYPE_STRING \<and> ty \<noteq> TAGTYPE_UINT64 \<and> ty \<noteq> TAGTYPE_UINT32 \<and> ty \<noteq> TAGTYPE_UINT16 \<and>
     ty \<noteq> TAGTYPE_UINT8 \<and> ty \<noteq> TAGTYPE_FLOAT32 \<and> ty \<noteq> TAGTYPE_HASH16 \<and> ty \<noteq> TAGTYPE_BLOB \<and>
     ty \<noteq> TAGTYPE_BOOL \<and> ty \<noteq> TAGTYPE_BOOLARRAY"
  by (auto simp: tag_types word_le_nat_alt)

lemma tag_fits_member:
  assumes "tag_fits K enc t"
  shows "IsStr t \<Longrightarrow> \<exists>s. m_val t = StrVal s \<and> length (string_bytes K s enc) \<le> 0xFFFF \<and> decodes_back K True s enc"
    and "IsInt t \<Longrightarrow> \<exists>v. m_val t = IntVal v"
    and "IsHash t \<Longrightarrow> \<exists>x. m_val t = HashVal x \<and> length x = 16"
    and "IsBlob t \<Longrightarrow> \<exists>x. m_val t = DataVal x \<and> length x < 2 ^ 32"
    and "IsFloat t \<Longrightarrow> \<exists>x. m_val t = FloatVal x"
  using assms by (cases "m_val t"; simp add: tag_fits_def tag_wf_def)+

text \<open>Strings for which \<open>GetRawSize\<close> counts the bytes that \<open>WriteString\<close> writes.\<close>

definition size_agrees :: "codec \<Rightarrow> EUtf8Str \<Rightarrow> CTag \<Rightarrow> bool" where
  "size_agrees K enc t \<longleftrightarrow>
     (IsStr t \<longrightarrow> GetRawSize K (m_pstrVal (m_val t)) enc = length (string_bytes K (m_pstrVal (m_val t)) enc))"

definition new_readable :: "CTag \<Rightarrow> bool" where
  "new_readable t \<longleftrightarrow> IsStr t \<or> IsInt t \<or> IsHash t \<or> IsBlob t \<or> IsFloat t"

lemma NewEd2k_type_bit7:
  assumes "new_readable t"
  shows "NewEd2k_type K enc t AND 0x80 = 0"
proof (cases "IsStr t")
  case True
  let ?n = "GetRawSize K (m_pstrVal (m_val t)) enc"
  let ?w = "of_nat ?n :: u16"
  have i: "\<not> IsInt t" using True by (auto simp: tag_is tag_types)
  show ?thesis
  proof (cases "1 \<le> ?w \<and> ?w \<le> 16")
    case c: True
    then have "1 \<le> unat ?w" "unat ?w \<le> 16" by (auto simp: word_le_nat_alt)
    then show ?thesis using short_string_type [of "unat ?w" "NewEd2k_type K enc t"] c True i
      by (simp add: NewEd2k_type_def Let_def)
  next
    case False
    then show ?thesis using True i by (auto simp: NewEd2k_type_def Let_def tag_types)
  qed
next
  case False
  then show ?thesis using assms by (auto simp: new_readable_def NewEd2k_type_def Let_def tag_is tag_types)
qed

context byte_stream
begin

lemma rt_head_new:
  assumes "name_fits K (m_Name t)" "ty AND 0x80 = 0"
  shows "roundtrips ok content pos (WriteNewEd2k_head V K ty t) (CTag_read_head V K) (ty, kept_name K t)"
proof (cases "m_Name t = []")
  case True
  have "(ty OR 0x80) AND 0x80 \<noteq> 0" "(ty OR 0x80) AND 0x7F = ty AND 0x7F"
    by (simp_all add: bit.conj_disj_distrib2)
  moreover have "ty AND 0x7F = ty"
  proof -
    have "(-1 :: u8) = 0x80 OR 0x7F" by simp
    then have "ty = ty AND (0x80 OR 0x7F)" by (metis and.right_neutral)
    then show ?thesis using assms(2) by (metis bit.conj_disj_distrib or.left_neutral)
  qed
  ultimately show ?thesis
    unfolding WriteNewEd2k_head_def CTag_read_head_def if_not_P [of "m_Name t \<noteq> []"] using True
    by (auto simp: kept_name_def intro!: roundtrips_bind [OF rt_ints(1)] roundtrips_map rt_ints(1))
next
  case False
  then show ?thesis using rt_head_old [OF assms] by (simp add: WriteNewEd2k_head_def)
qed

lemma rt_value_string:
  assumes "tag_fits K enc t" "size_agrees K enc t" "IsStr t"
  obtains w where "WriteNewEd2k_value h V K enc (NewEd2k_type K enc t) (m_val t) = Some w"
    "roundtrips ok content pos w (CTag_read_value h V K True (NewEd2k_type K enc t)) (TAGTYPE_STRING, m_val t)"
proof -
  obtain s where s: "m_val t = StrVal s" "length (string_bytes K s enc) \<le> 0xFFFF" "decodes_back K True s enc"
    using tag_fits_member(1) [OF assms(1,3)] by blast
  let ?d = "string_bytes K s enc"
  have n: "GetRawSize K s enc = length ?d" using assms(2,3) s(1) by (simp add: size_agrees_def)
  have u: "unat (of_nat (length ?d) :: u16) = length ?d" using s(2) by (simp add: unat_of_nat_small)
  have i: "\<not> IsInt t" using assms(3) by (auto simp: tag_is tag_types)
  show thesis
  proof (cases "1 \<le> length ?d \<and> length ?d \<le> 16")
    case True
    let ?ty = "TAGTYPE_STR1 + ucast (of_nat (length ?d) :: u16) - 1"
    have ty: "NewEd2k_type K enc t = ?ty"
      using True assms(3) i s(1) n u by (simp add: NewEd2k_type_def word_le_nat_alt)
    note sh = short_string_type [of "length ?d" ?ty, OF _ _ refl]
    have "roundtrips ok content pos (WriteString V K s enc 0) (ReadOnlyString V K True (of_nat (length ?d))) s"
      using roundtripsI [OF emits_String(2) parses_OnlyString [of ?d K True]] s by (simp add: decode_string_bytes)
    then have "roundtrips ok content pos (WriteString V K s enc 0) (CTag_read_value h V K True ?ty) (TAGTYPE_STRING, StrVal s)"
      using sh True short_type_other [of ?ty] roundtrips_map [of ok content pos _ _ s "Pair TAGTYPE_STRING \<circ> StrVal"]
      by (simp add: CTag_read_value_def)
    moreover have "WriteNewEd2k_value h V K enc ?ty (m_val t) = Some (WriteString V K s enc 0)"
      using sh True short_type_other [of ?ty] s(1) by (simp add: WriteNewEd2k_value_def)
    ultimately show thesis using that ty s(1) by simp
  next
    case False
    then have ty: "NewEd2k_type K enc t = TAGTYPE_STRING"
      using assms(3) i s(1) n u by (auto simp: NewEd2k_type_def Let_def word_le_nat_alt)
    then show thesis
      using that s roundtrips_map [OF rt_String [OF s(2), of True], of "Pair TAGTYPE_STRING \<circ> StrVal"]
      by (simp add: WriteNewEd2k_value_def CTag_read_value_def decode_string_bytes)
  qed
qed

lemma rt_value_int:
  assumes "tag_fits K enc t" "IsInt t"
  obtains w where "WriteNewEd2k_value h V K enc (NewEd2k_type K enc t) (m_val t) = Some w"
    "roundtrips ok content pos w (CTag_read_value h V K True (NewEd2k_type K enc t))
       (m_uType (new_kept K t), m_val t)"
proof -
  obtain v where v: "m_val t = IntVal v" using tag_fits_member(2) [OF assms] by blast
  note d = WriteNewEd2k_value_def CTag_read_value_def NewEd2k_type_def new_kept_def v assms(2) tag_types
  have le: "v \<le> 0xFF \<Longrightarrow> v \<le> 0xFFFFFFFF" "v \<le> 0xFFFF \<Longrightarrow> v \<le> 0xFFFFFFFF" by (auto simp: word_le_nat_alt)
  consider "v \<le> 0xFF" | "\<not> v \<le> 0xFF" "v \<le> 0xFFFF" | "\<not> v \<le> 0xFF" "\<not> v \<le> 0xFFFF" "v \<le> 0xFFFFFFFF"
    | "\<not> v \<le> 0xFF" "\<not> v \<le> 0xFFFF" "\<not> v \<le> 0xFFFFFFFF" by blast
  then show thesis
  proof cases
    case 1
    then show ?thesis using that le roundtrips_map [OF rt_ints(1) [of "ucast v"], of "\<lambda>w. (TAGTYPE_UINT32, IntVal (ucast w))"]
      by (simp add: d ucast_down_up)
  next
    case 2
    then show ?thesis using that le roundtrips_map [OF rt_ints(2) [of "ucast v"], of "\<lambda>w. (TAGTYPE_UINT32, IntVal (ucast w))"]
      by (simp add: d ucast_down_up)
  next
    case 3
    then show ?thesis using that le roundtrips_map [OF rt_ints(3) [of "ucast v"], of "\<lambda>w. (TAGTYPE_UINT32, IntVal (ucast w))"]
      by (simp add: d ucast_down_up)
  next
    case 4
    then show ?thesis using that le roundtrips_map [OF rt_ints(4) [of v], of "\<lambda>w. (TAGTYPE_UINT64, IntVal w)"]
      by (simp add: d)
  qed
qed

lemma rt_value_other:
  assumes "tag_fits K enc t" "IsHash t \<or> IsBlob t \<or> IsFloat t"
  obtains w where "WriteNewEd2k_value h V K enc (NewEd2k_type K enc t) (m_val t) = Some w"
    "roundtrips ok content pos w (CTag_read_value h V K True (NewEd2k_type K enc t))
       (m_uType (new_kept K t), m_val t)"
proof -
  have n: "\<not> IsInt t" "\<not> IsStr t" using assms(2) by (auto simp: tag_is tag_types)
  note d = WriteNewEd2k_value_def CTag_read_value_def NewEd2k_type_def new_kept_def n tag_types
  from assms(2) consider "m_uType t = TAGTYPE_HASH16" | "m_uType t = TAGTYPE_BLOB" | "m_uType t = TAGTYPE_FLOAT32"
    by (auto simp: tag_is)
  then show thesis
  proof cases
    case 1
    then obtain x where "m_val t = HashVal x" "length x = 16"
      using tag_fits_member(3) [OF assms(1)] by (auto simp: tag_is)
    then show ?thesis using 1 that roundtrips_map [OF rt_Hash, of x "Pair TAGTYPE_HASH16 \<circ> HashVal"] by (simp add: d)
  next
    case 2
    then obtain x where "m_val t = DataVal x" "length x < 2 ^ 32"
      using tag_fits_member(4) [OF assms(1)] by (auto simp: tag_is)
    then show ?thesis using 2 that rt_blob [of x TAGTYPE_BLOB] by (simp add: d)
  next
    case 3
    then obtain x where "m_val t = FloatVal x"
      using tag_fits_member(5) [OF assms(1)] by (auto simp: tag_is)
    then show ?thesis
      using 3 that roundtrips_map [OF rt_Write [of 4 "raw_split h 4 x"], of "\<lambda>b. (TAGTYPE_FLOAT32, FloatVal (raw_join h b))"]
      by (simp add: d)
  qed
qed

lemma rt_tag_new:
  assumes "tag_fits K enc t" "size_agrees K enc t" "new_readable t"
  obtains w where "WriteNewEd2kTag h V K enc t = io_bind w (\<lambda>_. io_return True)"
    "roundtrips ok content pos w (CTag_read h V K True) (new_kept K t)"
proof -
  let ?ty = "NewEd2k_type K enc t"
  obtain w where w: "WriteNewEd2k_value h V K enc ?ty (m_val t) = Some w"
    "roundtrips ok content pos w (CTag_read_value h V K True ?ty) (m_uType (new_kept K t), m_val t)"
  proof (cases "IsStr t")
    case True
    then have "m_uType (new_kept K t) = TAGTYPE_STRING" by (auto simp: new_kept_def tag_is tag_types)
    with rt_value_string [OF assms(1,2) True, of h] that show ?thesis by metis
  next
    case False
    with assms(3) rt_value_int [OF assms(1), of h] rt_value_other [OF assms(1), of h] that show ?thesis
      unfolding new_readable_def by metis
  qed
  have n: "name_fits K (m_Name t)" using assms(1) by (simp add: tag_fits_def)
  have "roundtrips ok content pos (io_bind (WriteNewEd2k_head V K ?ty t) (\<lambda>_. w)) (CTag_read h V K True) (new_kept K t)"
    unfolding CTag_read_def
    by (rule roundtrips_bind [OF rt_head_new [OF n NewEd2k_type_bit7 [OF assms(3)]]])
      (use roundtrips_map [OF w(2), of "\<lambda>(uType, v). \<lparr>m_uType = uType, m_uName = fst (kept_name K t),
        m_Name = snd (kept_name K t), m_val = v\<rparr>"] in \<open>simp add: new_kept_def old_kept_def case_prod_beta'\<close>)
  moreover have "WriteNewEd2kTag h V K enc t = io_bind (io_bind (WriteNewEd2k_head V K ?ty t) (\<lambda>_. w)) (\<lambda>_. io_return True)"
    by (simp add: WriteNewEd2kTag_def w(1))
  ultimately show thesis using that by blast
qed

end

subsection \<open>Kademlia tags\<close>

definition kad_kept :: "codec \<Rightarrow> CTag \<Rightarrow> CTag" where
  "kad_kept K t = t\<lparr>m_uName := 0, m_Name := (if m_Name t = [] then from_latin1 K [m_uName t] else m_Name t)\<rparr>"

definition kad_readable :: "CTag \<Rightarrow> bool" where
  "kad_readable t \<longleftrightarrow> IsStr t \<or> IsInt t \<or> IsHash t \<or> IsBsob t \<or> IsFloat t"

context byte_stream
begin

lemma rt_name_kad:
  assumes "name_fits K (m_Name t)"
  shows "roundtrips ok content pos
    (if m_Name t \<noteq> [] then WriteString V K (m_Name t) utf8strNone 2
     else io_bind (WriteUInt16 V 1) (\<lambda>_. WriteUInt8 V (m_uName t)))
    (ReadString V K False 2 False) (m_Name (kad_kept K t))"
proof (cases "m_Name t = []")
  case True
  have "emits ok content pos (io_bind (WriteUInt16 V 1) (\<lambda>_. WriteUInt8 V (m_uName t)))
      (le_split 2 (1 :: u16) @ le_split 1 (m_uName t))"
    by (rule emits_bind) (rule emits_ints)+
  moreover have "le_split 1 (m_uName t) = [m_uName t]" by (simp add: le_split_def)
  moreover have "parses ok content pos (ReadString V K False 2 False) (le_split 2 (1 :: u16) @ [m_uName t]) (from_latin1 K [m_uName t])"
    using parses_String [of "[m_uName t]" K False] by (simp add: decode_string_def CHECK_BOM_def)
  ultimately show ?thesis using True by (auto simp: kad_kept_def intro: roundtripsI)
next
  case False
  then show ?thesis using rt_name_string [OF False assms] by (simp add: kad_kept_def)
qed

lemma rt_value_kad:
  assumes f: "tag_fits K utf8strRaw t" and ty: "kad_readable t"
  shows "roundtrips ok content pos (WriteTag_value V K t)
    (let type = m_uType t in
       if type = TAGTYPE_HASH16 then io_bind (ReadHash V) (\<lambda>x. io_return (CTagHash (NameStr nm) x))
       else if type = TAGTYPE_STRING then
         io_bind (ReadString V K True 2 False) (\<lambda>s. io_return (CTagString (NameStr nm) s))
       else if type = TAGTYPE_UINT64 then io_bind (ReadUInt64 V) (\<lambda>w. io_return (CTagInt64 (NameStr nm) w))
       else if type = TAGTYPE_UINT32 then io_bind (ReadUInt32 V) (\<lambda>w. io_return (CTagInt32 (NameStr nm) (ucast w)))
       else if type = TAGTYPE_UINT16 then io_bind (ReadUInt16 V) (\<lambda>w. io_return (CTagInt16 (NameStr nm) (ucast w)))
       else if type = TAGTYPE_UINT8 then io_bind (ReadUInt8 V) (\<lambda>w. io_return (CTagInt8 (NameStr nm) (ucast w)))
       else if type = TAGTYPE_FLOAT32 then io_bind (ReadFloat V) (\<lambda>w. io_return (CTagFloat (NameStr nm) w))
       else if type = TAGTYPE_BSOB then io_bind (ReadBsob V) (\<lambda>d. io_return (CTagBsob nm d))
       else io_throw wxString_exception) \<lparr>m_uType = m_uType t, m_uName = 0, m_Name = nm, m_val = m_val t\<rparr>"
proof -
  note d = WriteTag_value_def Let_def tag_types tag_ctors
  consider "m_uType t = TAGTYPE_STRING" | "m_uType t = TAGTYPE_UINT64" | "m_uType t = TAGTYPE_UINT32"
    | "m_uType t = TAGTYPE_UINT16" | "m_uType t = TAGTYPE_UINT8" | "m_uType t = TAGTYPE_HASH16"
    | "m_uType t = TAGTYPE_BSOB" | "m_uType t = TAGTYPE_FLOAT32"
    using ty by (auto simp: kad_readable_def tag_is)
  then show ?thesis
  proof cases
    case 1
    then obtain s where s: "m_val t = StrVal s" "length (string_bytes K s utf8strRaw) \<le> 0xFFFF" "decodes_back K True s utf8strRaw"
      using tag_fits_member(1) [OF f] by (auto simp: tag_is)
    show ?thesis using roundtrips_map [OF rt_String [OF s(2), of True], of "CTagString (NameStr nm)"] 1 s
      by (simp add: d decode_string_bytes)
  next
    case 2
    then obtain v where "m_val t = IntVal v" using tag_fits_member(2) [OF f] by (auto simp: tag_is)
    then show ?thesis using 2 roundtrips_map [OF rt_ints(4) [of v], of "CTagInt64 (NameStr nm)"] by (simp add: d)
  next
    case 3
    then obtain v where "m_val t = IntVal v" "v \<le> 0xFFFFFFFF"
      using tag_fits_member(2) [OF f] f by (auto simp: tag_is tag_fits_def)
    then show ?thesis using 3 roundtrips_map [OF rt_ints(3) [of "ucast v"], of "\<lambda>w. CTagInt32 (NameStr nm) (ucast w)"]
      by (simp add: d ucast_down_up)
  next
    case 4
    then obtain v where "m_val t = IntVal v" "v \<le> 0xFFFF"
      using tag_fits_member(2) [OF f] f by (auto simp: tag_is tag_fits_def)
    then show ?thesis using 4 roundtrips_map [OF rt_ints(2) [of "ucast v"], of "\<lambda>w. CTagInt16 (NameStr nm) (ucast w)"]
      by (simp add: d ucast_down_up)
  next
    case 5
    then obtain v where "m_val t = IntVal v" "v \<le> 0xFF"
      using tag_fits_member(2) [OF f] f by (auto simp: tag_is tag_fits_def)
    then show ?thesis using 5 roundtrips_map [OF rt_ints(1) [of "ucast v"], of "\<lambda>w. CTagInt8 (NameStr nm) (ucast w)"]
      by (simp add: d ucast_down_up)
  next
    case 6
    then obtain x where "m_val t = HashVal x" "length x = 16" using tag_fits_member(3) [OF f] by (auto simp: tag_is)
    then show ?thesis using 6 roundtrips_map [OF rt_Hash, of x "CTagHash (NameStr nm)"] by (simp add: d)
  next
    case 7
    then obtain x where "m_val t = DataVal x" "length x < 256"
      using f by (cases "m_val t") (auto simp: tag_fits_def tag_wf_def tag_is)
    then show ?thesis using 7 roundtrips_map [OF rt_Bsob, of x "CTagBsob nm"] by (simp add: d)
  next
    case 8
    then obtain x where "m_val t = FloatVal x" using tag_fits_member(5) [OF f] by (auto simp: tag_is)
    then show ?thesis using 8 roundtrips_map [OF rt_ints(5) [of x], of "CTagFloat (NameStr nm)"] by (simp add: d)
  qed
qed

lemma rt_tag_kad:
  assumes f: "tag_fits K utf8strRaw t" and ty: "kad_readable t"
  shows "roundtrips ok content pos (WriteTag V K t) (ReadTag V K True) (kad_kept K t)"
proof -
  have n: "name_fits K (m_Name t)" using f by (simp add: tag_fits_def)
  have "kad_kept K t = \<lparr>m_uType = m_uType t, m_uName = 0, m_Name = m_Name (kad_kept K t), m_val = m_val t\<rparr>"
    by (cases t) (simp add: kad_kept_def)
  with rt_value_kad [OF assms, of "m_Name (kad_kept K t)"] show ?thesis
    unfolding WriteTag_def ReadTag_def io_simps(3) Let_def
    by (intro roundtrips_bind [OF rt_ints(1)] roundtrips_bind [OF rt_name_kad [OF n]]) simp
qed

lemma rt_taglist_loop:
  assumes "\<And>t. t \<in> set ts \<Longrightarrow> tag_fits K utf8strRaw t \<and> kad_readable t"
  shows "roundtrips ok content pos (WriteTagPtrList_loop V K ts) (ReadTagPtrList_loop V K True (length ts)) (map (kad_kept K) ts)"
  using assms
proof (induction ts)
  case (Cons t ts)
  then have "roundtrips ok content pos (WriteTagPtrList_loop V K ts)
      (io_bind (ReadTagPtrList_loop V K True (length ts)) (\<lambda>ts. io_return (kad_kept K t # ts))) (map (kad_kept K) (t # ts))"
    using roundtrips_map [of ok content pos _ _ _ "(#) (kad_kept K t)"] by simp
  then show ?case using rt_tag_kad [of K t] Cons.prems by (auto intro: roundtrips_bind)
qed simp

lemma rt_taglist:
  assumes "length ts < 256" "\<And>t. t \<in> set ts \<Longrightarrow> tag_fits K utf8strRaw t \<and> kad_readable t"
  shows "roundtrips ok content pos (WriteTagPtrList V K ts) (ReadTagPtrList V K True) (map (kad_kept K) ts)"
  unfolding WriteTagPtrList_def ReadTagPtrList_def
  by (rule roundtrips_bind [OF rt_ints(1)]) (use assms rt_taglist_loop [of ts K] in \<open>simp add: unat_of_nat_small\<close>)

end

lemma mem_roundtrip:
  assumes "roundtrips mem_open mem_content m_position w r x" "mem_open f" "m_position f = m_fileSize f"
  shows "\<exists>f' f''. w f = Ok () f' \<and>
    io_bind (Seek (mem_ops (total_heap g)) (int (m_position f)) wxFromStart) (\<lambda>_. r) f' = Ok x f'' \<and>
    m_position f'' = m_fileSize f''"
proof -
  obtain bs where "emits mem_open mem_content m_position w bs" "parses mem_open mem_content m_position r bs x"
    using assms(1) by (auto simp: roundtrips_def)
  from mem_write_then_read [OF this assms(2,3), of g] show ?thesis by blast
qed

subsection \<open>Properties\<close>

text \<open>A tag written to a met file (restrictive mode) is read back by the reading constructor with
  the same value, and with the same name, except that a name of one byte comes back as the name
  byte and that 8- and 16-bit integer tags come back as 32-bit ones. A float needs a little-endian
  host, because the constructor reads it without swapping the bytes.\<close>

theorem met_tag_roundtrip:
  assumes "mem_open f" "m_position f = m_fileSize f" "V = mem_ops (total_heap g)" "tag_fits K utf8strRaw t"
    "IsStr t \<or> IsInt t \<or> IsBlob t \<or> IsFloat t \<and> h = LittleEndian"
  shows "\<exists>f' f''. WriteTagToFile V K True t f = Ok True f' \<and>
    io_bind (Seek V (int (m_position f)) wxFromStart) (\<lambda>_. CTag_read h V K True) f' =
      Ok \<lparr>m_uType = (if IsInt t \<and> m_uType t \<noteq> TAGTYPE_UINT64 then TAGTYPE_UINT32 else m_uType t),
          m_uName = fst (kept_name K t), m_Name = snd (kept_name K t), m_val = m_val t\<rparr> f'' \<and>
    m_position f'' = m_fileSize f''"
proof -
  have "roundtrips mem_open mem_content m_position (WriteTag V K t) (CTag_read h V K True) (old_kept K t)"
    unfolding assms(3) by (rule mem.rt_tag_old [OF assms(4)]) (use assms(5) in blast)
  from mem_roundtrip [OF this assms(1,2), of g] obtain f' f'' where
    f: "WriteTag V K t f = Ok () f'" "m_position f'' = m_fileSize f''"
    "io_bind (Seek V (int (m_position f)) wxFromStart) (\<lambda>_. CTag_read h V K True) f' = Ok (old_kept K t) f''"
    unfolding assms(3) by blast
  have "WriteTagToFile V K True t f = Ok True f'"
    using f(1) assms(5) by (auto simp: WriteTagToFile_def io_bind_def io_return_def)
  moreover have "widened (m_uType t) = (if IsInt t \<and> m_uType t \<noteq> TAGTYPE_UINT64 then TAGTYPE_UINT32 else m_uType t)"
    by (auto simp: widened_def IsInt_def tag_types)
  ultimately show ?thesis using f by (auto simp: old_kept_def)
qed

theorem met_tag_roundtrip_witness:
  "\<exists>f' f''. WriteTagToFile (mem_ops (total_heap (\<lambda>_. 0))) ascii True (CTagInt16 (NameStr [65, 66]) 0x1234) (CMemFile_new 0) = Ok True f' \<and>
    io_bind (Seek (mem_ops (total_heap (\<lambda>_. 0))) 0 wxFromStart) (\<lambda>_. CTag_read BigEndian (mem_ops (total_heap (\<lambda>_. 0))) ascii True) f' =
      Ok (CTagInt32 (NameStr [65, 66]) 0x1234) f''"
  using met_tag_roundtrip [of "CMemFile_new 0" _ "\<lambda>_. 0" ascii "CTagInt16 (NameStr [65, 66]) 0x1234" BigEndian, OF _ _ refl]
  by (auto simp: tag_ctors tag_types tag_is tag_fits_def tag_wf_def name_fits_def kept_name_def string_bytes_def ascii_def
      decodes_back_def CHECK_BOM_def)



text \<open>A list of at most 255 Kademlia tags is read back completely and in order; a tag whose name is
  one byte comes back with the one-character name for that byte.\<close>

theorem kad_taglist_roundtrip:
  assumes "mem_open f" "m_position f = m_fileSize f" "V = mem_ops (total_heap g)" "length ts \<le> 0xFF"
    "\<forall>t \<in> set ts. tag_fits K utf8strRaw t \<and> (IsStr t \<or> IsInt t \<or> IsHash t \<or> IsBsob t \<or> IsFloat t)"
  shows "\<exists>f' f''. WriteTagPtrList V K ts f = Ok () f' \<and>
    io_bind (Seek V (int (m_position f)) wxFromStart) (\<lambda>_. ReadTagPtrList V K True) f' = Ok (map (kad_kept K) ts) f'' \<and>
    m_position f'' = m_fileSize f''"
proof -
  have "roundtrips mem_open mem_content m_position (WriteTagPtrList V K ts) (ReadTagPtrList V K True) (map (kad_kept K) ts)"
    unfolding assms(3) by (rule mem.rt_taglist) (use assms(4,5) in \<open>auto simp: kad_readable_def\<close>)
  from mem_roundtrip [OF this assms(1,2), of g] show ?thesis unfolding assms(3) .
qed

theorem kad_taglist_roundtrip_witness:
  "\<exists>f' f''. WriteTagPtrList (mem_ops (total_heap (\<lambda>_. 0))) ascii [CTagInt8 (NameID 7) 3, CTagHash (NameStr [65, 66]) (replicate 16 1)] (CMemFile_new 0) = Ok () f' \<and>
    io_bind (Seek (mem_ops (total_heap (\<lambda>_. 0))) 0 wxFromStart) (\<lambda>_. ReadTagPtrList (mem_ops (total_heap (\<lambda>_. 0))) ascii True) f' =
      Ok [CTagInt8 (NameStr [7]) 3, CTagHash (NameStr [65, 66]) (replicate 16 1)] f''"
  using kad_taglist_roundtrip [of "CMemFile_new 0" _ "\<lambda>_. 0" "[CTagInt8 (NameID 7) 3, CTagHash (NameStr [65, 66]) (replicate 16 1)]" ascii, OF _ _ refl]
  by (auto simp: tag_ctors tag_types tag_is tag_fits_def tag_wf_def name_fits_def kad_kept_def string_bytes_def ascii_def
      decodes_back_def CHECK_BOM_def)

lemma CTag_read_value_types:
  "CTag_read_value h V K opt uType s = Ok (ty, v) s' \<Longrightarrow>
     ty \<in> {TAGTYPE_STRING, TAGTYPE_UINT32, TAGTYPE_UINT64, TAGTYPE_FLOAT32, TAGTYPE_HASH16, TAGTYPE_BOOL,
       TAGTYPE_BOOLARRAY, TAGTYPE_BLOB}"
  by (auto simp: CTag_read_value_def io_return_def io_throw_def elim!: io_bind_OkE split: if_splits)

lemma CTag_read_value_unknown:
  "uType = TAGTYPE_BSOB \<or> uType = 0 \<or> TAGTYPE_UINT64 < uType \<and> uType < TAGTYPE_STR1 \<or> TAGTYPE_STR16 < uType \<Longrightarrow>
     CTag_read_value h V K opt uType = io_throw CInvalidPacket"
  by (auto simp: CTag_read_value_def tag_types word_less_nat_alt word_le_nat_alt)

text \<open>C37: whatever bytes a file holds, a tag that the reading constructor returns stores the member of
  the union that its type asks for, so that no accessor reads another one, and its type is one of
  the eight that the constructor can produce; every other type makes it throw an invalid-packet
  exception.\<close>

theorem CTag_read_typed:
  "(CTag_read h V K bOptUTF8 s = Ok t s' \<longrightarrow>
      tag_wf t \<and> m_uType t \<in> {TAGTYPE_STRING, TAGTYPE_UINT32, TAGTYPE_UINT64, TAGTYPE_FLOAT32,
        TAGTYPE_HASH16, TAGTYPE_BOOL, TAGTYPE_BOOLARRAY, TAGTYPE_BLOB}) \<and>
   (CTag_read_head V K s = Ok (uType, uName, nm) s'' \<and>
      (uType = TAGTYPE_BSOB \<or> uType = 0 \<or> TAGTYPE_UINT64 < uType \<and> uType < TAGTYPE_STR1 \<or> TAGTYPE_STR16 < uType) \<longrightarrow>
      CTag_read h V K bOptUTF8 s = Exc CInvalidPacket s'')"
proof (intro conjI impI)
  assume "CTag_read h V K bOptUTF8 s = Ok t s'"
  then show "tag_wf t" "m_uType t \<in> {TAGTYPE_STRING, TAGTYPE_UINT32, TAGTYPE_UINT64, TAGTYPE_FLOAT32,
        TAGTYPE_HASH16, TAGTYPE_BOOL, TAGTYPE_BOOLARRAY, TAGTYPE_BLOB}"
    by (auto simp: CTag_read_def io_return_def elim!: io_bind_OkE
        dest: CTag_read_value_wf [THEN conjunct1] CTag_read_value_types)
next
  assume a: "CTag_read_head V K s = Ok (uType, uName, nm) s'' \<and>
      (uType = TAGTYPE_BSOB \<or> uType = 0 \<or> TAGTYPE_UINT64 < uType \<and> uType < TAGTYPE_STR1 \<or> TAGTYPE_STR16 < uType)"
  then have "CTag_read_value h V K bOptUTF8 uType = io_throw CInvalidPacket"
    by (intro CTag_read_value_unknown) blast
  with a show "CTag_read h V K bOptUTF8 s = Exc CInvalidPacket s''"
    by (simp add: CTag_read_def io_bind_Ok) (simp add: io_throw_def)
qed

theorem CTag_read_typed_witness:
  "CTag_read LittleEndian (mem_ops (total_heap (\<lambda>_. 0))) ascii True (CMemFile_const [0x8A, 1, 0]) =
     Exc CInvalidPacket ((CMemFile_const [0x8A, 1, 0])\<lparr>m_position := 2\<rparr>)"
proof -
  have "CTag_read_head (mem_ops (total_heap (\<lambda>_. 0))) ascii (CMemFile_const [0x8A, 1, 0]) =
      Ok (TAGTYPE_BSOB, 1, []) ((CMemFile_const [0x8A, 1, 0])\<lparr>m_position := 2\<rparr>)"
    by (simp add: CTag_read_head_def ReadUInt8_def Read_def io_bind_def io_return_def mem_read_def
        CMemFile_const_def CMemFile_attach_def Let_def TAGTYPE_BSOB_def)
  with CTag_read_typed [of LittleEndian "mem_ops (total_heap (\<lambda>_. 0))" ascii True "CMemFile_const [0x8A, 1, 0]"]
  show ?thesis by blast
qed

text \<open>C38: in the compressed format the length that the type of a string tag announces is the size
  computed by \<open>GetRawSize\<close>, reduced modulo $2^{16}$, while the bytes that follow are those of
  \<open>WriteString\<close>. The two sizes differ for Latin-1 strings in a locale with another encoding, and
  for strings that are longer than $2^{16}$ bytes by at most 16; such a tag cannot be read back.\<close>

theorem new_tag_announced_length:
  assumes "mem_open f" "m_position f = m_fileSize f" "V = mem_ops (total_heap g)"
    "m_uType t = TAGTYPE_STRING" "m_val t = StrVal str" "m_Name t = []"
    "n = GetRawSize K str enc mod 65536" "1 \<le> n" "n \<le> 16"
  shows "\<exists>f'. WriteNewEd2kTag h V K enc t f = Ok True f' \<and>
    mem_content f' = mem_content f @ [of_nat (0x90 + n), m_uName t] @ string_bytes K str enc"
proof -
  let ?ty = "TAGTYPE_STR1 + ucast (of_nat n :: u16) - 1"
  have "(of_nat (GetRawSize K str enc) :: u16) = of_nat n"
    using assms(7) by (simp add: word_unat_eq_iff unat_of_nat)
  moreover have "(1 :: u16) \<le> of_nat n" "(of_nat n :: u16) \<le> 16"
    using assms(8,9) by (simp_all add: word_le_nat_alt unat_of_nat_small)
  ultimately have ty: "NewEd2k_type K enc t = ?ty" using assms(4,5) by (simp add: NewEd2k_type_def tag_is tag_types)
  note sh = short_string_type [OF assms(8,9) refl]
  have w: "WriteNewEd2k_value h V K enc ?ty (m_val t) = Some (WriteString V K str enc 0)"
    using sh short_type_other [of ?ty] assms(5) by (simp add: WriteNewEd2k_value_def)
  have "?ty OR 0x80 = of_nat (0x90 + n)" by (rule sh(2))
  moreover have "le_split 1 b = [b]" for b :: u8 by (simp add: le_split_def)
  ultimately have e: "emits mem_open mem_content m_position
      (io_bind (WriteUInt8 V (?ty OR 0x80)) (\<lambda>_. io_bind (WriteUInt8 V (m_uName t)) (\<lambda>_. WriteString V K str enc 0)))
      ([of_nat (0x90 + n)] @ [m_uName t] @ string_bytes K str enc)"
    unfolding assms(3) by (metis (no_types, lifting) emits_bind mem.emits_ints(1) mem.emits_String(2))
  have "m_position f = length (mem_content f)" using assms(1,2) by (simp add: mem_open_def)
  from emitsD [OF e assms(1) this] obtain f' where f': "io_bind (WriteUInt8 V (?ty OR 0x80)) (\<lambda>_. io_bind (WriteUInt8 V (m_uName t))
      (\<lambda>_. WriteString V K str enc 0)) f = Ok () f'"
    "mem_content f' = mem_content f @ [of_nat (0x90 + n), m_uName t] @ string_bytes K str enc"
    by auto
  have "WriteNewEd2kTag h V K enc t = io_bind (io_bind (WriteUInt8 V (?ty OR 0x80)) (\<lambda>_. io_bind (WriteUInt8 V (m_uName t))
      (\<lambda>_. WriteString V K str enc 0))) (\<lambda>_. io_return True)"
    using assms(6) by (simp add: WriteNewEd2kTag_def Let_def ty w WriteNewEd2k_head_def)
  then have "WriteNewEd2kTag h V K enc t f = (\<lambda>_. io_return True) () f'" by (simp only:) (rule io_bind_Ok, rule f'(1))
  with f'(2) show ?thesis by (auto simp: io_return_def)
qed

text \<open>A locale with UTF-8 as its encoding, for the characters below 256.\<close>

definition utf8_locale :: codec where
  "utf8_locale = ascii\<lparr>unicode2char := (\<lambda>s. Some (concat (map (\<lambda>c. if c < 128 then [of_nat c]
     else [of_nat (0xC0 + c div 64), of_nat (0x80 + c mod 64)]) s)))\<rparr>"

theorem new_tag_announced_length_witness:
  "\<exists>f'. WriteNewEd2kTag LittleEndian (mem_ops (total_heap (\<lambda>_. 0))) utf8_locale utf8strNone (CTagString (NameID 1) [233])
      (CMemFile_new 0) = Ok True f' \<and> mem_content f' = [0x92, 1, 233]"
  using new_tag_announced_length [of "CMemFile_new 0" _ "\<lambda>_. 0" "CTagString (NameID 1) [233]" "[233]" 2 utf8_locale
      utf8strNone LittleEndian, OF _ _ refl]
  by (simp add: tag_ctors tag_types GetRawSize_def utf8_locale_def ascii_def c_str_def string_bytes_def)

subsection \<open>Copies\<close>

lemma CTagIntSized_Init_eq:
  "CTagIntSized_Init v 64 (CTag_base nm) = Inr (CTagInt64 nm v)"
  "CTagIntSized_Init v 32 (CTag_base nm) = Inr (CTagInt32 nm v)"
  "CTagIntSized_Init v 16 (CTag_base nm) = Inr (CTagInt16 nm v)"
  "CTagIntSized_Init v 8 (CTag_base nm) = Inr (CTagInt8 nm v)"
  by (simp_all add: CTagIntSized_Init_def CTagInt64_def CTagInt32_def CTagInt16_def CTagInt8_def)

lemma copied_val_eq:
  assumes "tag_wf r" "IsStr r \<or> IsInt r \<or> IsFloat r \<or> IsHash r \<or> IsBlob r \<or> IsBsob r"
  shows "copied_val r = m_val r"
  using assms by (cases "m_val r") (auto simp: tag_wf_def copied_val_def tag_is tag_types)

text \<open>Copying keeps a tag; assigning one tag to another of the same kind of value does too.\<close>

lemma CTag_copy_eq:
  assumes "tag_wf r" "IsStr r \<or> IsInt r \<or> IsFloat r \<or> IsHash r \<or> IsBlob r \<or> IsBsob r"
  shows "CTag_copy r = r"
  using copied_val_eq [OF assms] by (simp add: CTag_copy_def)

lemma CTag_assign_same_type:
  assumes "tag_wf r" "tag_wf this" "m_uType this = m_uType r"
    "IsStr r \<or> IsInt r \<or> IsFloat r \<or> IsHash r \<or> IsBlob r \<or> IsBsob r"
  shows "CTag_assign this r = Some r"
proof -
  have "deletable r (m_val this) \<or> IsInt r \<or> IsFloat r"
    using assms by (cases "m_val this") (auto simp: tag_wf_def tag_is deletable_def)
  moreover have "IsInt r \<or> IsFloat r \<Longrightarrow> \<not> (IsStr r \<or> IsHash r \<or> IsBlob r \<or> IsBsob r)"
    by (auto simp: tag_is tag_types)
  ultimately show ?thesis using copied_val_eq [OF assms(1,4)] by (auto simp: CTag_assign_def)
qed

end
