(* ===== verification/RLE.thy ===== *)
theory RLE
  imports ArchSpecific
begin

text \<open>
  The differential run-length coder of the external-connection protocol
  (src/amule-3.0.1/src/RLE.h and RLE.cpp). The core sends the state of a download (sources per
  part, gaps, requested blocks) to a remote interface as the run-length coded difference from
  the state it sent before; both sides keep the last state in an \<open>RLE_Data\<close>.

  A position in a buffer is the suffix of the buffer that starts there. \<open>decBuf\<close> is fresh
  memory with arbitrary contents (\<open>junk\<close>). Lengths are below $2^{31}$.
\<close>

subsection \<open>State\<close>

record RLE_Data =
  m_buff :: "u8 list"
  m_use_diff :: bool

definition m_len :: "RLE_Data \<Rightarrow> nat" where
  "m_len r = length (m_buff r)"

definition RLE_setup :: "nat \<Rightarrow> bool \<Rightarrow> u8 list option \<Rightarrow> RLE_Data" where
  "RLE_setup len use_diff content =
     \<lparr>m_buff = (case content of Some c \<Rightarrow> take len c | None \<Rightarrow> replicate len 0), m_use_diff = use_diff\<rparr>"

definition ResetEncoder :: "RLE_Data \<Rightarrow> RLE_Data" where
  "ResetEncoder r = r\<lparr>m_buff := []\<rparr>"

definition Realloc :: "nat \<Rightarrow> RLE_Data \<Rightarrow> bool \<times> RLE_Data" where
  "Realloc n r =
     (if n = m_len r then (False, r)
      else if n = 0 then (True, r\<lparr>m_buff := []\<rparr>)
      else if m_len r = 0 then (True, r\<lparr>m_buff := replicate n 0\<rparr>)
      else if n > m_len r then (True, r\<lparr>m_buff := m_buff r @ replicate (n - m_len r) 0\<rparr>)
      else (True, r\<lparr>m_buff := take n (m_buff r)\<rparr>))"

subsection \<open>Decoding\<close>

definition memset_at :: "nat \<Rightarrow> u8 \<Rightarrow> nat \<Rightarrow> u8 list \<Rightarrow> u8 list" where
  "memset_at j c n buf = take j buf @ replicate n c @ drop (j + n) buf"

text \<open>One pass over the coded bytes: the count of decoded bytes and the buffer, which is written only
  as far as it reaches.\<close>

fun Decode_pass :: "nat \<Rightarrow> u8 list \<Rightarrow> nat \<Rightarrow> u8 list \<Rightarrow> nat \<times> u8 list" where
  "Decode_pass len (a # b # n # rest) j decBuf =
     (if b = a then
        Decode_pass len rest (j + unat n) (if j + unat n \<le> len then memset_at j a (unat n) decBuf else decBuf)
      else Decode_pass len (b # n # rest) (j + 1) (if j < len then decBuf[j := a] else decBuf))"
| "Decode_pass len (a # rest) j decBuf =
     Decode_pass len rest (j + 1) (if j < len then decBuf[j := a] else decBuf)"
| "Decode_pass len [] j decBuf = (j, decBuf)"

text \<open>The loop over passes: a second pass is made when the first one overran the buffer. The fuel
  bounds the number of passes; two are always enough.\<close>

fun Decode_passes :: "nat \<Rightarrow> (nat \<Rightarrow> u8) \<Rightarrow> u8 list \<Rightarrow> u8 list \<Rightarrow> RLE_Data \<Rightarrow> (u8 list \<times> RLE_Data) option" where
  "Decode_passes 0 junk buff decBuf r = None"
| "Decode_passes (Suc fuel) junk buff decBuf r =
     (let (j, decBuf) = Decode_pass (m_len r) buff 0 decBuf in
      if j \<noteq> m_len r then
        let overrun = j > m_len r; r = snd (Realloc j r) in
        if overrun then Decode_passes fuel junk buff (map junk [0..<m_len r]) r else Some (decBuf, r)
      else Some (decBuf, r))"

definition xor_bytes :: "u8 list \<Rightarrow> u8 list \<Rightarrow> u8 list" where
  "xor_bytes xs ys = map2 (XOR) xs ys"

definition Decode :: "(nat \<Rightarrow> u8) \<Rightarrow> u8 list \<Rightarrow> RLE_Data \<Rightarrow> (u8 list \<times> RLE_Data) option" where
  "Decode junk buff r =
     (case Decode_passes 2 junk buff (map junk [0..<m_len r]) r of
        None \<Rightarrow> None
      | Some (decBuf, r) \<Rightarrow>
          let out = (if m_use_diff r then xor_bytes (m_buff r) (take (m_len r) decBuf) else take (m_len r) decBuf)
          in Some (out, r\<lparr>m_buff := out\<rparr>))"

subsection \<open>Encoding\<close>

fun Encode_run :: "u8 \<Rightarrow> nat \<Rightarrow> u8 list \<Rightarrow> nat \<times> u8 list" where
  "Encode_run curr_val n [] = (n, [])"
| "Encode_run curr_val n (x # xs) =
     (if curr_val = x \<and> n < 0xff then Encode_run curr_val (n + 1) xs else (n, x # xs))"

lemma Encode_run_length: "length (snd (Encode_run v n xs)) \<le> length xs"
  by (induction v n xs rule: Encode_run.induct) auto

function Encode_loop :: "u8 list \<Rightarrow> u8 list" where
  "Encode_loop [] = []"
| "Encode_loop (curr_val # xs) =
     (let (n, rest) = Encode_run curr_val 0 (curr_val # xs) in
      (if n > 1 then [curr_val, curr_val, of_nat n] else [curr_val]) @ Encode_loop rest)"
  by pat_completeness auto
termination
proof (relation "measure length", goal_cases)
  case (2 v xs x n rest)
  then have "(n, rest) = Encode_run v 1 xs" by simp
  then have "snd (n, rest) = snd (Encode_run v 1 xs)" by (rule arg_cong)
  then show ?case using Encode_run_length [of v 1 xs] by simp
qed simp

definition Encode :: "u8 list \<Rightarrow> RLE_Data \<Rightarrow> (u8 list \<times> bool) \<times> RLE_Data" where
  "Encode data r0 =
     (let (changed, r) = Realloc (length data) r0 in
      if m_len r \<le> 0 then (([], changed), r)
      else
        let diff = (if m_use_diff r then xor_bytes (m_buff r) data else data);
            changed = (if m_use_diff r then changed \<or> (\<exists>b \<in> set diff. b \<noteq> 0) else True)
        in ((Encode_loop diff, changed), r\<lparr>m_buff := data\<rparr>))"

definition Encode16 :: "u16 list \<Rightarrow> RLE_Data \<Rightarrow> (u8 list \<times> bool) \<times> RLE_Data" where
  "Encode16 data r =
     (if length data = 0 then Encode [] r
      else Encode (map (\<lambda>ui. if ui > 0xff then 0xff else ucast ui) data) r)"

text \<open>The bytes of the 64-bit numbers, all lowest bytes first, then all second bytes, and so on.\<close>

definition byte_columns :: "u64 list \<Rightarrow> u8 list" where
  "byte_columns data = concat (map (\<lambda>j. map (\<lambda>u. ucast (drop_bit (8 * j) u)) data) [0..<8])"

definition Encode64 :: "u64 list \<Rightarrow> RLE_Data \<Rightarrow> (u8 list \<times> bool) \<times> RLE_Data" where
  "Encode64 data r = (if length data = 0 then Encode [] r else Encode (byte_columns data) r)"

fun Decode64_join :: "u8 list \<Rightarrow> nat \<Rightarrow> nat \<Rightarrow> nat \<Rightarrow> u64 \<Rightarrow> u64" where
  "Decode64_join decoded n i 0 u = u"
| "Decode64_join decoded n i (Suc j) u =
     Decode64_join decoded n i j (push_bit 8 u OR ucast (decoded ! (i + j * n)))"

definition Decode64 :: "(nat \<Rightarrow> u8) \<Rightarrow> u8 list \<Rightarrow> RLE_Data \<Rightarrow> (u64 list \<times> RLE_Data) option" where
  "Decode64 junk data r =
     map_option (\<lambda>(decoded, r).
       let n = m_len r div 8 in (map (\<lambda>i. Decode64_join decoded n i 8 0) [0..<n], r)) (Decode junk data r)"

text \<open>The three states of a download that a remote interface decodes from the data of a tag.\<close>

record PartFileEncoderData =
  m_part_status :: RLE_Data
  m_gap_status :: RLE_Data
  m_req_status :: RLE_Data

definition DecodeParts :: "(nat \<Rightarrow> u8) \<Rightarrow> u8 list \<Rightarrow> PartFileEncoderData \<Rightarrow> (u16 list \<times> PartFileEncoderData) option" where
  "DecodeParts junk tag p =
     map_option (\<lambda>(buf, r). (map ucast buf, p\<lparr>m_part_status := r\<rparr>)) (Decode junk tag (m_part_status p))"

definition DecodeGaps :: "(nat \<Rightarrow> u8) \<Rightarrow> u8 list \<Rightarrow> PartFileEncoderData \<Rightarrow> (u64 list \<times> PartFileEncoderData) option" where
  "DecodeGaps junk tag p =
     map_option (\<lambda>(gaps, r). (gaps, p\<lparr>m_gap_status := r\<rparr>)) (Decode64 junk tag (m_gap_status p))"

definition DecodeReqs :: "(nat \<Rightarrow> u8) \<Rightarrow> u8 list \<Rightarrow> PartFileEncoderData \<Rightarrow> (u64 list \<times> PartFileEncoderData) option" where
  "DecodeReqs junk tag p =
     map_option (\<lambda>(reqs, r). (reqs, p\<lparr>m_req_status := r\<rparr>)) (Decode64 junk tag (m_req_status p))"

subsection \<open>What the coded bytes stand for\<close>

fun expand :: "u8 list \<Rightarrow> u8 list" where
  "expand (a # b # n # rest) = (if b = a then replicate (unat n) a @ expand rest else a # expand (b # n # rest))"
| "expand (a # rest) = a # expand rest"
| "expand [] = []"

lemma Encode_run_split:
  assumes "Encode_run v n xs = (m, rest)" "n \<le> 255"
  shows "n \<le> m \<and> m \<le> 255 \<and> replicate n v @ xs = replicate m v @ rest \<and> (rest = [] \<or> hd rest \<noteq> v \<or> m = 255)"
  using assms
proof (induction v n xs rule: Encode_run.induct)
  case (2 v n x xs)
  show ?case
  proof (cases "v = x \<and> n < 0xff")
    case True
    then show ?thesis using 2 by (auto simp: replicate_append_same [symmetric])
  next
    case False
    then show ?thesis using 2 by auto
  qed
qed auto

lemma Encode_run_first:
  assumes "Encode_run v 0 (v # xs) = (n, rest)"
  shows "1 \<le> n" "n \<le> 255" "v # xs = replicate n v @ rest" "rest = [] \<or> hd rest \<noteq> v \<or> n = 255"
proof -
  have "Encode_run v 1 xs = (n, rest)" using assms by simp
  from Encode_run_split [OF this] show "1 \<le> n" "n \<le> 255" "v # xs = replicate n v @ rest"
    "rest = [] \<or> hd rest \<noteq> v \<or> n = 255" by simp_all
qed

lemma Encode_loop_hd: "xs \<noteq> [] \<Longrightarrow> Encode_loop xs \<noteq> [] \<and> hd (Encode_loop xs) = hd xs"
  by (cases xs) (auto split: prod.splits)

lemma expand_single: "ys = [] \<or> hd ys \<noteq> a \<Longrightarrow> expand (a # ys) = a # expand ys"
  by (cases ys rule: expand.cases) (auto simp: neq_Nil_conv)

lemma expand_Encode_loop: "expand (Encode_loop xs) = xs"
proof (induction xs rule: Encode_loop.induct)
  case (2 v xs)
  obtain n rest where r: "Encode_run v 0 (v # xs) = (n, rest)" by fastforce
  note e = Encode_run_first [OF r]
  have IH: "expand (Encode_loop rest) = rest" using 2 r by simp
  show ?case
  proof (cases "n > 1")
    case True
    then have "expand (Encode_loop (v # xs)) = replicate n v @ rest"
      using r e(2) IH by (simp add: unat_of_nat_small del: Encode_run.simps)
    then show ?thesis using e(3) by simp
  next
    case False
    then have n: "n = 1" using e(1) by simp
    with e(4) have "Encode_loop rest = [] \<or> hd (Encode_loop rest) \<noteq> v"
      using Encode_loop_hd [of rest] by (cases "rest = []") auto
    then have "expand (Encode_loop (v # xs)) = replicate n v @ rest"
      using r IH n by (simp add: expand_single del: Encode_run.simps)
    then show ?thesis using e(3) by simp
  qed
qed simp

text \<open>The coded bytes fit the buffer that the code allocates for them.\<close>

lemma Encode_loop_length: "2 * length (Encode_loop xs) \<le> 3 * length xs"
proof (induction xs rule: Encode_loop.induct)
  case (2 v xs)
  obtain n rest where r: "Encode_run v 0 (v # xs) = (n, rest)" by fastforce
  note e = Encode_run_first [OF r]
  have "2 * length (Encode_loop rest) \<le> 3 * length rest" using 2 r by simp
  moreover have "length (v # xs) = n + length rest" using arg_cong [OF e(3), of length] by simp
  ultimately show ?case using r e(1) by (simp del: Encode_run.simps)
qed simp

lemma length_memset [simp]: "j + n \<le> length buf \<Longrightarrow> length (memset_at j c n buf) = length buf"
  by (simp add: memset_at_def)

lemma fst_Decode_pass: "fst (Decode_pass len bs j buf) = j + length (expand bs)"
  by (induction len bs j buf rule: Decode_pass.induct) auto

lemma Decode_pass_buffer:
  assumes "j + length (expand bs) \<le> len" "length buf = len"
  shows "snd (Decode_pass len bs j buf) = take j buf @ expand bs @ drop (j + length (expand bs)) buf"
  using assms
proof (induction len bs j buf rule: Decode_pass.induct)
  case (1 len a b n rest j buf)
  show ?case
  proof (cases "b = a")
    case True
    have "take (j + unat n) (memset_at j a (unat n) buf) = take j buf @ replicate (unat n) a"
      "drop (j + unat n + k) (memset_at j a (unat n) buf) = drop (j + unat n + k) buf" for k
      using 1(3,4) True by (simp_all add: memset_at_def add.commute)
    then show ?thesis using 1 True by (simp add: add.assoc)
  next
    case False
    have "take (Suc j) (buf[j := a]) = take j buf @ [a]"
      using 1 False by (simp add: take_Suc_conv_app_nth)
    then show ?thesis using 1 False by simp
  qed
qed (auto simp: take_Suc_conv_app_nth upd_conv_take_nth_drop)

definition resized :: "nat \<Rightarrow> u8 list \<Rightarrow> u8 list" where
  "resized n xs = take n xs @ replicate (n - length xs) 0"

lemma length_resized [simp]: "length (resized n xs) = n"
  by (simp add: resized_def)

lemma resized_Nil [simp]: "resized n xs = [] \<longleftrightarrow> n = 0"
  by (metis length_0_conv length_resized)

lemma resized_same [simp]: "resized (length xs) xs = xs"
  by (simp add: resized_def)

lemma Realloc_eq: "Realloc n r = (n \<noteq> m_len r, r\<lparr>m_buff := resized n (m_buff r)\<rparr>)"
  by (auto simp: Realloc_def resized_def m_len_def)

lemma length_xor_bytes [simp]: "length xs = length ys \<Longrightarrow> length (xor_bytes xs ys) = length ys"
  by (simp add: xor_bytes_def)

lemma xor_bytes_cancel: "length xs = length ys \<Longrightarrow> xor_bytes xs (xor_bytes xs ys) = ys"
  unfolding xor_bytes_def by (induction xs ys rule: list_induct2) (simp_all add: xor.assoc [symmetric])

lemma xor_bytes_zero: "length xs = length ys \<Longrightarrow> (\<exists>b \<in> set (xor_bytes xs ys). b \<noteq> 0) \<longleftrightarrow> xs \<noteq> ys"
  unfolding xor_bytes_def by (induction xs ys rule: list_induct2) (auto simp: bit_eq_iff bit_simps)

definition applied :: "u8 list \<Rightarrow> RLE_Data \<Rightarrow> u8 list" where
  "applied d r = (if m_use_diff r then xor_bytes (resized (length d) (m_buff r)) d else d)"

lemma Decode_passes_2:
  "\<exists>decBuf. Decode_passes 2 junk buff (map junk [0..<m_len r]) r =
     Some (decBuf, r\<lparr>m_buff := resized (length (expand buff)) (m_buff r)\<rparr>) \<and>
   take (length (expand buff)) decBuf = expand buff"
proof -
  let ?n = "length (expand buff)"
  let ?b = "map junk [0..<m_len r]"
  obtain b where p: "Decode_pass (m_len r) buff 0 ?b = (?n, b)"
    using fst_Decode_pass [of "m_len r" buff 0 ?b] by (metis add_0 prod.collapse)
  have b: "?n \<le> m_len r \<Longrightarrow> take ?n b = expand buff"
    using Decode_pass_buffer [of 0 buff "m_len r" ?b] p by simp
  show ?thesis
  proof (cases "?n > m_len r")
    case False
    then show ?thesis using p b by (auto simp: numeral_2_eq_2 Realloc_eq m_len_def)
  next
    case True
    let ?r = "r\<lparr>m_buff := resized ?n (m_buff r)\<rparr>"
    have l: "m_len ?r = ?n" by (simp add: m_len_def)
    have "Decode_pass ?n buff 0 (map junk [0..<?n]) = (?n, expand buff)"
      using fst_Decode_pass [of ?n buff 0] Decode_pass_buffer [of 0 buff ?n "map junk [0..<?n]"]
      by (simp add: prod_eq_iff)
    then show ?thesis using True p l by (simp add: numeral_2_eq_2 Realloc_eq)
  qed
qed

lemma Decode_eq: "Decode junk buff r = Some (applied (expand buff) r, r\<lparr>m_buff := applied (expand buff) r\<rparr>)"
proof -
  obtain decBuf where "Decode_passes 2 junk buff (map junk [0..<m_len r]) r =
      Some (decBuf, r\<lparr>m_buff := resized (length (expand buff)) (m_buff r)\<rparr>)"
    "take (length (expand buff)) decBuf = expand buff"
    using Decode_passes_2 by blast
  then show ?thesis by (simp add: Decode_def applied_def m_len_def Let_def)
qed

lemma Encode_eq:
  "Encode data r = ((Encode_loop (applied data r),
     length data \<noteq> m_len r \<or> data \<noteq> [] \<and> (m_use_diff r \<longrightarrow> resized (length data) (m_buff r) \<noteq> data)), r\<lparr>m_buff := data\<rparr>)"
proof (cases "data = []")
  case True
  then show ?thesis by (auto simp: Encode_def Realloc_eq m_len_def applied_def xor_bytes_def resized_def)
next
  case False
  then show ?thesis by (auto simp: Encode_def Realloc_eq m_len_def applied_def xor_bytes_zero)
qed

lemma applied_twice: "applied (applied data r) r = data"
  by (simp add: applied_def xor_bytes_cancel)

lemma applied_cong: "m_buff r = m_buff r' \<Longrightarrow> m_use_diff r = m_use_diff r' \<Longrightarrow> applied d r = applied d r'"
  by (simp add: applied_def)

subsection \<open>Sessions\<close>

fun run_session :: "('x \<Rightarrow> 'e \<Rightarrow> 'b \<times> 'e) \<Rightarrow> ('b \<Rightarrow> 'd \<Rightarrow> ('x \<times> 'd) option) \<Rightarrow> 'x list \<Rightarrow> 'e \<Rightarrow> 'd \<Rightarrow> 'x list option" where
  "run_session enc dec [] e d = Some []"
| "run_session enc dec (x # xs) e d =
     (case dec (fst (enc x e)) d of
        None \<Rightarrow> None
      | Some (y, d') \<Rightarrow> map_option ((#) y) (run_session enc dec xs (snd (enc x e)) d'))"

text \<open>A contract for coders with a state on both sides: what the encoder sends makes the decoder
  output the data and brings it into step with the encoder again.\<close>

locale synchronized_coder =
  fixes enc :: "'x \<Rightarrow> 'e \<Rightarrow> 'b \<times> 'e" and dec :: "'b \<Rightarrow> 'd \<Rightarrow> ('x \<times> 'd) option" and sync :: "'e \<Rightarrow> 'd \<Rightarrow> bool"
  assumes in_step: "sync e d \<Longrightarrow> \<exists>d'. dec (fst (enc x e)) d = Some (x, d') \<and> sync (snd (enc x e)) d'"
begin

lemma session_returns: "sync e d \<Longrightarrow> run_session enc dec xs e d = Some xs"
proof (induction xs arbitrary: e d)
  case (Cons x xs)
  from in_step [OF Cons.prems, of x] obtain d' where
    "dec (fst (enc x e)) d = Some (x, d')" "sync (snd (enc x e)) d'" by blast
  with Cons.IH show ?case by simp
qed simp

end

definition rle_sync :: "RLE_Data \<Rightarrow> RLE_Data \<Rightarrow> bool" where
  "rle_sync e d \<longleftrightarrow> m_buff e = m_buff d \<and> m_use_diff e = m_use_diff d"

definition encode_bytes :: "u8 list \<Rightarrow> RLE_Data \<Rightarrow> u8 list \<times> RLE_Data" where
  "encode_bytes data e = (fst (fst (Encode data e)), snd (Encode data e))"

lemma rle_step:
  assumes "rle_sync e d"
  shows "\<exists>d'. Decode junk (fst (fst (Encode x e))) d = Some (x, d') \<and> rle_sync (snd (Encode x e)) d'"
proof -
  have "applied x e = applied x d" using assms by (auto simp: rle_sync_def intro: applied_cong)
  then show ?thesis using assms
    by (simp add: Encode_eq Decode_eq expand_Encode_loop applied_twice rle_sync_def)
qed

interpretation rle: synchronized_coder encode_bytes "Decode junk" rle_sync for junk
  by unfold_locales (simp add: encode_bytes_def rle_step)

subsection \<open>Columns of bytes\<close>

lemma byte_columns_nth:
  assumes "i < length data" "j < 8"
  shows "byte_columns data ! (i + j * length data) = ucast (drop_bit (8 * j) (data ! i))"
proof -
  have *: "concat (map f [0..<k]) ! (i + j * n) = f j ! i"
    if "\<And>m. length (f m) = n" "i < n" "j < k" for f :: "nat \<Rightarrow> 'a list" and n k j i
    using that(3)
  proof (induction k)
    case (Suc k)
    have len: "length (concat (map f [0..<m])) = m * n" for m using that(1) by (induction m) simp_all
    show ?case
    proof (cases "j = k")
      case True
      then show ?thesis using len [of k] that(2) by (simp add: nth_append)
    next
      case False
      then have "j < k" using Suc.prems by simp
      moreover from this have "i + j * n < k * n"
        using that(2) by (metis add_less_cancel_right add.commute less_le_trans mult_Suc mult_le_mono1 Suc_leI)
      ultimately show ?thesis using Suc.IH len [of k] by (simp add: nth_append)
    qed
  qed simp
  show ?thesis unfolding byte_columns_def
    using *[of "\<lambda>j. map (\<lambda>u. ucast (drop_bit (8 * j) u)) data" "length data" i j 8] assms by simp
qed

text \<open>Joining the bytes that a number was split into.\<close>

lemma Decode64_join_eq:
  assumes "\<And>k. k < j \<Longrightarrow> dec ! (i + k * n) = ucast (drop_bit (8 * k) (u :: u64))"
  shows "Decode64_join dec n i j w = push_bit (8 * j) w OR take_bit (8 * j) u"
  using assms
proof (induction j arbitrary: w)
  case (Suc j)
  have "Decode64_join dec n i (Suc j) w =
      push_bit (8 * j) (push_bit 8 w OR ucast (ucast (drop_bit (8 * j) u) :: u8)) OR take_bit (8 * j) u"
    using Suc by simp
  also have "\<dots> = push_bit (8 * Suc j) w OR take_bit (8 * Suc j) u"
    by (rule bit_word_eqI) (auto simp: bit_simps add.commute [of 8])
  finally show ?case .
qed simp

lemma length_byte_columns [simp]: "length (byte_columns data) = 8 * length data"
  by (simp add: byte_columns_def length_concat upt_rec comp_def)

lemma Decode64_columns:
  "map (\<lambda>i. Decode64_join (byte_columns data) (length data) i 8 0) [0..<length data] = data"
proof (rule nth_equalityI)
  fix i assume "i < length (map (\<lambda>i. Decode64_join (byte_columns data) (length data) i 8 0) [0..<length data])"
  then have i: "i < length data" by simp
  then have "Decode64_join (byte_columns data) (length data) i 8 0 = push_bit (8 * 8) 0 OR take_bit (8 * 8) (data ! i)"
    by (intro Decode64_join_eq) (simp add: byte_columns_nth)
  also have "\<dots> = data ! i" by (simp add: take_bit_word_eq_self)
  finally show "map (\<lambda>i. Decode64_join (byte_columns data) (length data) i 8 0) [0..<length data] ! i = data ! i"
    using i by simp
qed simp

definition encode64_bytes :: "u64 list \<Rightarrow> RLE_Data \<Rightarrow> u8 list \<times> RLE_Data" where
  "encode64_bytes data e = (fst (fst (Encode64 data e)), snd (Encode64 data e))"

lemma rle64_step:
  assumes "rle_sync e d"
  shows "\<exists>d'. Decode64 junk (fst (fst (Encode64 x e))) d = Some (x, d') \<and> rle_sync (snd (Encode64 x e)) d'"
proof -
  have "byte_columns [] = []" by (metis length_byte_columns length_0_conv mult_0_right list.size(3))
  then have e: "Encode64 x e = Encode (byte_columns x) e" by (auto simp: Encode64_def)
  obtain d' where d': "Decode junk (fst (fst (Encode64 x e))) d = Some (byte_columns x, d')" "rle_sync (snd (Encode64 x e)) d'"
    using rle_step [OF assms, of junk "byte_columns x"] unfolding e by blast
  have "m_buff d' = byte_columns x" using d'(1) by (auto simp: Decode_eq)
  then have "Decode64 junk (fst (fst (Encode64 x e))) d = Some (x, d')"
    using d'(1) Decode64_columns [of x] by (simp add: Decode64_def m_len_def)
  with d'(2) show ?thesis by blast
qed

interpretation rle64: synchronized_coder encode64_bytes "Decode64 junk" rle_sync for junk
  by unfold_locales (simp add: encode64_bytes_def rle64_step)

text \<open>The part status arrives with every count limited to 255.\<close>

lemma DecodeParts_Encode16:
  assumes "rle_sync e (m_part_status p)"
  shows "\<exists>p'. DecodeParts junk (fst (fst (Encode16 data e))) p = Some (map (\<lambda>ui. min ui 0xFF) data, p') \<and>
    rle_sync (snd (Encode16 data e)) (m_part_status p')"
proof -
  let ?d = "map (\<lambda>ui. if ui > 0xff then 0xff else ucast ui) data :: u8 list"
  have e: "Encode16 data e = Encode ?d e" by (simp add: Encode16_def)
  have m: "map ucast ?d = map (\<lambda>ui :: u16. min ui 0xFF) data"
    by (auto simp: min_def not_less word_unat_eq_iff word_le_nat_alt word_less_nat_alt unat_ucast_up unat_ucast_small)
  from rle_step [OF assms, of junk ?d] obtain d' where
    "Decode junk (fst (fst (Encode ?d e))) (m_part_status p) = Some (?d, d')" "rle_sync (snd (Encode ?d e)) d'" by blast
  then show ?thesis unfolding e using m by (simp add: DecodeParts_def)
qed

subsection \<open>Properties\<close>

text \<open>C12: a sequence of states of any sizes, each sent as the coded difference from the one before, is
  decoded as the same sequence, whatever is in freshly allocated memory, when encoder and decoder
  start from the same state; the same holds for states that are lists of 64-bit numbers.\<close>

theorem rle_session:
  assumes "m_buff e = m_buff d" "m_use_diff e = m_use_diff d"
  shows "run_session encode_bytes (Decode junk) states e d = Some states \<and>
    run_session encode64_bytes (Decode64 junk) states64 e d = Some states64"
  using rle.session_returns rle64.session_returns assms by (simp add: rle_sync_def)

theorem rle_session_witness:
  "run_session encode_bytes (Decode (\<lambda>_. 7)) [[1, 1, 1, 5], [1, 1], [1, 1, 9]] (RLE_setup 0 True None) (RLE_setup 0 True None) =
     Some [[1, 1, 1, 5], [1, 1], [1, 1, 9]]"
  using rle_session [of "RLE_setup 0 True None" "RLE_setup 0 True None" "\<lambda>_. 7" "[[1, 1, 1, 5], [1, 1], [1, 1, 9]]"] by simp


text \<open>The encoder reports a change exactly when the data differ from the data of the previous call
  (in differential mode), remembers the data, and never writes more coded bytes than the buffer it
  allocates for them holds.\<close>

theorem Encode_changed:
  assumes "m_use_diff r" "Encode data r = ((bytes, changed), r')"
  shows "changed = (data \<noteq> m_buff r) \<and> m_buff r' = data \<and> m_use_diff r' \<and>
    length bytes \<le> length data * 3 div 2 + 1 \<and> expand bytes = xor_bytes (resized (length data) (m_buff r)) data"
proof -
  have "changed = (length data \<noteq> m_len r \<or> data \<noteq> [] \<and> resized (length data) (m_buff r) \<noteq> data)"
    "bytes = Encode_loop (applied data r)" "r' = r\<lparr>m_buff := data\<rparr>"
    using assms by (auto simp: Encode_eq)
  moreover have "length data = m_len r \<Longrightarrow> resized (length data) (m_buff r) = m_buff r" by (simp add: m_len_def)
  moreover have "length (applied data r) = length data" using assms(1) by (simp add: applied_def)
  ultimately show ?thesis using assms(1) Encode_loop_length [of "applied data r"]
    by (auto simp: expand_Encode_loop applied_def m_len_def)
qed

theorem Encode_changed_witness:
  "\<not> snd (fst (Encode [4, 4] ((RLE_setup 0 True None)\<lparr>m_buff := [4, 4]\<rparr>)))"
  using Encode_changed [of "(RLE_setup 0 True None)\<lparr>m_buff := [4, 4]\<rparr>" "[4, 4]"
      "fst (fst (Encode [4, 4] ((RLE_setup 0 True None)\<lparr>m_buff := [4, 4]\<rparr>)))"
      "snd (fst (Encode [4, 4] ((RLE_setup 0 True None)\<lparr>m_buff := [4, 4]\<rparr>)))"
      "snd (Encode [4, 4] ((RLE_setup 0 True None)\<lparr>m_buff := [4, 4]\<rparr>))"]
  by (simp add: RLE_setup_def)

end
