(* ===== verification/Contact.thy ===== *)
theory Contact
  imports SafeFile
begin

text \<open>
  Kademlia contacts (src/amule-3.0.1/src/kademlia/routing/Contact.h and Contact.cpp) and the keys
  that a node hands out to authenticate its UDP packets
  (src/amule-3.0.1/src/kademlia/utils/KadUDPKey.h). Times are seconds; the current time is an
  argument of the operations that call \<open>time\<close>. The statistics counters of the constructor and
  the destructor are not modelled.
\<close>

subsection \<open>UDP keys\<close>

record CKadUDPKey =
  m_key :: u32
  m_key_ip :: u32

definition CKadUDPKey_zero :: CKadUDPKey where
  "CKadUDPKey_zero = \<lparr>m_key = 0, m_key_ip = 0\<rparr>"

definition GetKeyValue :: "u32 \<Rightarrow> CKadUDPKey \<Rightarrow> u32" where
  "GetKeyValue myIP k = (if myIP = m_key_ip k then m_key k else 0)"

definition key_IsEmpty :: "CKadUDPKey \<Rightarrow> bool" where
  "key_IsEmpty k \<longleftrightarrow> m_key k = 0 \<or> m_key_ip k = 0"

definition key_StoreToFile :: "'s file_ops \<Rightarrow> CKadUDPKey \<Rightarrow> ('s, unit) io" where
  "key_StoreToFile V k = io_bind (WriteUInt32 V (m_key k)) (\<lambda>_. WriteUInt32 V (m_key_ip k))"

definition key_ReadFromFile :: "'s file_ops \<Rightarrow> ('s, CKadUDPKey) io" where
  "key_ReadFromFile V = io_bind (ReadUInt32 V) (\<lambda>key. io_bind (ReadUInt32 V) (\<lambda>ip.
     io_return \<lparr>m_key = key, m_key_ip = ip\<rparr>))"

subsection \<open>Contacts\<close>

record CContact =
  m_clientID :: CUInt128
  m_distance :: CUInt128
  m_ip :: u32
  m_tcpPort :: u16
  m_udpPort :: u16
  m_type :: nat
  m_lastTypeSet :: int
  m_expires :: int
  m_created :: int
  m_inUse :: u32
  m_version :: u8
  m_ipVerified :: bool
  m_receivedHelloPacket :: bool
  m_udpKey :: CKadUDPKey

definition CContact_new :: "int \<Rightarrow> CUInt128 \<Rightarrow> u32 \<Rightarrow> u16 \<Rightarrow> u16 \<Rightarrow> u8 \<Rightarrow> CKadUDPKey \<Rightarrow> bool \<Rightarrow> CUInt128 \<Rightarrow> CContact" where
  "CContact_new now clientID ip udpPort tcpPort version key ipVerified target =
     \<lparr>m_clientID = clientID, m_distance = XOR_op target clientID, m_ip = ip, m_tcpPort = tcpPort,
      m_udpPort = udpPort, m_type = 3, m_lastTypeSet = now, m_expires = 0, m_created = now, m_inUse = 0,
      m_version = version, m_ipVerified = ipVerified, m_receivedHelloPacket = False, m_udpKey = key\<rparr>"

definition SetClientID :: "CUInt128 \<Rightarrow> CUInt128 \<Rightarrow> CContact \<Rightarrow> CContact" where
  "SetClientID kadID clientID c = c\<lparr>m_clientID := clientID, m_distance := XOR_op kadID clientID\<rparr>"

definition SetIPAddress :: "u32 \<Rightarrow> CContact \<Rightarrow> CContact" where
  "SetIPAddress ip c = (if m_ip c \<noteq> ip then c\<lparr>m_ipVerified := False, m_ip := ip\<rparr> else c)"

definition InUse :: "CContact \<Rightarrow> bool" where
  "InUse c \<longleftrightarrow> m_inUse c > 0"

definition IncUse :: "CContact \<Rightarrow> CContact" where
  "IncUse c = c\<lparr>m_inUse := m_inUse c + 1\<rparr>"

definition DecUse :: "CContact \<Rightarrow> CContact" where
  "DecUse c = (if m_inUse c \<noteq> 0 then c\<lparr>m_inUse := m_inUse c - 1\<rparr> else c)"

definition SetReceivedHelloPacket :: "CContact \<Rightarrow> CContact" where
  "SetReceivedHelloPacket c = c\<lparr>m_receivedHelloPacket := True\<rparr>"

definition CheckingType :: "int \<Rightarrow> CContact \<Rightarrow> CContact" where
  "CheckingType now c =
     (if now - m_lastTypeSet c < 10 \<or> m_type c = 4 then c
      else c\<lparr>m_lastTypeSet := now, m_expires := now + 120, m_type := m_type c + 1\<rparr>)"

text \<open>The number of hours since the contact was created is a quotient truncated towards zero, and is
  stored in 32 bits.\<close>

definition UpdateType :: "int \<Rightarrow> CContact \<Rightarrow> CContact" where
  "UpdateType now c =
     (let diff = now - m_created c;
          hours = (if diff \<ge> 0 then diff div 3600 else - (- diff div 3600)) mod 2 ^ 32 in
      if hours = 0 then c\<lparr>m_type := 2, m_expires := now + 3600\<rparr>
      else if hours = 1 then c\<lparr>m_type := 1, m_expires := now + 5400\<rparr>
      else c\<lparr>m_type := 0, m_expires := now + 7200\<rparr>)"

definition GetLastSeen :: "CContact \<Rightarrow> int" where
  "GetLastSeen c =
     (if m_expires c \<noteq> 0 then
        if m_type c = 2 then m_expires c - 3600
        else if m_type c = 1 then m_expires c - 5400
        else if m_type c = 0 then m_expires c - 7200
        else 0
      else 0)"

subsection \<open>What the operations keep\<close>

text \<open>No operation but \<open>SetClientID\<close> changes who a contact is, and only \<open>SetIPAddress\<close> where it is.\<close>

lemma contact_keeps [simp]:
  "m_clientID (SetIPAddress ip c) = m_clientID c" "m_distance (SetIPAddress ip c) = m_distance c"
  "m_ip (SetIPAddress ip c) = ip"
  "m_clientID (IncUse c) = m_clientID c" "m_distance (IncUse c) = m_distance c" "m_ip (IncUse c) = m_ip c"
  "m_clientID (DecUse c) = m_clientID c" "m_distance (DecUse c) = m_distance c" "m_ip (DecUse c) = m_ip c"
  "m_clientID (CheckingType now c) = m_clientID c" "m_distance (CheckingType now c) = m_distance c"
  "m_ip (CheckingType now c) = m_ip c"
  "m_clientID (UpdateType now c) = m_clientID c" "m_distance (UpdateType now c) = m_distance c"
  "m_ip (UpdateType now c) = m_ip c"
  "m_clientID (SetReceivedHelloPacket c) = m_clientID c" "m_distance (SetReceivedHelloPacket c) = m_distance c"
  "m_ip (SetReceivedHelloPacket c) = m_ip c"
  by (simp_all add: SetIPAddress_def IncUse_def DecUse_def CheckingType_def UpdateType_def
      SetReceivedHelloPacket_def Let_def)

text \<open>The types of a contact go from 0, a contact seen for more than two hours, to 4, a dead one.\<close>

lemma type_bounds:
  "m_type c \<le> 4 \<Longrightarrow> m_type (CheckingType now c) \<le> 4"
  "m_type (UpdateType now c) \<le> 2"
  by (auto simp: CheckingType_def UpdateType_def Let_def)

lemma GetLastSeen_UpdateType: "now > 0 \<Longrightarrow> GetLastSeen (UpdateType now c) = now"
  by (auto simp: GetLastSeen_def UpdateType_def Let_def)

lemma DecUse_IncUse: "m_inUse c + 1 \<noteq> 0 \<Longrightarrow> DecUse (IncUse c) = c"
  by (simp add: DecUse_def IncUse_def)

end
