(* ===== verification/RoutingBin.thy ===== *)
theory RoutingBin
  imports Contact NetworkFunctions StdMap "HOL-Library.Multiset"
begin

text \<open>
  Bins of Kademlia contacts (src/amule-3.0.1/src/kademlia/routing/RoutingBin.h and RoutingBin.cpp).
  A bin is a list of at most \<open>K\<close> contacts, the least recently seen one first. The counts of
  contacts per address and per /24 network are shared by all bins (static members of the class):
  they are the record \<open>tracking\<close>, passed through the operations.

  A bin holds pointers to contacts. In the model it holds the contacts; a pointer to a contact of
  a bin is its client ID, which \<open>AddContact\<close> keeps unique in the bin. Log lines and assertions
  without effect on the state are not modelled.
\<close>

definition K :: nat where "K = 10"

definition MAX_CONTACTS_SUBNET :: u32 where "MAX_CONTACTS_SUBNET = 10"

definition MAX_CONTACTS_IP :: u32 where "MAX_CONTACTS_IP = 1"

record tracking =
  s_globalContactIPs :: "u32 \<rightharpoonup> u32"
  s_globalContactSubnets :: "u32 \<rightharpoonup> u32"

type_synonym bin = "CContact list"

definition subnet :: "u32 \<Rightarrow> u32" where
  "subnet ip = ip AND 0xFFFFFF00"

definition lan :: "u32 \<Rightarrow> bool" where
  "lan ip \<longleftrightarrow> IsLanIP (byte_swap 4 ip)"

definition tracked :: "(u32 \<rightharpoonup> u32) \<Rightarrow> u32 \<Rightarrow> u32" where
  "tracked m k = (case m k of Some n \<Rightarrow> n | None \<Rightarrow> 0)"

subsection \<open>The shared counts\<close>

definition adjusted :: "u32 \<Rightarrow> bool \<Rightarrow> (u32 \<rightharpoonup> u32) \<Rightarrow> (u32 \<rightharpoonup> u32)" where
  "adjusted k increase m =
     (let n = (if increase then tracked m k + 1 else tracked m k - 1)
      in if n \<noteq> 0 then m(k \<mapsto> n) else m(k := None))"

definition AdjustGlobalTracking :: "u32 \<Rightarrow> bool \<Rightarrow> tracking \<Rightarrow> tracking" where
  "AdjustGlobalTracking ip increase g =
     g\<lparr>s_globalContactIPs := adjusted ip increase (s_globalContactIPs g),
       s_globalContactSubnets := adjusted (subnet ip) increase (s_globalContactSubnets g)\<rparr>"

definition CheckGlobalIPLimits :: "u32 \<Rightarrow> tracking \<Rightarrow> bool" where
  "CheckGlobalIPLimits ip g \<longleftrightarrow>
     \<not> tracked (s_globalContactIPs g) ip \<ge> MAX_CONTACTS_IP \<and>
     \<not> (tracked (s_globalContactSubnets g) (subnet ip) \<ge> MAX_CONTACTS_SUBNET \<and> \<not> lan ip)"

subsection \<open>Operations of a bin\<close>

fun bin_GetContact :: "CUInt128 \<Rightarrow> bin \<Rightarrow> CContact option" where
  "bin_GetContact kadid [] = None"
| "bin_GetContact kadid (c # cs) = (if m_clientID c = kadid then Some c else bin_GetContact kadid cs)"

fun bin_GetContact_ip :: "u32 \<Rightarrow> u16 \<Rightarrow> bool \<Rightarrow> bin \<Rightarrow> CContact option" where
  "bin_GetContact_ip ip port tcpPort [] = None"
| "bin_GetContact_ip ip port tcpPort (c # cs) =
     (if m_ip c = ip \<and> (\<not> tcpPort \<and> port = m_udpPort c \<or> tcpPort \<and> port = m_tcpPort c \<or> port = 0)
      then Some c else bin_GetContact_ip ip port tcpPort cs)"

text \<open>The loop at the start of \<open>AddContact\<close>: \<open>None\<close> when the contact is known already, otherwise the
  number of contacts of its network.\<close>

fun AddContact_loop :: "CContact \<Rightarrow> nat \<Rightarrow> bin \<Rightarrow> nat option" where
  "AddContact_loop contact sameSubnets [] = Some sameSubnets"
| "AddContact_loop contact sameSubnets (c # cs) =
     (if m_clientID contact = m_clientID c then None
      else AddContact_loop contact (if subnet (m_ip contact) = subnet (m_ip c) then sameSubnets + 1 else sameSubnets) cs)"

definition AddContact :: "CContact \<Rightarrow> tracking \<Rightarrow> bin \<Rightarrow> bool \<times> tracking \<times> bin" where
  "AddContact contact g b =
     (case AddContact_loop contact 0 b of
        None \<Rightarrow> (False, g, b)
      | Some sameSubnets \<Rightarrow>
          if \<not> CheckGlobalIPLimits (m_ip contact) g then (False, g, b)
          else if sameSubnets \<ge> 2 \<and> \<not> lan (m_ip contact) then (False, g, b)
          else if length b < K then (True, AdjustGlobalTracking (m_ip contact) True g, b @ [contact])
          else (False, g, b))"

definition RemoveContact :: "CContact \<Rightarrow> bool \<Rightarrow> tracking \<Rightarrow> bin \<Rightarrow> tracking \<times> bin" where
  "RemoveContact contact noTrackingAdjust g b =
     ((if noTrackingAdjust then g else AdjustGlobalTracking (m_ip contact) False g),
      filter (\<lambda>c. m_clientID c \<noteq> m_clientID contact) b)"

definition PushToBottom :: "CContact \<Rightarrow> bin \<Rightarrow> bin" where
  "PushToBottom contact b = filter (\<lambda>c. m_clientID c \<noteq> m_clientID contact) b @ [contact]"

definition SetAlive :: "int \<Rightarrow> CUInt128 \<Rightarrow> bin \<Rightarrow> bin" where
  "SetAlive now kadid b =
     (case bin_GetContact kadid b of
        None \<Rightarrow> b
      | Some test \<Rightarrow> PushToBottom (UpdateType now test) b)"

fun find_ip_port :: "u32 \<Rightarrow> u16 \<Rightarrow> bin \<Rightarrow> CContact option" where
  "find_ip_port ip port [] = None"
| "find_ip_port ip port (c # cs) = (if ip = m_ip c \<and> port = m_udpPort c then Some c else find_ip_port ip port cs)"

definition SetTCPPort :: "int \<Rightarrow> u32 \<Rightarrow> u16 \<Rightarrow> u16 \<Rightarrow> bin \<Rightarrow> bin" where
  "SetTCPPort now ip port tcpPort b =
     (case find_ip_port ip port b of
        None \<Rightarrow> b
      | Some c \<Rightarrow> PushToBottom (UpdateType now (c\<lparr>m_tcpPort := tcpPort\<rparr>)) b)"

definition GetOldest :: "bin \<Rightarrow> CContact option" where
  "GetOldest b = (if length b \<noteq> 0 then Some (hd b) else None)"

definition GetRemaining :: "bin \<Rightarrow> nat" where
  "GetRemaining b = K - length b"

fun bin_GetNumContacts :: "u8 \<Rightarrow> bin \<Rightarrow> nat \<times> nat \<Rightarrow> nat \<times> nat" where
  "bin_GetNumContacts minVersion [] n = n"
| "bin_GetNumContacts minVersion (c # cs) (n, filtered) =
     bin_GetNumContacts minVersion cs (if m_version c \<ge> minVersion then (n + 1, filtered) else (n, filtered + 1))"

definition GetEntries :: "CContact list \<Rightarrow> bool \<Rightarrow> bin \<Rightarrow> CContact list" where
  "GetEntries result emptyFirst b = (if emptyFirst then [] else result) @ b"

text \<open>Changing a contact of a bin through a pointer to it.\<close>

definition modify_contact :: "CUInt128 \<Rightarrow> (CContact \<Rightarrow> CContact) \<Rightarrow> bin \<Rightarrow> bin" where
  "modify_contact kadid f b = map (\<lambda>c. if m_clientID c = kadid then f c else c) b"

definition ChangeContactIPAddress :: "CContact \<Rightarrow> u32 \<Rightarrow> tracking \<Rightarrow> bin \<Rightarrow> bool \<times> tracking \<times> bin" where
  "ChangeContactIPAddress contact newIP g b =
     (if m_ip contact = newIP then (True, g, b)
      else if tracked (s_globalContactIPs g) newIP \<ge> MAX_CONTACTS_IP then (False, g, b)
      else if subnet (m_ip contact) \<noteq> subnet newIP \<and>
              (tracked (s_globalContactSubnets g) (subnet newIP) \<ge> MAX_CONTACTS_SUBNET \<and> \<not> lan newIP \<or>
               length (filter (\<lambda>c. subnet newIP = subnet (m_ip c)) b) \<ge> 2 \<and> \<not> lan newIP) then (False, g, b)
      else (True, AdjustGlobalTracking newIP True (AdjustGlobalTracking (m_ip contact) False g),
            modify_contact (m_clientID contact) (SetIPAddress newIP) b))"

fun GetRandomContact_loop :: "nat \<Rightarrow> nat \<Rightarrow> nat \<Rightarrow> nat \<Rightarrow> CContact option \<Rightarrow> bin \<Rightarrow> CContact option" where
  "GetRandomContact_loop maxType minKadVersion start index lastFit [] = lastFit"
| "GetRandomContact_loop maxType minKadVersion start index lastFit (c # cs) =
     (if m_type c \<le> maxType \<and> unat (m_version c) \<ge> minKadVersion then
        if index \<ge> start then Some c
        else GetRandomContact_loop maxType minKadVersion start (index + 1) (Some c) cs
      else GetRandomContact_loop maxType minKadVersion start (index + 1) lastFit cs)"

definition bin_GetRandomContact :: "nat \<Rightarrow> nat \<Rightarrow> nat \<Rightarrow> bin \<Rightarrow> CContact option" where
  "bin_GetRandomContact random maxType minKadVersion b =
     (if b = [] then None
      else GetRandomContact_loop maxType minKadVersion (random mod length b) 0 None b)"

definition bin_SetAllContactsVerified :: "bin \<Rightarrow> bin" where
  "bin_SetAllContactsVerified b = map (\<lambda>c. c\<lparr>m_ipVerified := True\<rparr>) b"

definition bin_HasOnlyLANNodes :: "bin \<Rightarrow> bool" where
  "bin_HasOnlyLANNodes b \<longleftrightarrow> list_all (\<lambda>c. lan (m_ip c)) b"

text \<open>The destructor: the contacts are no longer counted.\<close>

definition bin_delete :: "tracking \<Rightarrow> bin \<Rightarrow> tracking" where
  "bin_delete g b = fold (\<lambda>c. AdjustGlobalTracking (m_ip c) False) b g"

subsection \<open>The closest contacts of a bin\<close>

type_synonym contact_map = "(CUInt128, CContact) std_map"

text \<open>A search for the closest contacts counts every contact it returns as in use. The counters are
  members of the contacts, which the result and the bins share; a search returns what it does to
  them as a list of events, in order, that \<open>apply_use\<close> carries out on a bin. The contacts in the
  result are as they were before the search.\<close>

datatype use_event = Inc CUInt128 | Dec CUInt128

fun apply_use :: "use_event \<Rightarrow> bin \<Rightarrow> bin" where
  "apply_use (Inc kadid) b = modify_contact kadid IncUse b"
| "apply_use (Dec kadid) b = modify_contact kadid DecUse b"

definition wanted :: "nat \<Rightarrow> CContact \<Rightarrow> bool" where
  "wanted maxType c \<longleftrightarrow> m_type c \<le> maxType \<and> m_ipVerified c"

fun GetClosestTo_insert :: "nat \<Rightarrow> CUInt128 \<Rightarrow> bool \<Rightarrow> bin \<Rightarrow> contact_map \<times> use_event list \<Rightarrow> contact_map \<times> use_event list" where
  "GetClosestTo_insert maxType target inUse [] (result, ev) = (result, ev)"
| "GetClosestTo_insert maxType target inUse (c # cs) (result, ev) =
     GetClosestTo_insert maxType target inUse cs
       (if wanted maxType c
        then (std_set (XOR_op (m_clientID c) target) c result, if inUse then ev @ [Inc (m_clientID c)] else ev)
        else (result, ev))"

function GetClosestTo_trim :: "nat \<Rightarrow> bool \<Rightarrow> contact_map \<Rightarrow> use_event list \<Rightarrow> contact_map \<times> use_event list" where
  "GetClosestTo_trim maxRequired inUse result ev =
     (if length result > maxRequired
      then GetClosestTo_trim maxRequired inUse (butlast result)
        (if inUse then ev @ [Dec (m_clientID (snd (List.last result)))] else ev)
      else (result, ev))"
  by pat_completeness auto
termination by (relation "measure (\<lambda>(n, i, r, ev). length r)") auto

declare GetClosestTo_trim.simps [simp del]

definition bin_GetClosestTo ::
  "nat \<Rightarrow> CUInt128 \<Rightarrow> nat \<Rightarrow> bool \<Rightarrow> bool \<Rightarrow> bin \<Rightarrow> contact_map \<times> use_event list \<Rightarrow> contact_map \<times> use_event list" where
  "bin_GetClosestTo maxType target maxRequired emptyFirst inUse b = (\<lambda>(result, ev).
     let result = (if emptyFirst then [] else result) in
     if b = [] then (result, ev)
     else case GetClosestTo_insert maxType target inUse b (result, ev) of
       (result, ev) \<Rightarrow> GetClosestTo_trim maxRequired inUse result ev)"

subsection \<open>Networks\<close>

lemma bit_byte_swap_4:
  "bit (byte_swap 4 (w :: u32)) k \<longleftrightarrow> k < 32 \<and> bit w (8 * (3 - k div 8) + k mod 8)"
proof (cases "k < 32")
  case True
  then have "k div 8 < 4" by simp
  then show ?thesis using True
    by (simp add: byte_swap_def bit_le_join rev_nth bit_le_split del: le_split_nth)
next
  case False
  then show ?thesis using bit_imp_le_length [of "byte_swap 4 w" k] by auto
qed

lemma subnet_eq_iff: "subnet a = subnet b \<longleftrightarrow> (\<forall>k. 8 \<le> k \<and> k < 32 \<longrightarrow> bit a k = bit b k)"
proof -
  have m: "(0xFFFFFF00 :: u32) = push_bit 8 (mask 24)" by (simp add: mask_eq_exp_minus_1)
  show ?thesis unfolding subnet_def m
    by (auto simp: bit_eq_iff bit_simps dest: bit_imp_le_length)
qed

lemma subnet_subnet [simp]: "subnet (subnet a) = subnet a"
  by (simp add: subnet_def and.assoc)

lemma masked_agree:
  assumes "\<And>k. k < 16 \<Longrightarrow> bit x k = bit (y :: u32) k" "\<And>k. bit m k \<Longrightarrow> k < 16"
  shows "(x XOR a) AND m = 0 \<longleftrightarrow> (y XOR a) AND m = 0"
proof -
  have "(x XOR a) AND m = (y XOR a) AND m"
    by (rule bit_word_eqI) (use assms in \<open>auto simp: bit_simps\<close>)
  then show ?thesis by simp
qed

text \<open>Whether an address is one of a local network depends on its /24 network only.\<close>

lemma lan_subnet:
  assumes "subnet a = subnet b"
  shows "lan a = lan b"
proof -
  have agree: "bit (byte_swap 4 a) k = bit (byte_swap 4 b) k" if "k < 16" for k
  proof -
    have "8 * (3 - k div 8) + k mod 8 \<ge> 8" "8 * (3 - k div 8) + k mod 8 < 32" using that by linarith+
    then show ?thesis using assms by (simp add: bit_byte_swap_4 subnet_eq_iff)
  qed
  have same: "(byte_swap 4 a XOR r) AND m = 0 \<longleftrightarrow> (byte_swap 4 b XOR r) AND m = 0" if "take_bit 16 m = m" for r m
  proof (rule masked_agree)
    show "k < 16" if "bit m k" for k using that \<open>take_bit 16 m = m\<close> bit_take_bit_iff [of 16 m k] by simp
  qed (rule agree)
  show ?thesis unfolding lan_def IsLanIP_def lan_ranges_def in_ranges_simps
    by (simp add: same [where m = "0xff"] same [where m = "0xf0ff"] same [where m = "0xffff"])
qed

lemma card_subnet: "card {ip. subnet ip = s} \<le> 256"
proof -
  let ?f = "ucast :: u32 \<Rightarrow> u8"
  have "inj_on ?f {ip. subnet ip = s}"
  proof (rule inj_onI)
    fix a b assume a: "a \<in> {ip. subnet ip = s}" and b: "b \<in> {ip. subnet ip = s}" and e: "?f a = ?f b"
    show "a = b"
    proof (rule bit_word_eqI)
      fix k assume "k < LENGTH(32)"
      moreover have "subnet a = subnet b" using a b by simp
      moreover have "k < 8 \<Longrightarrow> bit a k = bit b k" using arg_cong [OF e, of "\<lambda>w. bit w k"] by (simp add: bit_simps)
      ultimately show "bit a k = bit b k" by (cases "k < 8") (auto simp: subnet_eq_iff)
    qed
  qed
  then have "card {ip. subnet ip = s} = card (?f ` {ip. subnet ip = s})" by (simp add: card_image)
  also have "\<dots> \<le> card (UNIV :: u8 set)" by (rule card_mono) simp_all
  also have "\<dots> = 256" by (simp add: card_word)
  finally show ?thesis .
qed

lemma count_subnet_le:
  assumes "\<And>ip. count I ip \<le> 1"
  shows "size (filter_mset (\<lambda>ip. subnet ip = s) I) \<le> 256"
proof -
  have "size (filter_mset (\<lambda>ip. subnet ip = s) I) = (\<Sum>ip \<in> {ip \<in> set_mset I. subnet ip = s}. count I ip)"
    by (auto simp: size_multiset_overloaded_eq)
  also have "\<dots> \<le> card {ip \<in> set_mset I. subnet ip = s}"
    using sum_bounded_above [of "{ip \<in> set_mset I. subnet ip = s}" "count I" 1] assms by simp
  also have "\<dots> \<le> card {ip. subnet ip = s}" by (rule card_mono) auto
  also have "\<dots> \<le> 256" by (rule card_subnet)
  finally show ?thesis .
qed

subsection \<open>The counts are those of the contacts\<close>

lemma count_image: "count (image_mset f M) y = size (filter_mset (\<lambda>x. f x = y) M)"
  by (induction M) auto

definition counted :: "(u32 \<rightharpoonup> u32) \<Rightarrow> u32 multiset \<Rightarrow> bool" where
  "counted m M \<longleftrightarrow>
     (\<forall>k. count M k < 2 ^ 32 \<and> m k = (if count M k = 0 then None else Some (of_nat (count M k))))"

lemma counted_tracked: "counted m M \<Longrightarrow> unat (tracked m k) = count M k"
  by (auto simp: counted_def tracked_def unat_of_nat_small split: option.splits if_splits)

lemma of_nat_u32_eq_0: "n < 2 ^ 32 \<Longrightarrow> (of_nat n :: u32) = 0 \<longleftrightarrow> n = 0"
  using unat_of_nat_small [of n, where ?'a = 32] by (auto simp: word_unat_eq_iff)

lemma counted_inc:
  assumes "counted m M" "count M k + 1 < 2 ^ 32"
  shows "counted (adjusted k True m) (add_mset k M)"
proof -
  have t: "tracked m k + 1 = of_nat (count M k + 1)"
    using word_eq_of_nat [OF counted_tracked [OF assms(1), of k]] by (simp add: add.commute)
  have n: "(of_nat (count M k + 1) :: u32) \<noteq> 0" using of_nat_u32_eq_0 [OF assms(2)] by simp
  have "adjusted k True m = m(k \<mapsto> of_nat (count M k + 1))"
    unfolding adjusted_def Let_def if_True t using n by (rule if_P)
  then show ?thesis using assms by (auto simp: counted_def count_eq_zero_iff)
qed

lemma counted_dec:
  assumes "counted m (add_mset k M)"
  shows "counted (adjusted k False m) M"
proof -
  have b: "count M k + 1 < 2 ^ 32" using assms by (auto simp: counted_def dest: spec [of _ k])
  have "tracked m k - 1 = of_nat (count M k)"
    using word_eq_of_nat [OF counted_tracked [OF assms, of k]] by simp
  moreover have "(of_nat (count M k) :: u32) = 0 \<longleftrightarrow> count M k = 0" using of_nat_u32_eq_0 [of "count M k"] b by simp
  ultimately have "adjusted k False m = (if count M k = 0 then m(k := None) else m(k \<mapsto> of_nat (count M k)))"
    by (simp add: adjusted_def Let_def count_eq_zero_iff)
  then show ?thesis using assms b by (auto simp: counted_def count_eq_zero_iff split: if_splits)
qed

text \<open>At most one contact per address, and at most ten per /24 network that is not local.\<close>

definition limits :: "u32 multiset \<Rightarrow> bool" where
  "limits I \<longleftrightarrow> (\<forall>ip. count I ip \<le> 1) \<and>
     (\<forall>ip. \<not> lan ip \<longrightarrow> size (filter_mset (\<lambda>x. subnet x = subnet ip) I) \<le> 10)"

definition tracks :: "tracking \<Rightarrow> u32 multiset \<Rightarrow> bool" where
  "tracks g I \<longleftrightarrow> counted (s_globalContactIPs g) I \<and>
     counted (s_globalContactSubnets g) (image_mset subnet I) \<and> limits I"

lemma limits_mono: "J \<subseteq># I \<Longrightarrow> limits I \<Longrightarrow> limits J"
  unfolding limits_def
  by (metis (no_types, lifting) le_trans mset_subset_eq_count multiset_filter_mono size_mset_mono)

lemma limits_empty [simp]: "limits {#}"
  by (simp add: limits_def)

lemma limits_add_iff:
  assumes "limits I"
  shows "limits (add_mset ip I) \<longleftrightarrow>
    count I ip = 0 \<and> (lan ip \<or> size (filter_mset (\<lambda>x. subnet x = subnet ip) I) < 10)"
proof
  assume l: "limits (add_mset ip I)"
  then have "count (add_mset ip I) ip \<le> 1"
    "\<not> lan ip \<Longrightarrow> size (filter_mset (\<lambda>x. subnet x = subnet ip) (add_mset ip I)) \<le> 10"
    unfolding limits_def by blast+
  then show "count I ip = 0 \<and> (lan ip \<or> size (filter_mset (\<lambda>x. subnet x = subnet ip) I) < 10)"
    by (cases "lan ip") auto
next
  assume a: "count I ip = 0 \<and> (lan ip \<or> size (filter_mset (\<lambda>x. subnet x = subnet ip) I) < 10)"
  show "limits (add_mset ip I)"
    unfolding limits_def
  proof (intro conjI allI impI)
    show "count (add_mset ip I) x \<le> 1" for x using a assms by (auto simp: limits_def)
    fix x assume x: "\<not> lan x"
    have "size (filter_mset (\<lambda>y. subnet y = subnet x) I) \<le> 10" using assms x by (simp add: limits_def)
    then show "size (filter_mset (\<lambda>y. subnet y = subnet x) (add_mset ip I)) \<le> 10"
      using a x lan_subnet [of ip x] by (cases "subnet ip = subnet x") auto
  qed
qed

lemma tracks_inc:
  assumes "tracks g I" "limits (add_mset ip I)"
  shows "tracks (AdjustGlobalTracking ip True g) (add_mset ip I)"
proof -
  have "count I ip \<le> 1" "count (image_mset subnet I) (subnet ip) \<le> 256"
    using assms count_subnet_le [of I "subnet ip"] by (auto simp: tracks_def limits_def count_image)
  then show ?thesis using assms by (auto simp: tracks_def AdjustGlobalTracking_def counted_inc)
qed

lemma tracks_dec:
  assumes "tracks g (add_mset ip I)"
  shows "tracks (AdjustGlobalTracking ip False g) I"
  using assms limits_mono [of I "add_mset ip I"]
  by (auto simp: tracks_def AdjustGlobalTracking_def counted_dec)

lemma CheckGlobalIPLimits_iff:
  assumes "tracks g I"
  shows "CheckGlobalIPLimits ip g \<longleftrightarrow> limits (add_mset ip I)"
proof -
  have l: "limits I" and "unat (tracked (s_globalContactIPs g) ip) = count I ip"
    "unat (tracked (s_globalContactSubnets g) (subnet ip)) = size (filter_mset (\<lambda>x. subnet x = subnet ip) I)"
    using assms by (auto simp: tracks_def counted_tracked count_image)
  then show ?thesis unfolding CheckGlobalIPLimits_def limits_add_iff [OF l]
    by (auto simp: word_le_nat_alt MAX_CONTACTS_IP_def MAX_CONTACTS_SUBNET_def count_eq_zero_iff)
qed

lemma tracks_bin_delete:
  "tracks g (mset (map m_ip b) + R) \<Longrightarrow> tracks (bin_delete g b) R"
  unfolding bin_delete_def
proof (induction b arbitrary: g)
  case (Cons c b)
  then have "tracks (AdjustGlobalTracking (m_ip c) False g) (mset (map m_ip b) + R)"
    by (intro tracks_dec) simp
  with Cons.IH show ?case by simp
qed simp

subsection \<open>Well-formed bins\<close>

text \<open>What identifies and places a contact.\<close>

definition keyof :: "CContact \<Rightarrow> CUInt128 \<times> CUInt128 \<times> u32" where
  "keyof c = (m_clientID c, m_distance c, m_ip c)"

definition bin_keys :: "bin \<Rightarrow> (CUInt128 \<times> CUInt128 \<times> u32) multiset" where
  "bin_keys b = mset (map keyof b)"

abbreviation key_ip :: "CUInt128 \<times> CUInt128 \<times> u32 \<Rightarrow> u32" where
  "key_ip k \<equiv> snd (snd k)"

text \<open>At most \<open>K\<close> contacts with different IDs, and at most two of a /24 network that is not local.\<close>

definition bin_ok :: "(CUInt128 \<times> CUInt128 \<times> u32) multiset \<Rightarrow> bool" where
  "bin_ok M \<longleftrightarrow> size M \<le> K \<and> (\<forall>kadid. size (filter_mset (\<lambda>k. fst k = kadid) M) \<le> 1) \<and>
     (\<forall>ip. \<not> lan ip \<longrightarrow> size (filter_mset (\<lambda>k. subnet (key_ip k) = subnet ip) M) \<le> 2)"

lemma bin_keys_simps [simp]:
  "bin_keys [] = {#}" "bin_keys (c # b) = add_mset (keyof c) (bin_keys b)"
  "bin_keys (b @ b') = bin_keys b + bin_keys b'" "size (bin_keys b) = length b"
  by (simp_all add: bin_keys_def)

lemma keyof_sel [simp]: "fst (keyof c) = m_clientID c" "fst (snd (keyof c)) = m_distance c" "key_ip (keyof c) = m_ip c"
  by (simp_all add: keyof_def)

lemma image_key_ip: "image_mset key_ip (bin_keys b) = mset (map m_ip b)"
  by (simp add: bin_keys_def comp_def multiset.map_comp flip: mset_map)

lemma bin_ok_mono: "M \<subseteq># N \<Longrightarrow> bin_ok N \<Longrightarrow> bin_ok M"
  unfolding bin_ok_def by (meson le_trans multiset_filter_mono size_mset_mono)

lemma bin_ok_empty [simp]: "bin_ok {#}"
  by (simp add: bin_ok_def)

lemma bin_ok_add_iff:
  assumes "bin_ok M"
  shows "bin_ok (add_mset k M) \<longleftrightarrow> size M < K \<and> fst k \<notin># image_mset fst M \<and>
    (lan (key_ip k) \<or> size (filter_mset (\<lambda>x. subnet (key_ip x) = subnet (key_ip k)) M) < 2)"
proof -
  have i: "fst k \<notin># image_mset fst M \<longleftrightarrow> size (filter_mset (\<lambda>x. fst x = fst k) M) = 0"
    by (metis count_image not_in_iff)
  show ?thesis
  proof
    assume b: "bin_ok (add_mset k M)"
    then have "size (filter_mset (\<lambda>x. fst x = fst k) (add_mset k M)) \<le> 1"
      "\<not> lan (key_ip k) \<Longrightarrow> size (filter_mset (\<lambda>x. subnet (key_ip x) = subnet (key_ip k)) (add_mset k M)) \<le> 2"
      "size (add_mset k M) \<le> K"
      unfolding bin_ok_def by blast+
    then show "size M < K \<and> fst k \<notin># image_mset fst M \<and>
        (lan (key_ip k) \<or> size (filter_mset (\<lambda>x. subnet (key_ip x) = subnet (key_ip k)) M) < 2)"
      unfolding i by (cases "lan (key_ip k)") auto
  next
    assume a: "size M < K \<and> fst k \<notin># image_mset fst M \<and>
        (lan (key_ip k) \<or> size (filter_mset (\<lambda>x. subnet (key_ip x) = subnet (key_ip k)) M) < 2)"
    show "bin_ok (add_mset k M)"
      unfolding bin_ok_def
    proof (intro conjI allI impI)
      show "size (add_mset k M) \<le> K" using a by simp
      show "size (filter_mset (\<lambda>x. fst x = kadid) (add_mset k M)) \<le> 1" for kadid
        using a assms unfolding i bin_ok_def by (cases "fst k = kadid") auto
      fix ip assume ip: "\<not> lan ip"
      have "size (filter_mset (\<lambda>x. subnet (key_ip x) = subnet ip) M) \<le> 2" using assms ip by (simp add: bin_ok_def)
      then show "size (filter_mset (\<lambda>x. subnet (key_ip x) = subnet ip) (add_mset k M)) \<le> 2"
        using a ip lan_subnet [of "key_ip k" ip] by (cases "subnet (key_ip k) = subnet ip") auto
    qed
  qed
qed

lemma AddContact_loop_eq:
  "AddContact_loop c n b = (if m_clientID c \<in> m_clientID ` set b then None
     else Some (n + size (filter_mset (\<lambda>x. subnet (key_ip x) = subnet (m_ip c)) (bin_keys b))))"
  by (induction c n b rule: AddContact_loop.induct) auto

text \<open>\<open>AddContact\<close> appends the contact exactly when the bin and the counts stay within their limits.\<close>

lemma AddContact_eq:
  assumes t: "tracks g (mset (map m_ip b) + R)" and b: "bin_ok (bin_keys b)"
  shows "AddContact c g b =
    (if bin_ok (bin_keys (b @ [c])) \<and> limits (add_mset (m_ip c) (mset (map m_ip b) + R))
     then (True, AdjustGlobalTracking (m_ip c) True g, b @ [c]) else (False, g, b))"
proof -
  have "m_clientID c \<in># image_mset fst (bin_keys b) \<longleftrightarrow> m_clientID c \<in> m_clientID ` set b"
    by (auto simp: bin_keys_def image_image)
  then show ?thesis
    unfolding AddContact_def AddContact_loop_eq CheckGlobalIPLimits_iff [OF t]
    using bin_ok_add_iff [OF b, of "keyof c"] by auto
qed

lemma AddContact_tracks:
  assumes t: "tracks g (mset (map m_ip b) + R)" and b: "bin_ok (bin_keys b)"
    and a: "AddContact c g b = (added, g', b')"
  shows "tracks g' (mset (map m_ip b') + R)" "bin_ok (bin_keys b')"
    "b' = (if added then b @ [c] else b)" "added \<or> g' = g"
  using a unfolding AddContact_eq [OF t b] using t b tracks_inc [OF t, of "m_ip c"]
  by (auto split: if_splits)

subsection \<open>Operations on the contacts of a bin\<close>

lemma bin_ok_distinct:
  assumes "bin_ok (bin_keys b)"
  shows "distinct (map m_clientID b)"
proof -
  have e: "mset (map m_clientID b) = image_mset fst (bin_keys b)" by (induction b) auto
  have "count (mset (map m_clientID b)) x = (if x \<in> set (map m_clientID b) then 1 else 0)" for x
  proof -
    have "count (mset (map m_clientID b)) x \<le> 1" using assms unfolding e by (simp add: count_image bin_ok_def)
    moreover have "count (mset (map m_clientID b)) x = 0 \<longleftrightarrow> x \<notin> set (map m_clientID b)"
      by (simp only: count_eq_zero_iff set_mset_mset)
    ultimately show ?thesis by presburger
  qed
  then show ?thesis unfolding distinct_count_atmost_1 by blast
qed

lemma split_contact:
  assumes "distinct (map m_clientID b)" "c \<in> set b"
  shows "mset b = add_mset c (mset (filter (\<lambda>x. m_clientID x \<noteq> m_clientID c) b))"
    "mset (modify_contact (m_clientID c) f b) = add_mset (f c) (mset (filter (\<lambda>x. m_clientID x \<noteq> m_clientID c) b))"
proof -
  obtain xs ys where b: "b = xs @ c # ys" using assms(2) by (meson split_list)
  have "m_clientID c \<notin> m_clientID ` set xs" "m_clientID c \<notin> m_clientID ` set ys"
    using assms(1) unfolding b by simp_all
  then have ne: "\<And>x. x \<in> set xs \<union> set ys \<Longrightarrow> m_clientID x \<noteq> m_clientID c"
    by (metis UnE image_eqI)
  then have "filter (\<lambda>x. m_clientID x \<noteq> m_clientID c) xs = xs" "filter (\<lambda>x. m_clientID x \<noteq> m_clientID c) ys = ys"
    "map (\<lambda>x. if m_clientID x = m_clientID c then f x else x) xs = xs"
    "map (\<lambda>x. if m_clientID x = m_clientID c then f x else x) ys = ys"
    by (auto simp: filter_id_conv intro: map_idI)
  then show "mset b = add_mset c (mset (filter (\<lambda>x. m_clientID x \<noteq> m_clientID c) b))"
    "mset (modify_contact (m_clientID c) f b) = add_mset (f c) (mset (filter (\<lambda>x. m_clientID x \<noteq> m_clientID c) b))"
    by (simp_all add: b modify_contact_def)
qed

lemma bin_GetContact_SomeD: "bin_GetContact kadid b = Some c \<Longrightarrow> c \<in> set b \<and> m_clientID c = kadid"
  by (induction b) (auto split: if_splits)

lemma bin_GetContact_None_iff: "bin_GetContact kadid b = None \<longleftrightarrow> kadid \<notin> m_clientID ` set b"
  by (induction b) auto

lemma bin_GetContact_eq_Some:
  assumes "distinct (map m_clientID b)"
  shows "bin_GetContact kadid b = Some c \<longleftrightarrow> c \<in> set b \<and> m_clientID c = kadid"
  using assms by (induction b) (auto split: if_splits)

lemma keys_modify:
  assumes "\<And>c. keyof (f c) = keyof c"
  shows "map keyof (modify_contact kadid f b) = map keyof b"
  using assms by (simp add: modify_contact_def)

lemma bin_keys_modify: "(\<And>c. keyof (f c) = keyof c) \<Longrightarrow> bin_keys (modify_contact kadid f b) = bin_keys b"
  unfolding bin_keys_def by (simp add: keys_modify)

lemma bin_keys_PushToBottom:
  assumes "distinct (map m_clientID b)" "c \<in> set b" "keyof c' = keyof c"
  shows "bin_keys (PushToBottom c' b) = bin_keys b"
proof -
  have "m_clientID c' = m_clientID c" using assms(3) by (simp add: keyof_def)
  then show ?thesis
    using arg_cong [OF split_contact(1) [OF assms(1,2)], of "image_mset keyof"] assms(3)
    by (simp add: PushToBottom_def bin_keys_def)
qed

lemma keyof_contact_ops [simp]:
  "keyof (UpdateType now c) = keyof c" "keyof (CheckingType now c) = keyof c" "keyof (IncUse c) = keyof c"
  "keyof (DecUse c) = keyof c" "keyof (SetReceivedHelloPacket c) = keyof c"
  "keyof (c\<lparr>m_tcpPort := p\<rparr>) = keyof c" "keyof (c\<lparr>m_ipVerified := v\<rparr>) = keyof c" "keyof (c\<lparr>m_expires := e\<rparr>) = keyof c"
  "keyof (c\<lparr>m_udpPort := up, m_tcpPort := p, m_version := vs, m_udpKey := key, m_ipVerified := v\<rparr>) = keyof c"
  by (simp_all add: keyof_def)

lemma bin_keys_SetAlive:
  assumes "bin_ok (bin_keys b)"
  shows "bin_keys (SetAlive now kadid b) = bin_keys b"
proof (cases "bin_GetContact kadid b")
  case (Some c)
  then show ?thesis using bin_keys_PushToBottom [OF bin_ok_distinct [OF assms], of c] bin_GetContact_SomeD [OF Some]
    by (simp add: SetAlive_def)
qed (simp add: SetAlive_def)

lemma find_ip_port_mem: "find_ip_port ip port b = Some c \<Longrightarrow> c \<in> set b"
  by (induction b) (auto split: if_splits)

lemma bin_keys_SetTCPPort:
  assumes "bin_ok (bin_keys b)"
  shows "bin_keys (SetTCPPort now ip port tcpPort b) = bin_keys b"
proof (cases "find_ip_port ip port b")
  case (Some c)
  then show ?thesis using bin_keys_PushToBottom [OF bin_ok_distinct [OF assms], of c] find_ip_port_mem [OF Some]
    by (simp add: SetTCPPort_def)
qed (simp add: SetTCPPort_def)

lemma bin_keys_apply_use: "bin_keys (apply_use e b) = bin_keys b"
  by (cases e) (simp_all add: bin_keys_modify)

text \<open>The addresses of a bin, by its keys.\<close>

lemma bin_ips_keys: "mset (map m_ip b) = image_mset key_ip (bin_keys b)"
  by (simp add: image_key_ip)

lemma RemoveContact_tracks:
  assumes t: "tracks g (mset (map m_ip b) + R)" and b: "bin_ok (bin_keys b)" and c: "c \<in> set b"
    and r: "RemoveContact c False g b = (g', b')"
  shows "tracks g' (mset (map m_ip b') + R)" "bin_keys b = add_mset (keyof c) (bin_keys b')"
proof -
  have b': "b' = filter (\<lambda>x. m_clientID x \<noteq> m_clientID c) b" "g' = AdjustGlobalTracking (m_ip c) False g"
    using r by (auto simp: RemoveContact_def)
  note s = split_contact(1) [OF bin_ok_distinct [OF b] c]
  show "bin_keys b = add_mset (keyof c) (bin_keys b')"
    using arg_cong [OF s, of "image_mset keyof"] by (simp add: bin_keys_def b'(1))
  have "mset (map m_ip b) = add_mset (m_ip c) (mset (map m_ip b'))"
    using arg_cong [OF s, of "image_mset m_ip"] by (simp add: b'(1))
  then show "tracks g' (mset (map m_ip b') + R)" using t tracks_dec by (simp add: b'(2))
qed

lemma tracks_counts:
  assumes "tracks g I"
  shows "unat (tracked (s_globalContactIPs g) ip) = count I ip"
    "unat (tracked (s_globalContactSubnets g) (subnet ip)) = size (filter_mset (\<lambda>x. subnet x = subnet ip) I)"
  using assms counted_tracked [of _ I ip] counted_tracked [of _ "image_mset subnet I" "subnet ip"]
  by (auto simp: tracks_def count_image)

text \<open>The conditions under which \<open>ChangeContactIPAddress\<close> changes something.\<close>

lemma ChangeContactIPAddress_cases:
  assumes "ChangeContactIPAddress c newIP g b = (changed, g', b')"
  obtains "b' = b" "g' = g"
    | "changed" "m_ip c \<noteq> newIP" "tracked (s_globalContactIPs g) newIP < MAX_CONTACTS_IP"
      "subnet (m_ip c) = subnet newIP \<or> lan newIP \<or>
         tracked (s_globalContactSubnets g) (subnet newIP) < MAX_CONTACTS_SUBNET \<and>
         length (filter (\<lambda>c. subnet newIP = subnet (m_ip c)) b) < 2"
      "g' = AdjustGlobalTracking newIP True (AdjustGlobalTracking (m_ip c) False g)"
      "b' = modify_contact (m_clientID c) (SetIPAddress newIP) b"
proof -
  let ?full = "subnet (m_ip c) \<noteq> subnet newIP \<and>
    (tracked (s_globalContactSubnets g) (subnet newIP) \<ge> MAX_CONTACTS_SUBNET \<and> \<not> lan newIP \<or>
     length (filter (\<lambda>c. subnet newIP = subnet (m_ip c)) b) \<ge> 2 \<and> \<not> lan newIP)"
  show thesis
  proof (cases "m_ip c = newIP \<or> tracked (s_globalContactIPs g) newIP \<ge> MAX_CONTACTS_IP \<or> ?full")
    case True
    then have "b' = b \<and> g' = g" using assms unfolding ChangeContactIPAddress_def
      by (metis (no_types, lifting) Pair_inject)
    then show thesis using that(1) by blast
  next
    case False
    then have "m_ip c \<noteq> newIP" "\<not> MAX_CONTACTS_IP \<le> tracked (s_globalContactIPs g) newIP" "\<not> ?full" by blast+
    moreover from this have "changed \<and> g' = AdjustGlobalTracking newIP True (AdjustGlobalTracking (m_ip c) False g) \<and>
        b' = modify_contact (m_clientID c) (SetIPAddress newIP) b"
      using assms unfolding ChangeContactIPAddress_def by (simp only: if_False Pair_inject prod.inject simp_thms)
    ultimately show thesis using that(2) by (meson not_le)
  qed
qed

text \<open>Changing the address of a contact keeps the limits, the IDs and the distances.\<close>

lemma ChangeContactIPAddress_ok:
  assumes t: "tracks g (mset (map m_ip b) + R)" and b: "bin_ok (bin_keys b)" and c: "c \<in> set b"
    and r: "ChangeContactIPAddress c newIP g b = (changed, g', b')"
  shows "tracks g' (mset (map m_ip b') + R)" "bin_ok (bin_keys b')"
    "bin_keys b' = bin_keys b \<or> changed \<and> bin_keys b' = add_mset (m_clientID c, m_distance c, newIP) (bin_keys b - {#keyof c#})"
proof -
  let ?rest = "filter (\<lambda>x. m_clientID x \<noteq> m_clientID c) b"
  let ?k = "(m_clientID c, m_distance c, newIP)"
  note s = split_contact [OF bin_ok_distinct [OF b] c]
  have keys: "bin_keys b = add_mset (keyof c) (bin_keys ?rest)"
    using arg_cong [OF s(1), of "image_mset keyof"] by (simp add: bin_keys_def)
  have ips: "mset (map m_ip b) = add_mset (m_ip c) (mset (map m_ip ?rest))"
    using arg_cong [OF s(1), of "image_mset m_ip"] by simp
  have "keyof (SetIPAddress newIP c) = ?k" by (simp add: keyof_def)
  then have keys': "bin_keys (modify_contact (m_clientID c) (SetIPAddress newIP) b) = add_mset ?k (bin_keys ?rest)"
    using arg_cong [OF s(2) [of "SetIPAddress newIP"], of "image_mset keyof"] by (simp add: bin_keys_def)
  have ips': "mset (map m_ip (modify_contact (m_clientID c) (SetIPAddress newIP) b)) = add_mset newIP (mset (map m_ip ?rest))"
    using arg_cong [OF s(2) [of "SetIPAddress newIP"], of "image_mset m_ip"] by simp
  have rest_ok: "bin_ok (bin_keys ?rest)" using bin_ok_mono [OF _ b] keys by simp
  from r have "tracks g' (mset (map m_ip b') + R) \<and> bin_ok (bin_keys b') \<and> (bin_keys b' = bin_keys b \<or>
      changed \<and> bin_keys b' = add_mset ?k (bin_keys b - {#keyof c#}))"
  proof (cases rule: ChangeContactIPAddress_cases)
    case 1
    then show ?thesis using t b by simp
  next
    case 2
    let ?I = "mset (map m_ip ?rest) + R"
    have cnt: "unat (tracked (s_globalContactIPs g) newIP) = count (add_mset (m_ip c) ?I) newIP"
      "unat (tracked (s_globalContactSubnets g) (subnet newIP)) =
         size (filter_mset (\<lambda>x. subnet x = subnet newIP) (add_mset (m_ip c) ?I))"
      using tracks_counts [OF t, of newIP] by (simp_all only: ips union_mset_add_mset_left)
    have t1: "tracks (AdjustGlobalTracking (m_ip c) False g) ?I" using t by (intro tracks_dec) (simp only: ips union_mset_add_mset_left)
    have l: "limits (add_mset (m_ip c) ?I)" using t by (simp only: tracks_def ips union_mset_add_mset_left)
    have "limits (add_mset newIP ?I)"
    proof (subst limits_add_iff)
      show "limits ?I" using t1 by (simp add: tracks_def)
      have "lan newIP \<or> size (filter_mset (\<lambda>x. subnet x = subnet newIP) ?I) < 10"
      proof (cases "lan newIP")
        case nl: False
        then have "size (filter_mset (\<lambda>x. subnet x = subnet newIP) (add_mset (m_ip c) ?I)) \<le> 10"
          using l unfolding limits_def by blast
        then show ?thesis using 2(4) nl cnt(2)
          by (auto simp: word_less_nat_alt MAX_CONTACTS_SUBNET_def split: if_splits)
      qed simp
      then show "count ?I newIP = 0 \<and> (lan newIP \<or> size (filter_mset (\<lambda>x. subnet x = subnet newIP) ?I) < 10)"
        using 2(3) cnt(1) by (auto simp: word_less_nat_alt MAX_CONTACTS_IP_def split: if_splits)
    qed
    from tracks_inc [OF t1 this] have tr: "tracks g' (mset (map m_ip b') + R)" using 2(5,6) ips' by simp
    have "m_clientID c \<notin># image_mset fst (bin_keys ?rest)" by (auto simp: bin_keys_def)
    moreover have "size (bin_keys ?rest) < K" using b keys by (auto simp: bin_ok_def)
    moreover have "lan newIP \<or> size (filter_mset (\<lambda>x. subnet (key_ip x) = subnet newIP) (bin_keys ?rest)) < 2"
    proof (cases "lan newIP")
      case nl: False
      then have "size (filter_mset (\<lambda>x. subnet (key_ip x) = subnet newIP) (bin_keys b)) \<le> 2"
        using b by (simp add: bin_ok_def)
      moreover have "size (filter_mset (\<lambda>x. subnet (key_ip x) = subnet newIP) (bin_keys b)) =
          length (filter (\<lambda>c. subnet newIP = subnet (m_ip c)) b)"
        by (induction b) auto
      ultimately show ?thesis using 2(4) nl unfolding keys by (auto split: if_splits)
    qed simp
    ultimately have "bin_ok (add_mset ?k (bin_keys ?rest))" using bin_ok_add_iff [OF rest_ok, of ?k] by simp
    then show ?thesis using tr 2(1,6) keys keys' by simp
  qed
  then show "tracks g' (mset (map m_ip b') + R)" "bin_ok (bin_keys b')"
    "bin_keys b' = bin_keys b \<or> changed \<and> bin_keys b' = add_mset ?k (bin_keys b - {#keyof c#})" by blast+
qed

end
