(* ===== verification/RoutingZone.thy ===== *)
theory RoutingZone
  imports RoutingBin
begin

text \<open>
  The Kademlia routing table (src/amule-3.0.1/src/kademlia/routing/RoutingZone.h and
  RoutingZone.cpp): a binary tree of zones over the distance of a contact from ourselves, with a
  bin in every leaf. A leaf splits when its bin is full and it is close enough to us; two leaves
  that hold few contacts are merged again. A zone is the datatype \<open>zone\<close>, with level and index.

  The parent pointers, the timers of the zones and their registration with \<open>CKademlia\<close> are not
  modelled; the time, our public address, our ID \<open>me\<close>, the IP filter and random numbers are
  arguments. A random number that a zone draws is given by its level and index.
\<close>

definition KBASE :: nat where "KBASE = 4"

definition KK :: u32 where "KK = 5"

definition LOG_BASE_EXPONENT :: int where "LOG_BASE_EXPONENT = 5"

datatype zone =
    Leaf (m_level: nat) (m_zoneIndex: CUInt128) bin
  | Branch (m_level: nat) (m_zoneIndex: CUInt128) zone zone

type_synonym draw = "nat \<Rightarrow> CUInt128 \<Rightarrow> nat"

definition zone_Init :: "nat \<Rightarrow> CUInt128 \<Rightarrow> zone" where
  "zone_Init level zone_index = Leaf level zone_index []"

definition root_zone :: zone where
  "root_zone = zone_Init 0 (CUInt128_uint32 0)"

fun IsLeaf :: "zone \<Rightarrow> bool" where
  "IsLeaf (Leaf l i b) = True"
| "IsLeaf (Branch l i z0 z1) = False"

subsection \<open>Splitting\<close>

definition CanSplit :: "nat \<Rightarrow> CUInt128 \<Rightarrow> bin \<Rightarrow> bool" where
  "CanSplit level zoneIndex b \<longleftrightarrow>
     \<not> level \<ge> 127 \<and> (CompareTo_uint32 zoneIndex KK < 0 \<or> level < KBASE) \<and> length b = K"

definition GenSubZone_index :: "CUInt128 \<Rightarrow> u32 \<Rightarrow> CUInt128" where
  "GenSubZone_index zoneIndex side = Add_uint32 (ShiftLeft 1 zoneIndex) side"

fun Split_loop :: "nat \<Rightarrow> CContact list \<Rightarrow> tracking \<Rightarrow> bin \<Rightarrow> bin \<Rightarrow> tracking \<times> bin \<times> bin" where
  "Split_loop level [] g b0 b1 = (g, b0, b1)"
| "Split_loop level (c # cs) g b0 b1 =
     (if GetBitNumber (m_distance c) level = 0
      then (case AddContact c g b0 of (_, g, b0) \<Rightarrow> Split_loop level cs g b0 b1)
      else (case AddContact c g b1 of (_, g, b1) \<Rightarrow> Split_loop level cs g b0 b1))"

definition Split :: "nat \<Rightarrow> CUInt128 \<Rightarrow> tracking \<Rightarrow> bin \<Rightarrow> tracking \<times> zone \<times> zone" where
  "Split level zoneIndex g b =
     (case Split_loop level b (bin_delete g b) [] [] of
        (g, b0, b1) \<Rightarrow> (g, Leaf (level + 1) (GenSubZone_index zoneIndex 0) b0,
                            Leaf (level + 1) (GenSubZone_index zoneIndex 1) b1))"

subsection \<open>Adding a contact\<close>

text \<open>What a known contact takes from a packet of its sender: the new values of \<open>update\<close> and
  \<open>outIpVerified\<close>, the counts and the bin.\<close>

definition update_known ::
  "int \<Rightarrow> u32 \<Rightarrow> CContact \<Rightarrow> CContact \<Rightarrow> bool \<Rightarrow> tracking \<Rightarrow> bin \<Rightarrow> bool \<times> bool \<times> tracking \<times> bin" where
  "update_known now publicIP contact contactUpdate outIpVerified g b =
     (let kadid = m_clientID contactUpdate; key = GetKeyValue publicIP (m_udpKey contactUpdate) in
      if key \<noteq> 0 \<and> key \<noteq> GetKeyValue publicIP (m_udpKey contact) then (False, outIpVerified, g, b)
      else if m_version contactUpdate \<ge> 1 \<and> m_version contactUpdate < 6 \<and> m_receivedHelloPacket contactUpdate then
        if m_ip contactUpdate = m_ip contact \<and> m_tcpPort contactUpdate = m_tcpPort contact \<and>
           m_version contactUpdate = m_version contact \<and> m_udpPort contactUpdate = m_udpPort contact
        then (True, m_ipVerified contactUpdate, g, SetAlive now kadid b)
        else (False, outIpVerified, g, b)
      else
        (case ChangeContactIPAddress contactUpdate (m_ip contact) g b of (changed, g, b) \<Rightarrow>
          if changed \<and> m_version contact \<ge> m_version contactUpdate then
            let b = modify_contact kadid (\<lambda>c. c\<lparr>m_udpPort := m_udpPort contact, m_tcpPort := m_tcpPort contact,
                  m_version := m_version contact, m_udpKey := m_udpKey contact,
                  m_ipVerified := (m_ipVerified c \<or> m_ipVerified contact)\<rparr>) b;
                outIpVerified = (case bin_GetContact kadid b of Some c \<Rightarrow> m_ipVerified c | None \<Rightarrow> outIpVerified);
                b = SetAlive now kadid b;
                b = (if m_receivedHelloPacket contact then modify_contact kadid SetReceivedHelloPacket b else b)
            in (True, outIpVerified, g, b)
          else (False, outIpVerified, g, b)))"

fun zone_depth_bound :: "zone \<Rightarrow> nat" where
  "zone_depth_bound (Leaf l i b) = 128 - l"
| "zone_depth_bound (Branch l i z0 z1) = zone_depth_bound z0 + zone_depth_bound z1 + 1"

text \<open>The result is whether the contact was added, \<open>update\<close>, \<open>outIpVerified\<close>, the counts and the
  zone.\<close>

function zone_Add :: "int \<Rightarrow> u32 \<Rightarrow> CContact \<Rightarrow> bool \<Rightarrow> bool \<Rightarrow> tracking \<Rightarrow> zone \<Rightarrow> bool \<times> bool \<times> bool \<times> tracking \<times> zone" where
  "zone_Add now publicIP contact update outIpVerified g (Branch l i z0 z1) =
     (if GetBitNumber (m_distance contact) l = 0
      then (case zone_Add now publicIP contact update outIpVerified g z0 of
              (added, update, out, g, z0) \<Rightarrow> (added, update, out, g, Branch l i z0 z1))
      else (case zone_Add now publicIP contact update outIpVerified g z1 of
              (added, update, out, g, z1) \<Rightarrow> (added, update, out, g, Branch l i z0 z1)))"
| "zone_Add now publicIP contact update outIpVerified g (Leaf l i b) =
     (case bin_GetContact (m_clientID contact) b of
        Some contactUpdate \<Rightarrow>
          if update then
            (case update_known now publicIP contact contactUpdate outIpVerified g b of
               (update, out, g, b) \<Rightarrow> (False, update, out, g, Leaf l i b))
          else (False, update, outIpVerified, g, Leaf l i b)
      | None \<Rightarrow>
          if GetRemaining b \<noteq> 0 then
            (case AddContact contact g b of (added, g, b) \<Rightarrow> (added, False, outIpVerified, g, Leaf l i b))
          else if CanSplit l i b then
            (case Split l i g b of (g, z0, z1) \<Rightarrow>
               if GetBitNumber (m_distance contact) l = 0
               then (case zone_Add now publicIP contact update outIpVerified g z0 of
                       (added, update, out, g, z0) \<Rightarrow> (added, update, out, g, Branch l i z0 z1))
               else (case zone_Add now publicIP contact update outIpVerified g z1 of
                       (added, update, out, g, z1) \<Rightarrow> (added, update, out, g, Branch l i z0 z1)))
          else (False, False, outIpVerified, g, Leaf l i b))"
  by pat_completeness auto
termination
  by (relation "measure (\<lambda>(now, p, c, u, out, g, z). zone_depth_bound z)")
    (auto simp: Split_def CanSplit_def split: prod.splits)

definition AddUnfiltered ::
  "int \<Rightarrow> u32 \<Rightarrow> CUInt128 \<Rightarrow> CUInt128 \<Rightarrow> u32 \<Rightarrow> u16 \<Rightarrow> u16 \<Rightarrow> u8 \<Rightarrow> CKadUDPKey \<Rightarrow> bool \<Rightarrow> bool \<Rightarrow> bool \<Rightarrow>
   tracking \<Rightarrow> zone \<Rightarrow> bool \<times> bool \<times> tracking \<times> zone" where
  "AddUnfiltered now publicIP me kadid ip port tport version key ipVerified update fromHello g z =
     (if kadid \<noteq> me then
        let contact = CContact_new now kadid ip port tport version key ipVerified me;
            contact = (if fromHello then SetReceivedHelloPacket contact else contact)
        in (case zone_Add now publicIP contact update ipVerified g z of
              (added, update, ipVerified, g, z) \<Rightarrow> (added \<or> update, ipVerified, g, z))
      else (False, ipVerified, g, z))"

definition Add_contact ::
  "(u32 \<Rightarrow> bool) \<Rightarrow> int \<Rightarrow> u32 \<Rightarrow> CUInt128 \<Rightarrow> CUInt128 \<Rightarrow> u32 \<Rightarrow> u16 \<Rightarrow> u16 \<Rightarrow> u8 \<Rightarrow> CKadUDPKey \<Rightarrow> bool \<Rightarrow> bool \<Rightarrow> bool \<Rightarrow>
   tracking \<Rightarrow> zone \<Rightarrow> bool \<times> bool \<times> tracking \<times> zone" where
  "Add_contact IsFiltered now publicIP me kadid ip port tport version key ipVerified update fromHello g z =
     (if IsGoodIPPort (byte_swap 4 ip) port then
        if \<not> IsFiltered (byte_swap 4 ip) \<and> \<not> (port = 53 \<and> version \<le> 5)
        then AddUnfiltered now publicIP me kadid ip port tport version key ipVerified update fromHello g z
        else (False, ipVerified, g, z)
      else (False, ipVerified, g, z))"

subsection \<open>Looking up\<close>

fun zone_GetContact :: "CUInt128 \<Rightarrow> CUInt128 \<Rightarrow> zone \<Rightarrow> CContact option" where
  "zone_GetContact me kadid (Leaf l i b) = bin_GetContact kadid b"
| "zone_GetContact me kadid (Branch l i z0 z1) =
     (if GetBitNumber (XOR_op me kadid) l = 0 then zone_GetContact me kadid z0 else zone_GetContact me kadid z1)"

fun zone_GetContact_ip :: "u32 \<Rightarrow> u16 \<Rightarrow> bool \<Rightarrow> zone \<Rightarrow> CContact option" where
  "zone_GetContact_ip ip port tcpPort (Leaf l i b) = bin_GetContact_ip ip port tcpPort b"
| "zone_GetContact_ip ip port tcpPort (Branch l i z0 z1) =
     (case zone_GetContact_ip ip port tcpPort z0 of
        Some c \<Rightarrow> Some c
      | None \<Rightarrow> zone_GetContact_ip ip port tcpPort z1)"

fun zone_GetRandomContact :: "draw \<Rightarrow> nat \<Rightarrow> nat \<Rightarrow> zone \<Rightarrow> CContact option" where
  "zone_GetRandomContact rnd maxType minKadVersion (Leaf l i b) = bin_GetRandomContact (rnd l i) maxType minKadVersion b"
| "zone_GetRandomContact rnd maxType minKadVersion (Branch l i z0 z1) =
     (if rnd l i mod 2 = 0
      then (case zone_GetRandomContact rnd maxType minKadVersion z0 of
              Some c \<Rightarrow> Some c | None \<Rightarrow> zone_GetRandomContact rnd maxType minKadVersion z1)
      else (case zone_GetRandomContact rnd maxType minKadVersion z1 of
              Some c \<Rightarrow> Some c | None \<Rightarrow> zone_GetRandomContact rnd maxType minKadVersion z0))"

fun closest_walk ::
  "nat \<Rightarrow> CUInt128 \<Rightarrow> CUInt128 \<Rightarrow> nat \<Rightarrow> bool \<Rightarrow> bool \<Rightarrow> zone \<Rightarrow> contact_map \<times> use_event list \<Rightarrow> contact_map \<times> use_event list" where
  "closest_walk maxType target dist maxRequired emptyFirst inUse (Leaf l i b) rs =
     bin_GetClosestTo maxType target maxRequired emptyFirst inUse b rs"
| "closest_walk maxType target dist maxRequired emptyFirst inUse (Branch l i z0 z1) rs =
     (let closer = (if GetBitNumber dist l = 0 then z0 else z1);
          other = (if GetBitNumber dist l = 0 then z1 else z0);
          rs = closest_walk maxType target dist maxRequired emptyFirst inUse closer rs
      in if length (fst rs) < maxRequired
         then closest_walk maxType target dist maxRequired False inUse other rs else rs)"

fun map_bins :: "(bin \<Rightarrow> bin) \<Rightarrow> zone \<Rightarrow> zone" where
  "map_bins f (Leaf l i b) = Leaf l i (f b)"
| "map_bins f (Branch l i z0 z1) = Branch l i (map_bins f z0) (map_bins f z1)"

definition zone_GetClosestTo ::
  "nat \<Rightarrow> CUInt128 \<Rightarrow> CUInt128 \<Rightarrow> nat \<Rightarrow> contact_map \<Rightarrow> bool \<Rightarrow> bool \<Rightarrow> zone \<Rightarrow> contact_map \<times> zone" where
  "zone_GetClosestTo maxType target dist maxRequired result emptyFirst inUse z =
     (case closest_walk maxType target dist maxRequired emptyFirst inUse z (result, []) of
        (result, ev) \<Rightarrow> (result, fold (\<lambda>e. map_bins (apply_use e)) ev z))"

fun GetAllEntries :: "bool \<Rightarrow> zone \<Rightarrow> CContact list \<Rightarrow> CContact list" where
  "GetAllEntries emptyFirst (Leaf l i b) result = GetEntries result emptyFirst b"
| "GetAllEntries emptyFirst (Branch l i z0 z1) result = GetAllEntries False z1 (GetAllEntries emptyFirst z0 result)"

fun RandomBin :: "draw \<Rightarrow> bool \<Rightarrow> zone \<Rightarrow> CContact list \<Rightarrow> CContact list" where
  "RandomBin rnd emptyFirst (Leaf l i b) result = GetEntries result emptyFirst b"
| "RandomBin rnd emptyFirst (Branch l i z0 z1) result =
     (if rnd l i mod 2 = 0 then RandomBin rnd emptyFirst z0 result else RandomBin rnd emptyFirst z1 result)"

fun TopDepth :: "draw \<Rightarrow> int \<Rightarrow> bool \<Rightarrow> zone \<Rightarrow> CContact list \<Rightarrow> CContact list" where
  "TopDepth rnd depth emptyFirst (Leaf l i b) result = GetEntries result emptyFirst b"
| "TopDepth rnd depth emptyFirst (Branch l i z0 z1) result =
     (if depth \<le> 0 then RandomBin rnd emptyFirst (Branch l i z0 z1) result
      else TopDepth rnd (depth - 1) False z1 (TopDepth rnd (depth - 1) emptyFirst z0 result))"

fun GetMaxDepth :: "zone \<Rightarrow> nat" where
  "GetMaxDepth (Leaf l i b) = 0"
| "GetMaxDepth (Branch l i z0 z1) = 1 + max (GetMaxDepth z0) (GetMaxDepth z1)"

fun GetNumContacts :: "zone \<Rightarrow> nat" where
  "GetNumContacts (Leaf l i b) = length b"
| "GetNumContacts (Branch l i z0 z1) = GetNumContacts z0 + GetNumContacts z1"

fun GetNumContacts_version :: "u8 \<Rightarrow> zone \<Rightarrow> nat \<times> nat \<Rightarrow> nat \<times> nat" where
  "GetNumContacts_version minVersion (Leaf l i b) n = bin_GetNumContacts minVersion b n"
| "GetNumContacts_version minVersion (Branch l i z0 z1) n =
     GetNumContacts_version minVersion z1 (GetNumContacts_version minVersion z0 n)"

fun bootstrap_loop :: "nat \<Rightarrow> nat \<Rightarrow> CContact list \<Rightarrow> CContact list \<Rightarrow> nat \<times> CContact list" where
  "bootstrap_loop maxRequired n [] results = (n, results)"
| "bootstrap_loop maxRequired n (c # cs) results =
     (if n + 1 = maxRequired then (n + 1, results @ [c])
      else bootstrap_loop maxRequired (n + 1) cs (results @ [c]))"

definition GetBootstrapContacts :: "draw \<Rightarrow> nat \<Rightarrow> zone \<Rightarrow> nat \<times> CContact list" where
  "GetBootstrapContacts rnd maxRequired z = bootstrap_loop maxRequired 0 (TopDepth rnd LOG_BASE_EXPONENT True z []) []"

definition VerifyContact :: "CUInt128 \<Rightarrow> CUInt128 \<Rightarrow> u32 \<Rightarrow> zone \<Rightarrow> bool \<times> zone" where
  "VerifyContact me kadid ip z =
     (case zone_GetContact me kadid z of
        None \<Rightarrow> (False, z)
      | Some contact \<Rightarrow>
          if ip \<noteq> m_ip contact then (False, z)
          else if m_ipVerified contact then (True, z)
          else (True, map_bins (modify_contact kadid (\<lambda>c. c\<lparr>m_ipVerified := True\<rparr>)) z))"

definition zone_SetAllContactsVerified :: "zone \<Rightarrow> zone" where
  "zone_SetAllContactsVerified z = map_bins bin_SetAllContactsVerified z"

definition IsAcceptableContact :: "CUInt128 \<Rightarrow> CContact \<Rightarrow> tracking \<Rightarrow> zone \<Rightarrow> bool" where
  "IsAcceptableContact me toCheck g z \<longleftrightarrow>
     (if m_version toCheck \<le> 1 then False
      else case zone_GetContact me (m_clientID toCheck) z of
        Some duplicate \<Rightarrow>
          \<not> (m_ipVerified duplicate \<and> m_ip duplicate \<noteq> m_ip toCheck \<or> m_udpPort duplicate \<noteq> m_udpPort toCheck)
      | None \<Rightarrow> CheckGlobalIPLimits (m_ip toCheck) g)"

fun zone_HasOnlyLANNodes :: "zone \<Rightarrow> bool" where
  "zone_HasOnlyLANNodes (Leaf l i b) \<longleftrightarrow> bin_HasOnlyLANNodes b"
| "zone_HasOnlyLANNodes (Branch l i z0 z1) \<longleftrightarrow> zone_HasOnlyLANNodes z0 \<and> zone_HasOnlyLANNodes z1"

subsection \<open>Merging and timers\<close>

definition add_all :: "CContact list \<Rightarrow> tracking \<Rightarrow> bin \<Rightarrow> tracking \<times> bin" where
  "add_all cs g b = fold (\<lambda>c (g, b). snd (AddContact c g b)) cs (g, b)"

fun Consolidate :: "tracking \<Rightarrow> zone \<Rightarrow> nat \<times> tracking \<times> zone" where
  "Consolidate g (Leaf l i b) = (0, g, Leaf l i b)"
| "Consolidate g (Branch l i z0 z1) =
     (case (if \<not> IsLeaf z0 then Consolidate g z0 else (0, g, z0)) of (n0, g, z0) \<Rightarrow>
      case (if \<not> IsLeaf z1 then Consolidate g z1 else (0, g, z1)) of (n1, g, z1) \<Rightarrow>
      case (z0, z1) of
        (Leaf l0 i0 b0, Leaf l1 i1 b1) \<Rightarrow>
          if length b0 + length b1 < K div 2 then
            (case add_all (b0 @ b1) (bin_delete (bin_delete g b0) b1) [] of
               (g, b) \<Rightarrow> (n0 + n1 + 1, g, Leaf l i b))
          else (n0 + n1, g, Branch l i z0 z1)
      | _ \<Rightarrow> (n0 + n1, g, Branch l i z0 z1))"

text \<open>The target of the lookup that the big timer starts, if it starts one.\<close>

definition RandomLookup :: "(nat \<Rightarrow> u32) \<Rightarrow> CUInt128 \<Rightarrow> CUInt128 \<Rightarrow> nat \<Rightarrow> CUInt128 \<Rightarrow> CUInt128" where
  "RandomLookup rnd x0 me level zoneIndex =
     XOR_op (CUInt128_prefix rnd x0 (ShiftLeft (128 - level) zoneIndex) level) me"

fun OnBigTimer :: "(nat \<Rightarrow> u32) \<Rightarrow> CUInt128 \<Rightarrow> CUInt128 \<Rightarrow> zone \<Rightarrow> CUInt128 option" where
  "OnBigTimer rnd x0 me (Leaf l i b) =
     (if CompareTo_uint32 i KK < 0 \<or> l < KBASE \<or> 10 * GetRemaining b \<ge> 8 * K
      then Some (RandomLookup rnd x0 me l i) else None)"
| "OnBigTimer rnd x0 me (Branch l i z0 z1) = None"

text \<open>The small timer removes dead contacts, and then either moves the oldest contact to the end of the
  bin or marks it as being checked; in the latter case it sends a hello request to it, with its key
  and ID if its version is at least 6, and counts it in the firewall statistics from version 8 on.\<close>

datatype hello = HelloReq (hello_to: CContact) (with_key: bool) (firewall_check: bool)

fun small_timer_loop :: "int \<Rightarrow> CContact list \<Rightarrow> tracking \<Rightarrow> bin \<Rightarrow> tracking \<times> bin" where
  "small_timer_loop now [] g b = (g, b)"
| "small_timer_loop now (c # cs) g b =
     (if m_type c = 4 \<and> m_expires c > 0 \<and> m_expires c \<le> now then
        if \<not> InUse c then (case RemoveContact c False g b of (g, b) \<Rightarrow> small_timer_loop now cs g b)
        else small_timer_loop now cs g b
      else if m_expires c = 0 then
        small_timer_loop now cs g (modify_contact (m_clientID c) (\<lambda>c. c\<lparr>m_expires := now\<rparr>) b)
      else small_timer_loop now cs g b)"

fun OnSmallTimer :: "int \<Rightarrow> tracking \<Rightarrow> zone \<Rightarrow> hello option \<times> tracking \<times> zone" where
  "OnSmallTimer now g (Branch l i z0 z1) = (None, g, Branch l i z0 z1)"
| "OnSmallTimer now g (Leaf l i b) =
     (case small_timer_loop now b g b of (g, b) \<Rightarrow>
      case GetOldest b of
        None \<Rightarrow> (None, g, Leaf l i b)
      | Some c \<Rightarrow>
          if m_expires c \<ge> now \<or> m_type c = 4 then (None, g, Leaf l i (PushToBottom c b))
          else
            let c' = CheckingType now c; b = modify_contact (m_clientID c) (CheckingType now) b in
            ((if m_version c' \<ge> 6 then Some (HelloReq c' True (m_version c' \<ge> 8))
              else if m_version c' \<ge> 2 then Some (HelloReq c' False False) else None), g, Leaf l i b))"

subsection \<open>Where a contact belongs\<close>

text \<open>A contact belongs to the zone whose index is the first \<open>level\<close> bits of its distance from us.\<close>

definition placed :: "CUInt128 \<Rightarrow> nat \<Rightarrow> CUInt128 \<Rightarrow> CUInt128 \<times> CUInt128 \<times> u32 \<Rightarrow> bool" where
  "placed me l i k \<longleftrightarrow> fst (snd k) = XOR_op me (fst k) \<and> drop_bit (128 - l) (uval (fst (snd k))) = uval i"

lemma drop_bit_next:
  assumes "l \<le> 127"
  shows "drop_bit (127 - l) (v :: int) = 2 * drop_bit (128 - l) v + of_bool (bit v (127 - l))"
proof -
  have "128 - l = 1 + (127 - l)" using assms by simp
  then have "drop_bit (128 - l) v = drop_bit (127 - l) v div 2" by (simp flip: drop_bit_drop_bit add: drop_bit_half drop_bit_Suc)
  moreover have "bit v (127 - l) = odd (drop_bit (127 - l) v)" by (simp add: bit_iff_odd_drop_bit)
  ultimately show ?thesis by (cases "odd (drop_bit (127 - l) v)") simp_all
qed

lemma uval_GenSubZone_index:
  assumes "uval i < 2 ^ l" "l \<le> 126" "side \<in> {0, 1}"
  shows "uval (GenSubZone_index i side) = 2 * uval i + uint side"
proof -
  have "(2::int) ^ l \<le> 2 ^ 126" using assms(2) by (intro power_increasing) simp_all
  then have b: "uval i < 2 ^ 126" using assms(1) by linarith
  have s: "uint side \<in> {0, 1}" using assms(3) by auto
  have "uval (GenSubZone_index i side) = (uval i * 2 mod 2 ^ 128 + uint side) mod 2 ^ 128"
    by (simp add: GenSubZone_index_def uval_Add_uint32 uval_ShiftLeft)
  also have "\<dots> = 2 * uval i + uint side"
    using b s uval_bounds(1) [of i] by auto
  finally show ?thesis .
qed

lemma placed_sub_iff:
  assumes "uval i < 2 ^ l" "l \<le> 126"
  shows "placed me (Suc l) (GenSubZone_index i 0) k \<longleftrightarrow> placed me l i k \<and> GetBitNumber (fst (snd k)) l = 0"
    "placed me (Suc l) (GenSubZone_index i 1) k \<longleftrightarrow> placed me l i k \<and> GetBitNumber (fst (snd k)) l \<noteq> 0"
proof -
  have l: "l \<le> 127" "128 - Suc l = 127 - l" using assms by simp_all
  show "placed me (Suc l) (GenSubZone_index i 0) k \<longleftrightarrow> placed me l i k \<and> GetBitNumber (fst (snd k)) l = 0"
    "placed me (Suc l) (GenSubZone_index i 1) k \<longleftrightarrow> placed me l i k \<and> GetBitNumber (fst (snd k)) l \<noteq> 0"
    using drop_bit_next [OF l(1), of "uval (fst (snd k))"] uval_GenSubZone_index [OF assms] l
    by (auto simp: placed_def GetBitNumber_bit) presburger+
qed

subsection \<open>Well-formed zones\<close>

fun zone_keys :: "zone \<Rightarrow> (CUInt128 \<times> CUInt128 \<times> u32) multiset" where
  "zone_keys (Leaf l i b) = bin_keys b"
| "zone_keys (Branch l i z0 z1) = zone_keys z0 + zone_keys z1"

abbreviation zone_ips :: "zone \<Rightarrow> u32 multiset" where
  "zone_ips z \<equiv> image_mset key_ip (zone_keys z)"

fun zone_ok :: "CUInt128 \<Rightarrow> zone \<Rightarrow> bool" where
  "zone_ok me (Leaf l i b) \<longleftrightarrow> l \<le> 127 \<and> uval i < 2 ^ l \<and> bin_ok (bin_keys b) \<and> (\<forall>k \<in># bin_keys b. placed me l i k)"
| "zone_ok me (Branch l i z0 z1) \<longleftrightarrow> l \<le> 126 \<and> uval i < 2 ^ l \<and> zone_ok me z0 \<and> zone_ok me z1 \<and>
     m_level z0 = Suc l \<and> m_level z1 = Suc l \<and>
     m_zoneIndex z0 = GenSubZone_index i 0 \<and> m_zoneIndex z1 = GenSubZone_index i 1"

lemma zone_ok_placed: "zone_ok me z \<Longrightarrow> k \<in># zone_keys z \<Longrightarrow> placed me (m_level z) (m_zoneIndex z) k"
  by (induction z) (auto simp: placed_sub_iff)

lemma zone_ok_index: "zone_ok me z \<Longrightarrow> uval (m_zoneIndex z) < 2 ^ m_level z \<and> m_level z \<le> 127"
  by (cases z) auto

text \<open>The contacts of the two halves of a branch are told apart by the next bit of the distance.\<close>

lemma branch_side:
  assumes "zone_ok me (Branch l i z0 z1)"
  shows "k \<in># zone_keys z0 \<Longrightarrow> GetBitNumber (fst (snd k)) l = 0"
    "k \<in># zone_keys z1 \<Longrightarrow> GetBitNumber (fst (snd k)) l \<noteq> 0"
  using assms zone_ok_placed [of me z0 k] zone_ok_placed [of me z1 k]
  by (auto simp: placed_sub_iff)

lemma same_id_same_place: "placed me l i k \<Longrightarrow> placed me l' i' k' \<Longrightarrow> fst k = fst k' \<Longrightarrow> fst (snd k) = fst (snd k')"
  by (simp add: placed_def)

subsection \<open>Splitting keeps every contact\<close>

lemma Split_loop_keeps:
  assumes "tracks g (mset (map m_ip (b0 @ b1)) + R)" "limits (mset (map m_ip (cs @ b0 @ b1)) + R)"
    "bin_ok (bin_keys (cs @ b0 @ b1))"
  shows "\<exists>g'. Split_loop l cs g b0 b1 = (g', b0 @ filter (\<lambda>c. GetBitNumber (m_distance c) l = 0) cs,
      b1 @ filter (\<lambda>c. GetBitNumber (m_distance c) l \<noteq> 0) cs) \<and> tracks g' (mset (map m_ip (cs @ b0 @ b1)) + R)"
  using assms
proof (induction cs arbitrary: g b0 b1)
  case (Cons c cs)
  have sub: "bin_ok M" if "M \<subseteq># bin_keys ((c # cs) @ b0 @ b1)" for M using bin_ok_mono [OF that Cons.prems(3)] .
  have ok: "bin_ok (bin_keys b0)" "bin_ok (bin_keys b1)"
    "bin_ok (bin_keys (b0 @ [c]))" "bin_ok (bin_keys (b1 @ [c]))"
    by (rule sub, simp add: subset_mset.add_increasing subset_mset.add_increasing2)+
  have lim: "limits (add_mset (m_ip c) (mset (map m_ip (b0 @ b1)) + R))"
    by (rule limits_mono [OF _ Cons.prems(2)]) simp
  have t0: "tracks g (mset (map m_ip b0) + (mset (map m_ip b1) + R))"
    and t1: "tracks g (mset (map m_ip b1) + (mset (map m_ip b0) + R))"
    using Cons.prems(1) by (simp_all add: ac_simps)
  have a0: "AddContact c g b0 = (True, AdjustGlobalTracking (m_ip c) True g, b0 @ [c])"
    unfolding AddContact_eq [OF t0 ok(1)] using ok(3) lim by (simp add: ac_simps)
  have a1: "AddContact c g b1 = (True, AdjustGlobalTracking (m_ip c) True g, b1 @ [c])"
    unfolding AddContact_eq [OF t1 ok(2)] using ok(4) lim by (simp add: ac_simps)
  have t: "tracks (AdjustGlobalTracking (m_ip c) True g) (add_mset (m_ip c) (mset (map m_ip (b0 @ b1)) + R))"
    by (rule tracks_inc [OF Cons.prems(1) lim])
  show ?case
  proof (cases "GetBitNumber (m_distance c) l = 0")
    case True
    then show ?thesis using Cons.IH [of "AdjustGlobalTracking (m_ip c) True g" "b0 @ [c]" b1] Cons.prems(2,3) t a0
      by (simp add: ac_simps)
  next
    case False
    then show ?thesis using Cons.IH [of "AdjustGlobalTracking (m_ip c) True g" b0 "b1 @ [c]"] Cons.prems(2,3) t a1
      by (simp add: ac_simps)
  qed
qed simp

lemma bin_keys_partition: "bin_keys (filter P b) + bin_keys (filter (\<lambda>c. \<not> P c) b) = bin_keys b"
  by (induction b) auto

lemma Split_keeps:
  assumes t: "tracks g (image_mset key_ip (bin_keys b) + R)" and z: "zone_ok me (Leaf l i b)" "l < 127"
    and r: "Split l i g b = (g', z0, z1)"
  shows "zone_ok me (Branch l i z0 z1)" "zone_keys (Branch l i z0 z1) = bin_keys b"
    "tracks g' (zone_ips (Branch l i z0 z1) + R)"
proof -
  have t': "tracks g (mset (map m_ip b) + R)" using t by (simp add: image_key_ip)
  from tracks_bin_delete [OF this] have d: "tracks (bin_delete g b) (mset (map m_ip ([] @ [])) + R)" by simp
  have lim: "limits (mset (map m_ip (b @ [] @ [])) + R)" using t' by (simp add: tracks_def)
  have b: "bin_ok (bin_keys (b @ [] @ []))" using z by simp
  let ?b0 = "filter (\<lambda>c. GetBitNumber (m_distance c) l = 0) b"
  let ?b1 = "filter (\<lambda>c. GetBitNumber (m_distance c) l \<noteq> 0) b"
  from Split_loop_keeps [OF d lim b, of l] obtain g1 where
    s: "Split_loop l b (bin_delete g b) [] [] = (g1, ?b0, ?b1)" and t1: "tracks g1 (mset (map m_ip b) + R)" by auto
  have e: "z0 = Leaf (l + 1) (GenSubZone_index i 0) ?b0" "z1 = Leaf (l + 1) (GenSubZone_index i 1) ?b1" "g' = g1"
    using r s by (auto simp: Split_def)
  show k: "zone_keys (Branch l i z0 z1) = bin_keys b" using bin_keys_partition [of "\<lambda>c. GetBitNumber (m_distance c) l = 0" b] by (simp add: e)
  show "tracks g' (zone_ips (Branch l i z0 z1) + R)" unfolding k using t1 by (simp add: e image_key_ip)
  have sub: "bin_keys ?b0 \<subseteq># bin_keys b" "bin_keys ?b1 \<subseteq># bin_keys b"
    unfolding bin_keys_def by (simp_all add: image_mset_subseteq_mono)
  have iv: "uval (GenSubZone_index i 0) = 2 * uval i" "uval (GenSubZone_index i 1) = 2 * uval i + 1"
    using uval_GenSubZone_index [of i l 0] uval_GenSubZone_index [of i l 1] z by simp_all
  have p: "placed me l i (keyof c)" if "c \<in> set b" for c using z that by (auto simp: bin_keys_def)
  show "zone_ok me (Branch l i z0 z1)"
    using z iv bin_ok_mono [OF sub(1)] bin_ok_mono [OF sub(2)] p
    by (auto simp: e bin_keys_def placed_sub_iff)
qed

subsection \<open>Adding a contact\<close>

lemma bin_keys_full_update:
  assumes "bin_ok (bin_keys b)"
  shows "bin_keys (SetAlive now kadid (modify_contact kadid (\<lambda>c. c\<lparr>m_udpPort := up, m_tcpPort := tp, m_version := vs,
    m_udpKey := key, m_ipVerified := (m_ipVerified c \<or> v)\<rparr>) b)) = bin_keys b"
proof -
  let ?f = "\<lambda>c. c\<lparr>m_udpPort := up, m_tcpPort := tp, m_version := vs, m_udpKey := key, m_ipVerified := (m_ipVerified c \<or> v)\<rparr>"
  have k: "bin_keys (modify_contact kadid ?f b) = bin_keys b"
    by (rule bin_keys_modify) (simp add: keyof_def)
  then show ?thesis using bin_keys_SetAlive [of "modify_contact kadid ?f b"] assms by simp
qed

lemma update_known_ok:
  assumes t: "tracks g (mset (map m_ip b) + R)" and b: "bin_ok (bin_keys b)"
    and cu: "bin_GetContact (m_clientID contact) b = Some cu"
    and r: "update_known now publicIP contact cu out g b = (upd, out', g', b')"
  shows "tracks g' (mset (map m_ip b') + R) \<and> bin_ok (bin_keys b') \<and> (bin_keys b' = bin_keys b \<or>
    bin_keys b' = add_mset (m_clientID cu, m_distance cu, m_ip contact) (bin_keys b - {#keyof cu#}))"
proof -
  have mem: "cu \<in> set b" "m_clientID cu = m_clientID contact" using bin_GetContact_SomeD [OF cu] by simp_all
  obtain changed g1 b1 where ch: "ChangeContactIPAddress cu (m_ip contact) g b = (changed, g1, b1)"
    by (metis prod_cases3)
  note ok = ChangeContactIPAddress_ok [OF t b mem(1) ch]
  have "g' = g \<and> bin_keys b' = bin_keys b \<or> g' = g1 \<and> bin_keys b' = bin_keys b1"
    using r ch unfolding update_known_def Let_def
    by (auto simp: bin_keys_full_update [OF ok(2)] bin_keys_SetAlive [OF b] bin_keys_modify split: if_splits)
  then show ?thesis using ok t b unfolding bin_ips_keys by auto
qed

text \<open>What adding a contact does to the contacts of a zone: a new contact comes with its address,
  a known one may change its address to the new one.\<close>

definition add_effect :: "CContact \<Rightarrow> bool \<Rightarrow> bool \<Rightarrow> (CUInt128 \<times> CUInt128 \<times> u32) multiset \<Rightarrow>
    (CUInt128 \<times> CUInt128 \<times> u32) multiset \<Rightarrow> bool" where
  "add_effect contact update added M M' \<longleftrightarrow>
     (if added then m_clientID contact \<notin># image_mset fst M \<and> M' = add_mset (keyof contact) M
      else M' = M \<or> update \<and> (\<exists>k \<in># M. fst k = m_clientID contact \<and>
        M' = add_mset (m_clientID contact, fst (snd k), m_ip contact) (M - {#k#})))"

lemma add_effect_refl [simp]: "add_effect contact update False M M"
  by (simp add: add_effect_def)

lemma add_effect_union:
  assumes "add_effect contact update added M M'" "\<And>k. k \<in># N \<Longrightarrow> fst k \<noteq> m_clientID contact"
  shows "add_effect contact update added (M + N) (M' + N)" "add_effect contact update added (N + M) (N + M')"
proof -
  show 1: "add_effect contact update added (M + N) (M' + N)"
  proof (cases added)
    case True
    then show ?thesis using assms by (auto simp: add_effect_def dest: assms(2))
  next
    case False
    then consider "M' = M" | k where "update" "k \<in># M" "fst k = m_clientID contact"
        "M' = add_mset (m_clientID contact, fst (snd k), m_ip contact) (M - {#k#})"
      using assms(1) by (auto simp: add_effect_def)
    then show ?thesis
    proof cases
      case 2
      then have "M' + N = add_mset (m_clientID contact, fst (snd k), m_ip contact) (M + N - {#k#})" by simp
      then show ?thesis using False 2 by (auto simp: add_effect_def intro!: bexI [of _ k])
    qed (simp add: False)
  qed
  then show "add_effect contact update added (N + M) (N + M')" by (simp add: ac_simps)
qed

lemma add_effect_placed:
  assumes "add_effect contact update added M M'" "\<And>k. k \<in># M \<Longrightarrow> placed me l i k" "placed me l i (keyof contact)"
    "k \<in># M'"
  shows "placed me l i k"
proof -
  have "placed me l i (m_clientID contact, fst (snd k), ip)" if "k \<in># M" "fst k = m_clientID contact" for k ip
    using assms(2) [OF that(1)] that(2) by (auto simp: placed_def)
  then show ?thesis using assms(1,3,4) unfolding add_effect_def
    by (auto split: if_splits intro: assms(2) assms(2) [OF in_diffD])
qed

lemma other_half:
  assumes "zone_ok me (Branch l i z0 z1)" "m_distance contact = XOR_op me (m_clientID contact)"
  shows "GetBitNumber (m_distance contact) l = 0 \<Longrightarrow> k \<in># zone_keys z1 \<Longrightarrow> fst k \<noteq> m_clientID contact"
    "GetBitNumber (m_distance contact) l \<noteq> 0 \<Longrightarrow> k \<in># zone_keys z0 \<Longrightarrow> fst k \<noteq> m_clientID contact"
proof -
  have "fst (snd k) = m_distance contact" if "k \<in># zone_keys (Branch l i z0 z1)" "fst k = m_clientID contact"
    using zone_ok_placed [OF assms(1) that(1)] that(2) assms(2) by (simp add: placed_def)
  then show "GetBitNumber (m_distance contact) l = 0 \<Longrightarrow> k \<in># zone_keys z1 \<Longrightarrow> fst k \<noteq> m_clientID contact"
    "GetBitNumber (m_distance contact) l \<noteq> 0 \<Longrightarrow> k \<in># zone_keys z0 \<Longrightarrow> fst k \<noteq> m_clientID contact"
    using branch_side [OF assms(1), of k] by auto
qed

text \<open>The invariant and the effect, in the form of a conclusion on a result of \<open>zone_Add\<close>.\<close>

definition add_ok :: "CUInt128 \<Rightarrow> CContact \<Rightarrow> bool \<Rightarrow> u32 multiset \<Rightarrow> zone \<Rightarrow> bool \<times> bool \<times> bool \<times> tracking \<times> zone \<Rightarrow> bool" where
  "add_ok me contact update R z = (\<lambda>(added, upd, out, g', z').
     zone_ok me z' \<and> m_level z' = m_level z \<and> m_zoneIndex z' = m_zoneIndex z \<and> tracks g' (zone_ips z' + R) \<and>
     add_effect contact update added (zone_keys z) (zone_keys z'))"

lemma add_ok_branch:
  assumes z: "zone_ok me (Branch l i z0 z1)" and d: "m_distance contact = XOR_op me (m_clientID contact)"
  shows "GetBitNumber (m_distance contact) l = 0 \<Longrightarrow>
      add_ok me contact update (zone_ips z1 + R) z0 (added, upd, out, g', z') \<Longrightarrow>
      add_ok me contact update R (Branch l i z0 z1) (added, upd, out, g', Branch l i z' z1)"
    "GetBitNumber (m_distance contact) l \<noteq> 0 \<Longrightarrow>
      add_ok me contact update (zone_ips z0 + R) z1 (added, upd, out, g', z') \<Longrightarrow>
      add_ok me contact update R (Branch l i z0 z1) (added, upd, out, g', Branch l i z0 z')"
proof -
  note [simp] = add_ok_def
  show "add_ok me contact update R (Branch l i z0 z1) (added, upd, out, g', Branch l i z' z1)"
    if "GetBitNumber (m_distance contact) l = 0" "add_ok me contact update (zone_ips z1 + R) z0 (added, upd, out, g', z')"
    using z that add_effect_union(1) [OF _ other_half(1) [OF z d that(1)]] by (simp add: add.assoc)
  show "add_ok me contact update R (Branch l i z0 z1) (added, upd, out, g', Branch l i z0 z')"
    if "GetBitNumber (m_distance contact) l \<noteq> 0" "add_ok me contact update (zone_ips z0 + R) z1 (added, upd, out, g', z')"
    using z that add_effect_union(2) [OF _ other_half(2) [OF z d that(1)]] by (simp add: add.assoc add.left_commute)
qed

lemma add_ok_split:
  assumes "zone_keys y = zone_keys z" "m_level y = m_level z" "m_zoneIndex y = m_zoneIndex z"
  shows "add_ok me contact update R y res \<longleftrightarrow> add_ok me contact update R z res"
  using assms by (simp add: add_ok_def)

lemma add_ok_leaf:
  assumes z: "zone_ok me (Leaf l i b)" and p: "placed me l i (keyof contact)"
    and e: "add_effect contact update added (bin_keys b) (bin_keys b')" "bin_ok (bin_keys b')"
      "tracks g' (mset (map m_ip b') + R)"
  shows "add_ok me contact update R (Leaf l i b) (added, upd, out', g', Leaf l i b')"
  using z e add_effect_placed [OF e(1) _ p] by (auto simp: add_ok_def image_key_ip)

text \<open>A leaf that knows the contact, and one that does not and stays a leaf.\<close>

lemma zone_Add_known:
  assumes z: "zone_ok me (Leaf l i b)" and p: "placed me l i (keyof contact)"
    and t: "tracks g (mset (map m_ip b) + R)" and cu: "bin_GetContact (m_clientID contact) b = Some cu"
  shows "add_ok me contact update R (Leaf l i b) (zone_Add now publicIP contact update out g (Leaf l i b))"
proof -
  have b: "bin_ok (bin_keys b)" using z by simp
  have mem: "cu \<in> set b" "m_clientID cu = m_clientID contact" using bin_GetContact_SomeD [OF cu] by simp_all
  then have "keyof cu \<in># bin_keys b" by (auto simp: bin_keys_def)
  then have eff: "add_effect contact True False (bin_keys b)
      (add_mset (m_clientID cu, m_distance cu, m_ip contact) (bin_keys b - {#keyof cu#}))"
    using mem(2) unfolding add_effect_def by (auto intro!: bexI [of _ "keyof cu"])
  show ?thesis
  proof (cases update)
    case True
    obtain upd out' g' b' where u: "update_known now publicIP contact cu out g b = (upd, out', g', b')"
      by (metis prod_cases4)
    from update_known_ok [OF t b cu this] eff have
      "add_ok me contact update R (Leaf l i b) (False, upd, out', g', Leaf l i b')"
      by (intro add_ok_leaf [OF z p]) (auto simp: True)
    then show ?thesis using cu True u by simp
  next
    case False
    then show ?thesis using cu add_ok_leaf [OF z p add_effect_refl b t] by simp
  qed
qed

lemma zone_Add_no_split:
  assumes z: "zone_ok me (Leaf l i b)" and p: "placed me l i (keyof contact)"
    and t: "tracks g (mset (map m_ip b) + R)" and new: "bin_GetContact (m_clientID contact) b = None"
    and s: "GetRemaining b \<noteq> 0 \<or> \<not> CanSplit l i b"
  shows "add_ok me contact update R (Leaf l i b) (zone_Add now publicIP contact update out g (Leaf l i b))"
proof (cases "GetRemaining b \<noteq> 0")
  case True
  have b: "bin_ok (bin_keys b)" using z by simp
  obtain added g' b' where a: "AddContact contact g b = (added, g', b')" by (metis prod_cases3)
  note at = AddContact_tracks [OF t b a]
  have "add_effect contact update added (bin_keys b) (bin_keys b')"
    using new at(3) by (auto simp: add_effect_def bin_GetContact_None_iff bin_keys_def image_image)
  from add_ok_leaf [OF z p this at(2,1)] show ?thesis using new True a by simp
next
  case False
  then show ?thesis using new s z add_ok_leaf [OF z p add_effect_refl _ t] by simp
qed

lemma zone_Add_ok:
  assumes "zone_ok me z" "tracks g (zone_ips z + R)" "placed me (m_level z) (m_zoneIndex z) (keyof contact)"
  shows "add_ok me contact update R z (zone_Add now publicIP contact update out g z)"
  using assms
proof (induction now publicIP contact update out g z arbitrary: R rule: zone_Add.induct)
  case (1 now publicIP contact update out g l i z0 z1)
  have d: "m_distance contact = XOR_op me (m_clientID contact)" using "1.prems"(3) by (simp add: placed_def)
  show ?case
  proof (cases "GetBitNumber (m_distance contact) l = 0")
    case True
    then have "add_ok me contact update (zone_ips z1 + R) z0 (zone_Add now publicIP contact update out g z0)"
      using "1.prems" by (intro "1.IH"(1)) (auto simp: placed_sub_iff ac_simps)
    then show ?thesis using add_ok_branch(1) [OF "1.prems"(1) d True] True by (auto split: prod.splits)
  next
    case False
    then have "add_ok me contact update (zone_ips z0 + R) z1 (zone_Add now publicIP contact update out g z1)"
      using "1.prems" by (intro "1.IH"(2)) (auto simp: placed_sub_iff ac_simps)
    then show ?thesis using add_ok_branch(2) [OF "1.prems"(1) d False] False by (auto split: prod.splits)
  qed
next
  case (2 now publicIP contact update out g l i b)
  note z = "2.prems"(1)
  have t: "tracks g (mset (map m_ip b) + R)" using "2.prems"(2) by (simp add: image_key_ip)
  have p: "placed me l i (keyof contact)" and d: "m_distance contact = XOR_op me (m_clientID contact)"
    using "2.prems"(3) by (auto simp: placed_def)
  consider (known) cu where "bin_GetContact (m_clientID contact) b = Some cu"
    | (stay) "bin_GetContact (m_clientID contact) b = None" "GetRemaining b \<noteq> 0 \<or> \<not> CanSplit l i b"
    | (split) "bin_GetContact (m_clientID contact) b = None" "\<not> GetRemaining b \<noteq> 0" "CanSplit l i b"
    by (cases "bin_GetContact (m_clientID contact) b") auto
  then show ?case
  proof cases
    case split
    obtain g' z0 z1 where s: "Split l i g b = (g', z0, z1)" by (metis prod_cases3)
    have "l < 127" using split by (simp add: CanSplit_def)
    note sk = Split_keeps [OF _ z this s, of R]
    have tk: "tracks g' (zone_ips (Branch l i z0 z1) + R)" and zk: "zone_ok me (Branch l i z0 z1)"
      and kk: "zone_keys (Branch l i z0 z1) = zone_keys (Leaf l i b)"
      using sk "2.prems"(2) by simp_all
    have re: "add_ok me contact update R (Leaf l i b) res = add_ok me contact update R (Branch l i z0 z1) res" for res
      using kk by (intro add_ok_split) simp_all
    note IH = "2.IH"(1,2) [OF split s [symmetric] refl]
    show ?thesis
    proof (cases "GetBitNumber (m_distance contact) l = 0")
      case True
      then have "add_ok me contact update (zone_ips z1 + R) z0 (zone_Add now publicIP contact update out g' z0)"
        using zk tk p by (intro IH(1)) (auto simp: placed_sub_iff ac_simps)
      then show ?thesis using add_ok_branch(1) [OF zk d True] True split s unfolding re by (auto split: prod.splits)
    next
      case False
      then have "add_ok me contact update (zone_ips z0 + R) z1 (zone_Add now publicIP contact update out g' z1)"
        using zk tk p by (intro IH(2)) (auto simp: placed_sub_iff ac_simps)
      then show ?thesis using add_ok_branch(2) [OF zk d False] False split s unfolding re by (auto split: prod.splits)
    qed
  qed (rule zone_Add_known [OF z p t] zone_Add_no_split [OF z p t]; assumption)+
qed

subsection \<open>Merging zones\<close>

lemma add_all_ok:
  assumes "tracks g (mset (map m_ip b) + R)" "bin_ok (bin_keys b)" "add_all cs g b = (g', b')"
  shows "tracks g' (mset (map m_ip b') + R) \<and> bin_ok (bin_keys b') \<and> bin_keys b' \<subseteq># bin_keys b + bin_keys cs"
  using assms
proof (induction cs arbitrary: g b)
  case (Cons c cs)
  obtain added g1 b1 where a: "AddContact c g b = (added, g1, b1)" by (metis prod_cases3)
  note at = AddContact_tracks [OF Cons.prems(1,2) a]
  have "add_all cs g1 b1 = (g', b')" using Cons.prems(3) a by (simp add: add_all_def)
  from Cons.IH [OF at(1,2) this] have IH: "tracks g' (mset (map m_ip b') + R)" "bin_ok (bin_keys b')"
    "bin_keys b' \<subseteq># bin_keys b1 + bin_keys cs" by simp_all
  have "bin_keys b1 + bin_keys cs \<subseteq># bin_keys b + bin_keys (c # cs)" using at(3) by (cases added) auto
  then show ?case using IH subset_mset.order_trans by blast
qed (simp add: add_all_def)

text \<open>A merged zone is well-formed; a contact that no longer fits into the bin is dropped.\<close>

lemma Consolidate_ok:
  assumes "zone_ok me z" "tracks g (zone_ips z + R)" "Consolidate g z = (n, g', z')"
  shows "zone_ok me z' \<and> m_level z' = m_level z \<and> m_zoneIndex z' = m_zoneIndex z \<and>
    tracks g' (zone_ips z' + R) \<and> zone_keys z' \<subseteq># zone_keys z"
  using assms
proof (induction z arbitrary: g n g' z' R)
  case (Branch l i z0 z1)
  obtain n0 g0 y0 where c0: "(if \<not> IsLeaf z0 then Consolidate g z0 else (0, g, z0)) = (n0, g0, y0)" by (metis prod_cases3)
  obtain n1 g1 y1 where c1: "(if \<not> IsLeaf z1 then Consolidate g0 z1 else (0, g0, z1)) = (n1, g1, y1)" by (metis prod_cases3)
  have t: "tracks g (zone_ips z0 + (zone_ips z1 + R))" using Branch.prems(2) by (simp add: add.assoc)
  have s0: "zone_ok me y0" "m_level y0 = m_level z0" "m_zoneIndex y0 = m_zoneIndex z0"
    "tracks g0 (zone_ips y0 + (zone_ips z1 + R))" "zone_keys y0 \<subseteq># zone_keys z0"
    using c0 Branch.IH(1) [OF _ t] Branch.prems(1) t by (auto split: if_splits)
  have t1: "tracks g0 (zone_ips z1 + (zone_ips y0 + R))" using s0(4) by (simp add: add.left_commute)
  have s1: "zone_ok me y1" "m_level y1 = m_level z1" "m_zoneIndex y1 = m_zoneIndex z1"
    "tracks g1 (zone_ips y1 + (zone_ips y0 + R))" "zone_keys y1 \<subseteq># zone_keys z1"
    using c1 Branch.IH(2) [OF _ t1] Branch.prems(1) t1 by (auto split: if_splits)
  have ok: "zone_ok me (Branch l i y0 y1)" using Branch.prems(1) s0 s1 by simp
  have sub: "zone_keys (Branch l i y0 y1) \<subseteq># zone_keys (Branch l i z0 z1)"
    using s0(5) s1(5) by (simp add: subset_mset.add_mono)
  show ?case
  proof (cases "z' = Branch l i y0 y1 \<and> g' = g1")
    case True
    then show ?thesis using ok sub s1(4) by (simp add: add.assoc add.left_commute)
  next
    case False
    then obtain l0 i0 b0 l1 i1 b1 b where y: "y0 = Leaf l0 i0 b0" "y1 = Leaf l1 i1 b1" and z': "z' = Leaf l i b"
      and a: "add_all (b0 @ b1) (bin_delete (bin_delete g1 b0) b1) [] = (g', b)"
      using Branch.prems(3) c0 c1 by (auto simp del: IsLeaf.simps split: zone.splits if_splits prod.splits)
    have "tracks g1 (mset (map m_ip b0) + (mset (map m_ip b1) + R))"
      using s1(4) y by (simp add: image_key_ip add.left_commute)
    then have "tracks (bin_delete (bin_delete g1 b0) b1) (mset (map m_ip []) + R)"
      by (simp add: tracks_bin_delete)
    from add_all_ok [OF this _ a] have b: "tracks g' (mset (map m_ip b) + R)" "bin_ok (bin_keys b)"
      "bin_keys b \<subseteq># zone_keys (Branch l i y0 y1)" by (simp_all add: y)
    have "\<And>k. k \<in># bin_keys b \<Longrightarrow> placed me l i k" using zone_ok_placed [OF ok] mset_subset_eqD [OF b(3)] by simp
    then show ?thesis using b Branch.prems(1) z' subset_mset.order_trans [OF b(3) sub] by (simp add: image_key_ip)
  qed
qed simp

subsection \<open>The small timer\<close>

lemma modify_contact_other: "c \<in> set b \<Longrightarrow> m_clientID c \<noteq> kadid \<Longrightarrow> c \<in> set (modify_contact kadid f b)"
  by (auto simp: modify_contact_def image_iff intro: bexI [of _ c])

lemma small_timer_loop_ok:
  assumes "tracks g (mset (map m_ip b) + R)" "bin_ok (bin_keys b)" "set cs \<subseteq> set b" "distinct (map m_clientID cs)"
    "small_timer_loop now cs g b = (g', b')"
  shows "tracks g' (mset (map m_ip b') + R) \<and> bin_ok (bin_keys b') \<and> bin_keys b' \<subseteq># bin_keys b"
  using assms
proof (induction cs arbitrary: g b)
  case (Cons c cs)
  have c: "c \<in> set b" "set cs \<subseteq> set b" and other: "\<And>x. x \<in> set cs \<Longrightarrow> m_clientID x \<noteq> m_clientID c"
    using Cons.prems(3,4) by (auto simp: image_iff)
  have d: "distinct (map m_clientID cs)" using Cons.prems(4) by simp
  consider (dead) "m_type c = 4 \<and> m_expires c > 0 \<and> m_expires c \<le> now" "\<not> InUse c"
    | (new) "\<not> (m_type c = 4 \<and> m_expires c > 0 \<and> m_expires c \<le> now)" "m_expires c = 0"
    | (skip) "small_timer_loop now (c # cs) g b = small_timer_loop now cs g b"
    by (cases "m_type c = 4 \<and> m_expires c > 0 \<and> m_expires c \<le> now"; cases "InUse c"; cases "m_expires c = 0") simp_all
  then show ?case
  proof cases
    case dead
    obtain g1 b1 where r: "RemoveContact c False g b = (g1, b1)" by fastforce
    note rt = RemoveContact_tracks [OF Cons.prems(1,2) c(1) r]
    have sub: "bin_keys b1 \<subseteq># bin_keys b" using rt(2) by simp
    have "set cs \<subseteq> set b1" using r c(2) other by (auto simp: RemoveContact_def)
    moreover have "small_timer_loop now cs g1 b1 = (g', b')" using Cons.prems(5) dead r by simp
    ultimately show ?thesis using Cons.IH rt(1) bin_ok_mono [OF sub Cons.prems(2)] d sub
      subset_mset.order_trans by blast
  next
    case new
    let ?b = "modify_contact (m_clientID c) (\<lambda>c. c\<lparr>m_expires := now\<rparr>) b"
    have k: "bin_keys ?b = bin_keys b" by (rule bin_keys_modify) (simp add: keyof_def)
    have "set cs \<subseteq> set ?b" using c(2) other modify_contact_other by blast
    then show ?thesis using Cons.IH [of g ?b] Cons.prems(1,2,5) new d unfolding bin_ips_keys k by simp
  next
    case skip
    then have "small_timer_loop now cs g b = (g', b')" using Cons.prems(5) by simp
    then show ?thesis using Cons.IH Cons.prems(1,2) c(2) d by simp
  qed
qed simp

lemma OnSmallTimer_ok:
  assumes z: "zone_ok me (Leaf l i b)" and t: "tracks g (zone_ips (Leaf l i b) + R)"
    and r: "OnSmallTimer now g (Leaf l i b) = (h, g', z')"
  shows "zone_ok me z' \<and> m_level z' = l \<and> m_zoneIndex z' = i \<and> tracks g' (zone_ips z' + R) \<and>
    zone_keys z' \<subseteq># bin_keys b"
proof -
  obtain g1 b1 where s: "small_timer_loop now b g b = (g1, b1)" by fastforce
  have "tracks g (mset (map m_ip b) + R)" "bin_ok (bin_keys b)" using t z by (simp_all add: image_key_ip)
  from small_timer_loop_ok [OF this subset_refl bin_ok_distinct [OF this(2)] s]
  have ok: "tracks g1 (mset (map m_ip b1) + R)" "bin_ok (bin_keys b1)" "bin_keys b1 \<subseteq># bin_keys b" by simp_all
  obtain b2 where z': "z' = Leaf l i b2" "g' = g1" and k: "bin_keys b2 = bin_keys b1"
  proof (cases "GetOldest b1")
    case None
    then show ?thesis using r s that by auto
  next
    case (Some c)
    then have "c \<in> set b1" by (auto simp: GetOldest_def split: if_splits)
    then have "bin_keys (PushToBottom c b1) = bin_keys b1" by (rule bin_keys_PushToBottom [OF bin_ok_distinct [OF ok(2)]]) simp
    moreover have "bin_keys (modify_contact (m_clientID c) (CheckingType now) b1) = bin_keys b1"
      by (rule bin_keys_modify) simp
    ultimately show ?thesis using r s Some that by (auto simp: Let_def split: if_splits)
  qed
  show ?thesis using z ok(1) [unfolded bin_ips_keys] ok(2,3) k mset_subset_eqD [OF ok(3)] by (auto simp: z')
qed

subsection \<open>Operations that keep who the contacts are\<close>

lemma map_bins_keeps:
  assumes "\<And>b. bin_ok (bin_keys b) \<Longrightarrow> bin_keys (f b) = bin_keys b" "zone_ok me z"
  shows "zone_keys (map_bins f z) = zone_keys z \<and> zone_ok me (map_bins f z) \<and>
    m_level (map_bins f z) = m_level z \<and> m_zoneIndex (map_bins f z) = m_zoneIndex z"
  using assms by (induction z) auto

lemma apply_uses_keeps:
  assumes "zone_ok me z"
  shows "zone_keys (fold (\<lambda>e. map_bins (apply_use e)) ev z) = zone_keys z \<and>
    zone_ok me (fold (\<lambda>e. map_bins (apply_use e)) ev z) \<and>
    m_level (fold (\<lambda>e. map_bins (apply_use e)) ev z) = m_level z \<and>
    m_zoneIndex (fold (\<lambda>e. map_bins (apply_use e)) ev z) = m_zoneIndex z"
  using assms
proof (induction ev arbitrary: z)
  case (Cons e ev)
  note m = map_bins_keeps [of "apply_use e", OF bin_keys_apply_use Cons.prems]
  show ?case using Cons.IH [of "map_bins (apply_use e) z"] m by simp
qed simp

lemma bin_keys_SetAllContactsVerified: "bin_keys (bin_SetAllContactsVerified b) = bin_keys b"
  by (simp add: bin_keys_def bin_SetAllContactsVerified_def comp_def)

subsection \<open>The table and its reachable states\<close>

definition table_ok :: "CUInt128 \<Rightarrow> tracking \<times> zone \<Rightarrow> bool" where
  "table_ok me = (\<lambda>(g, z). zone_ok me z \<and> m_level z = 0 \<and> m_zoneIndex z = CUInt128_uint32 0 \<and> tracks g (zone_ips z))"

definition no_contacts :: tracking where
  "no_contacts = \<lparr>s_globalContactIPs = Map.empty, s_globalContactSubnets = Map.empty\<rparr>"

text \<open>The small timer runs for one leaf at a time.\<close>

inductive timer_step :: "int \<Rightarrow> tracking \<times> zone \<Rightarrow> tracking \<times> zone \<Rightarrow> bool" for now :: int where
  here: "OnSmallTimer now g (Leaf l i b) = (h, g', z') \<Longrightarrow> timer_step now (g, Leaf l i b) (g', z')"
| left: "timer_step now (g, z0) (g', z0') \<Longrightarrow> timer_step now (g, Branch l i z0 z1) (g', Branch l i z0' z1)"
| right: "timer_step now (g, z1) (g', z1') \<Longrightarrow> timer_step now (g, Branch l i z0 z1) (g', Branch l i z0 z1')"

text \<open>The operations of the table, in any order and with any arguments.\<close>

inductive table_step :: "CUInt128 \<Rightarrow> tracking \<times> zone \<Rightarrow> tracking \<times> zone \<Rightarrow> bool" for me :: CUInt128 where
  unfiltered: "AddUnfiltered now publicIP me kadid ip port tport version key ipVerified update fromHello g z = (r, v, g', z')
    \<Longrightarrow> table_step me (g, z) (g', z')"
| add: "Add_contact IsFiltered now publicIP me kadid ip port tport version key ipVerified update fromHello g z = (r, v, g', z')
    \<Longrightarrow> table_step me (g, z) (g', z')"
| timer: "timer_step now (g, z) (g', z') \<Longrightarrow> table_step me (g, z) (g', z')"
| consolidate: "Consolidate g z = (n, g', z') \<Longrightarrow> table_step me (g, z) (g', z')"
| closest: "zone_GetClosestTo maxType target dist maxRequired result emptyFirst inUse z = (result', z')
    \<Longrightarrow> table_step me (g, z) (g, z')"
| verify: "VerifyContact me kadid ip z = (r, z') \<Longrightarrow> table_step me (g, z) (g, z')"
| verify_all: "table_step me (g, z) (g, zone_SetAllContactsVerified z)"

inductive table_reachable :: "CUInt128 \<Rightarrow> tracking \<times> zone \<Rightarrow> bool" for me :: CUInt128 where
  init: "table_reachable me (no_contacts, root_zone)"
| step: "table_reachable me s \<Longrightarrow> table_step me s s' \<Longrightarrow> table_reachable me s'"

inductive_simps timer_step_Leaf: "timer_step now (g, Leaf l i b) s"
inductive_simps timer_step_Branch: "timer_step now (g, Branch l i z0 z1) s"

lemma tracks_none [simp]: "tracks no_contacts {#}"
  by (simp add: tracks_def no_contacts_def counted_def)

lemma table_ok_init: "table_ok me (no_contacts, root_zone)"
  by (simp add: table_ok_def root_zone_def zone_Init_def uval_uint32)

lemma timer_step_ok:
  assumes "timer_step now (g, z) (g', z')" "zone_ok me z" "tracks g (zone_ips z + R)"
  shows "zone_ok me z' \<and> m_level z' = m_level z \<and> m_zoneIndex z' = m_zoneIndex z \<and>
    tracks g' (zone_ips z' + R) \<and> zone_keys z' \<subseteq># zone_keys z"
  using assms
proof (induction z arbitrary: g g' z' R)
  case (Leaf l i b)
  then show ?case using OnSmallTimer_ok [of me l i b g R now] by (auto simp: timer_step_Leaf)
next
  case (Branch l i z0 z1)
  have t: "tracks g (zone_ips z0 + (zone_ips z1 + R))" "tracks g (zone_ips z1 + (zone_ips z0 + R))"
    using Branch.prems(3) by (simp_all add: add.assoc add.left_commute)
  from Branch.prems(1) consider (l) y where "z' = Branch l i y z1" "timer_step now (g, z0) (g', y)"
    | (r) y where "z' = Branch l i z0 y" "timer_step now (g, z1) (g', y)"
    by (auto simp: timer_step_Branch)
  then show ?case
  proof cases
    case l
    then show ?thesis using Branch.IH(1) [OF l(2) _ t(1)] Branch.prems(2) by (auto simp: add.assoc)
  next
    case r
    then show ?thesis using Branch.IH(2) [OF r(2) _ t(2)] Branch.prems(2) by (auto simp: add.assoc add.left_commute)
  qed
qed

lemma root_placed: "placed me 0 (CUInt128_uint32 0) k \<longleftrightarrow> fst (snd k) = XOR_op me (fst k)"
proof -
  have "drop_bit 128 (uval x) = 0" for x using uval_bounds [of x] by (simp add: drop_bit_eq_div)
  then show ?thesis by (simp add: placed_def uval_uint32)
qed

lemma AddUnfiltered_ok:
  assumes t: "table_ok me (g, z)"
    and r: "AddUnfiltered now publicIP me kadid ip port tport version key ipVerified update fromHello g z = (r, v, g', z')"
  defines "contact \<equiv> CContact_new now kadid ip port tport version key ipVerified me"
  shows "table_ok me (g', z') \<and> (kadid = me \<and> \<not> r \<and> z' = z \<or>
    kadid \<noteq> me \<and> (\<exists>added. (added \<longrightarrow> r) \<and> add_effect contact update added (zone_keys z) (zone_keys z')))"
proof (cases "kadid = me")
  case False
  let ?c = "if fromHello then SetReceivedHelloPacket contact else contact"
  obtain added upd where a: "zone_Add now publicIP ?c update ipVerified g z = (added, upd, v, g', z')" and r: "r = (added \<or> upd)"
    using r False unfolding AddUnfiltered_def contact_def Let_def by (auto split: prod.splits)
  have k: "keyof ?c = keyof contact" by simp
  have "keyof contact = (kadid, XOR_op me kadid, ip)" by (simp add: keyof_def contact_def CContact_new_def)
  then have "add_ok me ?c update {#} z (added, upd, v, g', z')"
    using zone_Add_ok [of me z g "{#}" ?c update now publicIP ipVerified] t unfolding k a
    by (simp add: table_ok_def root_placed)
  moreover have "add_effect ?c = add_effect contact" by (intro ext) (simp add: add_effect_def)
  ultimately show ?thesis using t r False unfolding add_ok_def table_ok_def by auto
qed (use assms in \<open>simp add: AddUnfiltered_def\<close>)

lemma table_step_ok:
  assumes "table_step me s s'" "table_ok me s"
  shows "table_ok me s'"
  using assms
proof (induction rule: table_step.induct)
  case (unfiltered now publicIP kadid ip port tport version key ipVerified update fromHello g z r v g' z')
  then show ?case using AddUnfiltered_ok by blast
next
  case (add IsFiltered now publicIP kadid ip port tport version key ipVerified update fromHello g z r v g' z')
  then show ?case using AddUnfiltered_ok unfolding Add_contact_def by (metis Pair_inject)
next
  case (timer now g z g' z')
  then show ?case using timer_step_ok [OF timer.hyps, of me "{#}"] by (simp add: table_ok_def)
next
  case (consolidate g z n g' z')
  then show ?case using Consolidate_ok [of me z g "{#}"] by (simp add: table_ok_def)
next
  case (closest maxType target dist maxRequired result emptyFirst inUse z result' z' g)
  then show ?case using apply_uses_keeps [of me z] by (auto simp: zone_GetClosestTo_def table_ok_def split: prod.splits)
next
  case (verify kadid ip z r z' g)
  have "bin_keys (modify_contact kadid (\<lambda>c. c\<lparr>m_ipVerified := True\<rparr>) b) = bin_keys b" for b
    by (rule bin_keys_modify) (simp add: keyof_def)
  then show ?case using verify map_bins_keeps [of "modify_contact kadid (\<lambda>c. c\<lparr>m_ipVerified := True\<rparr>)" me z]
    by (auto simp: VerifyContact_def table_ok_def split: option.splits if_splits)
next
  case (verify_all g z)
  then show ?case using map_bins_keeps [of bin_SetAllContactsVerified me z]
    by (simp add: table_ok_def zone_SetAllContactsVerified_def bin_keys_SetAllContactsVerified)
qed

lemma reachable_table_ok: "table_reachable me s \<Longrightarrow> table_ok me s"
  by (induction rule: table_reachable.induct) (auto intro: table_ok_init table_step_ok)

end
