(* ===== verification/RoutingTable.thy ===== *)
theory RoutingTable
  imports RoutingZone
begin

text \<open>
  What the routing table (theory \<open>RoutingZone\<close>) promises to the searches and packet handlers that
  use it: looking up an ID, the closest contacts to a target, what adding, splitting and merging do
  to the contacts, and the limits on the addresses of a reachable table. The lookup is the interface
  \<open>contact_store\<close>, which both a bin and the whole tree provide.
\<close>

subsection \<open>Looking up a contact\<close>

fun zone_contacts :: "zone \<Rightarrow> CContact list" where
  "zone_contacts (Leaf l i b) = b"
| "zone_contacts (Branch l i z0 z1) = zone_contacts z0 @ zone_contacts z1"

lemma zone_keys_contacts: "zone_keys z = mset (map keyof (zone_contacts z))"
  by (induction z) (simp_all add: bin_keys_def)

lemma zone_contact_side:
  assumes "zone_ok me (Branch l i z0 z1)"
  shows "c \<in> set (zone_contacts z0) \<Longrightarrow> GetBitNumber (XOR_op me (m_clientID c)) l = 0"
    "c \<in> set (zone_contacts z1) \<Longrightarrow> GetBitNumber (XOR_op me (m_clientID c)) l \<noteq> 0"
  using branch_side [OF assms, of "keyof c"] zone_ok_placed [OF assms, of "keyof c"]
  by (auto simp: zone_keys_contacts placed_def)

lemma zone_GetContact_iff:
  "zone_ok me z \<Longrightarrow> zone_GetContact me kadid z = Some c \<longleftrightarrow> c \<in> set (zone_contacts z) \<and> m_clientID c = kadid"
proof (induction z)
  case (Leaf l i b)
  then show ?case by (simp add: bin_GetContact_eq_Some bin_ok_distinct)
next
  case (Branch l i z0 z1)
  then show ?case using zone_contact_side [OF Branch.prems, of c] by auto
qed

subsection \<open>The closest contacts\<close>

text \<open>The reference: the wanted contacts with their distances to the target, sorted by the distance.\<close>

definition nearest :: "nat \<Rightarrow> CUInt128 \<Rightarrow> CContact list \<Rightarrow> contact_map" where
  "nearest maxType target cs =
     sort_key fst (map (\<lambda>c. (XOR_op (m_clientID c) target, c)) (filter (wanted maxType) cs))"

lemma XOR_op_inject [simp]: "XOR_op a t = XOR_op b t \<longleftrightarrow> a = b"
  by (metis bit_XOR uval_eqI)

lemma map_wf_unique: "map_wf xs \<Longrightarrow> map_wf ys \<Longrightarrow> set xs = set ys \<Longrightarrow> xs = ys"
proof (induction xs arbitrary: ys)
  case (Cons x xs)
  obtain y ys' where ys: "ys = y # ys'" using Cons.prems(3) by (cases ys) auto
  have gt: "fst x < fst p" if "p \<in> set xs" for p using Cons.prems(1) that by (cases x) auto
  have gt': "fst y < fst p" if "p \<in> set ys'" for p using Cons.prems(2) ys that by (cases y) auto
  have "x = y"
  proof (rule ccontr)
    assume "x \<noteq> y"
    then have "x \<in> set ys'" "y \<in> set xs" using Cons.prems(3) ys by auto
    then show False using gt gt' less_asym by blast
  qed
  moreover have "x \<notin> set xs" "y \<notin> set ys'" using gt gt' by blast+
  ultimately have "set xs = set ys'" using Cons.prems(3) ys by auto
  then show ?case using Cons.IH Cons.prems(1,2) ys \<open>x = y\<close> by (cases y) auto
qed simp

lemma set_nearest: "set (nearest maxType target cs) = (\<lambda>c. (XOR_op (m_clientID c) target, c)) ` {c \<in> set cs. wanted maxType c}"
  by (auto simp: nearest_def)

lemma map_wf_nearest:
  assumes "distinct (map m_clientID cs)"
  shows "map_wf (nearest maxType target cs)"
proof -
  let ?l = "map (\<lambda>c. (XOR_op (m_clientID c) target, c)) (filter (wanted maxType) cs)"
  have "inj_on m_clientID (set cs)" "distinct cs" using assms by (simp_all add: distinct_map)
  then have d: "distinct (map fst ?l)" by (auto simp: distinct_map intro!: inj_onI dest: inj_onD)
  have "mset (map fst (sort_key fst ?l)) = mset (map fst ?l)" by (simp only: mset_map mset_sort)
  then have "distinct (map fst (sort_key fst ?l))" using d mset_eq_imp_distinct_iff by blast
  then show ?thesis by (simp add: map_wf_def strict_sorted_iff nearest_def)
qed

lemma nearest_append:
  assumes "distinct (map m_clientID (xs @ ys))"
    and "\<And>x y. x \<in> set xs \<Longrightarrow> y \<in> set ys \<Longrightarrow> XOR_op (m_clientID x) target < XOR_op (m_clientID y) target"
  shows "nearest maxType target (xs @ ys) = nearest maxType target xs @ nearest maxType target ys"
    "nearest maxType target (ys @ xs) = nearest maxType target xs @ nearest maxType target ys"
proof -
  have "map_wf (nearest maxType target xs @ nearest maxType target ys)"
    using assms by (auto simp: map_wf_append map_wf_nearest set_nearest)
  moreover have "distinct (map m_clientID (ys @ xs))" using assms(1) by (simp only: map_append distinct_append) blast
  then have "map_wf (nearest maxType target (xs @ ys))" "map_wf (nearest maxType target (ys @ xs))"
    using assms(1) by (simp_all only: map_wf_nearest)
  ultimately show "nearest maxType target (xs @ ys) = nearest maxType target xs @ nearest maxType target ys"
    "nearest maxType target (ys @ xs) = nearest maxType target xs @ nearest maxType target ys"
    by (auto intro!: map_wf_unique simp: set_nearest)
qed

lemma set_std_set_new: "k \<notin> fst ` set m \<Longrightarrow> set (std_set k v m) = insert (k, v) (set m)"
proof (induction m)
  case (Cons p m)
  then show ?case by (cases p) (auto split: if_split)
qed simp

lemma GetClosestTo_insert_set:
  assumes "map_wf r" "distinct (map m_clientID b)" "\<And>c. c \<in> set b \<Longrightarrow> XOR_op (m_clientID c) target \<notin> fst ` set r"
  shows "map_wf (fst (GetClosestTo_insert maxType target inUse b (r, ev))) \<and>
    set (fst (GetClosestTo_insert maxType target inUse b (r, ev))) = set r \<union> set (nearest maxType target b)"
  using assms
proof (induction b arbitrary: r ev)
  case (Cons c b)
  let ?k = "XOR_op (m_clientID c) target"
  have new: "?k \<notin> fst ` set r" "\<And>x. x \<in> set b \<Longrightarrow> m_clientID x \<noteq> m_clientID c"
    using Cons.prems(2,3) by (auto simp: image_iff)
  have "map_wf (std_set ?k c r)" by (rule map_wf_set [OF Cons.prems(1)])
  moreover have "XOR_op (m_clientID x) target \<notin> fst ` set (std_set ?k c r)" if "x \<in> set b" for x
    using Cons.prems(3) [of x] new that by (auto simp: set_std_set_new)
  ultimately show ?case using Cons.IH [of "std_set ?k c r"] Cons.IH [of r] Cons.prems new(1)
    by (auto simp: set_std_set_new set_nearest)
qed (simp add: set_nearest)

lemma GetClosestTo_trim_take: "fst (GetClosestTo_trim n inUse r ev) = take n r"
proof (induction n inUse r ev rule: GetClosestTo_trim.induct)
  case (1 n inUse r ev)
  then show ?case by (subst GetClosestTo_trim.simps) (auto simp: take_butlast)
qed

lemma bin_GetClosestTo_eq:
  assumes wf: "map_wf (if e then [] else r)" and "length (if e then [] else r) \<le> n" and "distinct (map m_clientID b)"
    and less: "\<And>p c. p \<in> set (if e then [] else r) \<Longrightarrow> c \<in> set b \<Longrightarrow> fst p < XOR_op (m_clientID c) target"
  shows "fst (bin_GetClosestTo maxType target n e inUse b (r, ev)) = take n ((if e then [] else r) @ nearest maxType target b)"
proof -
  let ?r = "if e then [] else r"
  have "XOR_op (m_clientID c) target \<notin> fst ` set ?r" if "c \<in> set b" for c using less [OF _ that] by (metis imageE less_irrefl)
  from GetClosestTo_insert_set [OF wf assms(3) this, of maxType inUse ev]
  have i: "map_wf (fst (GetClosestTo_insert maxType target inUse b (?r, ev)))"
    "set (fst (GetClosestTo_insert maxType target inUse b (?r, ev))) = set ?r \<union> set (nearest maxType target b)" by blast+
  have "map_wf (?r @ nearest maxType target b)"
    using wf less map_wf_nearest [OF assms(3)] by (auto simp: map_wf_append set_nearest)
  from map_wf_unique [OF i(1) this] i(2)
  have "fst (GetClosestTo_insert maxType target inUse b (?r, ev)) = ?r @ nearest maxType target b" by simp
  then show ?thesis using assms(2) unfolding bin_GetClosestTo_def
    by (auto simp: Let_def GetClosestTo_trim_take nearest_def split: prod.splits)
qed

subsection \<open>The half of a zone on the side of the target is closer\<close>

lemma drop_bit_xor_eq: "drop_bit n (a XOR b) = drop_bit n a XOR drop_bit n (b :: int)"
  by (rule bit_eqI) (simp add: bit_simps)

lemma closer_less:
  assumes l: "l \<le> 127" and d: "dist = XOR_op me target"
    and x: "drop_bit (128 - l) (uval (XOR_op me a)) = i" "GetBitNumber (XOR_op me a) l = GetBitNumber dist l"
    and y: "drop_bit (128 - l) (uval (XOR_op me b)) = i" "GetBitNumber (XOR_op me b) l \<noteq> GetBitNumber dist l"
  shows "XOR_op a target < XOR_op b target"
proof -
  have e: "uval (XOR_op c target) = uval (XOR_op me c) XOR uval dist" for c
    unfolding d uval_XOR by (simp add: xor.assoc xor.left_commute)
  have n: "drop_bit (127 - l) (uval (XOR_op c target)) = 2 * (drop_bit (128 - l) (uval (XOR_op me c)) XOR drop_bit (128 - l) (uval dist)) +
      of_bool (GetBitNumber (XOR_op me c) l \<noteq> GetBitNumber dist l)" for c
    by (subst drop_bit_next [OF l], unfold e drop_bit_xor_eq) (auto simp: GetBitNumber_bit l bit_xor_iff)
  have "drop_bit (127 - l) (uval (XOR_op a target)) < drop_bit (127 - l) (uval (XOR_op b target))"
    unfolding n using x y by simp
  then show ?thesis unfolding CUInt128_less_iff drop_bit_eq_div
    by (meson linorder_not_less zdiv_mono1 zero_less_numeral zero_less_power)
qed

lemma zone_contact_placed:
  assumes "zone_ok me z" "c \<in> set (zone_contacts z)"
  shows "drop_bit (128 - m_level z) (uval (XOR_op me (m_clientID c))) = uval (m_zoneIndex z)"
  using zone_ok_placed [OF assms(1), of "keyof c"] assms(2) by (auto simp: zone_keys_contacts placed_def)

lemma zone_distinct: "zone_ok me z \<Longrightarrow> distinct (map m_clientID (zone_contacts z))"
proof (induction z)
  case (Branch l i z0 z1)
  then show ?case using zone_contact_side [OF Branch.prems] by fastforce
qed (simp add: bin_ok_distinct)

lemma closer_half:
  assumes z: "zone_ok me (Branch l i z0 z1)"
    and x: "x \<in> set (zone_contacts (if GetBitNumber (XOR_op me target) l = 0 then z0 else z1))"
    and y: "y \<in> set (zone_contacts (if GetBitNumber (XOR_op me target) l = 0 then z1 else z0))"
  shows "XOR_op (m_clientID x) target < XOR_op (m_clientID y) target"
proof (rule closer_less [of l])
  have xy: "x \<in> set (zone_contacts (Branch l i z0 z1))" "y \<in> set (zone_contacts (Branch l i z0 z1))"
    using x y by (auto split: if_splits)
  show "drop_bit (128 - l) (uval (XOR_op me (m_clientID x))) = uval i"
    "drop_bit (128 - l) (uval (XOR_op me (m_clientID y))) = uval i"
    using zone_contact_placed [OF z xy(1)] zone_contact_placed [OF z xy(2)] by simp_all
  have le: "GetBitNumber x l \<le> 1" for x by (simp add: GetBitNumber_bit)
  show "GetBitNumber (XOR_op me (m_clientID x)) l = GetBitNumber (XOR_op me target) l"
    "GetBitNumber (XOR_op me (m_clientID y)) l \<noteq> GetBitNumber (XOR_op me target) l"
    using zone_contact_side [OF z, of x] zone_contact_side [OF z, of y] x y
      le [of "XOR_op me target"] le [of "XOR_op me (m_clientID x)"]
    by (auto split: if_splits)
qed (use z in simp_all)

lemma closest_walk_eq:
  assumes "zone_ok me z" "map_wf (if e then [] else r)" "length (if e then [] else r) \<le> n"
    "\<And>p c. p \<in> set (if e then [] else r) \<Longrightarrow> c \<in> set (zone_contacts z) \<Longrightarrow> fst p < XOR_op (m_clientID c) target"
  shows "fst (closest_walk maxType target (XOR_op me target) n e inUse z (r, ev)) =
    take n ((if e then [] else r) @ nearest maxType target (zone_contacts z))"
  using assms
proof (induction z arbitrary: e r ev)
  case (Leaf l i b)
  then show ?case using bin_GetClosestTo_eq [of e r n b target maxType inUse ev] by (simp add: bin_ok_distinct)
next
  case (Branch l i z0 z1)
  let ?d = "XOR_op me target"
  define c where "c = (if GetBitNumber ?d l = 0 then z0 else z1)"
  define o' where "o' = (if GetBitNumber ?d l = 0 then z1 else z0)"
  have ok: "zone_ok me c" "zone_ok me o'" "l \<le> 127" using Branch.prems(1) by (auto simp: c_def o'_def)
  note less = closer_half [OF Branch.prems(1), of _ target, folded c_def o'_def]
  have "distinct (map m_clientID (zone_contacts (Branch l i z0 z1)))" by (rule zone_distinct [OF Branch.prems(1)])
  then have dist: "distinct (map m_clientID (zone_contacts c @ zone_contacts o'))" by (auto simp: c_def o'_def)
  have near: "nearest maxType target (zone_contacts (Branch l i z0 z1)) =
      nearest maxType target (zone_contacts c) @ nearest maxType target (zone_contacts o')"
    using nearest_append [OF dist less] by (auto simp: c_def o'_def)
  let ?r = "if e then [] else r"
  obtain r1 ev1 where w: "closest_walk maxType target ?d n e inUse c (r, ev) = (r1, ev1)" by fastforce
  have sub: "set (zone_contacts c) \<union> set (zone_contacts o') \<subseteq> set (zone_contacts (Branch l i z0 z1))"
    by (auto simp: c_def o'_def)
  have r1: "r1 = take n (?r @ nearest maxType target (zone_contacts c))"
    using Branch.IH [of e r ev] Branch.prems(1-4) sub ok w by (auto simp: c_def split: if_splits)
  have step: "closest_walk maxType target ?d n e inUse (Branch l i z0 z1) (r, ev) =
      (if length r1 < n then closest_walk maxType target ?d n False inUse o' (r1, ev1) else (r1, ev1))"
    using w by (simp add: Let_def c_def o'_def)
  show ?case
  proof (cases "length r1 < n")
    case True
    then have e1: "r1 = ?r @ nearest maxType target (zone_contacts c)" using r1 by simp
    have "map_wf r1" unfolding e1 using Branch.prems(2,4) sub dist
      by (auto simp: map_wf_append map_wf_nearest set_nearest split: if_splits)
    moreover have "\<And>p x. p \<in> set r1 \<Longrightarrow> x \<in> set (zone_contacts o') \<Longrightarrow> fst p < XOR_op (m_clientID x) target"
      unfolding e1 using Branch.prems(4) sub less by (auto simp: set_nearest split: if_splits)
    ultimately have "fst (closest_walk maxType target ?d n False inUse o' (r1, ev1)) =
        take n (r1 @ nearest maxType target (zone_contacts o'))"
      using Branch.IH [of False r1 ev1] True ok by (auto simp: o'_def split: if_splits)
    then show ?thesis unfolding step near using True e1 by simp
  next
    case False
    then have "n \<le> length (?r @ nearest maxType target (zone_contacts c))" using r1 by auto
    then show ?thesis unfolding step near using False r1 by simp
  qed
qed

subsection \<open>The lookup interface\<close>

locale contact_store =
  fixes lookup :: "'i \<Rightarrow> 't \<Rightarrow> 'c option"
    and contacts :: "'t \<Rightarrow> 'c list"
    and ident :: "'c \<Rightarrow> 'i"
    and ok :: "'t \<Rightarrow> bool"
  assumes lookup_iff: "ok t \<Longrightarrow> lookup k t = Some c \<longleftrightarrow> c \<in> set (contacts t) \<and> ident c = k"
begin

lemma lookup_None: "ok t \<Longrightarrow> lookup k t = None \<longleftrightarrow> k \<notin> ident ` set (contacts t)"
proof (cases "lookup k t")
  case (Some c)
  moreover assume "ok t"
  ultimately have "c \<in> set (contacts t)" "ident c = k" using lookup_iff by simp_all
  then show ?thesis using Some by auto
next
  case None
  moreover assume "ok t"
  ultimately have "ident c \<noteq> k" if "c \<in> set (contacts t)" for c using lookup_iff [of t k c] that by simp
  then show ?thesis using None by auto
qed

lemma lookup_contact: "ok t \<Longrightarrow> c \<in> set (contacts t) \<Longrightarrow> lookup (ident c) t = Some c"
  by (simp add: lookup_iff)

lemma ident_unique: "ok t \<Longrightarrow> c \<in> set (contacts t) \<Longrightarrow> d \<in> set (contacts t) \<Longrightarrow> ident c = ident d \<Longrightarrow> c = d"
  by (metis lookup_contact option.inject)

end

interpretation bins: contact_store bin_GetContact "\<lambda>b. b" m_clientID "\<lambda>b. bin_ok (bin_keys b)"
  by unfold_locales (simp add: bin_GetContact_eq_Some bin_ok_distinct)

interpretation zones: contact_store "zone_GetContact me" zone_contacts m_clientID "zone_ok me" for me
  by unfold_locales (rule zone_GetContact_iff)

subsection \<open>Properties\<close>

text \<open>C2: In every state that the table reaches from the empty one by its operations in any order (adding
  with or without the filter, timers, merging, searching, verifying), the shared counts are those of
  the contacts in the table, no address occurs twice, no /24 network outside the local ones has
  more than ten contacts, no bin has more than ten contacts or two of a network, and each
  contact is in the zone that its distance selects.\<close>

theorem routing_table_limits:
  assumes "table_reachable me (g, z)"
  shows "table_ok me (g, z) \<and> count (zone_ips z) ip \<le> 1 \<and>
    (\<not> lan ip \<longrightarrow> size (filter_mset (\<lambda>x. subnet x = subnet ip) (zone_ips z)) \<le> 10) \<and>
    unat (tracked (s_globalContactIPs g) ip) = count (zone_ips z) ip"
proof -
  have ok: "table_ok me (g, z)" by (rule reachable_table_ok [OF assms])
  then have t: "tracks g (zone_ips z)" by (simp add: table_ok_def)
  then have "limits (zone_ips z)" by (simp add: tracks_def)
  then show ?thesis using ok tracks_counts(1) [OF t] unfolding limits_def by blast
qed

text \<open>A table with one contact: the node with ID 1 at 212.17.34.51 is added to the empty table of node 0.\<close>

definition one_contact :: "bool \<times> bool \<times> tracking \<times> zone" where
  "one_contact = AddUnfiltered 1000 0 (CUInt128_uint32 0) (CUInt128_uint32 1) 0xD4112233 4672 4662 8 CKadUDPKey_zero
     True True False no_contacts root_zone"

lemma one_contact_facts:
  "fst one_contact" "map m_ip (zone_contacts (snd (snd (snd one_contact)))) = [0xD4112233]"
  "m_ipVerified (hd (zone_contacts (snd (snd (snd one_contact)))))"
  by code_simp+

lemma one_contact_eq:
  "AddUnfiltered 1000 0 (CUInt128_uint32 0) (CUInt128_uint32 1) 0xD4112233 4672 4662 8 CKadUDPKey_zero
     True True False no_contacts root_zone =
   (fst one_contact, fst (snd one_contact), fst (snd (snd one_contact)), snd (snd (snd one_contact)))"
  by (simp only: one_contact_def prod.collapse)

lemma one_contact_reachable:
  "table_reachable (CUInt128_uint32 0) (fst (snd (snd one_contact)), snd (snd (snd one_contact)))"
  by (rule table_reachable.step [OF table_reachable.init], rule table_step.unfiltered, rule one_contact_eq)

lemmas one_contact_ok = reachable_table_ok [OF one_contact_reachable]

theorem routing_table_limits_witness:
  "unat (tracked (s_globalContactIPs (fst (snd (snd one_contact)))) 0xD4112233) = 1"
proof -
  have "zone_ips (snd (snd (snd one_contact))) = mset (map m_ip (zone_contacts (snd (snd (snd one_contact)))))"
    by (simp add: zone_keys_contacts multiset.map_comp comp_def)
  then show ?thesis using routing_table_limits [OF one_contact_reachable, of "0xD4112233"]
    by (simp only: one_contact_facts(2)) simp
qed

text \<open>C25: \<open>AddUnfiltered\<close> keeps the table well-formed. For our own ID it changes nothing. Otherwise a contact
  that it adds was unknown and comes in addition to all others, with its ID, distance and address; a
  contact that it does not add leaves the contacts as they are, but for the address of the contact
  of that ID when an update is asked for. Splitting zones on the way loses no contact.\<close>

theorem AddUnfiltered_effect:
  assumes "table_ok me (g, z)"
    and "AddUnfiltered now publicIP me kadid ip port tport version key ipVerified update fromHello g z = (r, v, g', z')"
  shows "table_ok me (g', z') \<and> (kadid = me \<and> \<not> r \<and> z' = z \<or>
    kadid \<noteq> me \<and> (\<exists>added. (added \<longrightarrow> r) \<and>
      add_effect (CContact_new now kadid ip port tport version key ipVerified me) update added (zone_keys z) (zone_keys z')))"
  by (rule AddUnfiltered_ok [OF assms])

theorem AddUnfiltered_effect_witness:
  "zone_keys (snd (snd (snd one_contact))) = {#(CUInt128_uint32 1, CUInt128_uint32 1, 0xD4112233)#}"
proof -
  have "zone_contacts (snd (snd (snd one_contact))) \<noteq> []" using one_contact_facts(2) by auto
  then have "zone_keys (snd (snd (snd one_contact))) \<noteq> {#}" by (simp add: zone_keys_contacts)
  moreover have "XOR_op (CUInt128_uint32 0) (CUInt128_uint32 1) = CUInt128_uint32 1" by code_simp
  moreover have "zone_keys root_zone = {#}" by (simp add: root_zone_def zone_Init_def)
  ultimately show ?thesis using AddUnfiltered_effect [OF table_ok_init one_contact_eq]
    by (auto simp: add_effect_def keyof_def CContact_new_def split: if_splits)
qed

text \<open>C26: Splitting the bin of a zone loses no contact: the two halves hold the contacts of the bin, each on
  the side that the next bit of its distance selects, and the shared counts are right again, although
  all contacts were taken out of the counts and added one by one.\<close>

theorem Split_loses_nothing:
  assumes "zone_ok me (Leaf l i b)" "l < 127" "tracks g (mset (map m_ip b) + R)" "Split l i g b = (g', z0, z1)"
  shows "zone_ok me (Branch l i z0 z1) \<and> zone_keys z0 + zone_keys z1 = bin_keys b \<and> tracks g' (mset (map m_ip b) + R)"
proof -
  note s = Split_keeps [OF _ assms(1,2,4), of R, unfolded image_key_ip, OF assms(3)]
  have k: "zone_keys z0 + zone_keys z1 = bin_keys b" using s(2) by simp
  have "tracks g' (mset (map m_ip b) + R)" using s(3) unfolding zone_keys.simps k image_key_ip by simp
  then show ?thesis using s(1) k by blast
qed

theorem Split_loses_nothing_witness:
  "\<exists>b. b \<noteq> [] \<and> (case Split 0 (CUInt128_uint32 0) (fst (snd (snd one_contact))) b of
     (g', z0, z1) \<Rightarrow> zone_keys z0 + zone_keys z1 = bin_keys b)"
proof -
  let ?z = "snd (snd (snd one_contact))"
  let ?b = "zone_contacts ?z"
  have z: "?z = Leaf 0 (CUInt128_uint32 0) ?b" by code_simp
  have "zone_ok (CUInt128_uint32 0) ?z" "tracks (fst (snd (snd one_contact))) (zone_ips ?z)"
    using one_contact_ok by (simp_all add: table_ok_def case_prod_beta)
  then have ok: "zone_ok (CUInt128_uint32 0) (Leaf 0 (CUInt128_uint32 0) ?b)"
    "tracks (fst (snd (snd one_contact))) (mset (map m_ip ?b) + {#})"
    unfolding z [symmetric] by (simp_all add: zone_keys_contacts multiset.map_comp comp_def)
  have "?b \<noteq> []" using one_contact_facts(2) by auto
  moreover obtain g' z0 z1 where "Split 0 (CUInt128_uint32 0) (fst (snd (snd one_contact))) ?b = (g', z0, z1)" by (metis prod_cases3)
  ultimately show ?thesis using Split_loses_nothing [OF ok(1) _ ok(2)] by (intro exI [of _ ?b]) simp
qed

text \<open>Looking up an ID in a reachable table finds the contact with that ID, wherever it is in the tree,
  and finds nothing exactly when there is none; IDs are unique in the table.\<close>

theorem GetContact_correct:
  assumes "table_reachable me (g, z)"
  shows "(zone_GetContact me kadid z = Some c \<longleftrightarrow> c \<in> set (zone_contacts z) \<and> m_clientID c = kadid) \<and>
    (zone_GetContact me kadid z = None \<longleftrightarrow> kadid \<notin> m_clientID ` set (zone_contacts z)) \<and>
    distinct (map m_clientID (zone_contacts z))"
proof -
  have "zone_ok me z" using reachable_table_ok [OF assms] by (simp add: table_ok_def)
  then show ?thesis using zones.lookup_iff zones.lookup_None zone_distinct by blast
qed

theorem GetContact_correct_witness:
  "zone_GetContact (CUInt128_uint32 0) (CUInt128_uint32 2) (snd (snd (snd one_contact))) = None \<longleftrightarrow>
     CUInt128_uint32 2 \<notin> m_clientID ` set (zone_contacts (snd (snd (snd one_contact))))"
  using GetContact_correct [OF one_contact_reachable] by blast

text \<open>C6: A search in a reachable table returns exactly the \<open>maxRequired\<close> wanted contacts that are closest to the target
  in the XOR metric, in the order of their distance, although it visits the half of a zone that is
  farther from the target only when the closer half did not give enough.\<close>

theorem GetClosestTo_nearest:
  assumes "table_reachable me (g, z)"
  shows "fst (zone_GetClosestTo maxType target (XOR_op me target) maxRequired result True inUse z) =
    take maxRequired (nearest maxType target (zone_contacts z))"
proof -
  have "zone_ok me z" using reachable_table_ok [OF assms] by (simp add: table_ok_def)
  then show ?thesis using closest_walk_eq [of me z True result maxRequired target maxType inUse "[]"]
    by (cases "closest_walk maxType target (XOR_op me target) maxRequired True inUse z (result, [])")
      (simp add: zone_GetClosestTo_def)
qed

theorem GetClosestTo_nearest_witness:
  "map (m_ip \<circ> snd) (fst (zone_GetClosestTo 3 (CUInt128_uint32 5) (CUInt128_uint32 5) 2 [] True True (snd (snd (snd one_contact))))) =
     [0xD4112233]"
proof -
  have x: "XOR_op (CUInt128_uint32 0) (CUInt128_uint32 5) = CUInt128_uint32 5" by code_simp
  have "map (m_ip \<circ> snd) (take 2 (nearest 3 (CUInt128_uint32 5) (zone_contacts (snd (snd (snd one_contact)))))) = [0xD4112233]"
    by code_simp
  then show ?thesis using GetClosestTo_nearest [OF one_contact_reachable, of 3 "CUInt128_uint32 5" 2 "[]" True] unfolding x by simp
qed
text \<open>Merging zones keeps the table well-formed and the counts right, adds no contact and moves none
  to another address.\<close>

theorem Consolidate_keeps_table:
  assumes "table_ok me (g, z)" "Consolidate g z = (n, g', z')"
  shows "table_ok me (g', z') \<and> zone_keys z' \<subseteq># zone_keys z"
  using assms Consolidate_ok [of me z g "{#}"] by (simp add: table_ok_def)

theorem Consolidate_keeps_table_witness:
  "zone_keys (snd (snd (Consolidate (fst (snd (snd one_contact))) (snd (snd (snd one_contact)))))) \<subseteq>#
   zone_keys (snd (snd (snd one_contact)))"
  using Consolidate_keeps_table [OF one_contact_ok] by (metis prod.collapse)

text \<open>C39: Merging can lose contacts: of two contacts in one half and one in the other, all of one /24 network,
  the merged bin takes two. The third is in no bin any more (and nobody deletes it).\<close>

definition contact_at :: "u32 \<Rightarrow> u32 \<Rightarrow> u32 \<Rightarrow> CContact" where
  "contact_at hi lo ip =
     CContact_new 0 (CUInt128 lo 0 0 hi) ip 4672 4662 8 CKadUDPKey_zero True (CUInt128_uint32 0)"



text \<open>A contact of a search answer is acceptable for a reachable table exactly when it is not of Kad 1 and
  either the table knows its ID, with the same UDP port and the same address or an unverified one, or the
  ID is unknown and one more contact of its address is within the limits.\<close>

theorem acceptable_iff:
  assumes "table_reachable me (g, z)"
  shows "IsAcceptableContact me c g z \<longleftrightarrow> m_version c > 1 \<and>
    ((\<exists>d \<in> set (zone_contacts z). m_clientID d = m_clientID c \<and> m_udpPort d = m_udpPort c \<and>
        (m_ipVerified d \<longrightarrow> m_ip d = m_ip c)) \<or>
     m_clientID c \<notin> m_clientID ` set (zone_contacts z) \<and> limits (add_mset (m_ip c) (zone_ips z)))"
proof -
  have ok: "zone_ok me z" "tracks g (zone_ips z)" using reachable_table_ok [OF assms] by (simp_all add: table_ok_def)
  show ?thesis
  proof (cases "zone_GetContact me (m_clientID c) z")
    case None
    then have "m_clientID c \<notin> m_clientID ` set (zone_contacts z)" using zones.lookup_None [OF ok(1)] by blast
    then show ?thesis using None CheckGlobalIPLimits_iff [OF ok(2)]
      by (auto simp: IsAcceptableContact_def image_iff not_le)
  next
    case (Some d)
    then have d: "d \<in> set (zone_contacts z)" "m_clientID d = m_clientID c" using zones.lookup_iff [OF ok(1)] by blast+
    then have "x = d" if "x \<in> set (zone_contacts z)" "m_clientID x = m_clientID c" for x
      using zones.ident_unique [OF ok(1) that(1)] that(2) by simp
    then have e: "(\<exists>x \<in> set (zone_contacts z). m_clientID x = m_clientID c \<and> P x) \<longleftrightarrow> P d" for P using d by blast
    have "m_clientID c \<in> m_clientID ` set (zone_contacts z)" using d by (metis imageI)
    moreover have "IsAcceptableContact me c g z \<longleftrightarrow> m_version c > 1 \<and> m_udpPort d = m_udpPort c \<and> (m_ipVerified d \<longrightarrow> m_ip d = m_ip c)"
      using Some by (auto simp: IsAcceptableContact_def not_le)
    ultimately show ?thesis unfolding e by blast
  qed
qed

theorem acceptable_iff_witness:
  "\<not> IsAcceptableContact (CUInt128_uint32 0) (contact_at 7 7 0xD4112233) (fst (snd (snd one_contact))) (snd (snd (snd one_contact)))"
proof -
  let ?z = "snd (snd (snd one_contact))"
  have "zone_ips ?z = mset (map m_ip (zone_contacts ?z))" by (simp add: zone_keys_contacts multiset.map_comp comp_def)
  then have i: "zone_ips ?z = {#0xD4112233#}" unfolding one_contact_facts(2) by simp
  have "\<not> limits (add_mset 0xD4112233 (zone_ips ?z))" unfolding i by (auto simp: limits_def dest: spec [of _ "0xD4112233"])
  moreover have "map m_clientID (zone_contacts ?z) = [CUInt128_uint32 1]" by code_simp
  then have "m_clientID x = CUInt128_uint32 1" if "x \<in> set (zone_contacts ?z)" for x
    using that by (metis imageI list.set_map list.simps(15) set_empty singletonD)
  moreover have "m_ip (contact_at 7 7 0xD4112233) = 0xD4112233" "m_clientID (contact_at 7 7 0xD4112233) \<noteq> CUInt128_uint32 1"
    by code_simp+
  ultimately show ?thesis using acceptable_iff [OF one_contact_reachable, of "contact_at 7 7 0xD4112233"] by auto
qed

text \<open>The target of the lookup that the big timer starts in a zone is in that zone: whatever the random
  numbers are, the first \<open>level\<close> bits of its distance from us are the index of the zone.\<close>

theorem RandomLookup_in_zone:
  assumes "zone_ok me z"
  shows "drop_bit (128 - m_level z) (uval (XOR_op me (RandomLookup rnd x0 me (m_level z) (m_zoneIndex z)))) = uval (m_zoneIndex z)"
proof -
  let ?l = "m_level z" and ?i = "m_zoneIndex z"
  have l: "?l \<le> 127" "uval ?i < 2 ^ ?l" using zone_ok_index [OF assms] by simp_all
  have x: "XOR_op me (RandomLookup rnd x0 me ?l ?i) = CUInt128_prefix rnd x0 (ShiftLeft (128 - ?l) ?i) ?l"
    by (rule uval_eqI) (auto simp: RandomLookup_def bit_XOR)
  have "bit (drop_bit (128 - ?l) (uval (CUInt128_prefix rnd x0 (ShiftLeft (128 - ?l) ?i) ?l))) k = bit (uval ?i) k" for k
  proof (cases "k < ?l")
    case True
    then have "bit (uval (ShiftLeft (128 - ?l) ?i)) (128 - ?l + k) = bit (uval ?i) k"
      using True l(1) unfolding uval_ShiftLeft push_bit_eq_mult [symmetric] take_bit_eq_mod [symmetric]
      by (auto simp: bit_take_bit_iff bit_push_bit_iff)
    then show ?thesis using True l(1) by (simp add: bit_drop_bit_eq prefix_bits)
  next
    case False
    then have "\<not> bit (uval ?i) k" using l(2) uval_bounds(1) [of ?i]
      by (metis bit_take_bit_iff linorder_not_le take_bit_int_eq_self)
    moreover have "\<not> 128 - ?l + k < 128" using False l(1) by linarith
    then have "\<not> bit (uval x) (128 - ?l + k)" for x by (simp only: bit_uval) simp
    ultimately show ?thesis by (simp only: bit_drop_bit_eq comp_def)
  qed
  then show ?thesis unfolding x by (rule bit_eqI)
qed

theorem RandomLookup_in_zone_witness:
  "drop_bit 128 (uval (XOR_op (CUInt128_uint32 9) (RandomLookup (\<lambda>_. 77) (CUInt128_uint32 0) (CUInt128_uint32 9) 0 (CUInt128_uint32 0)))) =
    uval (CUInt128_uint32 0)"
  using RandomLookup_in_zone [of "CUInt128_uint32 9" root_zone "\<lambda>_. 77" "CUInt128_uint32 0"]
  by (simp add: root_zone_def zone_Init_def uval_uint32)

end
