(* ===== verification/NodesFile.thy ===== *)
theory NodesFile
  imports RoutingTable
begin

text \<open>
  The file nodes.dat that keeps a sample of the routing table between sessions
  (\<open>ReadFile\<close>, \<open>ReadBootstrapNodesDat\<close> and \<open>WriteFile\<close> of
  src/amule-3.0.1/src/kademlia/routing/RoutingZone.cpp). The file is any \<open>CFileDataIO\<close>, given by
  its operations \<open>V\<close>; opening it is an optional initial state. Reading changes the table and the list
  of bootstrap contacts contact by contact, so what was read before an exception stays.
\<close>

definition CONTACT_FILE_LIMIT :: nat where "CONTACT_FILE_LIMIT = 500"

text \<open>One contact in the file.\<close>

record entry =
  e_id :: CUInt128
  e_ip :: u32
  e_udpPort :: u16
  e_tcpPort :: u16
  e_version :: u8
  e_key :: CKadUDPKey
  e_verified :: bool

definition read_contact :: "'s file_ops \<Rightarrow> u32 \<Rightarrow> ('s, entry) io" where
  "read_contact V fileVersion =
     io_bind (ReadUInt128 V) (\<lambda>kadid. io_bind (ReadUInt32 V) (\<lambda>ip. io_bind (ReadUInt16 V) (\<lambda>udpPort.
     io_bind (ReadUInt16 V) (\<lambda>tcpPort. io_bind (ReadUInt8 V) (\<lambda>version.
     io_bind (if fileVersion \<ge> 2
              then io_bind (key_ReadFromFile V) (\<lambda>key. io_bind (ReadUInt8 V) (\<lambda>v. io_return (key, v \<noteq> 0)))
              else io_return (CKadUDPKey_zero, False)) (\<lambda>(key, verified).
       io_return \<lparr>e_id = kadid, e_ip = ip, e_udpPort = udpPort, e_tcpPort = tcpPort, e_version = version,
         e_key = key, e_verified = verified\<rparr>))))))"

text \<open>What is known of the world while a file is read: the filter, the time, our address and our ID.\<close>

record env =
  env_IsFiltered :: "u32 \<Rightarrow> bool"
  env_now :: int
  env_publicIP :: u32
  env_me :: CUInt128

record load =
  doHaveVerifiedContacts :: bool
  validContacts :: u32
  l_tracking :: tracking
  l_zone :: zone

definition load_contact :: "env \<Rightarrow> entry \<Rightarrow> load \<Rightarrow> load" where
  "load_contact E e s =
     (let s = (if e_verified e then s\<lparr>doHaveVerifiedContacts := True\<rparr> else s) in
      if e_version e > 1 \<and> IsGoodIPPort (byte_swap 4 (e_ip e)) (e_udpPort e) \<and>
         \<not> env_IsFiltered E (byte_swap 4 (e_ip e)) \<and> \<not> (e_udpPort e = 53 \<and> e_version e \<le> 5)
      then (case AddUnfiltered (env_now E) (env_publicIP E) (env_me E) (e_id e) (e_ip e) (e_udpPort e) (e_tcpPort e)
              (e_version e) (e_key e) (e_verified e) False False (l_tracking s) (l_zone s) of
              (r, _, g, z) \<Rightarrow> s\<lparr>validContacts := (if r then validContacts s + 1 else validContacts s),
                l_tracking := g, l_zone := z\<rparr>)
      else s)"

text \<open>The loop over the contacts: the exception that ended it, if any.\<close>

fun ReadFile_loop :: "'s file_ops \<Rightarrow> env \<Rightarrow> u32 \<Rightarrow> nat \<Rightarrow> load \<Rightarrow> 's \<Rightarrow> mule_exception option \<times> load" where
  "ReadFile_loop V E fileVersion 0 s f = (None, s)"
| "ReadFile_loop V E fileVersion (Suc n) s f =
     (case read_contact V fileVersion f of
        Exc e f \<Rightarrow> (Some e, s)
      | Ok e f \<Rightarrow> ReadFile_loop V E fileVersion n (load_contact E e s) f)"

subsection \<open>The bootstrap file\<close>

fun insert_closer :: "CContact \<Rightarrow> CContact list \<Rightarrow> bool \<times> CContact list" where
  "insert_closer c [] = (False, [])"
| "insert_closer c (d # ds) =
     (if m_distance d > m_distance c then (True, c # d # ds)
      else (case insert_closer c ds of (inserted, ds) \<Rightarrow> (inserted, d # ds)))"

definition bootstrap_insert :: "CContact \<Rightarrow> CContact list \<Rightarrow> CContact list" where
  "bootstrap_insert c ds =
     (if length ds < 50 \<or> m_distance (List.last ds) > m_distance c then
        (case insert_closer c ds of (inserted, ds) \<Rightarrow>
           if \<not> inserted then ds @ [c]
           else if length ds > 50 then butlast ds else ds)
      else ds)"

definition bootstrap_accepts :: "env \<Rightarrow> entry \<Rightarrow> bool" where
  "bootstrap_accepts E e \<longleftrightarrow> IsGoodIPPort (byte_swap 4 (e_ip e)) (e_udpPort e) \<and>
     \<not> env_IsFiltered E (byte_swap 4 (e_ip e)) \<and> \<not> (e_udpPort e = 53 \<and> e_version e \<le> 5) \<and> e_version e > 1"

definition bootstrap_contact :: "env \<Rightarrow> entry \<Rightarrow> CContact" where
  "bootstrap_contact E e =
     CContact_new (env_now E) (e_id e) (e_ip e) (e_udpPort e) (e_tcpPort e) (e_version e) CKadUDPKey_zero False (env_me E)"

text \<open>The entries of a bootstrap file have the form of version 1.\<close>

fun ReadBootstrap_loop :: "'s file_ops \<Rightarrow> env \<Rightarrow> nat \<Rightarrow> CContact list \<Rightarrow> 's \<Rightarrow> mule_exception option \<times> CContact list" where
  "ReadBootstrap_loop V E 0 boot f = (None, boot)"
| "ReadBootstrap_loop V E (Suc n) boot f =
     (case read_contact V 1 f of
        Exc e f \<Rightarrow> (Some e, boot)
      | Ok e f \<Rightarrow> ReadBootstrap_loop V E n
          (if bootstrap_accepts E e then bootstrap_insert (bootstrap_contact E e) boot else boot) f)"

text \<open>The product of the number of contacts and 25 is computed in 32 bits.\<close>

definition ReadBootstrapNodesDat :: "'s file_ops \<Rightarrow> env \<Rightarrow> CContact list \<Rightarrow> 's \<Rightarrow> mule_exception option \<times> CContact list" where
  "ReadBootstrapNodesDat V E boot f =
     (if boot \<noteq> [] then (None, boot)
      else case ReadUInt32 V f of
        Exc e f \<Rightarrow> (Some e, boot)
      | Ok numContacts f \<Rightarrow>
          if numContacts \<noteq> 0 \<and> unat (numContacts * 25) = GetLength V f - GetPosition V f
          then ReadBootstrap_loop V E (unat numContacts) boot f
          else (None, boot))"

subsection \<open>Reading nodes.dat\<close>

datatype header = Bootstrap | Contacts (h_fileVersion: u32) (h_numContacts: u32)

definition read_header :: "'s file_ops \<Rightarrow> ('s, header) io" where
  "read_header V = io_bind (ReadUInt32 V) (\<lambda>numContacts f.
     if numContacts = 0 then
       if GetLength V f \<ge> 8 then
         io_bind (ReadUInt32 V) (\<lambda>fileVersion.
         io_bind (if fileVersion = 3 then ReadUInt32 V else io_return 0) (\<lambda>bootstrapEdition.
           if bootstrapEdition = 1 then io_return Bootstrap
           else if fileVersion \<ge> 1 \<and> fileVersion \<le> 3
                then io_bind (ReadUInt32 V) (\<lambda>n. io_return (Contacts fileVersion n))
                else io_return (Contacts fileVersion 0))) f
       else Ok (Contacts 0 0) f
     else Ok (Contacts 0 0) f)"

text \<open>Exceptions of the type \<open>CSafeIOException\<close> are caught; another one leaves the function.\<close>

definition is_safe_io :: "mule_exception \<Rightarrow> bool" where
  "is_safe_io e \<longleftrightarrow> e = CEOFException \<or> e = CIOFailureException"

definition uncaught :: "mule_exception option \<Rightarrow> mule_exception option" where
  "uncaught x = (case x of Some e \<Rightarrow> if is_safe_io e then None else Some e | None \<Rightarrow> None)"

definition ReadFile :: "'s file_ops \<Rightarrow> env \<Rightarrow> 's option \<Rightarrow> CContact list \<Rightarrow> tracking \<Rightarrow> zone \<Rightarrow>
    mule_exception option \<times> CContact list \<times> tracking \<times> zone" where
  "ReadFile V E opened boot g z =
     (case opened of
        None \<Rightarrow> (None, boot, g, z)
      | Some f \<Rightarrow>
          (case read_header V f of
             Exc e f \<Rightarrow> (uncaught (Some e), boot, g, z)
           | Ok Bootstrap f \<Rightarrow> (case ReadBootstrapNodesDat V E boot f of (x, boot) \<Rightarrow> (uncaught x, boot, g, z))
           | Ok (Contacts fileVersion numContacts) f \<Rightarrow>
               let s = \<lparr>doHaveVerifiedContacts = False, validContacts = 0, l_tracking = g, l_zone = z\<rparr>;
                   (x, s) = (if numContacts \<noteq> 0 \<and> unat (numContacts * 25) \<le> GetLength V f - GetPosition V f
                             then ReadFile_loop V E fileVersion (unat numContacts) s f else (None, s))
               in (uncaught x, boot, l_tracking s,
                   if x = None \<and> \<not> doHaveVerifiedContacts s then zone_SetAllContactsVerified (l_zone s) else l_zone s)))"

subsection \<open>Writing nodes.dat\<close>

definition write_contact :: "'s file_ops \<Rightarrow> CContact \<Rightarrow> ('s, unit) io" where
  "write_contact V c =
     io_bind (WriteUInt128 V (m_clientID c)) (\<lambda>_. io_bind (WriteUInt32 V (m_ip c)) (\<lambda>_.
     io_bind (WriteUInt16 V (m_udpPort c)) (\<lambda>_. io_bind (WriteUInt16 V (m_tcpPort c)) (\<lambda>_.
     io_bind (WriteUInt8 V (m_version c)) (\<lambda>_. io_bind (key_StoreToFile V (m_udpKey c)) (\<lambda>_.
     WriteUInt8 V (if m_ipVerified c then 1 else 0)))))))"

fun write_contacts :: "'s file_ops \<Rightarrow> nat \<Rightarrow> CContact list \<Rightarrow> ('s, unit) io" where
  "write_contacts V n [] = io_return ()"
| "write_contacts V n (c # cs) =
     (if n + 1 > CONTACT_FILE_LIMIT then io_return ()
      else io_bind (write_contact V c) (\<lambda>_. write_contacts V (n + 1) cs))"

definition write_nodes :: "'s file_ops \<Rightarrow> CContact list \<Rightarrow> ('s, unit) io" where
  "write_nodes V contacts =
     io_bind (WriteUInt32 V 0) (\<lambda>_. io_bind (WriteUInt32 V 2) (\<lambda>_.
     io_bind (WriteUInt32 V (of_nat (min (length contacts) CONTACT_FILE_LIMIT))) (\<lambda>_.
     write_contacts V 0 contacts)))"

text \<open>The file as it was written, or \<open>None\<close> when it was left alone; an exception other than
  \<open>CIOFailureException\<close> leaves the function.\<close>

definition WriteFile :: "'s file_ops \<Rightarrow> draw \<Rightarrow> 's option \<Rightarrow> CContact list \<Rightarrow> zone \<Rightarrow> mule_exception option \<times> 's option" where
  "WriteFile V rnd opened boot z =
     (if boot \<noteq> [] \<and> GetNumContacts z = 0 then (None, None)
      else let contacts = snd (GetBootstrapContacts rnd 200 z);
               numContacts = min (length contacts) CONTACT_FILE_LIMIT
           in if numContacts < 25 then (None, None)
              else case opened of
                None \<Rightarrow> (None, None)
              | Some f \<Rightarrow>
                  (case write_nodes V contacts f of
                     Ok _ f \<Rightarrow> (None, Some f)
                   | Exc e f \<Rightarrow> (if e = CIOFailureException then None else Some e, Some f)))"

subsection \<open>Any file leaves a well-formed table\<close>

lemma load_contact_ok:
  assumes "table_ok (env_me E) (l_tracking s, l_zone s)"
  shows "table_ok (env_me E) (l_tracking (load_contact E e s), l_zone (load_contact E e s))"
proof -
  obtain r v g z where a: "AddUnfiltered (env_now E) (env_publicIP E) (env_me E) (e_id e) (e_ip e) (e_udpPort e) (e_tcpPort e)
      (e_version e) (e_key e) (e_verified e) False False (l_tracking s) (l_zone s) = (r, v, g, z)" by (metis prod_cases4)
  then have "table_ok (env_me E) (g, z)" using AddUnfiltered_ok [OF assms] by blast
  then show ?thesis using assms a by (auto simp: load_contact_def Let_def)
qed

lemma ReadFile_loop_ok:
  assumes "table_ok (env_me E) (l_tracking s, l_zone s)" "ReadFile_loop V E fileVersion n s f = (x, s')"
  shows "table_ok (env_me E) (l_tracking s', l_zone s')"
  using assms
proof (induction V E fileVersion n s f rule: ReadFile_loop.induct)
  case (2 V E fileVersion n s f)
  then show ?case using load_contact_ok [OF "2.prems"(1)] by (auto split: res.splits)
qed simp

lemma table_ok_verify_all: "table_ok me (g, z) \<Longrightarrow> table_ok me (g, zone_SetAllContactsVerified z)"
  by (rule table_step_ok [OF table_step.verify_all])

lemma ReadFile_ok:
  assumes t: "table_ok (env_me E) (g, z)" and r: "ReadFile V E opened boot g z = (x, boot', g', z')"
  shows "table_ok (env_me E) (g', z')"
proof (cases opened)
  case None
  then show ?thesis using t r by (simp add: ReadFile_def)
next
  case (Some f)
  show ?thesis
  proof (cases "\<exists>v n f'. read_header V f = Ok (Contacts v n) f'")
    case True
    then obtain v n f' where h: "read_header V f = Ok (Contacts v n) f'" by blast
    let ?s = "\<lparr>doHaveVerifiedContacts = False, validContacts = 0, l_tracking = g, l_zone = z\<rparr>"
    obtain y s' where l: "(if n \<noteq> 0 \<and> unat (n * 25) \<le> GetLength V f' - GetPosition V f'
        then ReadFile_loop V E v (unat n) ?s f' else (None, ?s)) = (y, s')" by fastforce
    then have ok: "table_ok (env_me E) (l_tracking s', l_zone s')"
      using ReadFile_loop_ok [of E ?s V v "unat n" f'] t by (auto split: if_splits)
    have "g' = l_tracking s' \<and> (z' = l_zone s' \<or> z' = zone_SetAllContactsVerified (l_zone s'))"
      using r by (auto simp: ReadFile_def Some h Let_def l split: if_splits)
    then show ?thesis using ok table_ok_verify_all by auto
  next
    case False
    then have "g' = g \<and> z' = z" using r
      by (auto simp: ReadFile_def Some split: res.splits header.splits prod.splits)
    then show ?thesis using t by simp
  qed
qed

subsection \<open>Writing and reading contacts\<close>

definition entry_of :: "CContact \<Rightarrow> entry" where
  "entry_of c = \<lparr>e_id = m_clientID c, e_ip = m_ip c, e_udpPort = m_udpPort c, e_tcpPort = m_tcpPort c,
     e_version = m_version c, e_key = m_udpKey c, e_verified = m_ipVerified c\<rparr>"

definition entry_bytes :: "CContact \<Rightarrow> u8 list" where
  "entry_bytes c = bytes_128 (m_clientID c) @ le_split 4 (m_ip c) @ le_split 2 (m_udpPort c) @ le_split 2 (m_tcpPort c) @
     le_split 1 (m_version c) @ (le_split 4 (m_key (m_udpKey c)) @ le_split 4 (m_key_ip (m_udpKey c))) @
     le_split 1 (if m_ipVerified c then 1 else 0 :: u8)"

lemma length_entry_bytes: "length (concat (map entry_bytes cs)) = 34 * length cs"
  by (induction cs) (simp_all add: entry_bytes_def bytes_128_def)

context byte_source
begin

lemma parses_key: "parses ok content pos (key_ReadFromFile V) (le_split 4 (m_key k) @ le_split 4 (m_key_ip k)) k"
proof -
  have "parses ok content pos (key_ReadFromFile V) (le_split 4 (m_key k) @ le_split 4 (m_key_ip k) @ [])
      \<lparr>m_key = m_key k, m_key_ip = m_key_ip k\<rparr>"
    unfolding key_ReadFromFile_def by (intro parses_bind) (rule parses_ints parses_return)+
  moreover have "\<lparr>m_key = m_key k, m_key_ip = m_key_ip k\<rparr> = k" by (cases k) simp
  ultimately show ?thesis by simp
qed

lemma parses_contact: "parses ok content pos (read_contact V 2) (entry_bytes c) (entry_of c)"
proof -
  let ?v = "if m_ipVerified c then 1 else 0 :: u8"
  have key: "parses ok content pos (io_bind (key_ReadFromFile V) (\<lambda>key. io_bind (ReadUInt8 V) (\<lambda>v. io_return (key, v \<noteq> 0))))
      ((le_split 4 (m_key (m_udpKey c)) @ le_split 4 (m_key_ip (m_udpKey c))) @ le_split 1 ?v @ []) (m_udpKey c, ?v \<noteq> 0)"
    by (intro parses_bind) (rule parses_key parses_ints parses_return)+
  have e: "entry_bytes c = bytes_128 (m_clientID c) @ le_split 4 (m_ip c) @ le_split 2 (m_udpPort c) @
      le_split 2 (m_tcpPort c) @ le_split 1 (m_version c) @
      ((le_split 4 (m_key (m_udpKey c)) @ le_split 4 (m_key_ip (m_udpKey c))) @ le_split 1 ?v @ []) @ []"
    by (simp add: entry_bytes_def)
  have two: "(2::u32) \<le> 2" by simp
  show ?thesis unfolding read_contact_def e if_P [OF two]
    by (rule parses_bind, rule parses_128, (rule parses_bind, rule parses_ints)+, rule parses_bind, rule key)
      (simp add: entry_of_def)
qed

lemma read_contacts:
  assumes "ok f" "pos f \<le> length (content f)" "drop (pos f) (content f) = concat (map entry_bytes cs) @ rest"
  shows "ReadFile_loop V E 2 (length cs) s f = (None, fold (load_contact E) (map entry_of cs) s)"
  using assms
proof (induction cs arbitrary: f s)
  case (Cons c cs)
  from parsesD [OF parses_contact Cons.prems(1,2), of c "concat (map entry_bytes cs) @ rest"] Cons.prems(3)
  obtain f' where f': "read_contact V 2 f = Ok (entry_of c) f'" "ok f'" "content f' = content f"
    "pos f' = pos f + length (entry_bytes c)" by auto
  have d: "drop (pos f') (content f') = concat (map entry_bytes cs) @ rest"
    using arg_cong [OF Cons.prems(3), of "drop (length (entry_bytes c))"] f' by (simp add: add.commute)
  have "length (drop (pos f) (content f)) \<ge> length (entry_bytes c)" using Cons.prems(3) by simp
  then have "pos f' \<le> length (content f')" using f' Cons.prems(2) by simp
  from Cons.IH [OF f'(2) this d] show ?case using f'(1) by simp
qed simp

lemma read_header_2:
  assumes "ok f" "pos f = 0" "content f = le_split 4 (0::u32) @ le_split 4 (2::u32) @ le_split 4 n @ rest"
  shows "\<exists>f'. read_header V f = Ok (Contacts 2 n) f' \<and> ok f' \<and> content f' = content f \<and> pos f' = 12"
proof -
  from parsesD [OF parses_ints(3) assms(1), of 0] assms(2,3)
  obtain f1 where f1: "ReadUInt32 V f = Ok 0 f1" "ok f1" "content f1 = content f" "pos f1 = 4" by auto
  have l: "GetLength V f1 \<ge> 8" using size_law [OF f1(2)] f1(3) assms(3) by simp
  have "parses ok content pos (io_bind (ReadUInt32 V) (\<lambda>fileVersion.
      io_bind (if fileVersion = 3 then ReadUInt32 V else io_return 0) (\<lambda>bootstrapEdition.
        if bootstrapEdition = 1 then io_return Bootstrap
        else if fileVersion \<ge> 1 \<and> fileVersion \<le> 3
             then io_bind (ReadUInt32 V) (\<lambda>n. io_return (Contacts fileVersion n))
             else io_return (Contacts fileVersion 0))))
      (le_split 4 (2::u32) @ le_split 4 n) (Contacts 2 n)" (is "parses _ _ _ ?m _ _")
    by (rule parses_bind [OF parses_ints(3)]) (simp add: parses_map [OF parses_ints(3)])
  from parsesD [OF this f1(2), of rest] f1 assms(3)
  obtain f2 where "?m f1 = Ok (Contacts 2 n) f2" "ok f2" "content f2 = content f" "pos f2 = 12" by auto
  then show ?thesis using f1(1) l by (auto simp: read_header_def io_bind_Ok)
qed

end

context byte_stream
begin

lemma emits_contact: "emits ok content pos (write_contact V c) (entry_bytes c)"
  unfolding write_contact_def entry_bytes_def key_StoreToFile_def
  by (intro emits_bind) (rule emits_128 emits_ints)+

lemma emits_contacts:
  "n + length cs \<le> CONTACT_FILE_LIMIT \<Longrightarrow> emits ok content pos (write_contacts V n cs) (concat (map entry_bytes cs))"
proof (induction cs arbitrary: n)
  case (Cons c cs)
  then have "emits ok content pos (io_bind (write_contact V c) (\<lambda>_. write_contacts V (n + 1) cs))
      (entry_bytes c @ concat (map entry_bytes cs))"
    by (intro emits_bind emits_contact) simp
  then show ?case using Cons.prems by simp
qed simp

lemma emits_nodes:
  assumes "length cs \<le> CONTACT_FILE_LIMIT"
  shows "emits ok content pos (write_nodes V cs)
    (le_split 4 (0::u32) @ le_split 4 (2::u32) @ le_split 4 (of_nat (length cs) :: u32) @ concat (map entry_bytes cs))"
  using assms unfolding write_nodes_def
  by (intro emits_bind) (simp_all add: emits_ints emits_contacts min_def)

end

subsection \<open>The bootstrap list holds the closest contacts\<close>

definition insort_after :: "CContact \<Rightarrow> CContact list \<Rightarrow> CContact list" where
  "insort_after c ds = takeWhile (\<lambda>d. m_distance d \<le> m_distance c) ds @ c # dropWhile (\<lambda>d. m_distance d \<le> m_distance c) ds"

lemma insert_closer_eq:
  "insert_closer c ds = (let i = (\<exists>d \<in> set ds. m_distance d > m_distance c) in (i, if i then insort_after c ds else ds))"
  by (induction ds) (auto simp: insort_after_def Let_def not_less split: prod.splits)

lemma sorted_cut:
  assumes "sorted (map m_distance S)"
  obtains t d where "S = t @ d" "\<And>x. x \<in> set t \<Longrightarrow> m_distance x \<le> m_distance c" "\<And>x. x \<in> set d \<Longrightarrow> m_distance c < m_distance x"
proof -
  let ?P = "\<lambda>d. m_distance d \<le> m_distance c"
  have "m_distance c < m_distance x" if "x \<in> set (dropWhile ?P S)" for x
    using assms that by (induction S) (auto split: if_splits)
  then show thesis using that [of "takeWhile ?P S" "dropWhile ?P S"] by (auto dest: set_takeWhileD)
qed

lemma insort_after_split:
  assumes "\<And>x. x \<in> set t \<Longrightarrow> m_distance x \<le> m_distance c" "\<And>x. x \<in> set d \<Longrightarrow> m_distance c < m_distance x"
  shows "insort_after c (t @ d) = t @ c # d"
proof -
  have "takeWhile (\<lambda>d. m_distance d \<le> m_distance c) d = []" "dropWhile (\<lambda>d. m_distance d \<le> m_distance c) d = d"
    using assms(2) by (cases d; fastforce)+
  then show ?thesis using assms(1) by (simp add: insort_after_def)
qed

lemma insort_after_sort: "insort_after c (sort_key m_distance xs) = sort_key m_distance (xs @ [c])"
proof -
  let ?s = "sort_key m_distance xs"
  obtain t d where s: "?s = t @ d" and t: "\<And>x. x \<in> set t \<Longrightarrow> m_distance x \<le> m_distance c"
    and d: "\<And>x. x \<in> set d \<Longrightarrow> m_distance c < m_distance x"
    using sorted_cut [OF sorted_sort_key] by blast
  have i: "insort_after c ?s = t @ c # d" unfolding s by (rule insort_after_split [OF t d])
  have st: "filter (\<lambda>x. m_distance k = m_distance x) t @ filter (\<lambda>x. m_distance k = m_distance x) d =
      filter (\<lambda>x. m_distance k = m_distance x) xs" for k
    using sort_key_stable [of m_distance "m_distance k" xs] by (simp add: s eq_commute)
  have "sort_key m_distance (xs @ [c]) = t @ c # d"
  proof (rule properties_for_sort_key)
    show "mset (t @ c # d) = mset (xs @ [c])" using arg_cong [OF s, of mset] by simp
    show "filter (\<lambda>x. m_distance k = m_distance x) (t @ c # d) = filter (\<lambda>x. m_distance k = m_distance x) (xs @ [c])" for k
    proof (cases "m_distance k = m_distance c")
      case True
      have "m_distance k \<noteq> m_distance x" if "x \<in> set d" for x using d [OF that] True by simp
      then have "filter (\<lambda>x. m_distance k = m_distance x) d = []" by (simp add: filter_empty_conv)
      then show ?thesis using st [of k] True by simp
    qed (use st [of k] in simp)
    have "sorted (map m_distance (t @ d))" unfolding s [symmetric] by simp
    then show "sorted (map m_distance (t @ c # d))" using t d by (force simp: sorted_append)
  qed
  then show ?thesis using i by simp
qed

lemma bootstrap_insert_take:
  assumes "sorted (map m_distance S)"
  shows "bootstrap_insert c (take 50 S) = take 50 (insort_after c S)"
proof -
  obtain t d where s: "S = t @ d" and t: "\<And>x. x \<in> set t \<Longrightarrow> m_distance x \<le> m_distance c"
    and d: "\<And>x. x \<in> set d \<Longrightarrow> m_distance c < m_distance x"
    using sorted_cut [OF assms] by blast
  have i: "insort_after c S = t @ c # d" unfolding s by (rule insort_after_split [OF t d])
  show ?thesis
  proof (cases "length t < 50")
    case False
    then have ds: "take 50 S = take 50 t" "length (take 50 t) = 50" using s by simp_all
    then have "List.last (take 50 t) \<in> set (take 50 t)" by (intro last_in_set) auto
    then have "m_distance (List.last (take 50 t)) \<le> m_distance c" using t in_set_takeD by fast
    then have "\<not> m_distance c < m_distance (List.last (take 50 t))" by simp
    then show ?thesis using False ds i by (simp add: bootstrap_insert_def)
  next
    case True
    let ?d = "take (50 - length t) d"
    have ds: "take 50 S = t @ ?d" using s True by simp
    have ic: "insort_after c (t @ ?d) = t @ c # ?d" using insort_after_split [OF t] d in_set_takeD by metis
    show ?thesis
    proof (cases "d = []")
      case True
      have "\<not> (\<exists>x \<in> set t. m_distance c < m_distance x)" using t leD by blast
      then have "insert_closer c t = (False, t)" by (simp add: insert_closer_eq)
      then show ?thesis using ds i True \<open>length t < 50\<close> by (simp add: bootstrap_insert_def)
    next
      case False
      then have ne: "?d \<noteq> []" using True by simp
      then have "m_distance c < m_distance (List.last (t @ ?d))" using d in_set_takeD last_in_set by (metis last_append)
      moreover have "\<exists>x \<in> set (t @ ?d). m_distance c < m_distance x" using ne d in_set_takeD by (metis last_in_set UnCI set_append)
      ultimately have "bootstrap_insert c (t @ ?d) = (if length (t @ c # ?d) > 50 then butlast (t @ c # ?d) else t @ c # ?d)"
        by (simp add: bootstrap_insert_def insert_closer_eq ic Let_def)
      also have "\<dots> = take 50 (t @ c # d)" using True by (auto simp: butlast_conv_take min_def take_Cons' intro: arg_cong2 [where f = take])
      finally show ?thesis using ds i by simp
    qed
  qed
qed

lemma bootstrap_insert_sort:
  "bootstrap_insert c (take 50 (sort_key m_distance xs)) = take 50 (sort_key m_distance (xs @ [c]))"
  by (simp add: bootstrap_insert_take insort_after_sort)

text \<open>The entries that a file holds, up to the first error.\<close>

fun read_entries :: "'s file_ops \<Rightarrow> nat \<Rightarrow> 's \<Rightarrow> entry list" where
  "read_entries V 0 f = []"
| "read_entries V (Suc n) f = (case read_contact V 1 f of Exc e f \<Rightarrow> [] | Ok e f \<Rightarrow> e # read_entries V n f)"

lemma ReadBootstrap_loop_sorts:
  "snd (ReadBootstrap_loop V E n (take 50 (sort_key m_distance xs)) f) =
     take 50 (sort_key m_distance (xs @ map (bootstrap_contact E) (filter (bootstrap_accepts E) (read_entries V n f))))"
proof (induction n arbitrary: xs f)
  case (Suc n)
  show ?case
  proof (cases "read_contact V 1 f")
    case (Ok e f')
    then show ?thesis using Suc.IH [of xs f'] Suc.IH [of "xs @ [bootstrap_contact E e]" f']
      by (simp add: bootstrap_insert_sort)
  qed simp
qed simp
subsection \<open>Properties\<close>

text \<open>C23: Whatever the bytes of nodes.dat are, reading it leaves a well-formed routing table within its limits:
  every contact that was taken over before the end of the file, a short read or another exception is where
  it belongs and is counted.\<close>

theorem ReadFile_keeps_table:
  assumes "table_ok (env_me E) (g, z)" "ReadFile V E opened boot g z = (x, boot', g', z')"
  shows "table_ok (env_me E) (g', z')"
  by (rule ReadFile_ok [OF assms])

definition no_filter :: "CUInt128 \<Rightarrow> env" where
  "no_filter me = \<lparr>env_IsFiltered = (\<lambda>_. False), env_now = 1000, env_publicIP = 0, env_me = me\<rparr>"

theorem ReadFile_keeps_table_witness:
  "case ReadFile (mem_ops (total_heap (\<lambda>_. 0))) (no_filter (CUInt128_uint32 0)) (Some (CMemFile_const [0, 0, 0, 0, 2, 0, 0, 0, 9, 9]))
      [] no_contacts root_zone of (x, boot, g, z) \<Rightarrow> table_ok (CUInt128_uint32 0) (g, z)"
  using ReadFile_keeps_table [of "no_filter (CUInt128_uint32 0)" no_contacts root_zone] table_ok_init
  by (auto simp: no_filter_def split: prod.splits)

text \<open>C11: The contacts that were written to nodes.dat are the ones that are loaded from it: writing up to 500 contacts
  to an empty file and reading the file from its start is the same as adding these contacts, in their order,
  with their addresses, ports, versions, keys and verification, each under the conditions for a contact from
  a file; if none of them was verified, all contacts of the table count as verified afterwards.\<close>

theorem nodes_dat_roundtrip:
  assumes f: "mem_open f" "m_fileSize f = 0" "m_position f = 0" and cs: "cs \<noteq> []" "length cs \<le> CONTACT_FILE_LIMIT"
    and V: "V = mem_ops (total_heap junk)"
  shows "\<exists>f'. write_nodes V cs f = Ok () f' \<and>
    ReadFile V E (Some (f'\<lparr>m_position := 0\<rparr>)) boot g z =
      (let s = fold (load_contact E) (map entry_of cs)
           \<lparr>doHaveVerifiedContacts = False, validContacts = 0, l_tracking = g, l_zone = z\<rparr>
       in (None, boot, l_tracking s,
           if doHaveVerifiedContacts s then l_zone s else zone_SetAllContactsVerified (l_zone s)))"
proof -
  let ?n = "of_nat (length cs) :: u32" and ?body = "concat (map entry_bytes cs)"
  have small: "length cs < 2 ^ 32" "length cs * 25 < 2 ^ 32" using cs(2) by (simp_all add: CONTACT_FILE_LIMIT_def)
  have n: "unat ?n = length cs" using small(1) by (simp add: unat_of_nat_small)
  have n25: "unat (?n * 25) = 25 * length cs"
    using unat_of_nat_small [of "length cs * 25", where ?'a = 32] small(2) by (simp add: mult.commute)
  have content_empty: "mem_content f = []" using f by (simp add: mem_content_def)
  obtain f' where w: "write_nodes V cs f = Ok () f'" "mem_open f'"
    "mem_content f' = le_split 4 (0::u32) @ le_split 4 (2::u32) @ le_split 4 ?n @ ?body"
    using emitsD [OF mem.emits_nodes [OF cs(2), of junk], of f] f content_empty V by auto
  let ?r = "f'\<lparr>m_position := 0\<rparr>"
  obtain h where h: "read_header V ?r = Ok (Contacts 2 ?n) h" "mem_open h" "mem_content h = mem_content f'" "m_position h = 12"
    using mem.read_header_2 [of ?r ?n ?body junk] w V by auto
  have l: "length (mem_content h) = m_fileSize h" using h(2) by (simp add: mem_open_def)
  have "m_fileSize h = 12 + 34 * length cs" using h(3) w(3) length_entry_bytes [of cs] unfolding l [symmetric] by simp
  then have guard: "?n \<noteq> 0 \<and> unat (?n * 25) \<le> GetLength V h - GetPosition V h"
    using n n25 cs(1) h(4) V by (auto simp: word_unat_eq_iff)
  have "drop 12 (mem_content h) = ?body @ []" using h(3) w(3) by simp
  then have loop: "ReadFile_loop V E 2 (length cs) s h = (None, fold (load_contact E) (map entry_of cs) s)" for s
    using mem.read_contacts [of h cs "[]" junk E s] h(2-4) w(3) V by auto
  show ?thesis using w(1) guard loop n by (auto simp: ReadFile_def h(1) Let_def uncaught_def)
qed

theorem nodes_dat_roundtrip_witness:
  "\<exists>f'. write_nodes (mem_ops (total_heap (\<lambda>_. 0))) [contact_at 0 1 0xD4112201, contact_at 0 2 0xD4112302] (CMemFile_new 64) = Ok () f' \<and>
     map m_ip (zone_contacts (snd (snd (snd (ReadFile (mem_ops (total_heap (\<lambda>_. 0))) (no_filter (CUInt128_uint32 0))
       (Some (f'\<lparr>m_position := 0\<rparr>)) [] no_contacts root_zone))))) = [0xD4112201, 0xD4112302]"
proof -
  let ?cs = "[contact_at 0 1 0xD4112201, contact_at 0 2 0xD4112302]"
  let ?s = "fold (load_contact (no_filter (CUInt128_uint32 0))) (map entry_of ?cs)
    \<lparr>doHaveVerifiedContacts = False, validContacts = 0, l_tracking = no_contacts, l_zone = root_zone\<rparr>"
  have "doHaveVerifiedContacts ?s" "map m_ip (zone_contacts (l_zone ?s)) = [0xD4112201, 0xD4112302]" by code_simp+
  then show ?thesis using nodes_dat_roundtrip [of "CMemFile_new 64" ?cs _ "\<lambda>_. 0" "no_filter (CUInt128_uint32 0)" "[]" no_contacts root_zone, OF _ _ _ _ _ refl]
    by (auto simp: Let_def CONTACT_FILE_LIMIT_def)
qed

text \<open>C24: From a bootstrap file the client keeps exactly the fifty acceptable contacts that are closest to its own ID,
  in the order of their distance and, at equal distance, of the file; the insertion with its early
  rejection is equivalent to sorting all contacts of the file.\<close>

theorem ReadBootstrapNodesDat_closest:
  assumes "ReadUInt32 V f = Ok n f'" "n \<noteq> 0" "unat (n * 25) = GetLength V f' - GetPosition V f'"
  shows "snd (ReadBootstrapNodesDat V E [] f) =
    take 50 (sort_key m_distance (map (bootstrap_contact E) (filter (bootstrap_accepts E) (read_entries V (unat n) f'))))"
  using assms ReadBootstrap_loop_sorts [of V E "unat n" "[]" f'] by (simp add: ReadBootstrapNodesDat_def)

definition two_nodes :: memfile where
  "two_nodes = CMemFile_const (le_split 4 (2::u32) @
     bytes_128 (CUInt128_uint32 9) @ [0x01, 0x22, 0x11, 0xD4, 0x40, 0x12, 0x36, 0x12, 8] @
     bytes_128 (CUInt128_uint32 1) @ [0x02, 0x23, 0x11, 0xD4, 0x40, 0x12, 0x36, 0x12, 8])"

theorem ReadBootstrapNodesDat_closest_witness:
  "map m_ip (snd (ReadBootstrapNodesDat (mem_ops (total_heap (\<lambda>_. 0))) (no_filter (CUInt128_uint32 0)) [] two_nodes)) =
     [0xD4112302, 0xD4112201]"
proof -
  let ?V = "mem_ops (total_heap (\<lambda>_. 0))" and ?f = "two_nodes\<lparr>m_position := 4\<rparr>"
  have r: "ReadUInt32 ?V two_nodes = Ok 2 ?f" by code_simp
  have g: "(2::u32) \<noteq> 0" "unat ((2::u32) * 25) = GetLength ?V ?f - GetPosition ?V ?f" by code_simp+
  have "map m_ip (take 50 (sort_key m_distance (map (bootstrap_contact (no_filter (CUInt128_uint32 0)))
      (filter (bootstrap_accepts (no_filter (CUInt128_uint32 0))) (read_entries ?V (unat (2::u32)) ?f))))) = [0xD4112302, 0xD4112201]"
    by code_simp
  then show ?thesis using ReadBootstrapNodesDat_closest [OF r g] by simp
qed

end
