(* ===== verification/SHA.thy ===== *)
theory SHA
  imports ArchSpecific
begin

text \<open>
  The SHA-1 implementation of src/amule-3.0.1/src/SHA.cpp: the class \<open>CSHA\<close> that hashes a
  stream of bytes block by block, with its buffer seen both as bytes and as integers in the
  host's byte order. The standard is stated beside it, on a whole message; the refinement
  theorem says that a reset, any sequence of \<open>Add\<close> calls and a \<open>Finish\<close> compute the standard's
  digest of the concatenated data, on both kinds of host and for every length, also past the
  \<open>2\<close> to the power \<open>32\<close> bytes where the low counter wraps.
\<close>

subsection \<open>The class\<close>

text \<open>The buffer is an array of sixteen 32-bit integers that \<open>Add\<close> fills byte by byte: it is
  kept as its 64 bytes of memory, read and written as integers in the host's byte order.\<close>

record CSHA =
  m_nCount0 :: u32
  m_nCount1 :: u32
  m_nHash :: "u32 list"
  m_nBuffer :: "u8 list"

definition buf_get :: "host \<Rightarrow> nat \<Rightarrow> u8 list \<Rightarrow> u32" where
  "buf_get h i buf = raw_join h (take 4 (drop (4 * i) buf))"

definition buf_put :: "host \<Rightarrow> nat \<Rightarrow> u32 \<Rightarrow> u8 list \<Rightarrow> u8 list" where
  "buf_put h i v buf = take (4 * i) buf @ raw_split h 4 v @ drop (4 * i + 4) buf"

definition rotl32 :: "u32 \<Rightarrow> nat \<Rightarrow> u32" where
  "rotl32 x n = push_bit n x OR drop_bit (32 - n) x"

definition swap_b32 :: "host \<Rightarrow> u32 \<Rightarrow> u32" where
  "swap_b32 h x =
     (if h = BigEndian then x
      else (rotl32 x 8 AND 0x00ff00ff) OR (rotl32 x 24 AND 0xff00ff00))"

definition SHA1_MASK :: u32 where
  "SHA1_MASK = 63"

definition ch :: "u32 \<Rightarrow> u32 \<Rightarrow> u32 \<Rightarrow> u32" where
  "ch x y z = (x AND y) XOR (NOT x AND z)"

definition parity :: "u32 \<Rightarrow> u32 \<Rightarrow> u32 \<Rightarrow> u32" where
  "parity x y z = x XOR y XOR z"

definition maj :: "u32 \<Rightarrow> u32 \<Rightarrow> u32 \<Rightarrow> u32" where
  "maj x y z = (x AND y) XOR (x AND z) XOR (y AND z)"

type_synonym regs = "u32 \<times> u32 \<times> u32 \<times> u32 \<times> u32"

fun rnd :: "(u32 \<Rightarrow> u32 \<Rightarrow> u32 \<Rightarrow> u32) \<Rightarrow> u32 \<Rightarrow> u32 list \<Rightarrow> nat \<Rightarrow> regs \<Rightarrow> regs" where
  "rnd f k w i (a, b, c, d, e) =
     (let t = a; a = rotl32 a 5 + f b c d + e + k + w ! i; e = d; d = c; c = rotl32 b 30; b = t
      in (a, b, c, d, e))"

definition expand_step :: "nat \<Rightarrow> u32 list \<Rightarrow> u32 list" where
  "expand_step i w =
     w @ [rotl32 (w ! (i - 3) XOR w ! (i - 8) XOR w ! (i - 14) XOR w ! (i - 16)) 1]"

definition Compile :: "host \<Rightarrow> CSHA \<Rightarrow> CSHA" where
  "Compile h s =
     (let w = map (\<lambda>i. swap_b32 h (buf_get h i (m_nBuffer s))) [0..<16];
          w = fold expand_step [16..<80] w;
          r = (m_nHash s ! 0, m_nHash s ! 1, m_nHash s ! 2, m_nHash s ! 3, m_nHash s ! 4);
          r = fold (rnd ch 0x5a827999 w) [0..<20] r;
          r = fold (rnd parity 0x6ed9eba1 w) [20..<40] r;
          r = fold (rnd maj 0x8f1bbcdc w) [40..<60] r;
          (a, b, c, d, e) = fold (rnd parity 0xca62c1d6 w) [60..<80] r
      in s\<lparr>m_nHash := [m_nHash s ! 0 + a, m_nHash s ! 1 + b, m_nHash s ! 2 + c,
                      m_nHash s ! 3 + d, m_nHash s ! 4 + e]\<rparr>)"

definition Reset :: "CSHA \<Rightarrow> CSHA" where
  "Reset s = s\<lparr>m_nCount0 := 0, m_nCount1 := 0,
     m_nHash := [0x67452301, 0xefcdab89, 0x98badcfe, 0x10325476, 0xc3d2e1f0]\<rparr>"

definition GetHash :: "CSHA \<Rightarrow> u8 list" where
  "GetHash s = map (\<lambda>i. ucast (drop_bit (8 * (3 - i mod 4)) (m_nHash s ! (i div 4)))) [0..<20]"

text \<open>\<open>memcpy\<close> of the bytes \<open>sp\<close> to offset \<open>pos\<close> of the buffer.\<close>

definition buf_copy :: "nat \<Rightarrow> u8 list \<Rightarrow> u8 list \<Rightarrow> u8 list" where
  "buf_copy pos sp buf = take pos buf @ sp @ drop (pos + length sp) buf"

text \<open>The loop of \<open>Add\<close>: the list is what \<open>sp\<close> still points to, \<open>nLength\<close> is its length.\<close>

function Add_loop :: "host \<Rightarrow> u8 list \<Rightarrow> nat \<Rightarrow> CSHA \<Rightarrow> CSHA" where
  "Add_loop h sp pos s =
     (let space = 64 - pos in
      if space \<le> length sp
      then Add_loop h (drop space sp) 0
             (Compile h (s\<lparr>m_nBuffer := buf_copy pos (take space sp) (m_nBuffer s)\<rparr>))
      else s\<lparr>m_nBuffer := buf_copy pos sp (m_nBuffer s)\<rparr>)"
  by auto
termination by (relation "measures [\<lambda>(h, sp, pos, s). length sp, \<lambda>(h, sp, pos, s). pos]") auto

declare Add_loop.simps [simp del]

definition Add :: "host \<Rightarrow> u8 list \<Rightarrow> CSHA \<Rightarrow> CSHA" where
  "Add h pData s =
     (let nLength = of_nat (length pData) :: u32;
          pos = unat (m_nCount0 s AND SHA1_MASK);
          s = s\<lparr>m_nCount0 := m_nCount0 s + nLength\<rparr>;
          s = (if m_nCount0 s < nLength then s\<lparr>m_nCount1 := m_nCount1 s + 1\<rparr> else s)
      in Add_loop h pData pos s)"

definition sha_mask :: "host \<Rightarrow> u32 list" where
  "sha_mask h = (if h = LittleEndian then [0x00000000, 0x000000ff, 0x0000ffff, 0x00ffffff]
                 else [0x00000000, 0xff000000, 0xffff0000, 0xffffff00])"

definition sha_bits :: "host \<Rightarrow> u32 list" where
  "sha_bits h = (if h = LittleEndian then [0x00000080, 0x00008000, 0x00800000, 0x80000000]
                 else [0x80000000, 0x00800000, 0x00008000, 0x00000080])"

function zero_pad :: "host \<Rightarrow> nat \<Rightarrow> u8 list \<Rightarrow> u8 list" where
  "zero_pad h i buf = (if i < 14 then zero_pad h (i + 1) (buf_put h i 0 buf) else buf)"
  by auto
termination by (relation "measure (\<lambda>(h, i, buf). 14 - i)") auto

declare zero_pad.simps [simp del]

definition Finish :: "host \<Rightarrow> CSHA \<Rightarrow> CSHA \<times> u8 list" where
  "Finish h s =
     (let i = unat (m_nCount0 s AND SHA1_MASK);
          s = s\<lparr>m_nBuffer := buf_put h (i div 4)
                 ((buf_get h (i div 4) (m_nBuffer s) AND sha_mask h ! (i mod 4)) OR sha_bits h ! (i mod 4))
                 (m_nBuffer s)\<rparr>;
          (s, i) = (if i > 64 - 9
                    then (let s = (if i < 60 then s\<lparr>m_nBuffer := buf_put h 15 0 (m_nBuffer s)\<rparr> else s)
                          in (Compile h s, 0))
                    else (s, i div 4 + 1));
          buf = zero_pad h i (m_nBuffer s);
          buf = buf_put h 14 (swap_b32 h (push_bit 3 (m_nCount1 s) OR drop_bit 29 (m_nCount0 s))) buf;
          buf = buf_put h 15 (swap_b32 h (push_bit 3 (m_nCount0 s))) buf;
          s = Compile h (s\<lparr>m_nBuffer := buf\<rparr>)
      in (s, GetHash s))"

subsection \<open>The standard\<close>

text \<open>SHA-1 as the standard (FIPS 180) states it, on a message of bytes: the message is padded
  with a one bit, zeros and its length in bits as a 64-bit big-endian number, and its blocks of
  sixteen big-endian words are folded into the chaining value.\<close>

function sha1_W :: "u32 list \<Rightarrow> nat \<Rightarrow> u32" where
  "sha1_W M t = (if t < 16 then M ! t
     else word_rotl 1 (sha1_W M (t - 3) XOR sha1_W M (t - 8) XOR sha1_W M (t - 14) XOR sha1_W M (t - 16)))"
  by auto
termination by (relation "measure snd") auto

declare sha1_W.simps [simp del]

definition sha1_f :: "nat \<Rightarrow> u32 \<Rightarrow> u32 \<Rightarrow> u32 \<Rightarrow> u32" where
  "sha1_f t x y z =
     (if t < 20 then (x AND y) OR (NOT x AND z)
      else if t < 40 then x XOR y XOR z
      else if t < 60 then (x AND y) OR (x AND z) OR (y AND z)
      else x XOR y XOR z)"

definition sha1_K :: "nat \<Rightarrow> u32" where
  "sha1_K t = (if t < 20 then 0x5a827999 else if t < 40 then 0x6ed9eba1
               else if t < 60 then 0x8f1bbcdc else 0xca62c1d6)"

primrec sha1_round :: "u32 list \<Rightarrow> regs \<Rightarrow> nat \<Rightarrow> regs" where
  "sha1_round M H 0 = H"
| "sha1_round M H (Suc t) = (case sha1_round M H t of (a, b, c, d, e) \<Rightarrow>
     (word_rotl 5 a + sha1_f t b c d + e + sha1_K t + sha1_W M t, a, word_rotl 30 b, c, d))"

definition sha1_words :: "u8 list \<Rightarrow> u32 list" where
  "sha1_words bs = map (\<lambda>i. le_join (rev (take 4 (drop (4 * i) bs)))) [0..<16]"

fun sha1_block :: "u8 list \<Rightarrow> regs \<Rightarrow> regs" where
  "sha1_block bs (a, b, c, d, e) =
     (case sha1_round (sha1_words bs) (a, b, c, d, e) 80 of (a', b', c', d', e') \<Rightarrow>
        (a + a', b + b', c + c', d + d', e + e'))"

function sha1_blocks :: "u8 list \<Rightarrow> u8 list list" where
  "sha1_blocks m = (if length m < 64 then [] else take 64 m # sha1_blocks (drop 64 m))"
  by auto
termination by (relation "measure length") auto

declare sha1_blocks.simps [simp del]

definition sha1_length :: "u8 list \<Rightarrow> u8 list" where
  "sha1_length m = rev (le_split 8 (of_nat (8 * length m) :: u64))"

definition sha1_zeros :: "nat \<Rightarrow> nat" where
  "sha1_zeros n = (if n mod 64 \<le> 55 then 55 - n mod 64 else 119 - n mod 64)"

definition sha1_pad :: "u8 list \<Rightarrow> u8 list" where
  "sha1_pad m = m @ 0x80 # replicate (sha1_zeros (length m)) 0 @ sha1_length m"

definition sha1_init :: regs where
  "sha1_init = (0x67452301, 0xefcdab89, 0x98badcfe, 0x10325476, 0xc3d2e1f0)"

fun sha1_digest :: "regs \<Rightarrow> u8 list" where
  "sha1_digest (a, b, c, d, e) = concat (map (\<lambda>x. rev (le_split 4 x)) [a, b, c, d, e])"

definition sha1 :: "u8 list \<Rightarrow> u8 list" where
  "sha1 m = sha1_digest (fold sha1_block (sha1_blocks (sha1_pad m)) sha1_init)"
subsection \<open>One block\<close>

lemma bit_rotl32:
  assumes "0 < n" "n < 32" "k < 32"
  shows "bit (rotl32 x n) k \<longleftrightarrow> bit x (if n \<le> k then k - n else k + (32 - n))"
  using assms bit_imp_le_length [of x "32 - n + k"]
  by (auto simp: rotl32_def bit_push_bit_iff bit_drop_bit_eq bit_or_iff add.commute)

lemma rotl32_word_rotl:
  assumes "0 < n" "n < 32"
  shows "rotl32 x n = word_rotl n x"
proof (rule bit_word_eqI)
  fix k assume k: "k < LENGTH(32)"
  have "(k + (32 - n)) mod 32 = (if n \<le> k then k - n else k + (32 - n))"
    using assms k by (auto simp: mod_if)
  with assms k show "bit (rotl32 x n) k \<longleftrightarrow> bit (word_rotl n x) k"
    by (simp add: bit_rotl32 bit_word_rotl_iff)
qed

lemma le_join_and:
  "length xs = length ys \<Longrightarrow> (le_join xs :: 'a::len word) AND le_join ys = le_join (map2 (AND) xs ys)"
  by (rule bit_word_eqI) (auto simp: bit_le_join bit_and_iff)

lemma le_join_or:
  "length xs = length ys \<Longrightarrow> (le_join xs :: 'a::len word) OR le_join ys = le_join (map2 (OR) xs ys)"
  by (rule bit_word_eqI) (auto simp: bit_le_join bit_or_iff)

lemma rotl32_join:
  assumes "length xs + length ys = 4" "0 < length xs" "0 < length ys"
  shows "rotl32 (le_join (xs @ ys)) (8 * length ys) = le_join (ys @ xs)"
proof (rule bit_word_eqI)
  fix k assume k: "k < LENGTH(32)"
  have len: "0 < length ys" "length ys < 4" using assms by linarith+
  show "bit (rotl32 (le_join (xs @ ys)) (8 * length ys)) k = bit (le_join (ys @ xs) :: u32) k"
  proof (cases "8 * length ys \<le> k")
    case True
    then obtain j where "k = 8 * length ys + j" by (metis le_add_diff_inverse)
    moreover from this k assms(1) have "j div 8 < length xs" by simp
    ultimately show ?thesis using k len assms(1) by (simp add: bit_rotl32 bit_le_join nth_append)
  next
    case False
    have "bit (rotl32 (le_join (xs @ ys)) (8 * length ys)) k = bit (le_join (xs @ ys) :: u32) (k + (32 - 8 * length ys))"
      using False k len assms(1) bit_rotl32 [of "8 * length ys" k] by simp
    also have "k + (32 - 8 * length ys) = 8 * length xs + k" using assms(1) by simp
    finally have "bit (rotl32 (le_join (xs @ ys)) (8 * length ys)) k = bit (le_join (xs @ ys) :: u32) (8 * length xs + k)" .
    moreover have "k div 8 < length ys" "8 * length xs + k < 32" using False assms(1) by linarith+
    ultimately show ?thesis using k assms(1) by (simp add: bit_le_join nth_append)
  qed
qed

lemma list_of_4:
  assumes "length xs = 4"
  obtains a b c d where "xs = [a, b, c, d]"
  using assms by (auto simp: numeral_eq_Suc length_Suc_conv)

lemma swap_b32_byte_swap: "swap_b32 h x = swap_on_le h 4 x"
proof (cases h)
  case LittleEndian
  obtain a b c d where bytes: "le_split 4 x = [a, b, c, d]" using list_of_4 length_le_split by blast
  have x: "x = le_join [a, b, c, d]" using le_join_split [of 4 x] by (simp add: bytes)
  have rot: "rotl32 x 8 = le_join [d, a, b, c]" "rotl32 x 24 = le_join [b, c, d, a]"
    using rotl32_join [of "[a, b, c]" "[d]"] rotl32_join [of "[a]" "[b, c, d]"] by (simp_all add: x)
  have ff: "(- 1 :: u8) = 0xff" by simp
  have masks: "(0x00ff00ff :: u32) = le_join [- 1, 0, - 1, 0]" "(0xff00ff00 :: u32) = le_join [0, - 1, 0, - 1]"
    unfolding ff by (simp_all add: push_bit_eq_mult)
  have "(rotl32 x 8 AND 0x00ff00ff) OR (rotl32 x 24 AND 0xff00ff00) = le_join [d, c, b, a]"
    unfolding rot masks by (simp add: le_join_and le_join_or del: le_join.simps)
  then show ?thesis
    using LittleEndian by (simp add: swap_b32_def swap_on_le_def byte_swap_def bytes del: le_join.simps)
qed (simp add: swap_b32_def swap_on_le_def)

lemma ch_f: "t < 20 \<Longrightarrow> ch = sha1_f t"
  by (intro ext bit_word_eqI) (auto simp: ch_def sha1_f_def bit_simps)

lemma parity_f: "20 \<le> t \<and> t < 40 \<or> 60 \<le> t \<Longrightarrow> parity = sha1_f t"
  by (intro ext) (auto simp: parity_def sha1_f_def)

lemma maj_f: "40 \<le> t \<Longrightarrow> t < 60 \<Longrightarrow> maj = sha1_f t"
  by (intro ext bit_word_eqI) (auto simp: maj_def sha1_f_def bit_simps)

lemma fold_expand_step:
  assumes "length M = 16" "16 \<le> n"
  shows "fold expand_step [16..<n] M = map (sha1_W M) [0..<n]"
  using assms(2)
proof (induction n rule: dec_induct)
  case base
  show ?case using assms(1) by (simp add: list_eq_iff_nth_eq sha1_W.simps)
next
  case (step n)
  then have "sha1_W M n = word_rotl 1 (sha1_W M (n - 3) XOR sha1_W M (n - 8) XOR sha1_W M (n - 14) XOR sha1_W M (n - 16))"
    by (simp add: sha1_W.simps [of _ n])
  with step show ?case by (simp add: expand_step_def rotl32_word_rotl)
qed

lemma fold_rnd:
  assumes "p \<le> q"
    and "\<And>t. p \<le> t \<Longrightarrow> t < q \<Longrightarrow> f = sha1_f t \<and> k = sha1_K t \<and> w ! t = sha1_W M t"
  shows "fold (rnd f k w) [p..<q] (sha1_round M H p) = sha1_round M H q"
  using assms
proof (induction q rule: dec_induct)
  case (step t)
  have "fold (rnd f k w) [p..<Suc t] (sha1_round M H p) = rnd f k w t (sha1_round M H t)"
    using step.IH step.prems step.hyps by simp
  also have "\<dots> = sha1_round M H (Suc t)"
    using step.hyps(1) step.prems [of t] by (cases "sha1_round M H t") (simp add: rotl32_word_rotl)
  finally show ?case .
qed simp

definition hash_regs :: "CSHA \<Rightarrow> regs" where
  "hash_regs s = (m_nHash s ! 0, m_nHash s ! 1, m_nHash s ! 2, m_nHash s ! 3, m_nHash s ! 4)"

lemma Compile_words:
  assumes "length buf = 64"
  shows "map (\<lambda>i. swap_b32 h (buf_get h i buf)) [0..<16] = sha1_words buf"
  using assms by (auto simp: sha1_words_def swap_b32_byte_swap buf_get_def swap_on_le_join)

lemma Compile_effect:
  assumes "length (m_nBuffer s) = 64"
  shows "hash_regs (Compile h s) = sha1_block (m_nBuffer s) (hash_regs s)"
    and "m_nBuffer (Compile h s) = m_nBuffer s" "m_nCount0 (Compile h s) = m_nCount0 s"
    and "m_nCount1 (Compile h s) = m_nCount1 s" "length (m_nHash (Compile h s)) = 5"
proof -
  define M where "M = sha1_words (m_nBuffer s)"
  define w where "w = fold expand_step [16..<80] M"
  define H where "H = hash_regs s"
  have M: "map (\<lambda>i. swap_b32 h (buf_get h i (m_nBuffer s))) [0..<16] = M"
    using assms by (simp only: Compile_words M_def)
  have w: "w ! t = sha1_W M t" if "t < 80" for t
    using that fold_expand_step [of M 80] by (simp add: w_def M_def sha1_words_def)
  have 1: "fold (rnd ch 0x5a827999 w) [0..<20] H = sha1_round M H 20"
    using fold_rnd [of 0 20 ch "0x5a827999" w M H] by (simp add: ch_f sha1_K_def w)
  have 2: "fold (rnd parity 0x6ed9eba1 w) [20..<40] (sha1_round M H 20) = sha1_round M H 40"
    by (rule fold_rnd) (simp_all add: parity_f sha1_K_def w)
  have 3: "fold (rnd maj 0x8f1bbcdc w) [40..<60] (sha1_round M H 40) = sha1_round M H 60"
    by (rule fold_rnd) (simp_all add: maj_f sha1_K_def w)
  have 4: "fold (rnd parity 0xca62c1d6 w) [60..<80] (sha1_round M H 60) = sha1_round M H 80"
    by (rule fold_rnd) (simp_all add: parity_f sha1_K_def w)
  obtain a b c d e where r: "sha1_round M H 80 = (a, b, c, d, e)" by (cases "sha1_round M H 80") auto
  have C: "Compile h s = s\<lparr>m_nHash := [m_nHash s ! 0 + a, m_nHash s ! 1 + b, m_nHash s ! 2 + c,
      m_nHash s ! 3 + d, m_nHash s ! 4 + e]\<rparr>"
    unfolding Compile_def M hash_regs_def [symmetric] H_def [symmetric] w_def [symmetric] Let_def
    by (simp only: 1 2 3 4 r prod.case)
  show "hash_regs (Compile h s) = sha1_block (m_nBuffer s) (hash_regs s)"
    using r unfolding C H_def M_def by (simp add: hash_regs_def)
  show "m_nBuffer (Compile h s) = m_nBuffer s" "m_nCount0 (Compile h s) = m_nCount0 s"
    "m_nCount1 (Compile h s) = m_nCount1 s" "length (m_nHash (Compile h s)) = 5"
    by (simp_all add: C)
qed

subsection \<open>Adding data\<close>

text \<open>The bytes of a message that do not fill a block yet.\<close>

definition sha1_rest :: "u8 list \<Rightarrow> u8 list" where
  "sha1_rest m = drop (64 * (length m div 64)) m"

lemma length_sha1_rest: "length (sha1_rest m) = length m mod 64"
  by (simp add: sha1_rest_def minus_mult_div_eq_mod)

lemma sha1_rest_short: "length m < 64 \<Longrightarrow> sha1_rest m = m"
  by (simp add: sha1_rest_def)

lemma sha1_rest_step: "64 \<le> length m \<Longrightarrow> sha1_rest (drop 64 m) = sha1_rest m"
proof -
  assume "64 \<le> length m"
  then obtain n where "length m = 64 + n" by (metis le_add_diff_inverse)
  moreover have "(64 + n) div 64 = Suc (n div 64)" for n :: nat by simp
  ultimately show ?thesis by (simp add: sha1_rest_def add.commute)
qed

lemma sha1_blocks_append: "sha1_blocks (m @ n) = sha1_blocks m @ sha1_blocks (sha1_rest m @ n)"
proof (induction m rule: sha1_blocks.induct)
  case (1 m)
  show ?case
  proof (cases "length m < 64")
    case True
    then show ?thesis by (simp add: sha1_rest_short sha1_blocks.simps [of m])
  next
    case False
    with 1 show ?thesis by (simp add: sha1_rest_step sha1_blocks.simps [of m] sha1_blocks.simps [of "m @ n"])
  qed
qed

lemma sha1_rest_append: "sha1_rest (m @ n) = sha1_rest (sha1_rest m @ n)"
proof (induction m rule: sha1_blocks.induct)
  case (1 m)
  show ?case
  proof (cases "length m < 64")
    case False
    then have "sha1_rest (m @ n) = sha1_rest (drop 64 m @ n)"
      using sha1_rest_step [of "m @ n"] by simp
    with 1 False show ?thesis by (simp add: sha1_rest_step)
  qed (simp add: sha1_rest_short)
qed

lemma sha1_blocks_single: "length m = 64 \<Longrightarrow> sha1_blocks m = [m]"
  by (simp add: sha1_blocks.simps [of m] sha1_blocks.simps [of "[]"])

lemma length_buf_copy: "pos + length sp \<le> length buf \<Longrightarrow> length (buf_copy pos sp buf) = length buf"
  by (simp add: buf_copy_def)

lemma Add_loop_effect:
  assumes "pos < 64" "length (m_nBuffer s) = 64" "length (m_nHash s) = 5"
    and "m = take pos (m_nBuffer s) @ sp" "s' = Add_loop h sp pos s"
  shows "hash_regs s' = fold sha1_block (sha1_blocks m) (hash_regs s) \<and>
    take (length (sha1_rest m)) (m_nBuffer s') = sha1_rest m \<and>
    length (m_nBuffer s') = 64 \<and> length (m_nHash s') = 5 \<and>
    m_nCount0 s' = m_nCount0 s \<and> m_nCount1 s' = m_nCount1 s"
  using assms
proof (induction h sp pos s arbitrary: m rule: Add_loop.induct)
  case (1 h sp pos s)
  have len: "length m = pos + length sp" using 1 by simp
  show ?case
  proof (cases "64 - pos \<le> length sp")
    case False
    with len have "sha1_blocks m = []" "sha1_rest m = m" by (simp_all add: sha1_blocks.simps sha1_rest_short)
    with 1 len False show ?thesis
      by (simp add: Add_loop.simps [of h sp pos] hash_regs_def buf_copy_def)
  next
    case True
    define buf where "buf = buf_copy pos (take (64 - pos) sp) (m_nBuffer s)"
    define s1 where "s1 = Compile h (s\<lparr>m_nBuffer := buf\<rparr>)"
    have buf: "buf = take 64 m" "length buf = 64" using 1 True by (simp_all add: buf_def buf_copy_def)
    have s1: "hash_regs s1 = sha1_block buf (hash_regs s)" "length (m_nBuffer s1) = 64"
      "length (m_nHash s1) = 5" "m_nCount0 s1 = m_nCount0 s" "m_nCount1 s1 = m_nCount1 s"
      using Compile_effect [of "s\<lparr>m_nBuffer := buf\<rparr>" h] buf by (simp_all add: s1_def hash_regs_def)
    have "s' = Add_loop h (drop (64 - pos) sp) 0 s1"
      using 1 True by (simp add: Add_loop.simps [of h sp pos] s1_def buf_def Let_def)
    moreover have "drop (64 - pos) sp = drop 64 m" using 1 by simp
    moreover have 64: "64 \<le> length m" "sha1_blocks m = take 64 m # sha1_blocks (drop 64 m)"
      using True len 1(2) by (simp_all add: sha1_blocks.simps [of m])
    moreover note IH = "1.IH" [OF refl True, folded buf_def s1_def, of "drop (64 - pos) sp"]
    ultimately show ?thesis
      using IH s1 buf len 64 by (simp add: sha1_rest_step)
  qed
qed

text \<open>The state after the bytes \<open>m\<close> have been added since the last reset.\<close>

definition absorbed :: "u8 list \<Rightarrow> CSHA \<Rightarrow> bool" where
  "absorbed m s \<longleftrightarrow>
     length (m_nBuffer s) = 64 \<and> length (m_nHash s) = 5 \<and>
     m_nCount0 s = of_nat (length m) \<and> m_nCount1 s = of_nat (length m div 2 ^ 32) \<and>
     hash_regs s = fold sha1_block (sha1_blocks m) sha1_init \<and>
     take (length (sha1_rest m)) (m_nBuffer s) = sha1_rest m"

lemma Reset_absorbed: "length (m_nBuffer s) = 64 \<Longrightarrow> absorbed [] (Reset s)"
  by (simp add: absorbed_def Reset_def sha1_blocks.simps [of "[]"] sha1_rest_def hash_regs_def sha1_init_def)

lemma SHA1_MASK_pos: "unat (of_nat n AND SHA1_MASK) = n mod 64"
proof -
  have "SHA1_MASK = mask 6" by (simp add: SHA1_MASK_def mask_eq_exp_minus_1)
  then have "unat (of_nat n AND SHA1_MASK) = unat (take_bit 6 (of_nat n :: u32))"
    by (simp add: take_bit_eq_mask)
  also have "\<dots> = take_bit 6 (unat (of_nat n :: u32))" by (rule unsigned_take_bit_eq)
  also have "\<dots> = n mod 2 ^ 32 mod 64" by (simp add: unat_of_nat take_bit_nat_def)
  also have "\<dots> = n mod 64" by (rule mod_mod_cancel) simp
  finally show ?thesis .
qed

lemma carry_count:
  assumes "n < 2 ^ 32"
  shows "(of_nat (m + n) :: u32) < of_nat n \<longleftrightarrow> (m + n) div 2 ^ 32 = Suc (m div 2 ^ 32)"
    and "\<not> (of_nat (m + n) :: u32) < of_nat n \<longleftrightarrow> (m + n) div 2 ^ 32 = m div 2 ^ 32"
proof -
  define r where "r = m mod 2 ^ 32"
  have m: "m = 2 ^ 32 * (m div 2 ^ 32) + r" "r < 2 ^ 32" by (simp_all add: r_def)
  have "(m + n) div 2 ^ 32 = m div 2 ^ 32 + (r + n) div 2 ^ 32"
    by (subst m(1)) (simp add: add.assoc)
  moreover have "(m + n) mod 2 ^ 32 = (r + n) mod 2 ^ 32" by (simp add: r_def mod_add_left_eq)
  moreover have "(r + n) div 2 ^ 32 = (if r + n < 2 ^ 32 then 0 else 1)"
    "(r + n) mod 2 ^ 32 = (if r + n < 2 ^ 32 then r + n else r + n - 2 ^ 32)"
    using assms m(2) by (auto simp: div_nat_eqI mod_if)
  ultimately show "(of_nat (m + n) :: u32) < of_nat n \<longleftrightarrow> (m + n) div 2 ^ 32 = Suc (m div 2 ^ 32)"
    "\<not> (of_nat (m + n) :: u32) < of_nat n \<longleftrightarrow> (m + n) div 2 ^ 32 = m div 2 ^ 32"
    using assms m(2) by (auto simp: word_less_nat_alt unat_of_nat simp del: of_nat_add)
qed

lemma Add_absorbed:
  assumes "absorbed m s" "length d < 2 ^ 32"
  shows "absorbed (m @ d) (Add h d s)"
proof -
  define p where "p = length m mod 64"
  define s1 where "s1 = s\<lparr>m_nCount0 := of_nat (length (m @ d)), m_nCount1 := of_nat (length (m @ d) div 2 ^ 32)\<rparr>"
  have pos: "unat (m_nCount0 s AND SHA1_MASK) = p" using assms(1) by (simp add: absorbed_def SHA1_MASK_pos p_def)
  have count: "m_nCount0 s = of_nat (length m)" "m_nCount1 s = of_nat (length m div 2 ^ 32)"
    using assms(1) by (simp_all add: absorbed_def)
  have "Add h d s = Add_loop h d p s1"
    using carry_count [OF assms(2), of "length m"] count pos
    by (cases s) (auto simp: Add_def s1_def Let_def add.commute)
  moreover have "take p (m_nBuffer s1) = sha1_rest m"
    using assms(1) by (simp add: absorbed_def p_def s1_def length_sha1_rest)
  moreover have "p < 64" by (simp add: p_def)
  ultimately show ?thesis
    using Add_loop_effect [of p s1 "sha1_rest m @ d" d "Add h d s" h] assms(1)
    by (simp add: absorbed_def s1_def hash_regs_def sha1_blocks_append [of m d] sha1_rest_append [of m d])
qed

subsection \<open>Padding\<close>

lemma raw_join_and_or:
  "length xs = length ys \<Longrightarrow> (raw_join h xs :: 'a::len word) AND raw_join h ys = raw_join h (map2 (AND) xs ys)"
  "length xs = length ys \<Longrightarrow> (raw_join h xs :: 'a::len word) OR raw_join h ys = raw_join h (map2 (OR) xs ys)"
  by (simp_all add: raw_join_def le_join_and le_join_or rev_map zip_rev)

lemma pad_tables:
  assumes "r < 4"
  shows "sha_mask h ! r = raw_join h (replicate r 0xff @ replicate (4 - r) 0)"
    and "sha_bits h ! r = raw_join h (replicate r 0 @ 0x80 # replicate (3 - r) 0)"
proof -
  have rep: "replicate 2 x = [x, x]" "replicate 3 x = [x, x, x]" "replicate 4 x = [x, x, x, x]" for x :: u8
    by (simp_all add: numeral_eq_Suc)
  have r: "r = 0 \<or> r = 1 \<or> r = 2 \<or> r = 3" using assms by auto
  then show "sha_mask h ! r = raw_join h (replicate r 0xff @ replicate (4 - r) 0)"
    by (cases h) (elim disjE; simp add: sha_mask_def raw_join_def rep push_bit_eq_mult)+
  from r show "sha_bits h ! r = raw_join h (replicate r 0 @ 0x80 # replicate (3 - r) 0)"
    by (cases h) (elim disjE; simp add: sha_bits_def raw_join_def rep push_bit_eq_mult)+
qed

lemma map2_and_ff: "length xs = n \<Longrightarrow> map2 (AND) xs (replicate n (0xff :: u8)) = xs"
proof -
  have "(0xff :: u8) = - 1" by simp
  then show "length xs = n \<Longrightarrow> map2 (AND) xs (replicate n (0xff :: u8)) = xs"
    by (simp only:) (simp add: list_eq_iff_nth_eq)
qed

lemma pad_word:
  assumes "length bs = 4" "r < 4"
  shows "raw_split h 4 ((raw_join h bs AND sha_mask h ! r) OR sha_bits h ! r :: u32) =
    take r bs @ 0x80 # replicate (3 - r) 0"
proof -
  have "map2 (AND) bs (replicate r 0xff @ replicate (4 - r) 0) = take r bs @ replicate (4 - r) 0"
  proof -
    have "map2 (AND) (take r bs @ drop r bs) (replicate r 0xff @ replicate (4 - r) 0) =
        map2 (AND) (take r bs) (replicate r 0xff) @ map2 (AND) (drop r bs) (replicate (4 - r) 0)"
      using assms by (subst zip_append) simp_all
    also have "map2 (AND) (take r bs) (replicate r 0xff) = take r bs" using assms by (simp add: map2_and_ff)
    also have "map2 (AND) (drop r bs) (replicate (4 - r) 0) = replicate (4 - r) (0 :: u8)"
      using assms by (simp add: list_eq_iff_nth_eq)
    finally show ?thesis by simp
  qed
  moreover have "map2 (OR) (take r bs @ replicate (4 - r) 0) (replicate r 0 @ 0x80 # replicate (3 - r) 0) =
      take r bs @ 0x80 # replicate (3 - r) 0"
  proof -
    have "map2 (OR) (take r bs) (replicate r 0) = take r bs"
      using assms by (simp add: list_eq_iff_nth_eq)
    moreover have "map2 (OR) (replicate (4 - r) 0) (0x80 # replicate (3 - r) 0) = (0x80 :: u8) # replicate (3 - r) 0"
      using assms by (auto simp: list_eq_iff_nth_eq)
    ultimately show ?thesis using assms by (simp add: zip_append)
  qed
  ultimately show ?thesis using assms by (simp add: pad_tables raw_join_and_or)
qed

lemma buf_put_zero: "i < 16 \<Longrightarrow> buf_put h i 0 buf = take (4 * i) buf @ replicate 4 0 @ drop (4 * i + 4) buf"
  by (simp add: buf_put_def raw_split_def le_split_def map_replicate_const)

lemma zero_pad_effect:
  assumes "i \<le> 14" "length buf = 64"
  shows "zero_pad h i buf = take (4 * i) buf @ replicate (56 - 4 * i) 0 @ drop 56 buf"
  using assms
proof (induction h i buf rule: zero_pad.induct)
  case (1 h i buf)
  show ?case
  proof (cases "i < 14")
    case True
    define buf1 where "buf1 = buf_put h i 0 buf"
    have b: "buf1 = take (4 * i) buf @ replicate 4 0 @ drop (4 * i + 4) buf"
      using True by (simp add: buf1_def buf_put_zero)
    have "zero_pad h i buf = zero_pad h (i + 1) buf1" using True by (simp add: zero_pad.simps [of h i] buf1_def)
    also have "\<dots> = take (4 * (i + 1)) buf1 @ replicate (56 - 4 * (i + 1)) 0 @ drop 56 buf1"
      using 1 True b by (simp add: buf1_def)
    also have "take (4 * (i + 1)) buf1 = take (4 * i) buf @ replicate 4 0"
      using 1 True by (simp add: b)
    also have "drop 56 buf1 = drop 56 buf" using 1 True by (simp add: b)
    also have "(take (4 * i) buf @ replicate 4 0) @ replicate (56 - 4 * (i + 1)) 0 @ drop 56 buf =
        take (4 * i) buf @ replicate (4 + (56 - 4 * (i + 1))) 0 @ drop 56 buf"
      by (simp add: replicate_add)
    also have "4 + (56 - 4 * (i + 1)) = 56 - 4 * i" using True by simp
    finally show ?thesis .
  next
    case False
    with 1 have "i = 14" by simp
    with 1 show ?thesis by (simp add: zero_pad.simps [of h 14])
  qed
qed

lemma buf_put_counts:
  assumes "length buf = 64"
  shows "buf_put h 15 (swap_b32 h lo) (buf_put h 14 (swap_b32 h hi) buf) =
    take 56 buf @ rev (le_split 4 hi) @ rev (le_split 4 lo)"
  using assms by (simp add: buf_put_def swap_b32_byte_swap swap_on_le_split)

lemma sha1_length_words:
  "sha1_length m = rev (le_split 4 (push_bit 3 (of_nat (length m div 2 ^ 32)) OR drop_bit 29 (of_nat (length m)) :: u32))
     @ rev (le_split 4 (push_bit 3 (of_nat (length m)) :: u32))"
proof -
  define n where "n = length m"
  define w where "w = (of_nat (8 * n) :: u64)"
  have w: "bit w k \<longleftrightarrow> k < 64 \<and> 3 \<le> k \<and> bit n (k - 3)" for k
  proof -
    have "8 * n = push_bit 3 n" by (simp add: push_bit_eq_mult)
    then show ?thesis unfolding w_def by (simp only: bit_of_nat_iff possible_bit_word bit_push_bit_iff possible_bit_word) auto
  qed
  have hi: "ucast (drop_bit 32 w) = (push_bit 3 (of_nat (n div 2 ^ 32)) OR drop_bit 29 (of_nat n) :: u32)" (is "?l = ?r")
  proof (rule bit_word_eqI)
    fix k assume k: "k < LENGTH(32)"
    have "n div 2 ^ 32 = drop_bit 32 n" by (simp add: drop_bit_eq_div)
    then show "bit ?l k \<longleftrightarrow> bit ?r k"
      using k by (auto simp: bit_ucast_iff bit_drop_bit_eq w bit_or_iff bit_push_bit_iff bit_of_nat_iff possible_bit_word
          simp del: drop_bit_of_nat)
  qed
  have lo: "ucast w = (push_bit 3 (of_nat n) :: u32)"
    by (rule bit_word_eqI) (auto simp: bit_ucast_iff w bit_push_bit_iff bit_of_nat_iff possible_bit_word)
  have "le_split 8 w = le_split 4 (ucast w :: u32) @ le_split 4 (ucast (drop_bit 32 w) :: u32)"
  proof (rule nth_equalityI)
    fix i assume "i < length (le_split 8 w)"
    then have i: "i < 8" by simp
    show "le_split 8 w ! i = (le_split 4 (ucast w :: u32) @ le_split 4 (ucast (drop_bit 32 w) :: u32)) ! i"
    proof (cases "i < 4")
      case False
      with i obtain j where "i = 4 + j" "j < 4" by (metis add_less_cancel_left le_add_diff_inverse not_less numeral_Bit0)
      then show ?thesis by (auto simp: nth_append bit_simps algebra_simps intro!: bit_word_eqI)
    qed (auto simp: nth_append bit_simps intro!: bit_word_eqI)
  qed simp
  then show ?thesis unfolding hi lo by (simp add: sha1_length_def w_def n_def)
qed

subsection \<open>Finishing\<close>

lemma hash_regs_buffer [simp]: "hash_regs (s\<lparr>m_nBuffer := b\<rparr>) = hash_regs s"
  by (simp add: hash_regs_def)

lemma GetHash_digest: "GetHash s = sha1_digest (hash_regs s)"
  by (simp add: GetHash_def hash_regs_def le_split_def upt_rec)

lemma first_padding:
  assumes "length buf = 64" "i < 64"
  shows "buf_put h (i div 4) ((buf_get h (i div 4) buf AND sha_mask h ! (i mod 4)) OR sha_bits h ! (i mod 4)) buf =
    take i buf @ 0x80 # replicate (3 - i mod 4) 0 @ drop (4 * (i div 4) + 4) buf"
proof -
  have "4 * (i div 4) + 4 \<le> 64" using assms(2) by presburger
  then have "length (take 4 (drop (4 * (i div 4)) buf)) = 4" using assms(1) by simp
  moreover have "take (4 * (i div 4)) buf @ take (i mod 4) (drop (4 * (i div 4)) buf) = take i buf"
    by (metis mult_div_mod_eq take_add)
  ultimately show ?thesis
    using assms by (simp add: buf_put_def buf_get_def pad_word)
qed

lemma take_pad: "k = length r + 1 + n \<Longrightarrow> take k (r @ x # replicate n y @ t) = r @ x # replicate n y"
  by simp

lemma Finish_short:
  assumes "absorbed m s" "length m mod 64 \<le> 55"
  shows "snd (Finish h s) = sha1 m"
proof -
  define i r where "i = length m mod 64" and "r = sha1_rest m"
  have i: "unat (m_nCount0 s AND SHA1_MASK) = i" "i \<le> 55"
    using assms by (simp_all add: absorbed_def SHA1_MASK_pos i_def)
  have buf: "length (m_nBuffer s) = 64" "take i (m_nBuffer s) = r"
    using assms by (simp_all add: absorbed_def i_def r_def length_sha1_rest)
  have len: "length r = i" by (simp add: i_def r_def length_sha1_rest)
  define buf1 where "buf1 = r @ 0x80 # replicate (3 - i mod 4) 0 @ drop (4 * (i div 4) + 4) (m_nBuffer s)"
  define hi lo where "hi = (push_bit 3 (m_nCount1 s) OR drop_bit 29 (m_nCount0 s))" and "lo = push_bit 3 (m_nCount0 s)"
  have q: "4 * (i div 4 + 1) = i + 1 + (3 - i mod 4)" "i div 4 + 1 \<le> 14" using i(2) by presburger+
  have len1: "length buf1 = 64" using buf(1) i(2) len q by (simp add: buf1_def)
  have "zero_pad h (i div 4 + 1) buf1 = take (4 * (i div 4 + 1)) buf1 @ replicate (56 - 4 * (i div 4 + 1)) 0 @ drop 56 buf1"
    using q(2) len1 by (rule zero_pad_effect)
  also have "take (4 * (i div 4 + 1)) buf1 = r @ 0x80 # replicate (3 - i mod 4) 0"
    using len unfolding q(1) buf1_def by (intro take_pad) simp
  finally have zp: "zero_pad h (i div 4 + 1) buf1 = r @ 0x80 # replicate (55 - i) 0 @ drop 56 buf1"
    using q i(2) by (simp add: replicate_add [symmetric])
  have tp: "take 56 (r @ 0x80 # replicate (55 - i) 0 @ drop 56 buf1) = r @ 0x80 # replicate (55 - i) 0"
    using len i(2) by (intro take_pad) simp
  define blk where "blk = r @ 0x80 # replicate (55 - i) 0 @ sha1_length m"
  have "buf_put h 15 (swap_b32 h lo) (buf_put h 14 (swap_b32 h hi) (zero_pad h (i div 4 + 1) buf1)) = blk"
    unfolding zp using assms(1) len1 len i(2)
    by (subst buf_put_counts) (simp_all only: tp, simp_all add: blk_def sha1_length_words hi_def lo_def absorbed_def)
  moreover have "\<not> 55 < i" using i(2) by simp
  ultimately have F: "snd (Finish h s) = GetHash (Compile h (s\<lparr>m_nBuffer := blk\<rparr>))"
    using first_padding [of "m_nBuffer s" i h] buf i(2)
    by (simp add: Finish_def i(1) Let_def buf1_def hi_def lo_def)
  have blk: "length blk = 64" using len i(2) by (simp add: blk_def sha1_length_def)
  have "sha1_pad m = m @ 0x80 # replicate (55 - i) 0 @ sha1_length m"
    using assms(2) by (simp add: sha1_pad_def sha1_zeros_def i_def)
  then have "sha1_blocks (sha1_pad m) = sha1_blocks m @ [blk]"
    using sha1_blocks_single [OF blk] sha1_blocks_append [of m "0x80 # replicate (55 - i) 0 @ sha1_length m"]
    by (simp add: r_def blk_def)
  then show ?thesis
    using Compile_effect(1) [of "s\<lparr>m_nBuffer := blk\<rparr>" h] blk assms(1)
    by (simp add: F sha1_def GetHash_digest absorbed_def)
qed

lemma Finish_long:
  assumes "absorbed m s" "55 < length m mod 64"
  shows "snd (Finish h s) = sha1 m"
proof -
  define i r where "i = length m mod 64" and "r = sha1_rest m"
  have i: "unat (m_nCount0 s AND SHA1_MASK) = i" "55 < i" "i < 64"
    using assms by (simp_all add: absorbed_def SHA1_MASK_pos i_def)
  have buf: "length (m_nBuffer s) = 64" "take i (m_nBuffer s) = r"
    using assms by (simp_all add: absorbed_def i_def r_def length_sha1_rest)
  have len: "length r = i" by (simp add: i_def r_def length_sha1_rest)
  define buf1 where "buf1 = r @ 0x80 # replicate (3 - i mod 4) 0 @ drop (4 * (i div 4) + 4) (m_nBuffer s)"
  define hi lo where "hi = (push_bit 3 (m_nCount1 s) OR drop_bit 29 (m_nCount0 s))" and "lo = push_bit 3 (m_nCount0 s)"
  define blk1 where "blk1 = r @ 0x80 # replicate (63 - i) 0"
  define blk2 where "blk2 = replicate 56 0 @ sha1_length m"
  have blk: "length blk1 = 64" "length blk2 = 64" using len i by (simp_all add: blk1_def blk2_def sha1_length_def)
  have b1: "buf_put h 15 0 buf1 = blk1" if "i < 60"
  proof -
    have q: "4 * (i div 4) + 4 = 60" "i + 1 + (3 - i mod 4) = 60" using that i(2) by presburger+
    then have "buf1 = r @ 0x80 # replicate (59 - i) 0 @ drop 60 (m_nBuffer s)"
      using that by (simp add: buf1_def)
    moreover have "take 60 (r @ 0x80 # replicate (59 - i) 0 @ drop 60 (m_nBuffer s)) = r @ 0x80 # replicate (59 - i) 0"
      using that len by (intro take_pad) simp
    ultimately have "buf_put h 15 0 buf1 = r @ 0x80 # replicate (59 - i) 0 @ replicate 4 0"
      using len i(3) buf(1) q by (simp add: buf_put_zero)
    also have "\<dots> = blk1" using that by (simp add: blk1_def replicate_add [symmetric])
    finally show ?thesis .
  qed
  have b2: "buf1 = blk1" if "\<not> i < 60"
  proof -
    have "4 * (i div 4) + 4 = 64" "3 - i mod 4 = 63 - i" using that i(3) by presburger+
    then show ?thesis using buf by (simp add: buf1_def blk1_def)
  qed
  define s1 where "s1 = Compile h (s\<lparr>m_nBuffer := blk1\<rparr>)"
  have s1: "hash_regs s1 = sha1_block blk1 (hash_regs s)" "m_nBuffer s1 = blk1"
      "m_nCount0 s1 = m_nCount0 s" "m_nCount1 s1 = m_nCount1 s"
    using Compile_effect [of "s\<lparr>m_nBuffer := blk1\<rparr>" h] blk by (simp_all add: s1_def)
  have zp: "zero_pad h 0 blk1 = replicate 56 0 @ drop 56 blk1" using blk(1) by (simp add: zero_pad_effect)
  have "buf_put h 15 (swap_b32 h lo) (buf_put h 14 (swap_b32 h hi) (zero_pad h 0 blk1)) = blk2"
    using assms(1) blk by (subst buf_put_counts) (simp_all add: zp blk2_def sha1_length_words hi_def lo_def absorbed_def)
  moreover have "buf_put h (i div 4) ((buf_get h (i div 4) (m_nBuffer s) AND sha_mask h ! (i mod 4)) OR sha_bits h ! (i mod 4))
      (m_nBuffer s) = buf1"
    using first_padding [OF buf(1) i(3)] by (simp add: buf1_def buf)
  moreover have "Compile h (s\<lparr>m_nBuffer := blk1\<rparr>) = s1" by (simp add: s1_def)
  ultimately have F: "snd (Finish h s) = GetHash (Compile h (s1\<lparr>m_nBuffer := blk2\<rparr>))"
    using i(2) by (simp add: Finish_def i(1) Let_def hi_def lo_def b1 b2 s1)
  have "sha1_zeros (length m) = 63 - i + 56" using assms(2) i by (simp add: sha1_zeros_def i_def)
  then have "sha1_pad m = m @ (0x80 # replicate (63 - i) 0) @ blk2"
    by (simp add: sha1_pad_def blk2_def replicate_add)
  moreover have "sha1_blocks (blk1 @ blk2) = [blk1, blk2]"
    using blk sha1_blocks_append [of blk1 blk2] by (simp add: sha1_blocks_single sha1_rest_def)
  ultimately have "sha1_blocks (sha1_pad m) = sha1_blocks m @ [blk1, blk2]"
    by (simp add: sha1_blocks_append [of m] r_def blk1_def)
  then show ?thesis
    using Compile_effect(1) [of "s1\<lparr>m_nBuffer := blk2\<rparr>" h] blk s1 assms(1)
    by (simp add: F sha1_def GetHash_digest absorbed_def)
qed

lemma Finish_absorbed: "absorbed m s \<Longrightarrow> snd (Finish h s) = sha1 m"
  using Finish_short Finish_long by (cases "length m mod 64 \<le> 55") auto

lemma length_sha1: "length (sha1 m) = 20"
  by (cases "fold sha1_block (sha1_blocks (sha1_pad m)) sha1_init") (simp add: sha1_def)

subsection \<open>The interface\<close>

text \<open>What a client of the abstract class \<open>CAICHHashAlgo\<close> relies on: after \<open>Reset\<close> the object has
  seen no data whatever it did before, \<open>Add\<close> appends to the data seen, and \<open>Finish\<close> yields the
  digest of that data.\<close>

locale hash_algo =
  fixes reset :: "'s \<Rightarrow> 's" and add :: "u8 list \<Rightarrow> 's \<Rightarrow> 's" and finish :: "'s \<Rightarrow> u8 list"
    and usable :: "'s \<Rightarrow> bool" and seen :: "u8 list \<Rightarrow> 's \<Rightarrow> bool" and digest :: "u8 list \<Rightarrow> u8 list"
  assumes seen_reset: "usable s \<Longrightarrow> seen [] (reset s)"
    and seen_add: "seen m s \<Longrightarrow> length d < 2 ^ 32 \<Longrightarrow> seen (m @ d) (add d s)"
    and finish_digest: "seen m s \<Longrightarrow> finish s = digest m"
begin

lemma seen_fold:
  "seen m s \<Longrightarrow> \<forall>d \<in> set ds. length d < 2 ^ 32 \<Longrightarrow> seen (m @ concat ds) (fold add ds s)"
proof (induction ds arbitrary: m s)
  case (Cons d ds)
  from Cons.IH [OF seen_add [OF Cons.prems(1)]] Cons.prems(2) show ?case by simp
qed simp

lemma session:
  "usable s \<Longrightarrow> \<forall>d \<in> set ds. length d < 2 ^ 32 \<Longrightarrow> finish (fold add ds (reset s)) = digest (concat ds)"
  using seen_fold [OF seen_reset] finish_digest by fastforce

end

interpretation csha: hash_algo Reset "Add h" "\<lambda>s. snd (Finish h s)" "\<lambda>s. length (m_nBuffer s) = 64" absorbed sha1
  by unfold_locales (simp_all add: Reset_absorbed Add_absorbed Finish_absorbed)

subsection \<open>Properties\<close>

text \<open>C8: After a reset, whatever the object was used for before, any sequence of calls to \<open>Add\<close>
  followed by \<open>Finish\<close> yields the SHA-1 digest of the concatenation of the data, as the standard
  defines it, on little-endian and on big-endian hosts, however the data is cut into pieces and
  however long it is.\<close>

theorem CSHA_computes_sha1:
  assumes "length (m_nBuffer s) = 64" "\<forall>d \<in> set ds. length d < 2 ^ 32"
  shows "snd (Finish h (fold (Add h) ds (Reset s))) = sha1 (concat ds)"
  using assms by (rule csha.session)

definition csha_fresh :: CSHA where
  "csha_fresh = \<lparr>m_nCount0 = 0, m_nCount1 = 0, m_nHash = [], m_nBuffer = replicate 64 0\<rparr>"

text \<open>The standard's test vector, the digest of ``abc'': the message schedule of its only block
  and the registers after each group of rounds.\<close>

definition abc_schedule :: "u32 list" where
  "abc_schedule =
     [0x61626380, 0x00000000, 0x00000000, 0x00000000, 0x00000000, 0x00000000, 0x00000000, 0x00000000,
      0x00000000, 0x00000000, 0x00000000, 0x00000000, 0x00000000, 0x00000000, 0x00000000, 0x00000018,
      0xc2c4c700, 0x00000000, 0x00000030, 0x85898e01, 0x00000000, 0x00000060, 0x0b131c03, 0x00000030,
      0x85898ec1, 0x16263806, 0x00000000, 0x00000180, 0x2c4c700c, 0x000000f0, 0x93afb507, 0x5898e048,
      0x8e9a9202, 0x00000600, 0xb131c0f0, 0x16263bc6, 0x4ebed41e, 0x626380a1, 0x16263806, 0x000018c0,
      0xd2e138c4, 0x00000f00, 0x3afb5079, 0x898e04e5, 0xe2ba3c2b, 0x000060c0, 0x053a37cd, 0x74458547,
      0xda9415ed, 0x26380a16, 0x626383a1, 0x4ebf54de, 0x3835b44b, 0x0000f600, 0x1e84c7a3, 0x98e04d98,
      0x651d16a0, 0x62658ca1, 0x458544d6, 0x44584cb7, 0x7ba06619, 0x6380aea2, 0x0ae55269, 0x627b49a1,
      0x7cd45c9d, 0x000f0000, 0xfb50753a, 0xec6765e8, 0xba3c2be2, 0x0060c000, 0x3a37cd05, 0x458546f4,
      0xb8599dd6, 0x380a1a26, 0x01e02203, 0xe7cc3456, 0xe6e60b69, 0x00f60a00, 0x5795ef4f, 0x822e0879]"

lemma abc_expand: "fold expand_step [16..<80] (take 16 abc_schedule) = abc_schedule"
  by (simp add: abc_schedule_def expand_step_def rotl32_def upt_rec)

lemma abc_rounds_0:
  "fold (rnd ch 0x5a827999 abc_schedule) [0..<20]
     (0x67452301, 0xefcdab89, 0x98badcfe, 0x10325476, 0xc3d2e1f0) =
     (0xfd9e1d7d, 0xdc64901d, 0x20aa99ca, 0xd3a49608, 0xc82f758b)"
  by (simp add: abc_schedule_def rotl32_def ch_def upt_rec)

lemma abc_rounds_20:
  "fold (rnd parity 0x6ed9eba1 abc_schedule) [20..<40]
     (0xfd9e1d7d, 0xdc64901d, 0x20aa99ca, 0xd3a49608, 0xc82f758b) =
     (0x32de1cba, 0x4c986405, 0xf718e5cf, 0x03d447f6, 0xf72eec32)"
  by (simp add: abc_schedule_def rotl32_def parity_def upt_rec)

lemma abc_rounds_40:
  "fold (rnd maj 0x8f1bbcdc abc_schedule) [40..<60]
     (0x32de1cba, 0x4c986405, 0xf718e5cf, 0x03d447f6, 0xf72eec32) =
     (0x3f52de5a, 0x09d785fd, 0x3498bfd4, 0xf211824f, 0xd79915ab)"
  by (simp add: abc_schedule_def rotl32_def maj_def upt_rec)

lemma abc_rounds_60:
  "fold (rnd parity 0xca62c1d6 abc_schedule) [60..<80]
     (0x3f52de5a, 0x09d785fd, 0x3498bfd4, 0xf211824f, 0xd79915ab) =
     (0x42541b35, 0x5738d5e1, 0x21834873, 0x681e6df6, 0xd8fdf6ad)"
  by (simp add: abc_schedule_def rotl32_def parity_def upt_rec)

definition abc_block :: "u8 list" where
  "abc_block =
     [0x61, 0x62, 0x63, 0x80,
      0, 0, 0, 0, 0, 0, 0, 0, 0, 0, 0, 0, 0, 0, 0, 0, 0, 0, 0, 0, 0, 0, 0, 0, 0, 0,
      0, 0, 0, 0, 0, 0, 0, 0, 0, 0, 0, 0, 0, 0, 0, 0, 0, 0, 0, 0, 0, 0, 0, 0, 0, 0,
      0, 0, 0, 0, 0, 0, 0, 0x18]"

lemma abc_words: "sha1_words abc_block = take 16 abc_schedule"
  by (simp add: sha1_words_def abc_block_def abc_schedule_def upt_rec push_bit_eq_mult)

lemma abc_pad: "sha1_pad [0x61, 0x62, 0x63] = abc_block"
proof -
  have "replicate 52 0 = ((\<lambda>x. x @ x @ x @ x @ x @ x @ x @ x @ x @ x @ x @ x @ x) [0, 0, 0, 0] :: u8 list)"
    by (simp add: numeral_eq_Suc)
  then show ?thesis
    by (simp add: sha1_pad_def sha1_zeros_def sha1_length_def abc_block_def le_split_def upt_rec)
qed

lemma sha1_abc:
  "sha1 [0x61, 0x62, 0x63] =
    [0xa9, 0x99, 0x3e, 0x36, 0x47, 0x06, 0x81, 0x6a, 0xba, 0x3e,
     0x25, 0x71, 0x78, 0x50, 0xc2, 0x6c, 0x9c, 0xd0, 0xd8, 0x9d]"
proof -
  define s where "s = \<lparr>m_nCount0 = 0, m_nCount1 = 0,
     m_nHash = [0x67452301, 0xefcdab89, 0x98badcfe, 0x10325476, 0xc3d2e1f0], m_nBuffer = abc_block\<rparr>"
  have len: "length abc_block = 64" by (simp add: abc_block_def)
  have "m_nHash (Compile BigEndian s) = [0xa9993e36, 0x4706816a, 0xba3e2571, 0x7850c26c, 0x9cd0d89d]"
    using len
    by (simp add: Compile_def s_def Compile_words abc_words abc_expand abc_rounds_0 abc_rounds_20 abc_rounds_40
        abc_rounds_60 del: upt_rec_numeral)
  then have "sha1_block abc_block sha1_init = (0xa9993e36, 0x4706816a, 0xba3e2571, 0x7850c26c, 0x9cd0d89d)"
    using Compile_effect(1) [of s BigEndian] len by (simp add: s_def hash_regs_def sha1_init_def)
  then show ?thesis
    using len by (simp add: sha1_def abc_pad sha1_blocks_single le_split_def upt_rec)
qed

theorem CSHA_computes_sha1_witness:
  "snd (Finish LittleEndian (fold (Add LittleEndian) [[0x61, 0x62], [0x63]] (Reset csha_fresh))) =
     [0xa9, 0x99, 0x3e, 0x36, 0x47, 0x06, 0x81, 0x6a, 0xba, 0x3e,
      0x25, 0x71, 0x78, 0x50, 0xc2, 0x6c, 0x9c, 0xd0, 0xd8, 0x9d]"
  using CSHA_computes_sha1 [of csha_fresh "[[0x61, 0x62], [0x63]]" LittleEndian] sha1_abc
  by (simp add: csha_fresh_def)

end
