(* ===== verification/Constants.thy ===== *)
theory Constants
  imports Prelude
begin

text \<open>
  The sizes that the file transfer code shares (src/amule-3.0.1/src/include/protocol/ed2k/Constants.h):
  a file is cut into parts, and a part into blocks.
\<close>

definition PARTSIZE :: u64 where
  "PARTSIZE = 9728000"

text \<open>A 32-bit constant that expressions with 64-bit operands convert.\<close>

definition EMBLOCKSIZE :: "'a::len word" where
  "EMBLOCKSIZE = 184320"

definition OLD_MAX_FILE_SIZE :: u64 where
  "OLD_MAX_FILE_SIZE = 4290048000"

definition MAX_FILE_SIZE :: u64 where
  "MAX_FILE_SIZE = 0x4000000000"

end
