(* ===== verification/AICHHashTree.thy ===== *)
theory AICHHashTree
  imports SHA SafeFile Constants
begin

text \<open>
  \<open>CAICHHashTree\<close> (src/amule-3.0.1/src/SHAHashSet.h and SHAHashSet.cpp): the binary tree of
  hashes over a file. A node covers a range of the file; a range of more than one part is split
  between parts, a part between blocks, and the left child gets the bigger half when the node is
  itself a left child. A node's hash, when it is valid, is the digest of the hashes of its two
  children; the nodes are created when a function first walks through them.

  A tree is a datatype value, a function that changes it returns the new tree, a pointer to a
  node is the list of left and right steps that leads to it. The hash algorithm is an argument,
  the digest of a sequence of added pieces (\<open>CSHA_alg\<close> is the one that the program uses).
\<close>

subsection \<open>Nodes\<close>

text \<open>A hash is its buffer of 20 bytes.\<close>

definition HASHSIZE :: nat where
  "HASHSIZE = 20"

type_synonym CAICHHash = "u8 list"

definition CAICHHash_new :: CAICHHash where
  "CAICHHash_new = replicate HASHSIZE 0"

definition CAICHHash_Read :: "'s file_ops \<Rightarrow> ('s, CAICHHash) io" where
  "CAICHHash_Read V = Read V HASHSIZE"

definition CAICHHash_Write :: "'s file_ops \<Rightarrow> CAICHHash \<Rightarrow> ('s, unit) io" where
  "CAICHHash_Write V h = Write V h"

datatype aich_tree = HashTree (m_Hash: CAICHHash) (m_nDataSize: u64) (m_nBaseSize: u64)
  (m_bIsLeftBranch: bool) (m_bHashValid: bool) (m_pLeftTree: "aich_tree option") (m_pRightTree: "aich_tree option")

definition CAICHHashTree :: "u64 \<Rightarrow> bool \<Rightarrow> u64 \<Rightarrow> aich_tree" where
  "CAICHHashTree nDataSize bLeftBranch nBaseSize =
     HashTree CAICHHash_new nDataSize nBaseSize bLeftBranch False None None"

text \<open>The size that a node hands to its left child; the same three lines in four functions. The
  child is created when it is missing.\<close>

definition tree_nLeft :: "u64 \<Rightarrow> u64 \<Rightarrow> bool \<Rightarrow> u64" where
  "tree_nLeft nDataSize nBaseSize bIsLeftBranch =
     (let nBlocks = nDataSize div nBaseSize + (if nDataSize mod nBaseSize \<noteq> 0 then 1 else 0)
      in ((if bIsLeftBranch then nBlocks + 1 else nBlocks) div 2) * nBaseSize)"

definition child_base :: "u64 \<Rightarrow> u64" where
  "child_base n = (if n \<le> PARTSIZE then EMBLOCKSIZE else PARTSIZE)"

definition or_new :: "aich_tree option \<Rightarrow> u64 \<Rightarrow> bool \<Rightarrow> aich_tree" where
  "or_new p n left = (case p of Some t \<Rightarrow> t | None \<Rightarrow> CAICHHashTree n left (child_base n))"

text \<open>A pointer into the tree is the way to it from the root, \<open>True\<close> for a step to the left.\<close>

fun node_at :: "bool list \<Rightarrow> aich_tree \<Rightarrow> aich_tree option" where
  "node_at [] t = Some t"
| "node_at (d # p) t = (case if d then m_pLeftTree t else m_pRightTree t of Some c \<Rightarrow> node_at p c | None \<Rightarrow> None)"

fun update_at :: "bool list \<Rightarrow> (aich_tree \<Rightarrow> aich_tree) \<Rightarrow> aich_tree \<Rightarrow> aich_tree" where
  "update_at [] f t = f t"
| "update_at (d # p) f (HashTree h ds bs lb v l r) =
     (if d then HashTree h ds bs lb v (map_option (update_at p f) l) r
      else HashTree h ds bs lb v l (map_option (update_at p f) r))"

subsection \<open>Finding a node\<close>

text \<open>The result is the pointer, the level counter and the tree with the nodes that were created
  on the way. The counter is a byte that wraps from 255 to 0.\<close>

definition levels_left :: "u8 \<Rightarrow> nat" where
  "levels_left nLevel = (if nLevel = 255 then 24 else 23 - unat nLevel)"

lemma levels_left_step:
  assumes "nLevel + 1 \<le> 22"
  shows "levels_left (nLevel + 1) < levels_left nLevel"
proof (cases "nLevel = 255")
  case False
  then have "unat nLevel \<noteq> 255" by (simp add: word_unat_eq_iff)
  moreover have "unat nLevel < 256" by simp
  ultimately have "unat nLevel + 1 < 256" by linarith
  then have "unat (nLevel + 1) = unat nLevel + 1" by (simp add: unat_add_1)
  then show ?thesis using assms False by (auto simp: levels_left_def word_le_nat_alt)
qed (simp add: levels_left_def)

function FindHash :: "u64 \<Rightarrow> u64 \<Rightarrow> u8 \<Rightarrow> aich_tree \<Rightarrow> bool list option \<times> u8 \<times> aich_tree" where
  "FindHash nStartPos nSize nLevel (HashTree h ds bs lb v l r) =
     (let nLevel = nLevel + 1; t = HashTree h ds bs lb v l r in
      if \<not> nLevel \<le> 22 then (None, nLevel, t)
      else if \<not> nStartPos + nSize \<le> ds then (None, nLevel, t)
      else if \<not> nSize \<le> ds then (None, nLevel, t)
      else if nStartPos = 0 \<and> nSize = ds then (Some [], nLevel, t)
      else if ds \<le> bs then (None, nLevel, t)
      else let nLeft = tree_nLeft ds bs lb; nRight = ds - nLeft in
        if nStartPos < nLeft then
          if nStartPos + nSize > nLeft then (None, nLevel, t)
          else (case FindHash nStartPos nSize nLevel (or_new l nLeft True) of (p, nLevel, l') \<Rightarrow>
            (map_option ((#) True) p, nLevel, HashTree h ds bs lb v (Some l') r))
        else let nStartPos = nStartPos - nLeft in
          if nStartPos + nSize > nRight then (None, nLevel, t)
          else (case FindHash nStartPos nSize nLevel (or_new r nRight False) of (p, nLevel, r') \<Rightarrow>
            (map_option ((#) False) p, nLevel, HashTree h ds bs lb v l (Some r'))))"
  by pat_completeness auto
termination
  by (relation "measure (\<lambda>(nStartPos, nSize, nLevel, t). levels_left nLevel)") (auto intro: levels_left_step)

declare FindHash.simps [simp del]

subsection \<open>Calculating and verifying\<close>

text \<open>The algorithm object is given by the digest of what is added after a reset. \<open>hash_pair\<close> is
  the sequence \<open>Reset\<close>, two calls of \<open>Add\<close>, \<open>Finish\<close>.\<close>

type_synonym hashalg = "u8 list list \<Rightarrow> CAICHHash"

definition CSHA_alg :: "host \<Rightarrow> hashalg" where
  "CSHA_alg h ds = snd (Finish h (fold (SHA.Add h) ds (Reset csha_fresh)))"

definition hash_pair :: "hashalg \<Rightarrow> aich_tree \<Rightarrow> aich_tree \<Rightarrow> CAICHHash" where
  "hash_pair alg l r = alg [m_Hash l, m_Hash r]"

fun ReCalculateHash :: "hashalg \<Rightarrow> bool \<Rightarrow> aich_tree \<Rightarrow> bool \<times> aich_tree" where
  "ReCalculateHash alg bDontReplace (HashTree h ds bs lb v (Some l) (Some r)) =
     (case ReCalculateHash alg bDontReplace l of (ok1, l') \<Rightarrow>
        if \<not> ok1 then (False, HashTree h ds bs lb v (Some l') (Some r))
        else case ReCalculateHash alg bDontReplace r of (ok2, r') \<Rightarrow>
          if \<not> ok2 then (False, HashTree h ds bs lb v (Some l') (Some r'))
          else if bDontReplace \<and> v then (True, HashTree h ds bs lb v (Some l') (Some r'))
          else if m_bHashValid r' \<and> m_bHashValid l'
          then (True, HashTree (hash_pair alg l' r') ds bs lb True (Some l') (Some r'))
          else (v, HashTree h ds bs lb v (Some l') (Some r')))"
| "ReCalculateHash alg bDontReplace (HashTree h ds bs lb v None None) = (True, HashTree h ds bs lb v None None)"
| "ReCalculateHash alg bDontReplace t = (False, t)"

primrec height :: "aich_tree \<Rightarrow> nat" where
  "height (HashTree h ds bs lb v l r) =
     Suc (max (case map_option height l of None \<Rightarrow> 0 | Some n \<Rightarrow> n) (case map_option height r of None \<Rightarrow> 0 | Some n \<Rightarrow> n))"

lemma height_ReCalculateHash [simp]: "height (snd (ReCalculateHash alg b t)) = height t"
  by (induction alg b t rule: ReCalculateHash.induct) (auto split: prod.splits)

text \<open>A missing hash is calculated from the hashes below it, without overwriting any.\<close>

definition fill_child :: "hashalg \<Rightarrow> aich_tree option \<Rightarrow> aich_tree option" where
  "fill_child alg p = (case p of None \<Rightarrow> None
     | Some t \<Rightarrow> Some (if \<not> m_bHashValid t then snd (ReCalculateHash alg True t) else t))"

definition child_valid :: "aich_tree option \<Rightarrow> bool" where
  "child_valid p \<longleftrightarrow> (case p of None \<Rightarrow> False | Some t \<Rightarrow> m_bHashValid t)"

lemma fill_child_simps [simp]:
  "fill_child alg None = None" "child_valid None = False" "child_valid (Some t) = m_bHashValid t"
  "height (the (fill_child alg (Some t))) = height t"
  by (simp_all add: fill_child_def child_valid_def)

function VerifyHashTree :: "hashalg \<Rightarrow> bool \<Rightarrow> aich_tree \<Rightarrow> bool \<times> aich_tree" where
  "VerifyHashTree alg bDelete (HashTree h ds bs lb v l r) =
     (let bad = (\<lambda>l r. (False, if bDelete then HashTree h ds bs lb v None None else HashTree h ds bs lb v l r)) in
      if \<not> v then bad l r
      else let l = fill_child alg l; r = fill_child alg r in
        if child_valid r \<noteq> child_valid l then bad l r
        else if child_valid r \<and> child_valid l then
          (if h \<noteq> hash_pair alg (the l) (the r) then bad l r
           else case VerifyHashTree alg bDelete (the l) of (ok1, l') \<Rightarrow>
             if \<not> ok1 then (False, HashTree h ds bs lb v (Some l') r)
             else case VerifyHashTree alg bDelete (the r) of (ok2, r') \<Rightarrow>
               (ok2, HashTree h ds bs lb v (Some l') (Some r')))
        else (True, HashTree h ds bs lb v l r))"
  by pat_completeness auto
termination
proof (relation "measure (\<lambda>(alg, bDelete, t). height t)", goal_cases)
  case 1
  show ?case by simp
next
  case (2 alg bDelete h ds bs lb v l r)
  then show ?case by (cases l; cases r) auto
next
  case (3 alg bDelete h ds bs lb v l r)
  then show ?case by (cases l; cases r) auto
qed

declare VerifyHashTree.simps [simp del]

definition set_tree_hash :: "CAICHHash \<Rightarrow> aich_tree \<Rightarrow> aich_tree" where
  "set_tree_hash h t = HashTree h (m_nDataSize t) (m_nBaseSize t) (m_bIsLeftBranch t) True (m_pLeftTree t) (m_pRightTree t)"

text \<open>The digest that the algorithm object has ready for \<open>Finish\<close> is the argument.\<close>

definition SetBlockHash :: "u64 \<Rightarrow> u64 \<Rightarrow> CAICHHash \<Rightarrow> aich_tree \<Rightarrow> aich_tree" where
  "SetBlockHash nSize nStartPos hash t =
     (case FindHash nStartPos nSize 0 t of
        (None, _, t') \<Rightarrow> t'
      | (Some p, _, t') \<Rightarrow> (case node_at p t' of
          None \<Rightarrow> t'
        | Some n \<Rightarrow> if m_nBaseSize n \<noteq> EMBLOCKSIZE \<or> m_nDataSize n \<noteq> nSize then t'
                    else update_at p (set_tree_hash hash) t'))"

subsection \<open>Writing hashes\<close>

definition ident_step :: "u32 \<Rightarrow> bool \<Rightarrow> u32" where
  "ident_step wHashIdent bIsLeftBranch = push_bit 1 wHashIdent OR (if bIsLeftBranch then 1 else 0)"

definition write_ident :: "'s file_ops \<Rightarrow> u32 \<Rightarrow> bool \<Rightarrow> ('s, unit) io" where
  "write_ident V wHashIdent b32BitIdent =
     (if \<not> b32BitIdent then WriteUInt16 V (ucast wHashIdent) else WriteUInt32 V wHashIdent)"

definition WriteTreeHash :: "'s file_ops \<Rightarrow> u32 \<Rightarrow> bool \<Rightarrow> aich_tree \<Rightarrow> ('s, unit) io" where
  "WriteTreeHash V wHashIdent b32BitIdent t =
     io_bind (write_ident V (ident_step wHashIdent (m_bIsLeftBranch t)) b32BitIdent) (\<lambda>_. CAICHHash_Write V (m_Hash t))"

fun WriteLowestLevelHashs :: "'s file_ops \<Rightarrow> u32 \<Rightarrow> bool \<Rightarrow> bool \<Rightarrow> aich_tree \<Rightarrow> ('s, bool) io" where
  "WriteLowestLevelHashs V wHashIdent bNoIdent b32BitIdent (HashTree h ds bs lb v None None) =
     (let wHashIdent = ident_step wHashIdent lb in
      if ds \<le> bs \<and> v then
        io_bind (if \<not> bNoIdent then write_ident V wHashIdent b32BitIdent else io_return ()) (\<lambda>_.
        io_bind (CAICHHash_Write V h) (\<lambda>_. io_return True))
      else io_return False)"
| "WriteLowestLevelHashs V wHashIdent bNoIdent b32BitIdent (HashTree h ds bs lb v (Some l) (Some r)) =
     (let wHashIdent = ident_step wHashIdent lb in
      io_bind (WriteLowestLevelHashs V wHashIdent bNoIdent b32BitIdent l) (\<lambda>ok.
        if ok then WriteLowestLevelHashs V wHashIdent bNoIdent b32BitIdent r else io_return False))"
| "WriteLowestLevelHashs V wHashIdent bNoIdent b32BitIdent t = io_return False"

fun CreatePartRecoveryData ::
  "'s file_ops \<Rightarrow> u64 \<Rightarrow> u64 \<Rightarrow> u32 \<Rightarrow> bool \<Rightarrow> aich_tree \<Rightarrow> ('s, bool) io" where
  "CreatePartRecoveryData V nStartPos nSize wHashIdent b32BitIdent (HashTree h ds bs lb v pl pr) =
     (if \<not> nStartPos + nSize \<le> ds then io_return False
      else if \<not> nSize \<le> ds then io_return False
      else if nStartPos = 0 \<and> nSize = ds
      then WriteLowestLevelHashs V wHashIdent False b32BitIdent (HashTree h ds bs lb v pl pr)
      else if ds \<le> bs then io_return False
      else let wHashIdent = ident_step wHashIdent lb; nLeft = tree_nLeft ds bs lb; nRight = ds - nLeft in
        case (pl, pr) of
          (Some l, Some r) \<Rightarrow>
            if nStartPos < nLeft then
              if nStartPos + nSize > nLeft \<or> \<not> m_bHashValid r then io_return False
              else io_bind (WriteTreeHash V wHashIdent b32BitIdent r) (\<lambda>_.
                CreatePartRecoveryData V nStartPos nSize wHashIdent b32BitIdent l)
            else let nStartPos = nStartPos - nLeft in
              if nStartPos + nSize > nRight \<or> \<not> m_bHashValid l then io_return False
              else io_bind (WriteTreeHash V wHashIdent b32BitIdent l) (\<lambda>_.
                CreatePartRecoveryData V nStartPos nSize wHashIdent b32BitIdent r)
        | _ \<Rightarrow> io_return False)"

declare CreatePartRecoveryData.simps [simp del]

subsection \<open>Reading hashes\<close>

text \<open>Reading changes the tree also when it ends in an exception: the tree is a second result.\<close>

definition read_node_hash :: "'s file_ops \<Rightarrow> aich_tree \<Rightarrow> 's \<Rightarrow> ('s, bool) res \<times> aich_tree" where
  "read_node_hash V t s =
     (case CAICHHash_Read V s of
        Ok h s' \<Rightarrow> (Ok True s', set_tree_hash h t)
      | Exc e s' \<Rightarrow> (Exc e s', t))"

lemma unat_nBlocks:
  fixes ds bs :: u64
  assumes "1 < bs"
  shows "unat (ds div bs + (if ds mod bs \<noteq> 0 then 1 else 0)) = unat ds div unat bs + (if unat ds mod unat bs \<noteq> 0 then 1 else 0)"
    and "unat ds div unat bs + (if unat ds mod unat bs \<noteq> 0 then 1 else 0) < 2 ^ 63 + 1"
proof -
  have bs: "2 \<le> unat bs" using assms by (simp add: word_less_nat_alt)
  have "unat ds div unat bs \<le> unat ds div 2" using bs by (simp add: div_le_mono2)
  also have "unat ds div 2 < 2 ^ 63" using unat_lt_64 [of ds] by (simp add: less_mult_imp_div_less del: unat_lt_64)
  finally have q: "unat ds div unat bs < 2 ^ 63" .
  then show "unat ds div unat bs + (if unat ds mod unat bs \<noteq> 0 then 1 else 0) < 2 ^ 63 + 1" by auto
  have "ds mod bs \<noteq> 0 \<longleftrightarrow> unat ds mod unat bs \<noteq> 0" by (metis unat_eq_zero unat_mod)
  then show "unat (ds div bs + (if ds mod bs \<noteq> 0 then 1 else 0)) = unat ds div unat bs + (if unat ds mod unat bs \<noteq> 0 then 1 else 0)"
    using q by (auto simp: unat_word_ariths unat_div)
qed

lemma ceil_div_less:
  fixes n b :: nat
  assumes "0 < b" "b < n" "q = n div b + (if n mod b \<noteq> 0 then 1 else 0)" "k \<le> q + 1"
  shows "k div 2 * b < n" "2 \<le> q" "(q - 1) * b < n" "n \<le> q * b"
proof -
  define m r where "m = n div b" and "r = n mod b"
  have n: "n = m * b + r" "r < b" using assms(1) by (simp_all add: m_def r_def)
  have "0 < m" using assms(1,2) by (simp add: m_def div_greater_zero_iff)
  moreover from this have "(m - 1) * b + b = m * b" by (simp add: algebra_simps)
  ultimately have qb: "(q - 1) * b < n" "n \<le> q * b"
    using assms(1) n unfolding assms(3) m_def [symmetric] r_def [symmetric] by auto
  show q: "2 \<le> q"
  proof (rule ccontr)
    assume "\<not> 2 \<le> q"
    then have "q * b \<le> 1 * b" by (intro mult_right_mono) auto
    with qb(2) assms(2) show False by simp
  qed
  then have "k div 2 \<le> q - 1" using assms(4) by linarith
  then have "k div 2 * b \<le> (q - 1) * b" by simp
  with qb(1) show "k div 2 * b < n" by linarith
  show "(q - 1) * b < n" "n \<le> q * b" by (fact qb)+
qed

lemma unat_tree_nLeft:
  assumes "1 < bs" "bs < ds" "q = unat ds div unat bs + (if unat ds mod unat bs \<noteq> 0 then 1 else 0)"
  shows "unat (tree_nLeft ds bs lb) = (q + (if lb then 1 else 0)) div 2 * unat bs"
    and "unat (tree_nLeft ds bs lb) < unat ds" "unat bs \<le> unat (tree_nLeft ds bs lb)"
proof -
  let ?n = "ds div bs + (if ds mod bs \<noteq> 0 then 1 else 0)"
  have q: "unat ?n = q" "q < 2 ^ 63 + 1" using unat_nBlocks [OF assms(1)] by (simp_all add: assms(3))
  have b: "0 < unat bs" "unat bs < unat ds" using assms by (auto simp: word_less_nat_alt)
  let ?k = "q + (if lb then 1 else 0)"
  note c = ceil_div_less [OF b assms(3), of ?k]
  have less: "?k div 2 * unat bs < unat ds" "2 \<le> q" using c by auto
  have k: "unat ((if lb then ?n + 1 else ?n) div 2) = ?k div 2"
    using q by (auto simp: unat_div unat_word_ariths)
  have fits: "?k div 2 * unat bs < 2 ^ LENGTH(64)"
    using less(1) unat_lt_64 [of ds] by (simp del: unat_lt_64)
  show *: "unat (tree_nLeft ds bs lb) = ?k div 2 * unat bs"
    unfolding tree_nLeft_def Let_def using unat_mult_small [of "(if lb then ?n + 1 else ?n) div 2" bs] fits
    unfolding k by blast
  show "unat (tree_nLeft ds bs lb) < unat ds" using less by (simp add: *)
  have "1 * unat bs \<le> ?k div 2 * unat bs" using less(2) by (intro mult_right_mono) auto
  then show "unat bs \<le> unat (tree_nLeft ds bs lb)" by (simp add: *)
qed

lemma tree_nLeft_le:
  assumes "bs < ds"
  shows "unat (tree_nLeft ds bs lb) < unat ds"
proof -
  consider "1 < bs" | "bs = 0" | "bs = 1"
    by (cases "unat bs = 0"; cases "unat bs = 1") (auto simp: word_less_nat_alt word_unat_eq_iff)
  then show ?thesis
  proof cases
    case 1
    then show ?thesis using assms by (rule unat_tree_nLeft(2)) (rule refl)
  next
    case 3
    have "2 \<le> unat ds" using assms 3 by (simp add: word_less_nat_alt)
    moreover have "(unat ds + 1) mod 2 ^ 64 \<le> unat ds + 1" by (rule mod_less_eq_dividend)
    ultimately have "(unat ds + 1) mod 2 ^ 64 div 2 < unat ds" "unat ds div 2 < unat ds" by linarith+
    then show ?thesis using 3 by (auto simp: tree_nLeft_def unat_div unat_word_ariths)
  qed (use assms in \<open>auto simp: tree_nLeft_def word_less_nat_alt\<close>)
qed

lemma child_base_gt_1: "1 < child_base n"
  by (simp add: child_base_def PARTSIZE_def EMBLOCKSIZE_def)

lemma or_new_cases:
  obtains t where "p = Some t" "or_new p n b = t" | "p = None" "or_new p n b = CAICHHashTree n b (child_base n)"
  by (cases p) (auto simp: or_new_def)

function LoadLowestLevelHashs :: "'s file_ops \<Rightarrow> aich_tree \<Rightarrow> 's \<Rightarrow> ('s, bool) res \<times> aich_tree" where
  "LoadLowestLevelHashs V (HashTree h ds bs lb v pl pr) s =
     (if ds \<le> bs then read_node_hash V (HashTree h ds bs lb v pl pr) s
      else let nLeft = tree_nLeft ds bs lb; nRight = ds - nLeft; l = or_new pl nLeft True; r = or_new pr nRight False in
        case LoadLowestLevelHashs V l s of (res, l') \<Rightarrow>
          (case res of
             Ok True s' \<Rightarrow>
               (case LoadLowestLevelHashs V r s' of (res', r') \<Rightarrow> (res', HashTree h ds bs lb v (Some l') (Some r')))
           | _ \<Rightarrow> (res, HashTree h ds bs lb v (Some l') (Some r))))"
  by pat_completeness auto
termination
proof (relation "measures [\<lambda>(V, t, s). height t, \<lambda>(V, t, s). unat (m_nDataSize t),
    \<lambda>(V, t, s). if m_nBaseSize t = child_base (m_nDataSize t) then 0 else 1]", goal_cases)
  case 1
  show ?case by simp
next
  case (2 V h ds bs lb v pl pr)
  then have "unat (tree_nLeft ds bs lb) < unat ds" by (intro tree_nLeft_le) simp
  with 2 show ?case by (cases pl; cases pr) (auto simp: or_new_def CAICHHashTree_def)
next
  case (3 V h ds bs lb v pl pr)
  then have less: "unat (tree_nLeft ds bs lb) < unat ds" by (intro tree_nLeft_le) simp
  then have "unat (ds - tree_nLeft ds bs lb) = unat ds - unat (tree_nLeft ds bs lb)"
    by (simp add: unat_sub_le word_le_nat_alt)
  moreover have "0 < unat (tree_nLeft ds bs lb)" if "bs = child_base ds"
    using unat_tree_nLeft(3) [of bs ds _ lb, OF _ _ refl] child_base_gt_1 [of ds] 3(1) that
    by (fastforce simp: word_less_nat_alt not_le)
  ultimately show ?case using 3 less by (cases pl; cases pr) (auto simp: or_new_def CAICHHashTree_def)
qed

declare LoadLowestLevelHashs.simps [simp del]

text \<open>\<open>SetHash\<close> is called with level \<open>-1\<close>: it shifts the identifier until its highest bit is at
  the top, which gives the level, and walks down from there. The recursive calls leave the last
  argument out, and its default allows overwriting.\<close>

function SetHash_scan :: "nat \<Rightarrow> u32 \<Rightarrow> nat \<times> u32" where
  "SetHash_scan i wHashIdent =
     (if i \<noteq> 32 \<and> i < 32 \<and> wHashIdent AND 0x80000000 = 0 then SetHash_scan (i + 1) (push_bit 1 wHashIdent)
      else (i, wHashIdent))"
  by auto
termination by (relation "measure (\<lambda>(i, w). 32 - i)") auto

declare SetHash_scan.simps [simp del]

fun SetHash_walk :: "'s file_ops \<Rightarrow> u32 \<Rightarrow> nat \<Rightarrow> bool \<Rightarrow> aich_tree \<Rightarrow> 's \<Rightarrow> ('s, bool) res \<times> aich_tree" where
  "SetHash_walk V wHashIdent 0 bAllowOverwrite t s =
     (if m_bHashValid t \<and> \<not> bAllowOverwrite then
        (io_bind (Seek V (int HASHSIZE) wxFromCurrent) (\<lambda>_. io_return True) s, t)
      else read_node_hash V t s)"
| "SetHash_walk V wHashIdent (Suc nLevel) bAllowOverwrite (HashTree h ds bs lb v l r) s =
     (if ds \<le> bs then (Ok False s, HashTree h ds bs lb v l r)
      else let wHashIdent = push_bit 1 wHashIdent; nLeft = tree_nLeft ds bs lb; nRight = ds - nLeft in
        if wHashIdent AND 0x80000000 > 0 then
          (case SetHash_walk V wHashIdent nLevel True (or_new l nLeft True) s of (res, l') \<Rightarrow>
            (res, HashTree h ds bs lb v (Some l') r))
        else
          (case SetHash_walk V wHashIdent nLevel True (or_new r nRight False) s of (res, r') \<Rightarrow>
            (res, HashTree h ds bs lb v l (Some r'))))"

definition SetHash :: "'s file_ops \<Rightarrow> u32 \<Rightarrow> bool \<Rightarrow> aich_tree \<Rightarrow> 's \<Rightarrow> ('s, bool) res \<times> aich_tree" where
  "SetHash V wHashIdent bAllowOverwrite t s =
     (case SetHash_scan 0 wHashIdent of (i, wHashIdent) \<Rightarrow>
        if i > 31 then (Ok False s, t)
        else SetHash_walk V wHashIdent (31 - i) bAllowOverwrite t s)"

subsection \<open>The shape of a tree\<close>

text \<open>Every node has the base sz of its range, and its children have the ranges that the split
  of the node gives them; a range of one block has no children.\<close>

fun shaped :: "aich_tree \<Rightarrow> bool" where
  "shaped (HashTree h ds bs lb v l r) \<longleftrightarrow>
     bs = child_base ds \<and>
     (\<forall>c \<in> set_option l. bs < ds \<and> m_nDataSize c = tree_nLeft ds bs lb \<and> m_bIsLeftBranch c \<and> shaped c) \<and>
     (\<forall>c \<in> set_option r. bs < ds \<and> m_nDataSize c = ds - tree_nLeft ds bs lb \<and> \<not> m_bIsLeftBranch c \<and> shaped c)"

declare shaped.simps [simp del]

text \<open>What no operation on a tree changes in its root.\<close>

definition same_root :: "aich_tree \<Rightarrow> aich_tree \<Rightarrow> bool" where
  "same_root t t' \<longleftrightarrow> m_nDataSize t' = m_nDataSize t \<and> m_nBaseSize t' = m_nBaseSize t \<and> m_bIsLeftBranch t' = m_bIsLeftBranch t"

lemma same_root_refl [simp]: "same_root t t"
  by (simp add: same_root_def)

lemma shaped_base: "shaped t \<Longrightarrow> m_nBaseSize t = child_base (m_nDataSize t)"
  by (cases t) (simp add: shaped.simps)

lemma shaped_new: "shaped (CAICHHashTree n b (child_base n))"
  by (simp add: CAICHHashTree_def shaped.simps)

lemma shaped_or_new:
  assumes "shaped (HashTree h ds bs lb v l r)"
  shows "shaped (or_new l (tree_nLeft ds bs lb) True)" "shaped (or_new r (ds - tree_nLeft ds bs lb) False)"
    and "m_nDataSize (or_new l (tree_nLeft ds bs lb) True) = tree_nLeft ds bs lb"
    and "m_nDataSize (or_new r (ds - tree_nLeft ds bs lb) False) = ds - tree_nLeft ds bs lb"
    and "m_bIsLeftBranch (or_new l (tree_nLeft ds bs lb) True)" "\<not> m_bIsLeftBranch (or_new r (ds - tree_nLeft ds bs lb) False)"
  using assms shaped_new [of "tree_nLeft ds bs lb" True] shaped_new [of "ds - tree_nLeft ds bs lb" False]
  by (cases l; cases r; simp add: or_new_def CAICHHashTree_def shaped.simps)+

lemma shaped_left:
  assumes "shaped (HashTree h ds bs lb v l r)" "bs < ds" "shaped c" "same_root (or_new l (tree_nLeft ds bs lb) True) c"
  shows "shaped (HashTree h' ds bs lb v' (Some c) r)"
  using assms shaped_or_new [OF assms(1)] by (simp add: same_root_def shaped.simps)

lemma shaped_right:
  assumes "shaped (HashTree h ds bs lb v l r)" "bs < ds" "shaped c" "same_root (or_new r (ds - tree_nLeft ds bs lb) False) c"
  shows "shaped (HashTree h' ds bs lb v' l (Some c))"
  using assms shaped_or_new [OF assms(1)] by (simp add: same_root_def shaped.simps)

lemma shaped_hash: "shaped (HashTree h ds bs lb v l r) \<Longrightarrow> shaped (HashTree h' ds bs lb v' l r)"
  unfolding shaped.simps by assumption

lemma shaped_cut: "shaped (HashTree h ds bs lb v l r) \<Longrightarrow> shaped (HashTree h' ds bs lb v' None None)"
  by (simp add: shaped.simps)

text \<open>The two recursive calls of \<open>FindHash\<close>, and the results without one.\<close>

lemma FindHash_cases:
  assumes "FindHash pos sz lev (HashTree h ds bs lb v l r) = (p, lev', t')"
  obtains (here) "t' = HashTree h ds bs lb v l r" "lev' = lev + 1" "p = None \<or> p = Some [] \<and> pos = 0 \<and> sz = ds"
  | (left) q c where "bs < ds" "pos < tree_nLeft ds bs lb" "lev + 1 \<le> 22"
      "FindHash pos sz (lev + 1) (or_new l (tree_nLeft ds bs lb) True) = (q, lev', c)"
      "p = map_option ((#) True) q" "t' = HashTree h ds bs lb v (Some c) r"
  | (right) q c where "bs < ds" "\<not> pos < tree_nLeft ds bs lb" "lev + 1 \<le> 22"
      "FindHash (pos - tree_nLeft ds bs lb) sz (lev + 1) (or_new r (ds - tree_nLeft ds bs lb) False) = (q, lev', c)"
      "p = map_option ((#) False) q" "t' = HashTree h ds bs lb v l (Some c)"
  using assms by (auto simp: FindHash.simps [of pos] Let_def split: if_splits prod.splits)

lemma FindHash_shaped:
  assumes "FindHash pos sz lev t = (p, lev', t')" "shaped t"
  shows "shaped t' \<and> same_root t t' \<and> m_Hash t' = m_Hash t \<and> m_bHashValid t' = m_bHashValid t"
  using assms
proof (induction "levels_left lev" arbitrary: pos sz lev t p lev' t' rule: less_induct)
  case less
  obtain h ds bs lb v l r where t: "t = HashTree h ds bs lb v l r" by (cases t)
  from less.prems(1) [unfolded t] show ?case
  proof (cases rule: FindHash_cases)
    case here
    then show ?thesis using less.prems(2) by (simp add: t)
  next
    case (left q c)
    then have "shaped c \<and> same_root (or_new l (tree_nLeft ds bs lb) True) c"
      using less.hyps [OF levels_left_step left(4)] less.prems(2) by (simp add: t shaped_or_new)
    then show ?thesis using left less.prems(2) shaped_left by (auto simp: t same_root_def)
  next
    case (right q c)
    then have "shaped c \<and> same_root (or_new r (ds - tree_nLeft ds bs lb) False) c"
      using less.hyps [OF levels_left_step right(4)] less.prems(2) by (simp add: t shaped_or_new)
    then show ?thesis using right less.prems(2) shaped_right by (auto simp: t same_root_def)
  qed
qed

lemma ReCalculateHash_shaped:
  "shaped t \<Longrightarrow> shaped (snd (ReCalculateHash alg b t)) \<and> same_root t (snd (ReCalculateHash alg b t))"
  by (induction alg b t rule: ReCalculateHash.induct) (auto simp: same_root_def shaped.simps split: prod.splits)

lemma update_at_shaped:
  "shaped t \<Longrightarrow> shaped (update_at p (set_tree_hash h) t) \<and> same_root t (update_at p (set_tree_hash h) t)"
proof (induction p arbitrary: t)
  case Nil
  then show ?case using shaped_hash by (cases t) (auto simp: set_tree_hash_def same_root_def)
next
  case (Cons d p)
  show ?case
    using Cons by (cases t) (auto simp: same_root_def shaped.simps option.set_map)
qed

lemma SetBlockHash_shaped: "shaped t \<Longrightarrow> shaped (SetBlockHash sz pos h t) \<and> same_root t (SetBlockHash sz pos h t)"
  using FindHash_shaped [of pos sz 0 t] update_at_shaped
  by (auto simp: SetBlockHash_def same_root_def split: prod.splits option.splits if_splits)

lemma fill_child_shaped:
  assumes "shaped (HashTree h ds bs lb v l r)"
  shows "shaped (HashTree h' ds bs lb v' (fill_child alg l) (fill_child alg r))"
  using assms ReCalculateHash_shaped [of _ alg True]
  by (auto simp: fill_child_def same_root_def shaped.simps split: option.splits)

text \<open>What \<open>VerifyHashTree\<close> does: it fails and cuts the node off or leaves it, it stops at a node
  without valid children, or it goes on in both children.\<close>

lemma VerifyHashTree_cases:
  assumes "VerifyHashTree alg b (HashTree h ds bs lb v l r) = (ok, t')"
  obtains (bad) "\<not> ok" "t' = HashTree h ds bs lb v None None"
  | (kept) "\<not> ok" "\<not> v" "t' = HashTree h ds bs lb v l r"
  | (bad_filled) "\<not> ok" "t' = HashTree h ds bs lb v (fill_child alg l) (fill_child alg r)"
  | (stop) "v" "ok" "\<not> child_valid (fill_child alg l)" "\<not> child_valid (fill_child alg r)"
      "t' = HashTree h ds bs lb v (fill_child alg l) (fill_child alg r)"
  | (bad_left) l1 r1 l' where "v" "\<not> ok" "fill_child alg l = Some l1" "fill_child alg r = Some r1"
      "VerifyHashTree alg b l1 = (False, l')" "t' = HashTree h ds bs lb v (Some l') (Some r1)"
  | (both) l1 r1 l' r' where "v" "fill_child alg l = Some l1" "fill_child alg r = Some r1"
      "m_bHashValid l1" "m_bHashValid r1" "h = hash_pair alg l1 r1"
      "VerifyHashTree alg b l1 = (True, l')" "VerifyHashTree alg b r1 = (ok, r')"
      "t' = HashTree h ds bs lb v (Some l') (Some r')"
proof (cases "v \<and> child_valid (fill_child alg l) \<and> child_valid (fill_child alg r) \<and>
    h = hash_pair alg (the (fill_child alg l)) (the (fill_child alg r))")
  case False
  with assms show ?thesis
    by (auto simp: VerifyHashTree.simps [of alg b] Let_def split: if_splits
        intro: bad kept bad_filled stop)
next
  case True
  then obtain l1 r1 where lr: "fill_child alg l = Some l1" "fill_child alg r = Some r1"
    by (cases "fill_child alg l"; cases "fill_child alg r") auto
  obtain okl l' okr r' where v: "VerifyHashTree alg b l1 = (okl, l')" "VerifyHashTree alg b r1 = (okr, r')" by fastforce
  show ?thesis
  proof (cases okl)
    case True
    show ?thesis
      using assms v \<open>v \<and> _\<close> True lr by (intro both [of l1 r1 l' r']) (auto simp: VerifyHashTree.simps [of alg b] Let_def)
  next
    case False
    show ?thesis
      using assms v \<open>v \<and> _\<close> False lr by (intro bad_left [of l1 r1 l']) (auto simp: VerifyHashTree.simps [of alg b] Let_def)
  qed
qed

lemma fill_child_height:
  assumes "fill_child alg l = Some l1"
  shows "height l1 < height (HashTree h ds bs lb v l r)" "height l1 < height (HashTree h ds bs lb v r l)"
  using assms fill_child_simps(4) [of alg "the l"] by (cases l; auto)+

lemma VerifyHashTree_shaped:
  assumes "VerifyHashTree alg b t = (ok, t')" "shaped t"
  shows "shaped t' \<and> same_root t t' \<and> m_Hash t' = m_Hash t \<and> m_bHashValid t' = m_bHashValid t"
  using assms
proof (induction "height t" arbitrary: t ok t' rule: less_induct)
  case less
  obtain h ds bs lb v l r where t: "t = HashTree h ds bs lb v l r" by (cases t)
  note sh = fill_child_shaped [OF less.prems(2) [unfolded t]]
  from less.prems(1) [unfolded t] show ?case
  proof (cases rule: VerifyHashTree_cases)
    case (bad_left l1 r1 l')
    have "shaped l' \<and> same_root l1 l'"
      using less.hyps [OF _ bad_left(5)] fill_child_height(1) [OF bad_left(3)] sh [of h v alg] bad_left(3) by (simp add: t shaped.simps)
    then show ?thesis using bad_left sh [of h v alg] by (auto simp: t shaped.simps same_root_def)
  next
    case (both l1 r1 l' r')
    have "shaped l' \<and> same_root l1 l'" "shaped r' \<and> same_root r1 r'"
      using less.hyps [OF _ both(7)] less.hyps [OF _ both(8)] fill_child_height(1) [OF both(2)] fill_child_height(2) [OF both(3)]
        sh [of h v alg] both(2,3)
      by (simp_all add: t shaped.simps)
    then show ?thesis using both sh [of h v alg] by (auto simp: t shaped.simps same_root_def)
  qed (use less.prems(2) sh shaped_cut in \<open>auto simp: t same_root_def\<close>)
qed

lemma read_node_hash_shaped: "shaped t \<Longrightarrow> shaped (snd (read_node_hash V t s)) \<and> same_root t (snd (read_node_hash V t s))"
  by (cases t) (auto simp: read_node_hash_def set_tree_hash_def same_root_def shaped.simps split: res.splits)

lemma SetHash_walk_shaped:
  "shaped t \<Longrightarrow> shaped (snd (SetHash_walk V w n b t s)) \<and> same_root t (snd (SetHash_walk V w n b t s))"
proof (induction V w n b t s rule: SetHash_walk.induct)
  case (1 V w b t s)
  then show ?case using read_node_hash_shaped [OF "1.prems", of V s] by simp
next
  case (2 V w n b h ds bs lb v l r s)
  show ?case
  proof (cases "ds \<le> bs")
    case False
    then have bs: "bs < ds" by simp
    note new = shaped_or_new [OF "2.prems"]
    show ?thesis
      using False 2 new(1,2) shaped_left [OF "2.prems" bs] shaped_right [OF "2.prems" bs]
      by (auto simp: Let_def same_root_def split: prod.splits)
  qed (use 2 in \<open>simp add: same_root_def\<close>)
qed

lemma SetHash_shaped: "shaped t \<Longrightarrow> shaped (snd (SetHash V w b t s)) \<and> same_root t (snd (SetHash V w b t s))"
  by (simp add: SetHash_def SetHash_walk_shaped split: prod.splits)

subsection \<open>Which nodes are found\<close>

text \<open>Where the range of a node starts in the range of the tree.\<close>

fun node_start :: "bool list \<Rightarrow> aich_tree \<Rightarrow> nat" where
  "node_start [] t = 0"
| "node_start (d # p) t =
     (if d then (case m_pLeftTree t of Some c \<Rightarrow> node_start p c | None \<Rightarrow> 0)
      else unat (tree_nLeft (m_nDataSize t) (m_nBaseSize t) (m_bIsLeftBranch t)) +
        (case m_pRightTree t of Some c \<Rightarrow> node_start p c | None \<Rightarrow> 0))"

lemma FindHash_node:
  assumes "FindHash pos sz lev t = (Some p, lev', t')" "shaped t"
  shows "\<exists>n. node_at p t' = Some n \<and> m_nDataSize n = sz \<and> node_start p t' = unat pos \<and> lev' = lev + 1 + of_nat (length p)"
  using assms
proof (induction "levels_left lev" arbitrary: pos sz lev t p lev' t' rule: less_induct)
  case less
  obtain h ds bs lb v l r where t: "t = HashTree h ds bs lb v l r" by (cases t)
  from less.prems(1) [unfolded t] show ?case
  proof (cases rule: FindHash_cases)
    case (left q c)
    then obtain q' where q: "q = Some q'" "p = True # q'" by (cases q) auto
    from less.hyps [OF levels_left_step left(4) [unfolded q]] left(3) less.prems(2)
    show ?thesis by (auto simp: t q left(6) shaped_or_new)
  next
    case (right q c)
    then obtain q' where q: "q = Some q'" "p = False # q'" by (cases q) auto
    have "unat (pos - tree_nLeft ds bs lb) = unat pos - unat (tree_nLeft ds bs lb)"
      "unat (tree_nLeft ds bs lb) \<le> unat pos" using right(2) by (simp_all add: unat_sub_le word_le_nat_alt word_less_nat_alt)
    with less.hyps [OF levels_left_step right(4) [unfolded q]] right(3) less.prems(2)
    show ?thesis by (auto simp: t q right(6) shaped_or_new)
  qed simp
qed

lemma FindHash_here: "lev + 1 \<le> 22 \<Longrightarrow> fst (FindHash 0 (m_nDataSize t) lev t) = Some []"
  by (cases t) (simp add: FindHash.simps)

lemma FindHash_left:
  assumes "bs < ds" "lev + 1 \<le> 22" "unat pos + unat sz \<le> unat (tree_nLeft ds bs lb)" "0 < unat sz"
    and "unat (tree_nLeft ds bs lb) < unat ds"
    and "fst (FindHash pos sz (lev + 1) (or_new l (tree_nLeft ds bs lb) True)) = Some q"
  shows "fst (FindHash pos sz lev (HashTree h ds bs lb v l r)) = Some (True # q)"
proof -
  have "unat (pos + sz) = unat pos + unat sz"
    using assms(3) unat_lt_64 [of "tree_nLeft ds bs lb"] by (intro unat_add_small) (simp del: unat_lt_64)
  then have "pos + sz \<le> ds" "sz \<le> ds" "\<not> (pos = 0 \<and> sz = ds)" "pos < tree_nLeft ds bs lb" "\<not> pos + sz > tree_nLeft ds bs lb"
    using assms(3-5) by (auto simp: word_le_nat_alt word_less_nat_alt)
  with assms show ?thesis by (auto simp: FindHash.simps [of pos] Let_def split: prod.splits)
qed

lemma FindHash_right:
  assumes "bs < ds" "lev + 1 \<le> 22" "unat (tree_nLeft ds bs lb) \<le> unat pos" "unat pos + unat sz \<le> unat ds"
    and "0 < unat (tree_nLeft ds bs lb)"
    and "fst (FindHash (pos - tree_nLeft ds bs lb) sz (lev + 1) (or_new r (ds - tree_nLeft ds bs lb) False)) = Some q"
  shows "fst (FindHash pos sz lev (HashTree h ds bs lb v l r)) = Some (False # q)"
proof -
  let ?n = "tree_nLeft ds bs lb"
  have "unat (pos + sz) = unat pos + unat sz"
    using assms(4) unat_lt_64 [of ds] by (intro unat_add_small) (simp del: unat_lt_64)
  moreover have "unat (pos - ?n) = unat pos - unat ?n" "unat (ds - ?n) = unat ds - unat ?n"
    using assms(3,4) by (simp_all add: unat_sub_le word_le_nat_alt)
  moreover from this have "unat (pos - ?n + sz) = unat pos - unat ?n + unat sz"
    using assms(3,4) unat_lt_64 [of ds] by (simp add: unat_add_small del: unat_lt_64)
  ultimately have "pos + sz \<le> ds" "sz \<le> ds" "\<not> (pos = 0 \<and> sz = ds)" "\<not> pos < ?n" "\<not> pos - ?n + sz > ds - ?n"
    using assms(3-5) by (auto simp: word_le_nat_alt word_less_nat_alt)
  with assms show ?thesis by (auto simp: FindHash.simps [of pos] Let_def split: prod.splits)
qed

text \<open>A node of at most \<open>2 * m\<close> base-size units splits into nodes of at most \<open>m\<close> units.\<close>

lemma split_halves:
  assumes "1 < bs" "bs < ds" "unat ds \<le> unat bs * (2 * m)" "nl = unat (tree_nLeft ds bs lb)"
  shows "\<exists>j. nl = unat bs * j \<and> 0 < j" "nl \<le> unat bs * m" "unat ds - nl \<le> unat bs * m" "nl < unat ds"
proof -
  define q where "q = unat ds div unat bs + (if unat ds mod unat bs \<noteq> 0 then 1 else 0)"
  note nl = unat_tree_nLeft [OF assms(1,2) q_def, of lb]
  have b: "0 < unat bs" "unat bs < unat ds" using assms(1,2) by (auto simp: word_less_nat_alt)
  note c = ceil_div_less(2-4) [OF b q_def, of 0]
  then have "2 \<le> q" and q: "unat ds \<le> unat bs * q" by (simp_all add: mult.commute)
  define j where "j = (q + (if lb then 1 else 0)) div 2"
  have j: "nl = unat bs * j" "0 < j" using nl(1) \<open>2 \<le> q\<close> by (auto simp: j_def assms(4) mult.commute)
  then show "\<exists>j. nl = unat bs * j \<and> 0 < j" by blast
  have "q \<le> 2 * m"
  proof (rule ccontr)
    assume "\<not> q \<le> 2 * m"
    then have "2 * m * unat bs \<le> (q - 1) * unat bs" by (intro mult_right_mono) auto
    moreover have "unat ds \<le> 2 * m * unat bs" using assms(3) by (simp add: ac_simps)
    ultimately show False using c(2) [OF le0] by linarith
  qed
  then have jm: "j \<le> m" "q - j \<le> m" by (auto simp: j_def)
  from jm(1) j show "nl \<le> unat bs * m" by simp
  have "unat ds - nl \<le> unat bs * q - unat bs * j" using q j by simp
  also have "\<dots> = unat bs * (q - j)" by (simp add: diff_mult_distrib2)
  also have "\<dots> \<le> unat bs * m" using jm(2) by simp
  finally show "unat ds - nl \<le> unat bs * m" .
  show "nl < unat ds" using nl(2) assms(4) by simp
qed

text \<open>A block of a part is found in a node of at most one part with at most \<open>2 ^ k\<close> blocks, when
  \<open>k\<close> levels are left.\<close>

lemma FindHash_block:
  assumes "shaped t" "m_nDataSize t \<le> PARTSIZE" "unat (m_nDataSize t) \<le> 184320 * 2 ^ k" "unat lev + k + 1 \<le> 22"
    and "unat pos < unat (m_nDataSize t)" "184320 dvd unat pos" "unat sz = min 184320 (unat (m_nDataSize t) - unat pos)"
  shows "\<exists>p. fst (FindHash pos sz lev t) = Some p"
  using assms
proof (induction k arbitrary: t lev pos)
  case 0
  then have "unat pos = 0" by (auto dest: dvd_imp_le)
  moreover from this 0 have "unat sz = unat (m_nDataSize t)" by simp
  moreover have "lev + 1 \<le> 22" using 0 by (simp add: word_le_nat_alt unat_add_1)
  ultimately show ?case using FindHash_here [of lev t] by (auto simp: unat_eq_zero word_unat_eq_iff [symmetric])
next
  case (Suc k)
  obtain h ds bs lb v l r where t: "t = HashTree h ds bs lb v l r" by (cases t)
  have lev: "lev + 1 \<le> 22" "unat (lev + 1) + k + 1 \<le> 22" using Suc.prems(4) by (simp_all add: word_le_nat_alt unat_add_1)
  have bs: "bs = 184320" using Suc.prems(1,2) by (simp add: t shaped.simps child_base_def EMBLOCKSIZE_def)
  show ?case
  proof (cases "bs < ds")
    case False
    then have "unat ds \<le> 184320" by (simp add: bs word_less_nat_alt)
    then have "unat pos = 0" using Suc.prems(5,6) by (auto simp: t dest: dvd_imp_le)
    moreover from this have "unat sz = unat ds" using Suc.prems(7) \<open>unat ds \<le> 184320\<close> by (simp add: t)
    ultimately show ?thesis using FindHash_here [OF lev(1), of t] by (auto simp: t unat_eq_zero word_unat_eq_iff [symmetric])
  next
    case True
    define nl where "nl = unat (tree_nLeft ds bs lb)"
    have "unat ds \<le> unat bs * (2 * 2 ^ k)" using Suc.prems(3) by (simp add: t bs)
    note half = split_halves [OF _ True this nl_def]
    then obtain j where j: "nl = 184320 * j" "0 < j" by (auto simp: bs)
    have less: "nl \<le> 184320 * 2 ^ k" "unat ds - nl \<le> 184320 * 2 ^ k" "nl < unat ds" using half by (auto simp: bs)
    note new = shaped_or_new [OF Suc.prems(1) [unfolded t]]
    have le: "ds \<le> PARTSIZE" using Suc.prems(2) by (simp add: t)
    show ?thesis
    proof (cases "unat pos < nl")
      case True
      obtain i where i: "unat pos = 184320 * i" using Suc.prems(6) by blast
      then have "i + 1 \<le> j" using True j by simp
      then have "184320 * (i + 1) \<le> 184320 * j" by (rule mult_le_mono2)
      then have fit: "unat pos + 184320 \<le> nl" using i j by simp
      then have sz: "unat sz = 184320" using Suc.prems(7) less(3) by (simp add: t)
      have "\<exists>p. fst (FindHash pos sz (lev + 1) (or_new l (tree_nLeft ds bs lb) True)) = Some p"
        using new less fit sz le lev(2) Suc.prems(6)
        by (intro Suc.IH) (auto simp: nl_def [symmetric] word_le_nat_alt)
      then show ?thesis
        using FindHash_left [OF \<open>bs < ds\<close> lev(1), of pos sz lb l] fit sz less(3) by (auto simp: t nl_def [symmetric])
    next
      case False
      have sub: "unat (pos - tree_nLeft ds bs lb) = unat pos - nl" "unat (ds - tree_nLeft ds bs lb) = unat ds - nl"
        using False less(3) by (simp_all add: nl_def unat_sub_le word_le_nat_alt)
      have dvd: "184320 dvd unat pos - nl" using Suc.prems(6) j by (simp add: dvd_diff_nat)
      have "\<exists>p. fst (FindHash (pos - tree_nLeft ds bs lb) sz (lev + 1) (or_new r (ds - tree_nLeft ds bs lb) False)) = Some p"
        using new less sub dvd le lev(2) Suc.prems(5,7) False
        by (intro Suc.IH) (auto simp: t word_le_nat_alt)
      then show ?thesis
        using FindHash_right [OF \<open>bs < ds\<close> lev(1), of lb pos sz r] False less(3) Suc.prems(5,7) j by (auto simp: t nl_def [symmetric])
    qed
  qed
qed

text \<open>The ranges that the program looks up: a whole part, or a block of a part; both are cut off
  at the end of the file.\<close>

definition piece :: "nat \<Rightarrow> nat \<Rightarrow> nat \<Rightarrow> bool" where
  "piece n p s \<longleftrightarrow> p < n \<and>
     (let a = p div 9728000; r = p mod 9728000; m = min 9728000 (n - a * 9728000) in
      r = 0 \<and> s = m \<or> 184320 dvd r \<and> s = min 184320 (m - r))"

lemma piece_bounds:
  assumes "piece n p s"
  shows "p + s \<le> n" "0 < s" "p mod 9728000 + s \<le> 9728000"
proof -
  define a r where "a = p div 9728000" and "r = p mod 9728000"
  have p: "p = a * 9728000 + r" "r < 9728000" by (simp_all add: a_def r_def)
  show "p + s \<le> n" "0 < s" "p mod 9728000 + s \<le> 9728000"
    using assms p unfolding piece_def Let_def a_def [symmetric] r_def [symmetric] by auto
qed

lemma piece_left:
  assumes "piece n p s" "p < c" "c \<le> n" "9728000 dvd c"
  shows "piece c p s \<and> p + s \<le> c"
proof -
  define a r where "a = p div 9728000" and "r = p mod 9728000"
  have p: "p = a * 9728000 + r" "r < 9728000" by (simp_all add: a_def r_def)
  obtain k where c: "c = 9728000 * k" using assms(4) by blast
  have "a < k" using p c assms(2) by linarith
  then have "(a + 1) * 9728000 \<le> c" unfolding c by (simp only: mult.commute [of 9728000] mult_le_mono1)
  then show ?thesis
    using assms p unfolding piece_def Let_def a_def [symmetric] r_def [symmetric] by auto
qed

lemma piece_right:
  assumes "piece n p s" "c \<le> p" "9728000 dvd c"
  shows "piece (n - c) (p - c) s"
proof -
  obtain k where c: "c = 9728000 * k" using assms(3) by blast
  define q where "q = p - c"
  have p: "p = q + 9728000 * k" using assms(2) c q_def by simp
  have "p div 9728000 = q div 9728000 + k" "p mod 9728000 = q mod 9728000" unfolding p by simp_all
  then show ?thesis using assms(1) unfolding piece_def Let_def q_def [symmetric] by (auto simp: p c algebra_simps)
qed

lemma FindHash_piece:
  assumes "shaped t" "unat (m_nDataSize t) \<le> 9728000 * 2 ^ k" "unat lev + k + 7 \<le> 22"
    and "piece (unat (m_nDataSize t)) (unat pos) (unat sz)"
  shows "\<exists>p. fst (FindHash pos sz lev t) = Some p"
  using assms
proof (induction k arbitrary: t lev pos)
  have one_part: "\<exists>p. fst (FindHash pos sz lev t) = Some p"
    if "shaped t" "unat (m_nDataSize t) \<le> 9728000" "unat lev + 7 \<le> 22" "piece (unat (m_nDataSize t)) (unat pos) (unat sz)"
    for t lev pos
  proof (cases "unat pos = 0 \<and> unat sz = unat (m_nDataSize t)")
    case True
    have "lev + 1 \<le> 22" using that(3) by (simp add: word_le_nat_alt unat_add_1)
    with True FindHash_here [of lev t] show ?thesis by (auto simp: unat_eq_zero word_unat_eq_iff [symmetric])
  next
    case False
    have "unat pos < 9728000" using that(2,4) by (simp add: piece_def)
    then have r: "184320 dvd unat pos" "unat sz = min 184320 (unat (m_nDataSize t) - unat pos)" "unat pos < unat (m_nDataSize t)"
      using that(2,4) False by (auto simp: piece_def Let_def)
    show ?thesis
      by (rule FindHash_block [of t 6]) (use that r in \<open>simp_all add: PARTSIZE_def word_le_nat_alt\<close>)
  qed
  {
    case 0
    then show ?case by (intro one_part) simp_all
  next
    case (Suc k)
    obtain h ds bs lb v l r where t: "t = HashTree h ds bs lb v l r" by (cases t)
    have lev: "lev + 1 \<le> 22" "unat (lev + 1) + k + 7 \<le> 22" using Suc.prems(3) by (simp_all add: word_le_nat_alt unat_add_1)
    show ?case
    proof (cases "unat ds \<le> 9728000")
      case True
      then show ?thesis using Suc.prems by (intro one_part) (simp_all add: t)
    next
      case False
      then have bs: "bs = 9728000" using Suc.prems(1) by (simp add: t shaped.simps child_base_def PARTSIZE_def word_le_nat_alt)
      then have gt: "bs < ds" using False by (simp add: word_less_nat_alt)
      define nl where "nl = unat (tree_nLeft ds bs lb)"
      have "unat ds \<le> unat bs * (2 * 2 ^ k)" using Suc.prems(2) by (simp add: t bs)
      note half = split_halves [OF _ gt this nl_def]
      then have nl: "9728000 dvd nl" "0 < nl" by (auto simp: bs)
      have less: "nl \<le> 9728000 * 2 ^ k" "unat ds - nl \<le> 9728000 * 2 ^ k" "nl < unat ds" using half by (auto simp: bs)
      note new = shaped_or_new [OF Suc.prems(1) [unfolded t]]
      note pc = Suc.prems(4) [unfolded t aich_tree.sel]
      show ?thesis
      proof (cases "unat pos < nl")
        case True
        with pc nl less have fit: "piece nl (unat pos) (unat sz)" "unat pos + unat sz \<le> nl" using piece_left by auto
        have "\<exists>p. fst (FindHash pos sz (lev + 1) (or_new l (tree_nLeft ds bs lb) True)) = Some p"
          using new less fit lev(2) by (intro Suc.IH) (auto simp: nl_def [symmetric])
        then show ?thesis
          using FindHash_left [OF gt lev(1), of pos sz lb l] fit piece_bounds(2) [OF pc] less(3) by (auto simp: t nl_def [symmetric])
      next
        case False
        have sub: "unat (pos - tree_nLeft ds bs lb) = unat pos - nl" "unat (ds - tree_nLeft ds bs lb) = unat ds - nl"
          using False less(3) by (simp_all add: nl_def unat_sub_le word_le_nat_alt)
        have "piece (unat ds - nl) (unat pos - nl) (unat sz)" using pc False nl by (intro piece_right) auto
        then have "\<exists>p. fst (FindHash (pos - tree_nLeft ds bs lb) sz (lev + 1) (or_new r (ds - tree_nLeft ds bs lb) False)) = Some p"
          using new less sub lev(2) by (intro Suc.IH) auto
        then show ?thesis
          using FindHash_right [OF gt lev(1), of lb pos sz r] False piece_bounds(1) [OF pc] nl by (auto simp: t nl_def [symmetric])
      qed
    qed
  }
qed

subsection \<open>Complete trees\<close>

text \<open>The tree of a file whose blocks are all hashed: every node is valid, an inner node has both
  children and the digest of their hashes, a node that is not split has none.\<close>

fun honest :: "hashalg \<Rightarrow> aich_tree \<Rightarrow> bool" where
  "honest alg (HashTree h ds bs lb v (Some l) (Some r)) \<longleftrightarrow>
     v \<and> length h = HASHSIZE \<and> bs < ds \<and> h = hash_pair alg l r \<and> honest alg l \<and> honest alg r"
| "honest alg (HashTree h ds bs lb v None None) \<longleftrightarrow> v \<and> length h = HASHSIZE \<and> ds \<le> bs"
| "honest alg t \<longleftrightarrow> False"

lemma honest_cases:
  assumes "honest alg (HashTree h ds bs lb v pl pr)"
  obtains (leaf) "pl = None" "pr = None" "v" "length h = HASHSIZE" "ds \<le> bs"
  | (inner) l r where "pl = Some l" "pr = Some r" "v" "length h = HASHSIZE" "bs < ds" "h = hash_pair alg l r"
      "honest alg l" "honest alg r"
  using assms by (cases pl; cases pr) auto

lemma honest_valid: "honest alg t \<Longrightarrow> m_bHashValid t \<and> length (m_Hash t) = HASHSIZE"
  by (cases t) (auto elim: honest_cases)

text \<open>The hashes of the blocks from left to right, and the bytes that are written for them.\<close>

fun leaf_hashes :: "aich_tree \<Rightarrow> CAICHHash list" where
  "leaf_hashes (HashTree h ds bs lb v (Some l) (Some r)) = leaf_hashes l @ leaf_hashes r"
| "leaf_hashes (HashTree h ds bs lb v l r) = [h]"

definition ident_bytes :: "u32 \<Rightarrow> bool \<Rightarrow> u8 list" where
  "ident_bytes w b32 = (if b32 then le_split 4 w else le_split 2 (ucast w :: u16))"

fun lowest_bytes :: "u32 \<Rightarrow> bool \<Rightarrow> bool \<Rightarrow> aich_tree \<Rightarrow> u8 list" where
  "lowest_bytes w no b32 (HashTree h ds bs lb v (Some l) (Some r)) =
     lowest_bytes (ident_step w lb) no b32 l @ lowest_bytes (ident_step w lb) no b32 r"
| "lowest_bytes w no b32 (HashTree h ds bs lb v l r) =
     (if no then [] else ident_bytes (ident_step w lb) b32) @ h"

lemma lowest_bytes_plain: "lowest_bytes w True b32 t = concat (leaf_hashes t)"
proof -
  have "lowest_bytes w no b32 t = concat (leaf_hashes t)" if no for no
    using that by (induction w no b32 t rule: lowest_bytes.induct) simp_all
  then show ?thesis by simp
qed

text \<open>An operation with a result that appends bytes.\<close>

definition emits_val ::
  "('s \<Rightarrow> bool) \<Rightarrow> ('s \<Rightarrow> u8 list) \<Rightarrow> ('s \<Rightarrow> nat) \<Rightarrow> ('s, 'a) io \<Rightarrow> u8 list \<Rightarrow> 'a \<Rightarrow> bool" where
  "emits_val ok content pos w bs x \<longleftrightarrow>
     (\<forall>s. ok s \<and> pos s = length (content s) \<longrightarrow>
        (\<exists>s'. w s = Ok x s' \<and> ok s' \<and> content s' = content s @ bs \<and> pos s' = length (content s')))"

lemma emits_val_return: "emits_val ok content pos (io_return x) [] x"
  by (simp add: emits_val_def io_return_def)

lemma emits_val_bind:
  assumes "emits_val ok content pos m as x" "emits_val ok content pos (f x) bs y"
  shows "emits_val ok content pos (io_bind m f) (as @ bs) y"
  unfolding emits_val_def
proof (intro allI impI)
  fix s assume s: "ok s \<and> pos s = length (content s)"
  obtain t where t: "m s = Ok x t" "ok t" "content t = content s @ as" "pos t = length (content t)"
    using assms(1) s unfolding emits_val_def by blast
  obtain u where "f x t = Ok y u" "ok u" "content u = content t @ bs" "pos u = length (content u)"
    using assms(2) t(2,4) unfolding emits_val_def by blast
  with t show "\<exists>s'. io_bind m f s = Ok y s' \<and> ok s' \<and> content s' = content s @ as @ bs \<and> pos s' = length (content s')"
    by (auto simp: io_bind_def)
qed

lemma emits_val_unit: "emits ok content pos m bs \<Longrightarrow> emits_val ok content pos m bs ()"
  by (simp add: emits_def emits_val_def)

subsection \<open>Writing and reading the block hashes\<close>

text \<open>Hashes on any file with the contract of \<open>byte_source\<close> or \<open>byte_stream\<close>.\<close>

context byte_source
begin

lemma Load_honest:
  assumes "shaped t" "honest alg t" "shaped t0" "m_nDataSize t0 = m_nDataSize t" "m_bIsLeftBranch t0 = m_bIsLeftBranch t"
    and "ok s" "pos s \<le> length (content s)" "drop (pos s) (content s) = concat (leaf_hashes t) @ rest"
  shows "\<exists>s' t1. LoadLowestLevelHashs V t0 s = (Ok True s', t1) \<and> ReCalculateHash alg False t1 = (True, t) \<and>
    m_bHashValid t1 = (m_bHashValid t0 \<or> m_nDataSize t \<le> m_nBaseSize t) \<and>
    ok s' \<and> content s' = content s \<and> pos s' = pos s + length (concat (leaf_hashes t))"
  using assms
proof (induction t arbitrary: t0 s rest)
  case (HashTree h ds bs lb v pl pr)
  obtain h0 ds0 bs0 lb0 v0 l0 r0 where t0: "t0 = HashTree h0 ds0 bs0 lb0 v0 l0 r0" by (cases t0)
  have eq: "ds0 = ds" "lb0 = lb" "bs0 = bs"
    using HashTree.prems shaped_base [OF HashTree.prems(1)] shaped_base [OF HashTree.prems(3)] by (simp_all add: t0)
  from HashTree.prems(2) show ?case
  proof (cases rule: honest_cases)
    case leaf
    have "parses ok content pos (CAICHHash_Read V) h h"
      unfolding CAICHHash_Read_def by (rule parses_Read) (simp add: leaf)
    from parsesD [OF this HashTree.prems(6,7)] HashTree.prems(8) leaf
    obtain s' where s': "CAICHHash_Read V s = Ok h s'" "ok s'" "content s' = content s" "pos s' = pos s + length h" by auto
    have "l0 = None" "r0 = None" using HashTree.prems(3) leaf(5) by (cases l0; cases r0; auto simp: t0 eq shaped.simps)+
    then show ?thesis
      using s' leaf by (auto simp: t0 eq LoadLowestLevelHashs.simps read_node_hash_def set_tree_hash_def)
  next
    case (inner l r)
    let ?nl = "tree_nLeft ds bs lb"
    note new = shaped_or_new [OF HashTree.prems(3) [unfolded t0]]
    have sh: "shaped l" "m_nDataSize l = ?nl" "m_bIsLeftBranch l" "shaped r" "m_nDataSize r = ds - ?nl" "\<not> m_bIsLeftBranch r"
      using HashTree.prems(1) by (simp_all add: inner shaped.simps)
    have d1: "drop (pos s) (content s) = concat (leaf_hashes l) @ concat (leaf_hashes r) @ rest"
      using HashTree.prems(8) by (simp add: inner)
    obtain s1 l1 where l1: "LoadLowestLevelHashs V (or_new l0 ?nl True) s = (Ok True s1, l1)"
        "ReCalculateHash alg False l1 = (True, l)" "ok s1" "content s1 = content s"
        "pos s1 = pos s + length (concat (leaf_hashes l))"
      using HashTree.IH(1) [of l "or_new l0 ?nl True" s, OF _ sh(1) inner(7) _ _ _ HashTree.prems(6,7) d1]
        new sh inner by (auto simp: eq)
    have len: "length (content s) - pos s = length (concat (leaf_hashes l) @ concat (leaf_hashes r) @ rest)"
      using d1 by (metis length_drop)
    have "drop (pos s1) (content s1) = drop (length (concat (leaf_hashes l))) (drop (pos s) (content s))"
      by (simp add: l1(4,5) add.commute)
    then have d2: "drop (pos s1) (content s1) = concat (leaf_hashes r) @ rest" unfolding d1 by simp
    have p2: "pos s1 \<le> length (content s1)" using l1(4,5) len HashTree.prems(7) by simp
    obtain s2 r1 where r1: "LoadLowestLevelHashs V (or_new r0 (ds - ?nl) False) s1 = (Ok True s2, r1)"
        "ReCalculateHash alg False r1 = (True, r)" "ok s2" "content s2 = content s1"
        "pos s2 = pos s1 + length (concat (leaf_hashes r))"
      using HashTree.IH(2) [of r "or_new r0 (ds - ?nl) False" s1, OF _ sh(4) inner(8) _ _ _ l1(3) p2 d2]
        new sh inner by (auto simp: eq)
    show ?thesis
      using l1 r1 inner honest_valid [OF inner(7)] honest_valid [OF inner(8)]
      by (auto simp: t0 eq LoadLowestLevelHashs.simps [of V _ ds] Let_def hash_pair_def)
  qed
qed

end

context byte_stream
begin

lemma emits_ident: "emits ok content pos (write_ident V w b32) (ident_bytes w b32)"
  by (simp add: write_ident_def ident_bytes_def emits_ints)

lemma emits_lowest:
  "honest alg t \<Longrightarrow> emits_val ok content pos (WriteLowestLevelHashs V w no b32 t) (lowest_bytes w no b32 t) True"
proof (induction t arbitrary: w)
  case (HashTree h ds bs lb v pl pr)
  from HashTree.prems show ?case
  proof (cases rule: honest_cases)
    case leaf
    have w: "emits_val ok content pos (io_bind (CAICHHash_Write V h) (\<lambda>_. io_return True)) h True"
      using emits_val_bind [OF emits_val_unit [OF emits_Write [of h]] emits_val_return [of _ _ _ True]]
      by (simp add: CAICHHash_Write_def)
    show ?thesis
      using w leaf emits_val_bind [OF emits_val_unit [OF emits_ident], where f = "\<lambda>_. io_bind (CAICHHash_Write V h) (\<lambda>_. io_return True)", OF w]
      by (cases no) (simp_all add: Let_def)
  next
    case (inner l r)
    have "emits_val ok content pos (WriteLowestLevelHashs V (ident_step w lb) no b32 l) (lowest_bytes (ident_step w lb) no b32 l) True"
      "emits_val ok content pos (WriteLowestLevelHashs V (ident_step w lb) no b32 r) (lowest_bytes (ident_step w lb) no b32 r) True"
      using HashTree.IH inner by auto
    then show ?thesis unfolding inner by (auto simp: Let_def intro: emits_val_bind)
  qed
qed

end

subsection \<open>Properties\<close>

lemma LoadLowestLevelHashs_shaped:
  "shaped t \<Longrightarrow> shaped (snd (LoadLowestLevelHashs V t s)) \<and> same_root t (snd (LoadLowestLevelHashs V t s))"
proof (induction V t s rule: LoadLowestLevelHashs.induct)
  case (1 V h ds bs lb v pl pr s)
  show ?case
  proof (cases "ds \<le> bs")
    case True
    then show ?thesis using read_node_hash_shaped [OF "1.prems", of V s] by (simp add: LoadLowestLevelHashs.simps [of V _ ds])
  next
    case False
    let ?l = "or_new pl (tree_nLeft ds bs lb) True" and ?r = "or_new pr (ds - tree_nLeft ds bs lb) False"
    note new = shaped_or_new [OF "1.prems"]
    obtain res l' where l': "LoadLowestLevelHashs V ?l s = (res, l')" by fastforce
    have l: "shaped l'" "same_root ?l l'" using "1.IH"(1) [OF False refl refl refl refl new(1)] l' by auto
    note sl = shaped_left [OF "1.prems" _ l]
    have both: "shaped (HashTree h ds bs lb v (Some l') (Some r'))" if "shaped r'" "same_root ?r r'" for r'
    proof -
      have "shaped (HashTree h ds bs lb v (Some l') pr)" using sl False by simp
      from shaped_right [OF this _ that] False show ?thesis by simp
    qed
    show ?thesis
    proof (cases "\<exists>s'. res = Ok True s'")
      case True
      then obtain s' where s': "res = Ok True s'" by blast
      obtain res' r' where r': "LoadLowestLevelHashs V ?r s' = (res', r')" by fastforce
      have "shaped r'" "same_root ?r r'" using "1.IH"(2) [OF False refl refl refl refl l' [symmetric] s' refl new(2)] r' by auto
      then show ?thesis using both False l' s' r' by (simp add: LoadLowestLevelHashs.simps [of V _ ds] Let_def same_root_def)
    next
      case False
      then have "LoadLowestLevelHashs V (HashTree h ds bs lb v pl pr) s = (res, HashTree h ds bs lb v (Some l') (Some ?r))"
        using \<open>\<not> ds \<le> bs\<close> l' by (auto simp: LoadLowestLevelHashs.simps [of V _ ds] Let_def split: res.splits bool.splits)
      then show ?thesis using both [OF new(2)] by (simp add: same_root_def)
    qed
  qed
qed

text \<open>C20: every operation on a hash tree keeps its shape, whatever it reads and also when it fails
  or ends in an exception: each node has the base size of its range, the children have the ranges
  and the sides that the split of the node prescribes, so that the assertions on the sizes of
  existing children hold, and a node of one unit has no children; the range of the root does not
  change.\<close>

theorem tree_operations_keep_shape:
  assumes "shaped t"
    and "t' \<in> {snd (snd (FindHash pos sz lev t)), snd (ReCalculateHash alg b t), snd (VerifyHashTree alg b t),
      SetBlockHash sz pos h t, snd (SetHash V w b t s), snd (LoadLowestLevelHashs V t s)}"
  shows "shaped t' \<and> m_nDataSize t' = m_nDataSize t \<and> m_nBaseSize t' = m_nBaseSize t \<and> m_bIsLeftBranch t' = m_bIsLeftBranch t"
proof -
  obtain q lev' u where f: "FindHash pos sz lev t = (q, lev', u)" by (metis prod_cases3)
  obtain ok u' where v: "VerifyHashTree alg b t = (ok, u')" by fastforce
  have "shaped t' \<and> same_root t t'"
    using assms(2) FindHash_shaped [OF f assms(1)] VerifyHashTree_shaped [OF v assms(1)] ReCalculateHash_shaped [OF assms(1)]
      SetBlockHash_shaped [OF assms(1)] SetHash_shaped [OF assms(1), of V w b s] LoadLowestLevelHashs_shaped [OF assms(1), of V s]
    by (auto simp: f v)
  then show ?thesis by (simp add: same_root_def)
qed

theorem tree_operations_keep_shape_witness:
  "shaped (snd (snd (FindHash 9728000 184320 0 (CAICHHashTree 29184001 True 9728000))))"
  using tree_operations_keep_shape [of "CAICHHashTree 29184001 True 9728000" _ 9728000 184320 0, OF _ insertI1] shaped_new [of 29184001 True]
  by (simp add: child_base_def PARTSIZE_def)

lemma FindHash_level: "FindHash pos sz lev t = (Some p, lev', t') \<Longrightarrow> lev' \<le> 22"
proof (induction "levels_left lev" arbitrary: pos sz lev t p lev' t' rule: less_induct)
  case less
  obtain h ds bs lb v l r where t: "t = HashTree h ds bs lb v l r" by (cases t)
  from less.prems [unfolded t] show ?case
  proof (cases rule: FindHash_cases)
    case here
    then show ?thesis using less.prems by (auto simp: t FindHash.simps [of _ _ lev] Let_def split: if_splits prod.splits)
  next
    case (left q c)
    from less.hyps [OF levels_left_step [OF left(3)]] left(4,5) show ?thesis by (cases q) auto
  next
    case (right q c)
    from less.hyps [OF levels_left_step [OF right(3)]] right(4,5) show ?thesis by (cases q) auto
  qed
qed

text \<open>C19: in the tree of a file of at most the maximal size, every part and every block of a part,
  also the shorter ones at the end, is found within the limit of 22 levels, whichever nodes exist
  already: the node found covers exactly the range asked for.\<close>

theorem FindHash_finds_parts_and_blocks:
  assumes "shaped t" "m_nDataSize t \<le> MAX_FILE_SIZE" "piece (unat (m_nDataSize t)) (unat pos) (unat sz)"
  shows "\<exists>p lev t' n. FindHash pos sz 0 t = (Some p, lev, t') \<and> lev \<le> 22 \<and> lev = of_nat (length p + 1) \<and> node_at p t' = Some n \<and>
    m_nDataSize n = sz \<and> node_start p t' = unat pos \<and> shaped t'"
proof -
  have "unat (m_nDataSize t) \<le> 9728000 * 2 ^ 15" using assms(2) by (simp add: MAX_FILE_SIZE_def word_le_nat_alt)
  then obtain p where "fst (FindHash pos sz 0 t) = Some p" using FindHash_piece [OF assms(1), of 15 0 pos sz] assms(3) by auto
  then obtain lev t' where f: "FindHash pos sz 0 t = (Some p, lev, t')" by (metis prod.collapse)
  show ?thesis using f FindHash_node [OF f assms(1)] FindHash_shaped [OF f assms(1)] FindHash_level [OF f] by auto
qed

theorem FindHash_finds_parts_and_blocks_witness:
  "\<exists>p lev t' n. FindHash 29184000 1 0 (CAICHHashTree 29184001 True 9728000) = (Some p, lev, t') \<and> lev \<le> 22 \<and> lev = of_nat (length p + 1) \<and>
    node_at p t' = Some n \<and> m_nDataSize n = 1 \<and> node_start p t' = unat (29184000 :: u64) \<and> shaped t'"
proof (rule FindHash_finds_parts_and_blocks)
  show "shaped (CAICHHashTree 29184001 True 9728000)" using shaped_new [of 29184001 True] by (simp add: child_base_def PARTSIZE_def)
qed (simp_all add: CAICHHashTree_def MAX_FILE_SIZE_def piece_def)

end
