(* ===== verification/AICHRecovery.thy ===== *)
theory AICHRecovery
  imports AICHHashTree
begin

text \<open>
  What the hash tree is for: verification of received hashes against the root hash, and the
  recovery data that one client creates for a part and another puts into its tree. The first
  group of lemmas says what \<open>VerifyHashTree\<close> guarantees, the second what
  \<open>CreatePartRecoveryData\<close> writes, how identifiers lead back to nodes, and which tree the
  receiver ends up with.
\<close>

subsection \<open>What verification guarantees\<close>

text \<open>The pairs of hashes that are digested in a tree.\<close>

fun child_hashes :: "aich_tree \<Rightarrow> u8 list list set" where
  "child_hashes (HashTree h ds bs lb v (Some l) (Some r)) =
     insert [m_Hash l, m_Hash r] (child_hashes l \<union> child_hashes r)"
| "child_hashes (HashTree h ds bs lb v l r) = {}"

text \<open>A node that is reached from the root through valid nodes only, and is valid itself.\<close>

fun valid_chain :: "bool list \<Rightarrow> aich_tree \<Rightarrow> bool" where
  "valid_chain [] t \<longleftrightarrow> m_bHashValid t"
| "valid_chain (d # p) t \<longleftrightarrow> m_bHashValid t \<and>
     (case if d then m_pLeftTree t else m_pRightTree t of Some c \<Rightarrow> valid_chain p c | None \<Rightarrow> False)"

lemma valid_chain_valid: "valid_chain p t \<Longrightarrow> m_bHashValid t"
  by (cases p) auto

text \<open>Two nodes of the same way in two trees have the same hash.\<close>

definition agree_at :: "bool list \<Rightarrow> aich_tree \<Rightarrow> aich_tree \<Rightarrow> bool" where
  "agree_at p t u \<longleftrightarrow> (\<exists>n m. node_at p t = Some n \<and> node_at p u = Some m \<and> m_Hash n = m_Hash m)"

lemma agree_at_simps [simp]:
  "agree_at [] t u \<longleftrightarrow> m_Hash t = m_Hash u"
  "agree_at (True # p) (HashTree h ds bs lb v (Some l) pr) (HashTree h' ds' bs' lb' v' (Some l') pr') \<longleftrightarrow> agree_at p l l'"
  "agree_at (False # p) (HashTree h ds bs lb v pl (Some r)) (HashTree h' ds' bs' lb' v' pl' (Some r')) \<longleftrightarrow> agree_at p r r'"
  by (simp_all add: agree_at_def)

lemma VerifyHashTree_agrees:
  assumes "VerifyHashTree alg b t = (True, t')" "shaped t" "shaped u" "honest alg u" "m_Hash t = m_Hash u"
    and "m_nDataSize t = m_nDataSize u" "m_bIsLeftBranch t = m_bIsLeftBranch u"
    and "inj_on alg (child_hashes t' \<union> child_hashes u)" "valid_chain p t'"
  shows "agree_at p t' u"
  using assms
proof (induction "height t" arbitrary: t t' u p rule: less_induct)
  case less
  obtain h ds bs lb v l r where t: "t = HashTree h ds bs lb v l r" by (cases t)
  have root: "m_Hash t' = m_Hash t" using VerifyHashTree_shaped [OF less.prems(1,2)] by simp
  show ?case
  proof (cases p)
    case Nil
    then show ?thesis using root less.prems(5) by simp
  next
    case (Cons d q)
    from less.prems(1) [unfolded t] show ?thesis
    proof (cases rule: VerifyHashTree_cases)
      case stop
      then show ?thesis using less.prems(9) Cons
        by (cases d) (auto simp: child_valid_def dest: valid_chain_valid split: option.splits)
    next
      case (both l1 r1 l' r')
      have sh: "shaped (HashTree h ds bs lb v (Some l1) (Some r1))"
        using fill_child_shaped [OF less.prems(2) [unfolded t], of h v alg] both by simp
      obtain h2 v2 l2 r2 where u: "u = HashTree h2 ds bs lb v2 (Some l2) (Some r2)" "h2 = hash_pair alg l2 r2"
          "honest alg l2" "honest alg r2"
      proof -
        obtain h2 ds2 bs2 lb2 v2 pl2 pr2 where u: "u = HashTree h2 ds2 bs2 lb2 v2 pl2 pr2" by (cases u)
        have eq: "ds2 = ds" "lb2 = lb" "bs2 = bs"
          using less.prems(6,7) shaped_base [OF less.prems(2)] shaped_base [OF less.prems(3)] by (simp_all add: t u)
        have "bs < ds" using sh by (auto simp: shaped.simps)
        then show thesis using less.prems(4) that unfolding u eq by (auto elim!: honest_cases)
      qed
      have shu: "shaped (HashTree h2 ds bs lb v2 (Some l2) (Some r2))" using less.prems(3) by (simp add: u)
      have l': "m_Hash l' = m_Hash l1" "m_Hash r' = m_Hash r1"
        using VerifyHashTree_shaped both(7,8) sh by (auto simp: shaped.simps)
      have "alg [m_Hash l1, m_Hash r1] = alg [m_Hash l2, m_Hash r2]"
        using both(6) u(1,2) less.prems(5) by (simp add: t hash_pair_def)
      then have eq: "m_Hash l1 = m_Hash l2" "m_Hash r1 = m_Hash r2"
        using less.prems(8) l' inj_onD [of alg _ "[m_Hash l1, m_Hash r1]" "[m_Hash l2, m_Hash r2]"] by (auto simp: both(9) u(1))
      have inj: "inj_on alg (child_hashes l' \<union> child_hashes l2)" "inj_on alg (child_hashes r' \<union> child_hashes r2)"
        using less.prems(8) by (auto simp: both(9) u(1) intro: inj_on_subset)
      have hl: "height l1 < height t" "height r1 < height t"
        using fill_child_height both(2,3) by (auto simp: t)
      show ?thesis
      proof (cases d)
        case True
        have "agree_at q l' l2"
          using less.hyps [OF hl(1) both(7) _ _ u(3) eq(1) _ _ inj(1)] sh shu less.prems(9) True Cons
          by (simp add: shaped.simps both(9))
        then show ?thesis by (simp add: Cons True both(9) u(1))
      next
        case False
        have "agree_at q r' r2"
          using less.hyps [OF hl(2) both(8) _ _ u(4) eq(2) _ _ inj(2)] sh shu less.prems(9) False Cons
          by (simp add: shaped.simps both(9))
        then show ?thesis by (simp add: Cons False both(9) u(1))
      qed
    qed auto
  qed
qed

subsection \<open>Recovery data\<close>

text \<open>The hashes that \<open>CreatePartRecoveryData\<close> sends for the node at a way, with the ways of their
  nodes: the siblings along the way, then the block hashes below its end.\<close>

fun leaf_records :: "aich_tree \<Rightarrow> (bool list \<times> CAICHHash) list" where
  "leaf_records (HashTree h ds bs lb v (Some l) (Some r)) =
     map (apfst ((#) True)) (leaf_records l) @ map (apfst ((#) False)) (leaf_records r)"
| "leaf_records (HashTree h ds bs lb v l r) = [([], h)]"

fun recovery :: "bool list \<Rightarrow> aich_tree \<Rightarrow> (bool list \<times> CAICHHash) list" where
  "recovery [] t = leaf_records t"
| "recovery (d # p) (HashTree h ds bs lb v (Some l) (Some r)) =
     ([\<not> d], m_Hash (if d then r else l)) # map (apfst ((#) d)) (recovery p (if d then l else r))"
| "recovery (d # p) t = []"

text \<open>The identifier of a node: a one for the root, then a bit for each step.\<close>

definition ident_from :: "u32 \<Rightarrow> bool list \<Rightarrow> u32" where
  "ident_from w p = foldl ident_step w p"

definition record_bytes :: "u32 \<Rightarrow> bool \<Rightarrow> (bool list \<times> CAICHHash) list \<Rightarrow> u8 list" where
  "record_bytes w b32 rs = concat (map (\<lambda>(p, h). ident_bytes (ident_from w p) b32 @ h) rs)"

lemma record_bytes_simps [simp]:
  "record_bytes w b32 [] = []"
  "record_bytes w b32 ((p, h) # rs) = ident_bytes (ident_from w p) b32 @ h @ record_bytes w b32 rs"
  "record_bytes w b32 (rs @ rs') = record_bytes w b32 rs @ record_bytes w b32 rs'"
  by (simp_all add: record_bytes_def)

lemma record_bytes_step: "record_bytes w b32 (map (apfst ((#) d)) rs) = record_bytes (ident_step w d) b32 rs"
  by (induction rs) (auto simp: ident_from_def)

lemma lowest_bytes_records:
  assumes "honest alg t" "shaped t"
  shows "lowest_bytes w False b32 t = record_bytes (ident_step w (m_bIsLeftBranch t)) b32 (leaf_records t)"
  using assms
proof (induction t arbitrary: w)
  case (HashTree h ds bs lb v pl pr)
  from HashTree.prems(1) show ?case
  proof (cases rule: honest_cases)
    case leaf
    then show ?thesis by (simp add: ident_from_def)
  next
    case (inner l r)
    then have "shaped l" "shaped r" "m_bIsLeftBranch l" "\<not> m_bIsLeftBranch r"
      using HashTree.prems(2) by (simp_all add: shaped.simps)
    with HashTree.IH(1) [of l] HashTree.IH(2) [of r] inner show ?thesis by (simp add: record_bytes_step)
  qed
qed

lemma honest_or_new:
  assumes "honest alg (HashTree h ds bs lb v pl pr)" "bs < ds"
  obtains l r where "pl = Some l" "pr = Some r" "or_new pl a b = l" "or_new pr a' b' = r" "honest alg l" "honest alg r"
  using assms by (auto elim!: honest_cases simp: or_new_def)

text \<open>Looking a node up does not change a complete tree, and \<open>CreatePartRecoveryData\<close> takes the
  same way.\<close>

lemma FindHash_honest:
  "honest alg t \<Longrightarrow> FindHash pos sz lev t = (p, lev', t') \<Longrightarrow> t' = t"
proof (induction "levels_left lev" arbitrary: pos sz lev t p lev' t' rule: less_induct)
  case less
  obtain h ds bs lb v l r where t: "t = HashTree h ds bs lb v l r" by (cases t)
  from less.prems(2) [unfolded t] show ?case
  proof (cases rule: FindHash_cases)
    case here
    then show ?thesis by (simp add: t)
  next
    case (left q c)
    from honest_or_new [OF less.prems(1) [unfolded t] left(1)] obtain l1 where
      "l = Some l1" "or_new l (tree_nLeft ds bs lb) True = l1" "honest alg l1" by metis
    then show ?thesis using less.hyps [OF levels_left_step _ left(4)] left by (auto simp: t)
  next
    case (right q c)
    from honest_or_new [OF less.prems(1) [unfolded t] right(1)] obtain r1 where
      "r = Some r1" "or_new r (ds - tree_nLeft ds bs lb) False = r1" "honest alg r1" by metis
    then show ?thesis using less.hyps [OF levels_left_step _ right(4)] right by (auto simp: t)
  qed
qed

lemma FindHash_Some_cases:
  assumes "FindHash pos sz lev (HashTree h ds bs lb v l r) = (Some p, lev', t')"
  obtains (here) "p = []" "pos = 0" "sz = ds"
  | (left) q c where "p = True # q" "lev + 1 \<le> 22" "\<not> ds \<le> bs" "pos + sz \<le> ds" "sz \<le> ds" "\<not> (pos = 0 \<and> sz = ds)"
      "pos < tree_nLeft ds bs lb" "\<not> pos + sz > tree_nLeft ds bs lb"
      "FindHash pos sz (lev + 1) (or_new l (tree_nLeft ds bs lb) True) = (Some q, lev', c)"
      "t' = HashTree h ds bs lb v (Some c) r"
  | (right) q c where "p = False # q" "lev + 1 \<le> 22" "\<not> ds \<le> bs" "pos + sz \<le> ds" "sz \<le> ds" "\<not> (pos = 0 \<and> sz = ds)"
      "\<not> pos < tree_nLeft ds bs lb" "\<not> pos - tree_nLeft ds bs lb + sz > ds - tree_nLeft ds bs lb"
      "FindHash (pos - tree_nLeft ds bs lb) sz (lev + 1) (or_new r (ds - tree_nLeft ds bs lb) False) = (Some q, lev', c)"
      "t' = HashTree h ds bs lb v l (Some c)"
  using assms by (auto simp: FindHash.simps [of pos] Let_def split: if_splits prod.splits)

context byte_stream
begin

lemma emits_recovery:
  assumes "honest alg t" "shaped t" "FindHash pos' sz lev t = (Some p, lev', t')"
  shows "emits_val ok content pos (CreatePartRecoveryData V pos' sz w b32 t)
    (record_bytes (ident_step w (m_bIsLeftBranch t)) b32 (recovery p t)) True"
  using assms
proof (induction p arbitrary: pos' lev t w t')
  case Nil
  obtain h ds bs lb v pl pr where t: "t = HashTree h ds bs lb v pl pr" by (cases t)
  from Nil.prems(3) [unfolded t] have "pos' = 0" "sz = ds" by (cases rule: FindHash_Some_cases; simp)+
  then show ?case
    using emits_lowest [OF Nil.prems(1), of w False b32] lowest_bytes_records [OF Nil.prems(1,2)]
    by (simp add: t CreatePartRecoveryData.simps)
next
  case (Cons d p)
  obtain h ds bs lb v pl pr where t: "t = HashTree h ds bs lb v pl pr" by (cases t)
  let ?w = "ident_step w lb" and ?nl = "tree_nLeft ds bs lb"
  have sib: "emits_val ok content pos (WriteTreeHash V ?w b32 u) (ident_bytes (ident_step ?w (m_bIsLeftBranch u)) b32 @ m_Hash u) ()" for u
    unfolding WriteTreeHash_def CAICHHash_Write_def by (rule emits_val_unit [OF emits_bind [OF emits_ident emits_Write]])
  from Cons.prems(3) [unfolded t] show ?case
  proof (cases rule: FindHash_Some_cases)
    case (left q c)
    then have "bs < ds" by simp
    from honest_or_new [OF Cons.prems(1) [unfolded t] this] obtain l r
      where lr: "pl = Some l" "pr = Some r" "or_new pl ?nl True = l" "honest alg l" "honest alg r" by metis
    have sh: "shaped l" "m_bIsLeftBranch l" "\<not> m_bIsLeftBranch r" using Cons.prems(2) by (simp_all add: t lr shaped.simps)
    have "emits_val ok content pos (CreatePartRecoveryData V pos' sz ?w b32 l) (record_bytes (ident_step ?w True) b32 (recovery p l)) True"
      using Cons.IH [OF lr(4) sh(1), of pos' "lev + 1" c ?w] left lr(3) sh(2) by simp
    from emits_val_bind [OF sib [of r] this] show ?thesis
      using left lr sh honest_valid [OF lr(5)]
      by (auto simp: t CreatePartRecoveryData.simps [of V pos'] Let_def record_bytes_step ident_from_def)
  next
    case (right q c)
    then have "bs < ds" by simp
    from honest_or_new [OF Cons.prems(1) [unfolded t] this] obtain l r
      where lr: "pl = Some l" "pr = Some r" "or_new pr (ds - ?nl) False = r" "honest alg l" "honest alg r" by metis
    have sh: "shaped r" "m_bIsLeftBranch l" "\<not> m_bIsLeftBranch r" using Cons.prems(2) by (simp_all add: t lr shaped.simps)
    have "emits_val ok content pos (CreatePartRecoveryData V (pos' - ?nl) sz ?w b32 r) (record_bytes (ident_step ?w False) b32 (recovery p r)) True"
      using Cons.IH [OF lr(5) sh(1), of "pos' - ?nl" "lev + 1" c ?w] right lr(3) sh(3) by simp
    from emits_val_bind [OF sib [of l] this] show ?thesis
      using right lr sh honest_valid [OF lr(4)]
      by (auto simp: t CreatePartRecoveryData.simps [of V pos'] Let_def record_bytes_step ident_from_def)
  qed simp
qed

end

subsection \<open>Identifiers lead back to their nodes\<close>

lemma top_bit: "w AND 0x80000000 = 0 \<longleftrightarrow> \<not> bit w 31" for w :: u32
proof -
  have "(0x80000000 :: u32) = 2 ^ 31" by simp
  then show ?thesis by (simp only: and_exp_eq_0_iff_not_bit)
qed

lemma bit_push1: "bit (push_bit 1 w) k \<longleftrightarrow> 1 \<le> k \<and> k < 32 \<and> bit w (k - 1)" for w :: u32
  unfolding bit_push_bit_iff by auto

lemma bit_ident_step: "bit (ident_step w d) k \<longleftrightarrow> (if k = 0 then d else k < 32 \<and> bit w (k - 1))"
  unfolding ident_step_def bit_or_iff bit_push1 by (auto simp: bit_1_iff)

lemma bit_ident_from:
  "bit (ident_from 1 p) k \<longleftrightarrow> k < 32 \<and> k \<le> length p \<and> (k < length p \<longrightarrow> p ! (length p - 1 - k))"
proof (induction p arbitrary: k rule: rev_induct)
  case Nil
  show ?case by (auto simp: ident_from_def bit_1_iff)
next
  case (snoc d p)
  have "bit (ident_from 1 (p @ [d])) k = bit (ident_step (ident_from 1 p) d) k" by (simp add: ident_from_def)
  also have "\<dots> \<longleftrightarrow> (if k = 0 then d else k < 32 \<and> bit (ident_from 1 p) (k - 1))" by (rule bit_ident_step)
  also have "\<dots> \<longleftrightarrow> k < 32 \<and> k \<le> length (p @ [d]) \<and> (k < length (p @ [d]) \<longrightarrow> (p @ [d]) ! (length (p @ [d]) - 1 - k))"
    using snoc.IH [of "k - 1"] by (cases k) (auto simp: nth_append)
  finally show ?case .
qed

lemma SetHash_scan_top:
  assumes "bit w m" "\<And>k. m < k \<Longrightarrow> \<not> bit w k" "i + m \<le> 31"
  shows "SetHash_scan i (push_bit i w) = (31 - m, push_bit (31 - m) w)"
  using assms(3)
proof (induction "31 - m - i" arbitrary: i)
  case 0
  then have i: "i = 31 - m" by simp
  have "bit (push_bit i w) 31" using assms(1) 0 by (simp add: bit_push_bit_iff i)
  then show ?case using i by (simp add: SetHash_scan.simps [of "31 - m"] top_bit)
next
  case (Suc n)
  then have "m < 31 - i" by simp
  then have "\<not> bit (push_bit i w) 31" using assms(2) by (simp add: bit_push_bit_iff)
  then have "SetHash_scan i (push_bit i w) = SetHash_scan (i + 1) (push_bit 1 (push_bit i w))"
    using Suc by (simp only: SetHash_scan.simps [of i] top_bit) simp
  also have "push_bit 1 (push_bit i w) = push_bit (i + 1) w" by (simp add: add.commute)
  also have "SetHash_scan (i + 1) \<dots> = (31 - m, push_bit (31 - m) w)" using Suc by (intro Suc.hyps(1)) simp_all
  finally show ?case .
qed

lemma SetHash_scan_ident:
  assumes "length p \<le> 31"
  shows "SetHash_scan 0 (ident_from 1 p) = (31 - length p, push_bit (31 - length p) (ident_from 1 p))"
    and "i < length p \<Longrightarrow> bit (push_bit (31 - length p) (ident_from 1 p)) (30 - i) = p ! i"
proof -
  show "SetHash_scan 0 (ident_from 1 p) = (31 - length p, push_bit (31 - length p) (ident_from 1 p))"
    using SetHash_scan_top [of "ident_from 1 p" "length p" 0] assms by (simp add: bit_ident_from)
  assume i: "i < length p"
  then have "31 - length p \<le> 30 - i" "30 - i - (31 - length p) = length p - 1 - i" using assms by auto
  then show "bit (push_bit (31 - length p) (ident_from 1 p)) (30 - i) = p ! i"
    using i assms by (auto simp: bit_push_bit_iff bit_ident_from)
qed

text \<open>Setting the hash of the node at a way, creating the nodes on it.\<close>

fun put_at :: "bool list \<Rightarrow> CAICHHash \<Rightarrow> aich_tree \<Rightarrow> aich_tree" where
  "put_at [] x t = set_tree_hash x t"
| "put_at (d # p) x (HashTree h ds bs lb v l r) =
     (if d then HashTree h ds bs lb v (Some (put_at p x (or_new l (tree_nLeft ds bs lb) True))) r
      else HashTree h ds bs lb v l (Some (put_at p x (or_new r (ds - tree_nLeft ds bs lb) False))))"

context byte_source
begin

lemma SetHash_walk_put:
  assumes "shaped u" "shaped t" "same_root u t" "node_at p u \<noteq> None" "length x = HASHSIZE"
    and "\<forall>i < length p. bit w (30 - i) = p ! i" "length p \<le> 31" "p \<noteq> [] \<or> b"
    and "ok s" "pos s \<le> length (content s)" "drop (pos s) (content s) = x @ rest"
  shows "\<exists>s'. SetHash_walk V w (length p) b t s = (Ok True s', put_at p x t) \<and> ok s' \<and> content s' = content s \<and>
    pos s' = pos s + HASHSIZE"
  using assms
proof (induction p arbitrary: u t w b)
  case Nil
  have "parses ok content pos (CAICHHash_Read V) x x"
    unfolding CAICHHash_Read_def by (rule parses_Read) (simp add: Nil)
  from parsesD [OF this Nil(9,10,11)] Nil(5,8) show ?case by (auto simp: read_node_hash_def)
next
  case (Cons d p)
  obtain h ds bs lb v l r where t: "t = HashTree h ds bs lb v l r" by (cases t)
  obtain h' v' pl' pr' where u: "u = HashTree h' ds bs lb v' pl' pr'" using Cons.prems(3) by (cases u) (simp add: t same_root_def)
  obtain c where c: "(if d then pl' else pr') = Some c" "node_at p c \<noteq> None"
    using Cons.prems(4) by (cases d) (auto simp: u split: option.splits)
  have gt: "bs < ds" using Cons.prems(1) c(1) by (cases d) (auto simp: u shaped.simps)
  note new = shaped_or_new [OF Cons.prems(2) [unfolded t]]
  have d: "push_bit 1 w AND 0x80000000 > 0 \<longleftrightarrow> d"
    using Cons.prems(6) [rule_format, of 0] unfolding word_neq_0_conv [symmetric] top_bit bit_push1 by simp
  have bits: "\<forall>i < length p. bit (push_bit 1 w) (30 - i) = p ! i"
  proof (intro allI impI)
    fix i assume i: "i < length p"
    then have "1 \<le> 30 - i" using Cons.prems(7) by simp
    moreover have "30 - i - 1 = 30 - Suc i" by simp
    ultimately show "bit (push_bit 1 w) (30 - i) = p ! i"
      using Cons.prems(6) [rule_format, of "Suc i"] i unfolding bit_push1 by auto
  qed
  define c' where "c' = (if d then or_new l (tree_nLeft ds bs lb) True else or_new r (ds - tree_nLeft ds bs lb) False)"
  have c': "shaped c'" "shaped c" using new Cons.prems(1) c(1) by (cases d; simp add: c'_def u shaped.simps)+
  then have "same_root c c'"
    using shaped_base [of c] shaped_base [of c'] new Cons.prems(1) c(1) by (cases d) (simp_all add: c'_def u same_root_def shaped.simps)
  from Cons.IH [OF c'(2,1) this c(2) Cons.prems(5) bits, of True] Cons.prems(7,9-11)
  obtain s' where "SetHash_walk V (push_bit 1 w) (length p) True c' s = (Ok True s', put_at p x c')" "ok s'" "content s' = content s"
    "pos s' = pos s + HASHSIZE" by auto
  then show ?case using d gt by (cases d) (simp_all add: t c'_def Let_def)
qed

lemma SetHash_put:
  assumes "shaped u" "shaped t" "same_root u t" "node_at p u \<noteq> None" "length x = HASHSIZE" "length p \<le> 31" "p \<noteq> []"
    and "ok s" "pos s \<le> length (content s)" "drop (pos s) (content s) = x @ rest"
  shows "\<exists>s'. SetHash V (ident_from 1 p) b t s = (Ok True s', put_at p x t) \<and> ok s' \<and> content s' = content s \<and>
    pos s' = pos s + HASHSIZE"
  using SetHash_walk_put [OF assms(1-5), of "push_bit (31 - length p) (ident_from 1 p)" b] assms(6-10) SetHash_scan_ident [of p]
  by (simp add: SetHash_def)

end

subsection \<open>The tree of the receiver\<close>

text \<open>A node as it is created, and a node that has only its hash.\<close>

definition empty_node :: "aich_tree \<Rightarrow> aich_tree" where
  "empty_node t = CAICHHashTree (m_nDataSize t) (m_bIsLeftBranch t) (m_nBaseSize t)"

definition bare_node :: "aich_tree \<Rightarrow> aich_tree" where
  "bare_node t = set_tree_hash (m_Hash t) (empty_node t)"

text \<open>With the hash and validity of the root, the tree after the block hashes below a node have
  been put in, and after all hashes of the recovery data have.\<close>

fun with_leaves :: "CAICHHash \<Rightarrow> bool \<Rightarrow> aich_tree \<Rightarrow> aich_tree" where
  "with_leaves x b (HashTree h ds bs lb v (Some l) (Some r)) =
     HashTree x ds bs lb b (Some (with_leaves CAICHHash_new False l)) (Some (with_leaves CAICHHash_new False r))"
| "with_leaves x b (HashTree h ds bs lb v l r) = HashTree h ds bs lb True None None"

fun received :: "CAICHHash \<Rightarrow> bool \<Rightarrow> bool list \<Rightarrow> aich_tree \<Rightarrow> aich_tree" where
  "received x b [] t = with_leaves x b t"
| "received x b (True # p) (HashTree h ds bs lb v (Some l) (Some r)) =
     HashTree x ds bs lb b (Some (received CAICHHash_new False p l)) (Some (bare_node r))"
| "received x b (False # p) (HashTree h ds bs lb v (Some l) (Some r)) =
     HashTree x ds bs lb b (Some (bare_node l)) (Some (received CAICHHash_new False p r))"
| "received x b p t = t"

text \<open>The same tree with the missing hashes calculated.\<close>

fun recovered :: "bool list \<Rightarrow> aich_tree \<Rightarrow> aich_tree" where
  "recovered [] t = t"
| "recovered (True # p) (HashTree h ds bs lb v (Some l) (Some r)) =
     HashTree h ds bs lb v (Some (recovered p l)) (Some (bare_node r))"
| "recovered (False # p) (HashTree h ds bs lb v (Some l) (Some r)) =
     HashTree h ds bs lb v (Some (bare_node l)) (Some (recovered p r))"
| "recovered p t = t"

definition put_record :: "bool list \<times> CAICHHash \<Rightarrow> aich_tree \<Rightarrow> aich_tree" where
  "put_record = (\<lambda>(p, x). put_at p x)"

lemma put_records_left:
  "rs \<noteq> [] \<Longrightarrow> fold put_record (map (apfst ((#) True)) rs) (HashTree h ds bs lb v l r) =
     HashTree h ds bs lb v (Some (fold put_record rs (or_new l (tree_nLeft ds bs lb) True))) r"
proof (induction rs arbitrary: l)
  case (Cons a rs)
  show ?case
  proof (cases "rs = []")
    case False
    with Cons.IH [OF this, of "Some (put_at (fst a) (snd a) (or_new l (tree_nLeft ds bs lb) True))"] show ?thesis
      by (cases a) (simp add: put_record_def or_new_def)
  qed (cases a, simp add: put_record_def)
qed simp

lemma put_records_right:
  "rs \<noteq> [] \<Longrightarrow> fold put_record (map (apfst ((#) False)) rs) (HashTree h ds bs lb v l r) =
     HashTree h ds bs lb v l (Some (fold put_record rs (or_new r (ds - tree_nLeft ds bs lb) False)))"
proof (induction rs arbitrary: r)
  case (Cons a rs)
  show ?case
  proof (cases "rs = []")
    case False
    with Cons.IH [OF this, of "Some (put_at (fst a) (snd a) (or_new r (ds - tree_nLeft ds bs lb) False))"] show ?thesis
      by (cases a) (simp add: put_record_def or_new_def)
  qed (cases a, simp add: put_record_def)
qed simp

lemma leaf_records_nonempty: "leaf_records t \<noteq> []"
  by (induction t rule: leaf_records.induct) auto

lemma new_empty:
  assumes "shaped t"
  shows "CAICHHashTree (m_nDataSize t) (m_bIsLeftBranch t) (child_base (m_nDataSize t)) = empty_node t"
  using shaped_base [OF assms] by (simp add: empty_node_def)

lemma new_children:
  assumes "shaped (HashTree h ds bs lb v (Some l) (Some r))"
  shows "or_new None (tree_nLeft ds bs lb) True = empty_node l" "or_new None (ds - tree_nLeft ds bs lb) False = empty_node r"
    and "shaped l" "shaped r"
proof -
  have l: "shaped l" "m_nDataSize l = tree_nLeft ds bs lb" "m_bIsLeftBranch l"
    and r: "shaped r" "m_nDataSize r = ds - tree_nLeft ds bs lb" "\<not> m_bIsLeftBranch r"
    using assms by (simp_all add: shaped.simps)
  show "shaped l" "shaped r" by (fact l(1) r(1))+
  show "or_new None (tree_nLeft ds bs lb) True = empty_node l" "or_new None (ds - tree_nLeft ds bs lb) False = empty_node r"
    using new_empty [OF l(1)] new_empty [OF r(1)] l r by (simp_all add: or_new_def)
qed

lemma put_leaf_records:
  assumes "honest alg t" "shaped t"
  shows "fold put_record (leaf_records t) (HashTree x (m_nDataSize t) (m_nBaseSize t) (m_bIsLeftBranch t) b None None) = with_leaves x b t"
  using assms
proof (induction t arbitrary: x b)
  case (HashTree h ds bs lb v pl pr)
  from HashTree.prems(1) show ?case
  proof (cases rule: honest_cases)
    case leaf
    then show ?thesis by (simp add: put_record_def set_tree_hash_def)
  next
    case (inner l r)
    note new = new_children [OF HashTree.prems(2) [unfolded inner]]
    show ?thesis
      using HashTree.IH(1) [of l CAICHHash_new False] HashTree.IH(2) [of r CAICHHash_new False] inner new
      by (simp add: put_records_left put_records_right leaf_records_nonempty) (simp add: empty_node_def CAICHHashTree_def)
  qed
qed

text \<open>The way that \<open>FindHash\<close> leaves in a tree without children.\<close>

fun way :: "CAICHHash \<Rightarrow> bool \<Rightarrow> bool list \<Rightarrow> aich_tree \<Rightarrow> aich_tree" where
  "way x b (True # p) (HashTree h ds bs lb v (Some l) r) = HashTree x ds bs lb b (Some (way CAICHHash_new False p l)) None"
| "way x b (False # p) (HashTree h ds bs lb v l (Some r)) = HashTree x ds bs lb b None (Some (way CAICHHash_new False p r))"
| "way x b p t = HashTree x (m_nDataSize t) (m_nBaseSize t) (m_bIsLeftBranch t) b None None"

lemma recovery_nonempty: "honest alg t \<Longrightarrow> node_at p t \<noteq> None \<Longrightarrow> recovery p t \<noteq> []"
  by (cases "(p, t)" rule: recovery.cases) (auto simp: leaf_records_nonempty elim: honest_cases split: if_splits option.splits)

lemma put_recovery:
  assumes "honest alg t" "shaped t" "node_at p t \<noteq> None"
  shows "fold put_record (recovery p t) (way x b p t) = received x b p t"
  using assms
proof (induction p arbitrary: t x b)
  case Nil
  then show ?case using put_leaf_records by simp
next
  case (Cons d p)
  obtain h ds bs lb v pl pr where t: "t = HashTree h ds bs lb v pl pr" by (cases t)
  from Cons.prems(1) [unfolded t] show ?case
  proof (cases rule: honest_cases)
    case leaf
    then show ?thesis using Cons.prems(3) by (cases d) (simp_all add: t)
  next
    case (inner l r)
    note new = new_children [OF Cons.prems(2) [unfolded t inner]]
    have put: "put_record ([False], m_Hash r) (HashTree x ds bs lb b y None) = HashTree x ds bs lb b y (Some (bare_node r))"
      "put_record ([True], m_Hash l) (HashTree x ds bs lb b None y) = HashTree x ds bs lb b (Some (bare_node l)) y" for y
      using new by (simp_all add: put_record_def bare_node_def)
    show ?thesis
      using Cons inner new put recovery_nonempty [of alg l p] recovery_nonempty [of alg r p]
      by (cases d) (simp_all add: t put_records_left put_records_right or_new_def)
  qed
qed

subsection \<open>Calculating and verifying the received tree\<close>

lemma bare_node_simps [simp]:
  "m_Hash (bare_node t) = m_Hash t" "m_bHashValid (bare_node t)"
  "ReCalculateHash alg b (bare_node t) = (True, bare_node t)"
  by (simp_all add: bare_node_def set_tree_hash_def empty_node_def CAICHHashTree_def)

lemma ReCalculate_leaves:
  "honest alg t \<Longrightarrow> ReCalculateHash alg True (with_leaves x False t) = (True, t)"
proof (induction t arbitrary: x)
  case (HashTree h ds bs lb v pl pr)
  from HashTree.prems show ?case
  proof (cases rule: honest_cases)
    case (inner l r)
    then show ?thesis using HashTree.IH honest_valid [OF inner(7)] honest_valid [OF inner(8)] by simp
  qed simp
qed

lemma recovered_root [simp]: "honest alg t \<Longrightarrow> m_Hash (recovered p t) = m_Hash t \<and> m_bHashValid (recovered p t)"
  by (cases "(p, t)" rule: recovered.cases) (auto simp: honest_valid elim: honest_cases)

lemma ReCalculate_received:
  assumes "honest alg t" "node_at p t \<noteq> None"
  shows "ReCalculateHash alg True (received x False p t) = (True, recovered p t)"
  using assms
proof (induction p arbitrary: t x)
  case Nil
  then show ?case by (simp add: ReCalculate_leaves)
next
  case (Cons d p)
  obtain h ds bs lb v pl pr where t: "t = HashTree h ds bs lb v pl pr" by (cases t)
  from Cons.prems(1) [unfolded t] show ?case
  proof (cases rule: honest_cases)
    case leaf
    then show ?thesis using Cons.prems(2) by (cases d) (simp_all add: t)
  next
    case (inner l r)
    then show ?thesis
      using Cons.IH [of l] Cons.IH [of r] Cons.prems(2) recovered_root [OF inner(7)] recovered_root [OF inner(8)]
      by (cases d) (simp_all add: t hash_pair_def)
  qed
qed

lemma received_valid:
  assumes "honest alg t" "node_at p t \<noteq> None" "m_bHashValid (received x False p t)"
  shows "received x False p t = recovered p t"
proof -
  obtain h ds bs lb v pl pr where t: "t = HashTree h ds bs lb v pl pr" by (cases t)
  from assms(1) [unfolded t] show ?thesis
    by (cases rule: honest_cases; cases p) (use assms(2,3) in \<open>auto simp: t split: if_splits\<close>)
qed

lemma fill_received:
  assumes "honest alg t" "node_at p t \<noteq> None"
  shows "fill_child alg (Some (received x False p t)) = Some (recovered p t)"
  using ReCalculate_received [OF assms] received_valid [OF assms] by (auto simp: fill_child_def)

lemma fill_valid [simp]: "m_bHashValid t \<Longrightarrow> fill_child alg (Some t) = Some t"
  by (simp add: fill_child_def)

lemma Verify_bare [simp]: "VerifyHashTree alg b (bare_node t) = (True, bare_node t)"
  by (simp add: bare_node_def set_tree_hash_def empty_node_def CAICHHashTree_def VerifyHashTree.simps)

lemma Verify_children:
  assumes "fill_child alg pl = Some l" "fill_child alg pr = Some r" "m_bHashValid l" "m_bHashValid r"
    "h = hash_pair alg l r" "VerifyHashTree alg b l = (True, l)" "VerifyHashTree alg b r = (True, r)"
  shows "VerifyHashTree alg b (HashTree h ds bs lb True pl pr) = (True, HashTree h ds bs lb True (Some l) (Some r))"
  using assms by (simp add: VerifyHashTree.simps [of alg b])

lemma Verify_honest: "honest alg t \<Longrightarrow> VerifyHashTree alg b t = (True, t)"
proof (induction t)
  case (HashTree h ds bs lb v pl pr)
  from HashTree.prems show ?case
  proof (cases rule: honest_cases)
    case leaf
    then show ?thesis by (simp add: VerifyHashTree.simps)
  next
    case (inner l r)
    then show ?thesis using HashTree.IH honest_valid [OF inner(7)] honest_valid [OF inner(8)]
      by (simp add: Verify_children)
  qed
qed

lemma Verify_recovered:
  "honest alg t \<Longrightarrow> VerifyHashTree alg b (recovered p t) = (True, recovered p t)"
proof (induction p arbitrary: t)
  case Nil
  then show ?case by (simp add: Verify_honest)
next
  case (Cons d p)
  obtain h ds bs lb v pl pr where t: "t = HashTree h ds bs lb v pl pr" by (cases t)
  from Cons.prems [unfolded t] show ?case
  proof (cases rule: honest_cases)
    case leaf
    then show ?thesis using Verify_honest [OF Cons.prems] by (cases d) (simp_all add: t)
  next
    case (inner l r)
    then show ?thesis
      using Cons.IH recovered_root [OF inner(7)] recovered_root [OF inner(8)]
      by (cases d) (auto simp: t hash_pair_def intro!: Verify_children)
  qed
qed

lemma Verify_received:
  assumes "honest alg t" "node_at p t \<noteq> None" "m_nBaseSize t < m_nDataSize t"
  shows "VerifyHashTree alg b (received (m_Hash t) True p t) = (True, recovered p t)"
proof -
  obtain h ds bs lb v pl pr where t: "t = HashTree h ds bs lb v pl pr" by (cases t)
  from assms(1) [unfolded t] show ?thesis
  proof (cases rule: honest_cases)
    case leaf
    then show ?thesis using assms(3) by (simp add: t)
  next
    case (inner l r)
    have hv: "m_bHashValid l" "m_bHashValid r" using honest_valid inner(7,8) by auto
    have leaves: "fill_child alg (Some (with_leaves CAICHHash_new False u)) = Some u" if "honest alg u" for u
      using fill_received [OF that, of "[]"] by simp
    show ?thesis
    proof (cases p)
      case Nil
      then show ?thesis using inner hv leaves Verify_honest by (auto simp: t intro!: Verify_children)
    next
      case (Cons d q)
      then show ?thesis
        using inner fill_received [OF inner(7), of q] fill_received [OF inner(8), of q] assms(2)
          recovered_root [OF inner(7)] recovered_root [OF inner(8)] Verify_recovered
        by (cases d) (auto simp: t hash_pair_def intro!: Verify_children)
    qed
  qed
qed

subsection \<open>Looking up in trees of the same shape\<close>

lemma same_root_children:
  assumes "shaped (HashTree h ds bs lb v l r)" "shaped (HashTree h' ds bs lb v' l' r')"
  shows "same_root (or_new l (tree_nLeft ds bs lb) True) (or_new l' (tree_nLeft ds bs lb) True)"
    and "same_root (or_new r (ds - tree_nLeft ds bs lb) False) (or_new r' (ds - tree_nLeft ds bs lb) False)"
  using shaped_or_new [OF assms(1)] shaped_or_new [OF assms(2)] shaped_base by (auto simp: same_root_def)

lemma FindHash_same_shape:
  assumes "shaped t" "shaped u" "same_root t u" "FindHash pos sz lev t = (p, lev', t')"
  shows "\<exists>u'. FindHash pos sz lev u = (p, lev', u')"
  using assms
proof (induction "levels_left lev" arbitrary: pos sz lev t u p lev' t' rule: less_induct)
  case less
  obtain h ds bs lb v l r where t: "t = HashTree h ds bs lb v l r" by (cases t)
  obtain h' v' l' r' where u: "u = HashTree h' ds bs lb v' l' r'" using less.prems(3) by (cases u) (simp add: t same_root_def)
  note ch = same_root_children [OF less.prems(1,2) [unfolded t u]]
  note sh = shaped_or_new [OF less.prems(1) [unfolded t]] shaped_or_new [OF less.prems(2) [unfolded u]]
  have IH: "\<exists>b. FindHash q sz (lev + 1) c' = (x, y, b)"
    if "lev + 1 \<le> 22" "shaped c" "shaped c'" "same_root c c'" "FindHash q sz (lev + 1) c = (x, y, a)" for q c c' x y a
    using less.hyps [OF levels_left_step [OF that(1)] that(2-5)] .
  show ?case
  proof (cases "lev + 1 \<le> 22")
    case False
    then show ?thesis using less.prems(4) by (auto simp: t u FindHash.simps [of pos] Let_def)
  next
    case True
    obtain x y a where l1: "FindHash pos sz (lev + 1) (or_new l (tree_nLeft ds bs lb) True) = (x, y, a)" by (metis prod_cases3)
    obtain b where l2: "FindHash pos sz (lev + 1) (or_new l' (tree_nLeft ds bs lb) True) = (x, y, b)"
      using IH [OF True sh(1) sh(7) ch(1) l1] by blast
    obtain x' y' a' where r1: "FindHash (pos - tree_nLeft ds bs lb) sz (lev + 1) (or_new r (ds - tree_nLeft ds bs lb) False) = (x', y', a')"
      by (metis prod_cases3)
    obtain b' where r2: "FindHash (pos - tree_nLeft ds bs lb) sz (lev + 1) (or_new r' (ds - tree_nLeft ds bs lb) False) = (x', y', b')"
      using IH [OF True sh(2) sh(8) ch(2) r1] by blast
    show ?thesis using less.prems(4) by (auto simp: t u FindHash.simps [of pos] Let_def l1 l2 r1 r2 split: if_splits)
  qed
qed

lemma FindHash_way:
  assumes "honest alg u" "shaped u" "FindHash pos sz lev u = (Some p, lev', u')"
  shows "FindHash pos sz lev (HashTree x (m_nDataSize u) (m_nBaseSize u) (m_bIsLeftBranch u) b None None) = (Some p, lev', way x b p u)"
  using assms
proof (induction p arbitrary: pos lev u u' x b)
  case Nil
  obtain h ds bs lb v pl pr where u: "u = HashTree h ds bs lb v pl pr" by (cases u)
  have "FindHash pos sz lev (HashTree h ds bs lb v pl pr) = (Some [], lev', u')" using Nil.prems(3) by (simp add: u)
  then show ?case by (auto simp: u FindHash.simps [of pos] Let_def split: if_splits prod.splits)
next
  case (Cons d p)
  obtain h ds bs lb v pl pr where u: "u = HashTree h ds bs lb v pl pr" by (cases u)
  from Cons.prems(3) [unfolded u] show ?case
  proof (cases rule: FindHash_Some_cases)
    case (left q c)
    then have "bs < ds" by simp
    from honest_or_new [OF Cons.prems(1) [unfolded u] this] obtain l r
      where lr: "pl = Some l" "pr = Some r" "or_new pl (tree_nLeft ds bs lb) True = l" "honest alg l" by metis
    note new = new_children [OF Cons.prems(2) [unfolded u lr]]
    show ?thesis
      using Cons.IH [OF lr(4) new(3), of pos "lev + 1" c CAICHHash_new False] left lr new
      by (auto simp: u FindHash.simps [of pos _ lev] Let_def) (simp_all add: empty_node_def CAICHHashTree_def)
  next
    case (right q c)
    then have "bs < ds" by simp
    from honest_or_new [OF Cons.prems(1) [unfolded u] this] obtain l r
      where lr: "pl = Some l" "pr = Some r" "or_new pr (ds - tree_nLeft ds bs lb) False = r" "honest alg r" by metis
    note new = new_children [OF Cons.prems(2) [unfolded u lr(1,2)]]
    show ?thesis
      using Cons.IH [OF lr(4) new(4), of "pos - tree_nLeft ds bs lb" "lev + 1" c CAICHHash_new False] right lr new
      by (auto simp: u FindHash.simps [of pos _ lev] Let_def) (simp_all add: empty_node_def CAICHHashTree_def)
  qed simp
qed

subsection \<open>Depth and number of hashes\<close>

lemma shaped_step:
  assumes "shaped t" "node_at (d # p) t \<noteq> None"
  obtains c where "node_at p c \<noteq> None" "shaped c" "m_nBaseSize t < m_nDataSize t"
    "m_nDataSize c = (let nl = tree_nLeft (m_nDataSize t) (m_nBaseSize t) (m_bIsLeftBranch t) in if d then nl else m_nDataSize t - nl)"
  using assms by (cases t; cases d) (auto simp: shaped.simps split: option.splits)

lemma child_units:
  assumes "1 < bs" "bs < ds" "unat ds \<le> unat bs * (2 * m)"
  shows "unat (tree_nLeft ds bs lb) \<le> unat bs * m" "unat (ds - tree_nLeft ds bs lb) \<le> unat bs * m"
    "unat (ds - tree_nLeft ds bs lb) = unat ds - unat (tree_nLeft ds bs lb)"
  using split_halves [OF assms refl, of lb] by (simp_all add: unat_sub_le word_le_nat_alt)

lemma depth_in_part:
  assumes "shaped t" "unat (m_nDataSize t) \<le> 9728000" "unat (m_nDataSize t) \<le> 184320 * 2 ^ k" "node_at p t \<noteq> None"
  shows "length p \<le> k"
  using assms
proof (induction p arbitrary: t k)
  case (Cons d p)
  from shaped_step [OF Cons.prems(1,4)] obtain c where c: "node_at p c \<noteq> None" "shaped c" "m_nBaseSize t < m_nDataSize t"
    "m_nDataSize c = (let nl = tree_nLeft (m_nDataSize t) (m_nBaseSize t) (m_bIsLeftBranch t) in if d then nl else m_nDataSize t - nl)" .
  have bs: "m_nBaseSize t = 184320"
    using shaped_base [OF Cons.prems(1)] Cons.prems(2) by (simp add: child_base_def PARTSIZE_def EMBLOCKSIZE_def word_le_nat_alt)
  then have gt: "184320 < unat (m_nDataSize t)" using c(3) by (simp add: word_less_nat_alt)
  then obtain j where k: "k = Suc j" using Cons.prems(3) by (cases k) auto
  note u = child_units [OF _ c(3), of "2 ^ j" "m_bIsLeftBranch t"]
  have le: "unat (m_nDataSize c) \<le> 184320 * 2 ^ j" "unat (m_nDataSize c) \<le> 9728000"
    using u c(3,4) Cons.prems(2,3) tree_nLeft_le [OF c(3), of "m_bIsLeftBranch t"] by (auto simp: bs k Let_def)
  show ?case using Cons.IH [OF c(2) le(2,1) c(1)] by (simp add: k)
qed simp

lemma depth_in_file:
  assumes "shaped t" "unat (m_nDataSize t) \<le> 9728000 * 2 ^ k" "node_at p t \<noteq> None"
  shows "length p \<le> k + 6"
  using assms
proof (induction p arbitrary: t k)
  case (Cons d p)
  show ?case
  proof (cases "unat (m_nDataSize t) \<le> 9728000")
    case True
    then show ?thesis using depth_in_part [OF Cons.prems(1) True, of 6, OF _ Cons.prems(3)] by simp
  next
    case False
    from shaped_step [OF Cons.prems(1,3)] obtain c where c: "node_at p c \<noteq> None" "shaped c" "m_nBaseSize t < m_nDataSize t"
      "m_nDataSize c = (let nl = tree_nLeft (m_nDataSize t) (m_nBaseSize t) (m_bIsLeftBranch t) in if d then nl else m_nDataSize t - nl)" .
    have bs: "m_nBaseSize t = 9728000"
      using shaped_base [OF Cons.prems(1)] False by (simp add: child_base_def PARTSIZE_def word_le_nat_alt)
    obtain j where k: "k = Suc j" using Cons.prems(2) False by (cases k) auto
    note u = child_units [OF _ c(3), of "2 ^ j" "m_bIsLeftBranch t"]
    have "unat (m_nDataSize c) \<le> 9728000 * 2 ^ j"
      using u c(4) Cons.prems(2) by (auto simp: bs k Let_def)
    from Cons.IH [OF c(2) this c(1)] show ?thesis by (simp add: k)
  qed
qed simp

lemma leaf_record_ways:
  assumes "(p, h) \<in> set (leaf_records t)" "honest alg t"
  shows "node_at p t \<noteq> None \<and> length h = HASHSIZE"
  using assms
proof (induction t arbitrary: p)
  case (HashTree h' ds bs lb v pl pr)
  from HashTree.prems(2) show ?case
  proof (cases rule: honest_cases)
    case leaf
    then show ?thesis using HashTree.prems(1) by simp
  next
    case (inner l r)
    then show ?thesis using HashTree.prems(1) HashTree.IH(1) [of l] HashTree.IH(2) [of r] by auto
  qed
qed

lemma recovery_ways:
  assumes "(q, h) \<in> set (recovery p t)" "honest alg t" "node_at p t \<noteq> None" "m_nBaseSize t < m_nDataSize t"
  shows "node_at q t \<noteq> None \<and> length h = HASHSIZE \<and> q \<noteq> []"
proof -
  have "node_at q t \<noteq> None \<and> length h = HASHSIZE \<and> (q = [] \<longrightarrow> leaf_records t = [([], h)])"
    using assms(1-3)
  proof (induction p arbitrary: q t)
    case Nil
    then have "node_at q t \<noteq> None \<and> length h = HASHSIZE" using leaf_record_ways by simp
    moreover have "leaf_records t = [([], h)]" if "q = []"
      using Nil that by (cases t rule: leaf_records.cases) auto
    ultimately show ?case by blast
  next
    case (Cons d p)
    obtain h' ds bs lb v pl pr where t: "t = HashTree h' ds bs lb v pl pr" by (cases t)
    from Cons.prems(2) [unfolded t] show ?case
    proof (cases rule: honest_cases)
      case leaf
      then show ?thesis using Cons.prems by (cases d) (auto simp: t)
    next
      case (inner l r)
      then show ?thesis
        using Cons.prems Cons.IH [of _ l] Cons.IH [of _ r] honest_valid [OF inner(7)] honest_valid [OF inner(8)]
        by (cases d) (auto simp: t)
    qed
  qed
  moreover have "leaf_records t \<noteq> [([], h)]"
  proof -
    obtain h' ds bs lb v pl pr where t: "t = HashTree h' ds bs lb v pl pr" by (cases t)
    from assms(2) [unfolded t] show ?thesis
      by (cases rule: honest_cases) (use assms(4) in \<open>auto simp: t append_eq_Cons_conv Cons_eq_append_conv map_eq_Cons_conv\<close>)
  qed
  ultimately show ?thesis by blast
qed

definition block_count :: "nat \<Rightarrow> nat" where
  "block_count n = n div 184320 + (if n mod 184320 \<noteq> 0 then 1 else 0)"

lemma block_count_add: "block_count (184320 * j + n) = j + block_count n"
  by (simp add: block_count_def)

lemma leaf_count:
  assumes "honest alg t" "shaped t" "unat (m_nDataSize t) \<le> 9728000" "0 < unat (m_nDataSize t)"
  shows "length (leaf_records t) = block_count (unat (m_nDataSize t))"
  using assms
proof (induction t)
  case (HashTree h ds bs lb v pl pr)
  have bs: "bs = 184320"
    using HashTree.prems(2,3) by (simp add: shaped.simps child_base_def PARTSIZE_def EMBLOCKSIZE_def word_le_nat_alt)
  from HashTree.prems(1) show ?case
  proof (cases rule: honest_cases)
    case leaf
    have "unat ds \<le> 184320" using leaf(5) by (simp add: bs word_le_nat_alt)
    moreover have "0 < unat ds" using HashTree.prems(4) by simp
    ultimately have "block_count (unat ds) = 1" by (cases "unat ds = 184320") (simp_all add: block_count_def)
    then show ?thesis using leaf by simp
  next
    case (inner l r)
    have sh: "shaped l" "m_nDataSize l = tree_nLeft ds bs lb" "shaped r" "m_nDataSize r = ds - tree_nLeft ds bs lb"
      using HashTree.prems(2) by (simp_all add: inner shaped.simps)
    note half = split_halves [OF _ inner(5), of "unat ds" _ lb, OF _ _ refl]
    obtain j where j: "unat (tree_nLeft ds bs lb) = 184320 * j" "0 < j" "unat (tree_nLeft ds bs lb) < unat ds"
      using half(1) half(4) by (auto simp: bs)
    have r: "unat (m_nDataSize r) = unat ds - 184320 * j"
      using sh(4) j by (simp add: unat_sub_le word_le_nat_alt)
    have "length (leaf_records l) = block_count (184320 * j)" "length (leaf_records r) = block_count (unat ds - 184320 * j)"
      using HashTree.IH(1) [of l] HashTree.IH(2) [of r] inner sh j r HashTree.prems(3) by simp_all
    moreover have "block_count (184320 * j) = j" using block_count_add [of j 0] by (simp add: block_count_def)
    moreover have "block_count (unat ds) = j + block_count (unat ds - 184320 * j)"
      using block_count_add [of j "unat ds - 184320 * j"] j by simp
    ultimately show ?thesis using inner by simp
  qed
qed

lemma recovery_count:
  assumes "honest alg t" "shaped t" "node_at p t = Some n" "unat (m_nDataSize n) \<le> 9728000" "0 < unat (m_nDataSize n)"
  shows "length (recovery p t) = length p + block_count (unat (m_nDataSize n))"
  using assms
proof (induction p arbitrary: t)
  case Nil
  then show ?case by (simp add: leaf_count)
next
  case (Cons d p)
  obtain h ds bs lb v pl pr where t: "t = HashTree h ds bs lb v pl pr" by (cases t)
  from Cons.prems(1) [unfolded t] show ?case
  proof (cases rule: honest_cases)
    case leaf
    then show ?thesis using Cons.prems(3) by (cases d) (simp_all add: t)
  next
    case (inner l r)
    have "shaped l" "shaped r" using Cons.prems(2) by (simp_all add: t inner shaped.simps)
    then show ?thesis using Cons inner by (cases d) (auto simp: t)
  qed
qed

lemma recovery_bytes_length:
  assumes "honest alg t" "node_at p t \<noteq> None" "m_nBaseSize t < m_nDataSize t"
  shows "length (record_bytes w b32 (recovery p t)) = length (recovery p t) * (HASHSIZE + (if b32 then 4 else 2))"
proof -
  have "length (record_bytes w b32 rs) = length rs * (HASHSIZE + (if b32 then 4 else 2))"
    if "\<forall>(q, h) \<in> set rs. length h = HASHSIZE" for rs
    using that by (induction rs) (auto simp: ident_bytes_def)
  then show ?thesis using recovery_ways [OF _ assms] by fast
qed

end
