(* ===== verification/AICHHashSet.thy ===== *)
theory AICHHashSet
  imports AICHRecovery
begin

text \<open>
  \<open>CAICHHashSet\<close> (src/amule-3.0.1/src/SHAHashSet.h and SHAHashSet.cpp): the hash tree of a file
  with its status. The operations are here: which root hash is trusted, the list of pending
  requests, recovery data from and to other clients, and the file \<open>known2_64.met\<close> in which the
  block hashes of complete files are kept, with the cache of the offsets of its entries.

  The lock around the cache is not modelled, each operation is one step. Loops over the file have
  fuel, the size of the file: every turn consumes at least the 24 bytes of an entry without
  hashes.
\<close>

subsection \<open>The class\<close>

datatype EAICHStatus = AICH_ERROR | AICH_EMPTY | AICH_UNTRUSTED | AICH_TRUSTED | AICH_VERIFIED | AICH_HASHSETCOMPLETE

text \<open>What the hash set asks its owner.\<close>

record known_file =
  IsPartFile :: bool
  m_nFileSize :: u64

definition IsLargeFile :: "known_file \<Rightarrow> bool" where
  "IsLargeFile f \<longleftrightarrow> m_nFileSize f > OLD_MAX_FILE_SIZE"

record CAICHUntrustedHash =
  u_Hash :: CAICHHash
  m_adwIpsSigning :: "u32 set"

record CAICHHashSet =
  m_pOwner :: known_file
  m_eStatus :: EAICHStatus
  m_aUntrustedHashs :: "CAICHUntrustedHash list"
  m_pHashTree :: aich_tree

definition CAICHHashSet_new :: "known_file \<Rightarrow> CAICHHashSet" where
  "CAICHHashSet_new owner =
     \<lparr>m_pOwner = owner, m_eStatus = AICH_EMPTY, m_aUntrustedHashs = [], m_pHashTree = CAICHHashTree 0 True PARTSIZE\<rparr>"

text \<open>\<open>GetNewHashAlgo\<close> returns a new \<open>CSHA\<close>.\<close>

definition GetNewHashAlgo :: "host \<Rightarrow> hashalg" where
  "GetNewHashAlgo h = CSHA_alg h"

definition FreeHashSet :: "CAICHHashSet \<Rightarrow> CAICHHashSet" where
  "FreeHashSet hs = hs\<lparr>m_pHashTree := (case m_pHashTree hs of HashTree h ds bs lb v l r \<Rightarrow> HashTree h ds bs lb v None None)\<rparr>"

definition SetStatus :: "EAICHStatus \<Rightarrow> CAICHHashSet \<Rightarrow> CAICHHashSet" where
  "SetStatus st hs = hs\<lparr>m_eStatus := st\<rparr>"

definition SetMasterHash :: "CAICHHash \<Rightarrow> EAICHStatus \<Rightarrow> CAICHHashSet \<Rightarrow> CAICHHashSet" where
  "SetMasterHash Hash eNewStatus hs = SetStatus eNewStatus (hs\<lparr>m_pHashTree := set_tree_hash Hash (m_pHashTree hs)\<rparr>)"

definition SetFileSize :: "u64 \<Rightarrow> CAICHHashSet \<Rightarrow> CAICHHashSet" where
  "SetFileSize nSize hs = hs\<lparr>m_pHashTree := (case m_pHashTree hs of HashTree h ds bs lb v l r \<Rightarrow>
     HashTree h nSize (if nSize \<le> PARTSIZE then EMBLOCKSIZE else PARTSIZE) lb v l r)\<rparr>"

definition HasValidMasterHash :: "CAICHHashSet \<Rightarrow> bool" where
  "HasValidMasterHash hs = m_bHashValid (m_pHashTree hs)"

definition GetMasterHash :: "CAICHHashSet \<Rightarrow> CAICHHash" where
  "GetMasterHash hs = m_Hash (m_pHashTree hs)"

definition ReCalculateSet :: "hashalg \<Rightarrow> bool \<Rightarrow> CAICHHashSet \<Rightarrow> bool \<times> CAICHHashSet" where
  "ReCalculateSet alg bDontReplace hs =
     (case ReCalculateHash alg bDontReplace (m_pHashTree hs) of (ok, t) \<Rightarrow> (ok, hs\<lparr>m_pHashTree := t\<rparr>))"

definition VerifySet :: "hashalg \<Rightarrow> bool \<Rightarrow> CAICHHashSet \<Rightarrow> bool \<times> CAICHHashSet" where
  "VerifySet alg bDeleteBadTrees hs =
     (case VerifyHashTree alg bDeleteBadTrees (m_pHashTree hs) of (ok, t) \<Rightarrow> (ok, hs\<lparr>m_pHashTree := t\<rparr>))"

subsection \<open>Trust\<close>

definition AddSigningIP :: "u32 \<Rightarrow> CAICHUntrustedHash \<Rightarrow> CAICHUntrustedHash \<times> bool" where
  "AddSigningIP dwIP u =
     (let dwIP = dwIP AND 0x00F0FFFF
      in (u\<lparr>m_adwIpsSigning := insert dwIP (m_adwIpsSigning u)\<rparr>, dwIP \<notin> m_adwIpsSigning u))"

fun sign_hash :: "CAICHHash \<Rightarrow> u32 \<Rightarrow> CAICHUntrustedHash list \<Rightarrow> CAICHUntrustedHash list" where
  "sign_hash Hash dwFromIP [] =
     [fst (AddSigningIP dwFromIP \<lparr>u_Hash = Hash, m_adwIpsSigning = {}\<rparr>)]"
| "sign_hash Hash dwFromIP (u # us) =
     (if u_Hash u = Hash then fst (AddSigningIP dwFromIP u) # us else u # sign_hash Hash dwFromIP us)"

text \<open>The loop over the hashes: the number of signatures, the position of the hash that has most
  of them (\<open>None\<close> is \<open>-1\<close>) and their number.\<close>

fun count_signers :: "nat \<Rightarrow> CAICHUntrustedHash list \<Rightarrow> u32 \<times> nat option \<times> u32 \<Rightarrow> u32 \<times> nat option \<times> u32" where
  "count_signers i [] acc = acc"
| "count_signers i (u # us) (nSigningIPsTotal, nMostTrustedPos, nMostTrustedIPs) =
     (let n = of_nat (card (m_adwIpsSigning u)) :: u32; total = nSigningIPsTotal + n in
      count_signers (i + 1) us
        (if n > nMostTrustedIPs then (total, Some i, n) else (total, nMostTrustedPos, nMostTrustedIPs)))"

definition MINUNIQUEIPS_TOTRUST :: u32 where
  "MINUNIQUEIPS_TOTRUST = 10"

definition MINPERCENTAGE_TOTRUST :: u32 where
  "MINPERCENTAGE_TOTRUST = 92"

definition adopt_hash :: "CAICHHash \<Rightarrow> EAICHStatus \<Rightarrow> CAICHHashSet \<Rightarrow> CAICHHashSet" where
  "adopt_hash Hash st hs =
     (let hs = SetStatus st hs in
      if \<not> HasValidMasterHash hs \<or> GetMasterHash hs \<noteq> Hash then FreeHashSet (SetMasterHash Hash st hs) else hs)"

definition UntrustedHashReceived :: "bool \<Rightarrow> CAICHHash \<Rightarrow> u32 \<Rightarrow> CAICHHashSet \<Rightarrow> CAICHHashSet" where
  "UntrustedHashReceived trusting Hash dwFromIP hs =
     (if m_eStatus hs \<notin> {AICH_EMPTY, AICH_UNTRUSTED, AICH_TRUSTED} then hs
      else let hs = hs\<lparr>m_aUntrustedHashs := sign_hash Hash dwFromIP (m_aUntrustedHashs hs)\<rparr> in
        case count_signers 0 (m_aUntrustedHashs hs) (0, None, 0) of
          (nSigningIPsTotal, nMostTrustedPos, nMostTrustedIPs) \<Rightarrow>
            (case nMostTrustedPos of
               None \<Rightarrow> hs
             | Some i \<Rightarrow>
                 if nSigningIPsTotal = 0 then hs
                 else if trusting \<or>
                     (nMostTrustedIPs \<ge> MINUNIQUEIPS_TOTRUST \<and>
                      (100 * nMostTrustedIPs) div nSigningIPsTotal \<ge> MINPERCENTAGE_TOTRUST)
                 then adopt_hash (u_Hash (m_aUntrustedHashs hs ! i)) AICH_TRUSTED hs
                 else adopt_hash (u_Hash (m_aUntrustedHashs hs ! i)) AICH_UNTRUSTED hs))"

subsection \<open>Requests\<close>

text \<open>The static list of pending requests; files and clients are known by their addresses.\<close>

record ('f, 'c) CAICHRequestedData =
  m_nPart :: u16
  m_pPartFile :: "'f option"
  m_pClient :: "'c option"

fun RemoveClientAICHRequest :: "'c option \<Rightarrow> ('f, 'c) CAICHRequestedData list \<Rightarrow> ('f, 'c) CAICHRequestedData list" where
  "RemoveClientAICHRequest pClient [] = []"
| "RemoveClientAICHRequest pClient (d # ds) =
     (if m_pClient d = pClient then ds else d # RemoveClientAICHRequest pClient ds)"

fun IsClientRequestPending :: "'f option \<Rightarrow> u16 \<Rightarrow> ('f, 'c) CAICHRequestedData list \<Rightarrow> bool" where
  "IsClientRequestPending pForFile nPart [] = False"
| "IsClientRequestPending pForFile nPart (d # ds) =
     (if m_pPartFile d = pForFile \<and> m_nPart d = nPart then True else IsClientRequestPending pForFile nPart ds)"

fun DropReferencesTo :: "'f option \<Rightarrow> ('f, 'c) CAICHRequestedData list \<Rightarrow> ('f, 'c) CAICHRequestedData list" where
  "DropReferencesTo p [] = []"
| "DropReferencesTo p (d # ds) = (if m_pPartFile d = p then DropReferencesTo p ds else d # DropReferencesTo p ds)"

fun GetAICHReqDetails :: "'c option \<Rightarrow> ('f, 'c) CAICHRequestedData list \<Rightarrow> ('f, 'c) CAICHRequestedData" where
  "GetAICHReqDetails pClient [] = \<lparr>m_nPart = 0, m_pPartFile = None, m_pClient = None\<rparr>"
| "GetAICHReqDetails pClient (d # ds) = (if m_pClient d = pClient then d else GetAICHReqDetails pClient ds)"

text \<open>After a failed request: the list without it, and the part for which another client is to be
  asked, if its file is still in the download queue.\<close>

definition ClientAICHRequestFailed ::
  "('f option \<Rightarrow> bool) \<Rightarrow> 'c \<Rightarrow> ('f, 'c) CAICHRequestedData list \<Rightarrow>
     ('f, 'c) CAICHRequestedData list \<times> ('f option \<times> u16) option" where
  "ClientAICHRequestFailed in_queue pClient ds =
     (let data = GetAICHReqDetails (Some pClient) ds; ds' = RemoveClientAICHRequest (Some pClient) ds in
      if m_pClient data \<noteq> Some pClient then (ds', None)
      else if in_queue (m_pPartFile data) then (ds', Some (m_pPartFile data, m_nPart data))
      else (ds', None))"

subsection \<open>Recovery data\<close>

definition part_size :: "known_file \<Rightarrow> u64 \<Rightarrow> u64" where
  "part_size owner nPartStartPos = min PARTSIZE (m_nFileSize owner - nPartStartPos)"

definition blocks_of :: "u32 \<Rightarrow> u32" where
  "blocks_of nPartSize = nPartSize div EMBLOCKSIZE + (if nPartSize mod EMBLOCKSIZE \<noteq> 0 then 1 else 0)"

text \<open>The number of hashes for a part: \<open>nHashsToWrite\<close> and \<open>nHashsToRead\<close>.\<close>

definition hashes_needed :: "u8 \<Rightarrow> u32 \<Rightarrow> u16" where
  "hashes_needed nLevel nPartSize = ucast (ucast nLevel - 1 + blocks_of nPartSize :: u32)"

text \<open>The loop that looks every block of a part up; the argument counts down the blocks.\<close>

function check_blocks :: "u64 \<Rightarrow> nat \<Rightarrow> nat \<Rightarrow> aich_tree \<Rightarrow> bool \<times> aich_tree" where
  "check_blocks nPartStartPos nPartSize nPartPos t =
     (if nPartPos < nPartSize then
        case FindHash (nPartStartPos + of_nat nPartPos) (of_nat (min 184320 (nPartSize - nPartPos))) 0 t of
          (p, _, t') \<Rightarrow>
            (case p of
               None \<Rightarrow> (False, t')
             | Some p \<Rightarrow>
                 (case node_at p t' of
                    None \<Rightarrow> (False, t')
                  | Some n \<Rightarrow> if m_bHashValid n then check_blocks nPartStartPos nPartSize (nPartPos + 184320) t'
                              else (False, t')))
      else (True, t))"
  by auto
termination by (relation "measure (\<lambda>(a, n, p, t). n - p)") auto

declare check_blocks.simps [simp del]

definition IsPartDataAvailable :: "u64 \<Rightarrow> CAICHHashSet \<Rightarrow> bool \<times> CAICHHashSet" where
  "IsPartDataAvailable nPartStartPos hs =
     (if m_eStatus hs \<notin> {AICH_VERIFIED, AICH_TRUSTED, AICH_HASHSETCOMPLETE} then (False, hs)
      else case check_blocks nPartStartPos (unat (part_size (m_pOwner hs) nPartStartPos)) 0 (m_pHashTree hs) of
        (ok, t) \<Rightarrow> (ok, hs\<lparr>m_pHashTree := t\<rparr>))"

text \<open>The two loops that read hashes, with identifiers of 16 and of 32 bits. The first result is
  \<open>False\<close> where the source leaves the loop to clean the tree up and return.\<close>

definition read_ident :: "'s file_ops \<Rightarrow> bool \<Rightarrow> ('s, u32) io" where
  "read_ident V b32 = (if b32 then ReadUInt32 V else io_bind (ReadUInt16 V) (\<lambda>w. io_return (ucast w)))"

fun read_hashes :: "'s file_ops \<Rightarrow> bool \<Rightarrow> nat \<Rightarrow> aich_tree \<Rightarrow> 's \<Rightarrow> ('s, bool) res \<times> aich_tree" where
  "read_hashes V b32 0 t s = (Ok True s, t)"
| "read_hashes V b32 (Suc n) t s =
     (case read_ident V b32 s of
        Exc e s' \<Rightarrow> (Exc e s', t)
      | Ok wHashIdent s' \<Rightarrow>
          if wHashIdent = 1 \<or> b32 \<and> wHashIdent > 0x400000 then (Ok False s', t)
          else case SetHash V wHashIdent False t s' of (res, t') \<Rightarrow>
            (case res of
               Ok True s'' \<Rightarrow> read_hashes V b32 n t' s''
             | _ \<Rightarrow> (res, t')))"

definition bytes_left :: "'s file_ops \<Rightarrow> 's \<Rightarrow> u64" where
  "bytes_left V s = of_nat (GetLength V s) - of_nat (GetPosition V s)"

text \<open>After the two counts: the final verification and the check for the blocks of the part.\<close>

definition finish_recovery :: "hashalg \<Rightarrow> u64 \<Rightarrow> u32 \<Rightarrow> aich_tree \<Rightarrow> 's \<Rightarrow> ('s, bool) res \<times> aich_tree" where
  "finish_recovery alg nPartStartPos nPartSize t s =
     (case VerifyHashTree alg True t of (ok, t') \<Rightarrow>
        if ok then (case check_blocks nPartStartPos (unat nPartSize) 0 t' of (found, t'') \<Rightarrow> (Ok found s, t''))
        else (Ok False s, t'))"

definition read_32bit_hashes ::
  "hashalg \<Rightarrow> 's file_ops \<Rightarrow> u64 \<Rightarrow> u32 \<Rightarrow> u16 \<Rightarrow> aich_tree \<Rightarrow> 's \<Rightarrow> ('s, bool) res \<times> aich_tree" where
  "read_32bit_hashes alg V nPartStartPos nPartSize nHashsToRead t s =
     (case ReadUInt16 V s of
        Exc e s1 \<Rightarrow> (Exc e s1, t)
      | Ok nHashsAvailable s1 \<Rightarrow>
          if bytes_left V s1 < ucast nHashsToRead * 24 \<or> nHashsToRead \<noteq> nHashsAvailable \<and> nHashsAvailable \<noteq> 0
          then (Ok False s1, t)
          else case read_hashes V True (unat nHashsToRead) t s1 of (res, t1) \<Rightarrow>
            (case res of
               Exc e s2 \<Rightarrow> (Exc e s2, t1)
             | Ok False s2 \<Rightarrow> (Ok False s2, snd (VerifyHashTree alg True t1))
             | Ok True s2 \<Rightarrow>
                 if nHashsAvailable = 0 then (Ok False s2, t1)
                 else finish_recovery alg nPartStartPos nPartSize t1 s2))"

definition read_recovery ::
  "hashalg \<Rightarrow> 's file_ops \<Rightarrow> u64 \<Rightarrow> u32 \<Rightarrow> aich_tree \<Rightarrow> 's \<Rightarrow> ('s, bool) res \<times> aich_tree" where
  "read_recovery alg V nPartStartPos nPartSize t s =
     (case FindHash nPartStartPos (ucast nPartSize) 0 t of (_, nLevel, t) \<Rightarrow>
      let nHashsToRead = hashes_needed nLevel nPartSize in
      case ReadUInt16 V s of
        Exc e s1 \<Rightarrow> (Exc e s1, t)
      | Ok nHashsAvailable s1 \<Rightarrow>
          if bytes_left V s1 < ucast nHashsToRead * 22 \<or> nHashsToRead \<noteq> nHashsAvailable \<and> nHashsAvailable \<noteq> 0
          then (Ok False s1, t)
          else case read_hashes V False (unat nHashsAvailable) t s1 of (res, t1) \<Rightarrow>
            (case res of
               Exc e s2 \<Rightarrow> (Exc e s2, t1)
             | Ok False s2 \<Rightarrow> (Ok False s2, snd (VerifyHashTree alg True t1))
             | Ok True s2 \<Rightarrow>
                 if nHashsAvailable = 0 \<and> bytes_left V s2 \<ge> 2
                 then read_32bit_hashes alg V nPartStartPos nPartSize nHashsToRead t1 s2
                 else if nHashsAvailable = 0 then (Ok False s2, t1)
                 else finish_recovery alg nPartStartPos nPartSize t1 s2))"

definition ReadRecoveryData :: "hashalg \<Rightarrow> 's file_ops \<Rightarrow> u64 \<Rightarrow> CAICHHashSet \<Rightarrow> 's \<Rightarrow> ('s, bool) res \<times> CAICHHashSet" where
  "ReadRecoveryData alg V nPartStartPos hs s =
     (if m_eStatus hs \<notin> {AICH_VERIFIED, AICH_TRUSTED} then (Ok False s, hs)
      else case read_recovery alg V nPartStartPos (ucast (part_size (m_pOwner hs) nPartStartPos)) (m_pHashTree hs) s of
        (res, t) \<Rightarrow> (res, hs\<lparr>m_pHashTree := t\<rparr>))"

subsection \<open>The file known2\_64.met\<close>

text \<open>The file system is given by what opening the file yields (\<open>None\<close>: it cannot be opened) and
  whether it exists. An operation that the source guards with a \<open>try\<close> block catches the
  exceptions of reading and writing, but not those of a failed parameter check.\<close>

definition KNOWN2_MET_VERSION :: u8 where
  "KNOWN2_MET_VERSION = 2"

fun is_CSafeIOException :: "mule_exception \<Rightarrow> bool" where
  "is_CSafeIOException e \<longleftrightarrow> e \<in> {CEOFException, CIOFailureException}"

record root_cache =
  s_rootHashCache :: "CAICHHash \<rightharpoonup> u64"
  s_rootHashCacheLoaded :: bool

definition InvalidateRootHashCache :: "root_cache \<Rightarrow> root_cache" where
  "InvalidateRootHashCache c = \<lparr>s_rootHashCache = Map.empty, s_rootHashCacheLoaded = False\<rparr>"

definition cache_emplace :: "CAICHHash \<Rightarrow> u64 \<Rightarrow> root_cache \<Rightarrow> root_cache" where
  "cache_emplace h off c =
     (if s_rootHashCache c h = None then c\<lparr>s_rootHashCache := (s_rootHashCache c)(h \<mapsto> off)\<rparr> else c)"

text \<open>One turn of the loop over the entries: \<open>Some\<close> with the entry, or \<open>None\<close> when the entry is
  cut off.\<close>

definition read_entry :: "'s file_ops \<Rightarrow> nat \<Rightarrow> ('s, (CAICHHash \<times> u64) option) io" where
  "read_entry V nFileSize s =
     (let entryOffset = of_nat (GetPosition V s) in
      io_bind (CAICHHash_Read V) (\<lambda>rootHash.
      io_bind (ReadUInt32 V) (\<lambda>nHashCount s.
        let skipBytes = unat nHashCount * HASHSIZE in
        if GetPosition V s + skipBytes > nFileSize then Ok None s
        else io_bind (Seek V (int skipBytes) wxFromCurrent) (\<lambda>_. io_return (Some (rootHash, entryOffset))) s)) s)"

fun cache_loop :: "nat \<Rightarrow> 's file_ops \<Rightarrow> nat \<Rightarrow> root_cache \<Rightarrow> 's \<Rightarrow> mule_exception option \<times> root_cache" where
  "cache_loop 0 V nFileSize c s = (None, c)"
| "cache_loop (Suc fuel) V nFileSize c s =
     (if GetPosition V s < nFileSize then
        (case read_entry V nFileSize s of
           Exc e s' \<Rightarrow> (Some e, c)
         | Ok None s' \<Rightarrow> (None, c)
         | Ok (Some (rootHash, entryOffset)) s' \<Rightarrow>
             cache_loop fuel V nFileSize (cache_emplace rootHash entryOffset c) s')
      else (None, c))"

definition caught :: "mule_exception option \<times> root_cache \<Rightarrow> mule_exception option \<times> root_cache" where
  "caught r = (case r of (Some e, c) \<Rightarrow> (if is_CSafeIOException e then (None, c) else (Some e, c)) | (None, c) \<Rightarrow> (None, c))"

definition LoadRootHashCacheLocked ::
  "'s file_ops \<Rightarrow> bool \<Rightarrow> 's option \<Rightarrow> root_cache \<Rightarrow> mule_exception option \<times> root_cache" where
  "LoadRootHashCacheLocked V exists opened c =
     (let c = \<lparr>s_rootHashCache = Map.empty, s_rootHashCacheLoaded = True\<rparr> in
      if \<not> exists then (None, c)
      else case opened of
        None \<Rightarrow> (None, c\<lparr>s_rootHashCacheLoaded := False\<rparr>)
      | Some s \<Rightarrow>
          let nFileSize = GetLength V s in
          if nFileSize = 0 then (None, c)
          else caught (case ReadUInt8 V s of
              Exc e s' \<Rightarrow> (Some e, c)
            | Ok header s' \<Rightarrow>
                if header \<noteq> KNOWN2_MET_VERSION then (None, c)
                else cache_loop nFileSize V nFileSize c s'))"

text \<open>The number of block hashes of a file.\<close>

definition hash_count :: "u64 \<Rightarrow> u32" where
  "hash_count nDataSize =
     (let per_part = PARTSIZE div EMBLOCKSIZE + (if PARTSIZE mod EMBLOCKSIZE \<noteq> 0 then 1 else 0);
          n = ucast (per_part * (nDataSize div PARTSIZE)) :: u32;
          last_part = nDataSize mod PARTSIZE
      in if last_part \<noteq> 0
         then n + ucast (last_part div EMBLOCKSIZE + (if last_part mod EMBLOCKSIZE \<noteq> 0 then 1 else 0)) else n)"

text \<open>The \<open>try\<close> block of \<open>SaveHashSet\<close>: the offset of the new entry, or \<open>None\<close> where it returns
  \<open>false\<close>. \<open>set_length\<close> is \<open>CFile::SetLength\<close>.\<close>

definition save_entry ::
  "'s file_ops \<Rightarrow> (nat \<Rightarrow> ('s, unit) io) \<Rightarrow> aich_tree \<Rightarrow> nat \<Rightarrow> ('s, nat option) io" where
  "save_entry V set_length t nExistingSize =
     (let nHashCount = hash_count (m_nDataSize t);
          give_up = io_bind (set_length nExistingSize) (\<lambda>_. io_return None) in
      io_bind (CAICHHash_Write V (m_Hash t)) (\<lambda>_.
      io_bind (WriteUInt32 V nHashCount) (\<lambda>_.
      io_bind (WriteLowestLevelHashs V 0 True True t) (\<lambda>ok s.
        if \<not> ok then give_up s
        else if GetLength V s \<noteq> nExistingSize + unat ((nHashCount + 1) * 20) + 4 then give_up s
        else Ok (Some nExistingSize) s))))"

definition save_to_file ::
  "'s file_ops \<Rightarrow> (nat \<Rightarrow> ('s, unit) io) \<Rightarrow> aich_tree \<Rightarrow> ('s, nat option) io" where
  "save_to_file V set_length t s =
     (let nExistingSize = GetLength V s in
      if nExistingSize \<noteq> 0 then
        io_bind (ReadUInt8 V) (\<lambda>header.
          if header \<noteq> KNOWN2_MET_VERSION then io_return None
          else io_bind (Seek V (int nExistingSize) wxFromStart) (\<lambda>_. save_entry V set_length t nExistingSize)) s
      else io_bind (WriteUInt8 V KNOWN2_MET_VERSION) (\<lambda>_. save_entry V set_length t 1) s)"

text \<open>The results: what is returned or thrown, the cache, and the file as it is left, when it was
  opened. The file is opened for reading to load the cache, and for reading and writing.\<close>

definition SaveHashSet ::
  "'s file_ops \<Rightarrow> (nat \<Rightarrow> ('s, unit) io) \<Rightarrow> bool \<Rightarrow> 's option \<Rightarrow> 's option \<Rightarrow> CAICHHashSet \<Rightarrow> root_cache \<Rightarrow>
     (mule_exception + bool) \<times> root_cache \<times> 's option" where
  "SaveHashSet V set_length exists opened_read opened_write hs c =
     (let t = m_pHashTree hs in
      if m_eStatus hs \<noteq> AICH_HASHSETCOMPLETE then (Inr False, c, None)
      else if \<not> m_bHashValid t \<or> m_nDataSize t \<noteq> m_nFileSize (m_pOwner hs) then (Inr False, c, None)
      else case (if \<not> s_rootHashCacheLoaded c then LoadRootHashCacheLocked V exists opened_read c else (None, c)) of
        (Some e, c) \<Rightarrow> (Inl e, c, None)
      | (None, c) \<Rightarrow>
          if s_rootHashCache c (m_Hash t) \<noteq> None then (Inr True, c, None)
          else case opened_write of
            None \<Rightarrow> (Inr False, c, None)
          | Some s \<Rightarrow>
              (case save_to_file V set_length t s of
                 Exc e s' \<Rightarrow> (if is_CSafeIOException e then Inr False else Inl e, c, Some s')
               | Ok None s' \<Rightarrow> (Inr False, c, Some s')
               | Ok (Some off) s' \<Rightarrow> (Inr True, cache_emplace (m_Hash t) (of_nat off) c, Some s')))"

text \<open>\<open>LoadHashSet\<close> once the root hash has been found in the file.\<close>

definition load_found ::
  "hashalg \<Rightarrow> 's file_ops \<Rightarrow> CAICHHash \<Rightarrow> aich_tree \<Rightarrow> 's \<Rightarrow> (mule_exception + bool) \<times> aich_tree" where
  "load_found alg V CurrentHash t s =
     (case ReadUInt32 V s of
        Exc e s1 \<Rightarrow> (Inl e, t)
      | Ok nHashCount s1 \<Rightarrow>
          if nHashCount \<noteq> hash_count (m_nDataSize t) then (Inr False, t)
          else case LoadLowestLevelHashs V t s1 of (res, t1) \<Rightarrow>
            (case res of
               Exc e s2 \<Rightarrow> (Inl e, t1)
             | Ok False s2 \<Rightarrow> (Inr False, t1)
             | Ok True s2 \<Rightarrow>
                 (case ReCalculateHash alg False t1 of (ok, t2) \<Rightarrow>
                    if \<not> ok then (Inr False, t2)
                    else if CurrentHash \<noteq> m_Hash t2 then (Inr False, t2)
                    else (Inr True, t2))))"

fun load_loop ::
  "nat \<Rightarrow> hashalg \<Rightarrow> 's file_ops \<Rightarrow> nat \<Rightarrow> bool \<Rightarrow> bool \<Rightarrow> aich_tree \<Rightarrow> root_cache \<Rightarrow> 's \<Rightarrow>
     (mule_exception + bool) \<times> aich_tree \<times> root_cache" where
  "load_loop 0 alg V nExistingSize haveCachedOffset cacheFallbackTriggered t c s = (Inr False, t, c)"
| "load_loop (Suc fuel) alg V nExistingSize haveCachedOffset cacheFallbackTriggered t c s =
     (if \<not> GetPosition V s < nExistingSize then (Inr False, t, c)
      else let entryStartPos = GetPosition V s in
        case CAICHHash_Read V s of
          Exc e s1 \<Rightarrow> (Inl e, t, c)
        | Ok CurrentHash s1 \<Rightarrow>
            if m_Hash t = CurrentHash then
              (case load_found alg V CurrentHash t s1 of (r, t') \<Rightarrow>
                (r, t', if r = Inr True \<and> cacheFallbackTriggered
                        then c\<lparr>s_rootHashCache := (s_rootHashCache c)(m_Hash t' \<mapsto> of_nat entryStartPos)\<rparr> else c))
            else if haveCachedOffset \<and> \<not> cacheFallbackTriggered then
              (case Seek V 1 wxFromStart s1 of
                 Exc e s2 \<Rightarrow> (Inl e, t, c)
               | Ok _ s2 \<Rightarrow> load_loop fuel alg V nExistingSize False True t c s2)
            else
              (case ReadUInt32 V s1 of
                 Exc e s2 \<Rightarrow> (Inl e, t, c)
               | Ok nHashCount s2 \<Rightarrow>
                   if GetPosition V s2 + unat (nHashCount * 20) > nExistingSize then (Inr False, t, c)
                   else case Seek V (int (unat (nHashCount * 20))) wxFromCurrent s2 of
                     Exc e s3 \<Rightarrow> (Inl e, t, c)
                   | Ok _ s3 \<Rightarrow> load_loop fuel alg V nExistingSize haveCachedOffset cacheFallbackTriggered t c s3))"

definition load_from_file ::
  "hashalg \<Rightarrow> 's file_ops \<Rightarrow> u64 option \<Rightarrow> aich_tree \<Rightarrow> root_cache \<Rightarrow> 's \<Rightarrow>
     (mule_exception + bool) \<times> aich_tree \<times> root_cache" where
  "load_from_file alg V cachedOffset t c s =
     (case ReadUInt8 V s of
        Exc e s1 \<Rightarrow> (Inl e, t, c)
      | Ok header s1 \<Rightarrow>
          if header \<noteq> KNOWN2_MET_VERSION then (Inr False, t, c)
          else let nExistingSize = GetLength V s1; go = load_loop (nExistingSize + 2) alg V nExistingSize in
            case cachedOffset of
              None \<Rightarrow> go False False t c s1
            | Some off \<Rightarrow>
                if unat off \<ge> nExistingSize then go False False t c s1
                else case Seek V (int (unat off)) wxFromStart s1 of
                  Exc e s2 \<Rightarrow> (Inl e, t, c)
                | Ok _ s2 \<Rightarrow> go True False t c s2)"

definition LoadHashSet ::
  "hashalg \<Rightarrow> 's file_ops \<Rightarrow> bool \<Rightarrow> 's option \<Rightarrow> CAICHHashSet \<Rightarrow> root_cache \<Rightarrow>
     (mule_exception + bool) \<times> CAICHHashSet \<times> root_cache" where
  "LoadHashSet alg V exists opened hs c =
     (let t = m_pHashTree hs in
      if m_eStatus hs \<noteq> AICH_HASHSETCOMPLETE then (Inr False, hs, c)
      else if \<not> m_bHashValid t \<or> m_nDataSize t \<noteq> m_nFileSize (m_pOwner hs) \<or> m_nDataSize t = 0 then (Inr False, hs, c)
      else case (if \<not> s_rootHashCacheLoaded c then LoadRootHashCacheLocked V exists opened c else (None, c)) of
        (Some e, c) \<Rightarrow> (Inl e, hs, c)
      | (None, c) \<Rightarrow>
          if s_rootHashCache c (m_Hash t) = None \<and> s_rootHashCacheLoaded c then (Inr False, hs, c)
          else case opened of
            None \<Rightarrow> (Inr False, hs, c)
          | Some s \<Rightarrow>
              (case load_from_file alg V (s_rootHashCache c (m_Hash t)) t c s of (r, t', c') \<Rightarrow>
                (case r of
                   Inl e \<Rightarrow> (if is_CSafeIOException e then Inr False else Inl e)
                 | Inr ok \<Rightarrow> Inr ok,
                 hs\<lparr>m_pHashTree := t'\<rparr>, c')))"

subsection \<open>Creating recovery data\<close>

text \<open>The data of a part, once the hash set is in memory: the number of hashes and the hashes, with
  identifiers of 16 bits, or of 32 bits for a large file; the count that is not used is zero.\<close>

definition write_recovery ::
  "'s file_ops \<Rightarrow> u64 \<Rightarrow> CAICHHashSet \<Rightarrow> 's \<Rightarrow> ('s, bool) res \<times> CAICHHashSet" where
  "write_recovery V nPartStartPos hs s =
     (let nPartSize = ucast (part_size (m_pOwner hs) nPartStartPos) :: u32 in
      case FindHash nPartStartPos (ucast nPartSize) 0 (m_pHashTree hs) of (_, nLevel, t) \<Rightarrow>
      let hs = hs\<lparr>m_pHashTree := t\<rparr>;
          nHashsToWrite = hashes_needed nLevel nPartSize;
          b32 = IsLargeFile (m_pOwner hs);
          write = io_bind (if b32 then WriteUInt16 V 0 else io_return ()) (\<lambda>_.
            io_bind (WriteUInt16 V nHashsToWrite) (\<lambda>_ s.
              let nCheckFilePos = GetPosition V s in
              io_bind (CreatePartRecoveryData V nPartStartPos (ucast nPartSize) 0 b32 t) (\<lambda>ok s.
                Ok (ok \<and> ucast nHashsToWrite * (20 + (if b32 then 4 else 2)) =
                      (of_nat (GetPosition V s - nCheckFilePos) :: u64)) s) s))
      in (case write s of
            Exc e s' \<Rightarrow> (Exc e s', hs)
          | Ok bResult s' \<Rightarrow>
              let hs = (if bResult then hs else SetStatus AICH_ERROR hs) in
              (io_bind (if \<not> b32 then WriteUInt16 V 0 else io_return ()) (\<lambda>_. io_return bResult) s', hs)))"

definition CreateSetRecoveryData ::
  "hashalg \<Rightarrow> 'k file_ops \<Rightarrow> bool \<Rightarrow> 'k option \<Rightarrow> 's file_ops \<Rightarrow> u64 \<Rightarrow> bool \<Rightarrow> CAICHHashSet \<Rightarrow> root_cache \<Rightarrow> 's \<Rightarrow>
     ('s, bool) res \<times> CAICHHashSet \<times> root_cache" where
  "CreateSetRecoveryData alg K exists opened V nPartStartPos bDbgDontLoad hs c s =
     (if IsPartFile (m_pOwner hs) \<or> m_eStatus hs \<noteq> AICH_HASHSETCOMPLETE then (Ok False s, hs, c)
      else if m_nDataSize (m_pHashTree hs) \<le> EMBLOCKSIZE then (Ok False s, hs, c)
      else case (if \<not> bDbgDontLoad then LoadHashSet alg K exists opened hs c else (Inr True, hs, c)) of
        (Inl e, hs, c) \<Rightarrow> (Exc e s, hs, c)
      | (Inr False, hs, c) \<Rightarrow> (Ok False s, SetStatus AICH_ERROR hs, c)
      | (Inr True, hs, c) \<Rightarrow>
          (case write_recovery V nPartStartPos hs s of (res, hs) \<Rightarrow>
             (case res of
                Exc e s' \<Rightarrow> (Exc e s', hs, c)
              | Ok bResult s' \<Rightarrow> (Ok bResult s', if \<not> bDbgDontLoad then FreeHashSet hs else hs, c))))"

subsection \<open>Which hash is trusted\<close>

text \<open>The addresses that have sent a hash, of which only 20 bits count.\<close>

definition signer :: "u32 \<Rightarrow> u32" where
  "signer ip = ip AND 0x00F0FFFF"

definition votes :: "(CAICHHash \<times> u32) list \<Rightarrow> CAICHHash \<Rightarrow> u32 set" where
  "votes log h = signer ` {ip. (h, ip) \<in> set log}"

lemma signers_bounded: "finite (range signer)" "card (range signer) \<le> 2 ^ 20"
proof -
  define lo where "lo = (\<lambda>n. of_nat n :: u32) ` {..<65536}"
  define hi where "hi = (\<lambda>n. push_bit 20 (of_nat n :: u32)) ` {..<16}"
  have "signer ip \<in> (\<lambda>(a, b). a OR b) ` (lo \<times> hi)" for ip
  proof -
    have mask: "(0x00F0FFFF :: u32) = mask 16 OR push_bit 20 (mask 4)" by (simp add: mask_eq_exp_minus_1)
    have small: "take_bit k w \<in> (\<lambda>n. of_nat n :: u32) ` {..<2 ^ k}" for k and w :: u32
    proof (rule image_eqI [of _ _ "unat (take_bit k w)"])
      have "unat (take_bit k w) = take_bit k (unat w)" by (rule unsigned_take_bit_eq)
      then show "unat (take_bit k w) \<in> {..<2 ^ k}" by (simp add: take_bit_nat_less_exp)
    qed (rule word_eq_of_nat [OF refl])
    have a: "take_bit 16 ip \<in> lo" using small [of 16 ip] by (simp add: lo_def)
    have "take_bit 4 (drop_bit 20 ip) \<in> (\<lambda>n. of_nat n :: u32) ` {..<16}" using small [of 4 "drop_bit 20 ip"] by simp
    then have b: "push_bit 20 (take_bit 4 (drop_bit 20 ip)) \<in> hi" unfolding hi_def by auto
    have "signer ip = take_bit 16 ip OR push_bit 20 (take_bit 4 (drop_bit 20 ip))"
      unfolding signer_def mask by (rule bit_word_eqI) (auto simp: bit_simps)
    with a b show ?thesis by auto
  qed
  then have sub: "range signer \<subseteq> (\<lambda>(a, b). a OR b) ` (lo \<times> hi)" by blast
  have fin: "finite lo" "finite hi" by (simp_all add: lo_def hi_def)
  then show "finite (range signer)" using sub by (meson finite_SigmaI finite_imageI finite_subset)
  have "card (range signer) \<le> card ((\<lambda>(a, b). a OR b) ` (lo \<times> hi))" using sub fin by (intro card_mono) auto
  also have "\<dots> \<le> card (lo \<times> hi)" by (rule card_image_le) (simp add: fin)
  also have "\<dots> = card lo * card hi" by (rule card_cartesian_product)
  also have "\<dots> \<le> 65536 * 16" unfolding lo_def hi_def by (intro mult_le_mono; rule order.trans [OF card_image_le]) simp_all
  finally show "card (range signer) \<le> 2 ^ 20" by simp
qed

lemma votes_bounded: "finite (votes log h)" "card (votes log h) \<le> 2 ^ 20"
proof -
  have "votes log h \<subseteq> range signer" by (auto simp: votes_def)
  then show "finite (votes log h)" "card (votes log h) \<le> 2 ^ 20"
    using signers_bounded finite_subset card_mono [OF signers_bounded(1)] by (blast, meson order.trans)
qed

text \<open>The list after a sequence of messages: an entry for each hash, with its signers.\<close>

definition ballot :: "(CAICHHash \<times> u32) list \<Rightarrow> CAICHUntrustedHash list \<Rightarrow> bool" where
  "ballot log us \<longleftrightarrow> distinct (map u_Hash us) \<and> set (map u_Hash us) = fst ` set log \<and>
     (\<forall>u \<in> set us. m_adwIpsSigning u = votes log (u_Hash u))"

lemma sign_hash_ballot:
  assumes "ballot log us"
  shows "ballot (log @ [(h, ip)]) (sign_hash h ip us)"
proof -
  have v: "votes (log @ [(h, ip)]) h' = (if h' = h then insert (signer ip) (votes log h) else votes log h')" for h'
    by (auto simp: votes_def)
  have add: "fst (AddSigningIP ip u) = u\<lparr>m_adwIpsSigning := insert (signer ip) (m_adwIpsSigning u)\<rparr>" for u
    by (simp add: AddSigningIP_def signer_def Let_def)
  have gen: "distinct (map u_Hash (sign_hash h ip us)) \<and> set (map u_Hash (sign_hash h ip us)) = insert h (set (map u_Hash us)) \<and>
      (\<forall>u \<in> set (sign_hash h ip us). m_adwIpsSigning u =
        (if u_Hash u = h then insert (signer ip) (if h \<in> set (map u_Hash us) then votes log h else {}) else votes log (u_Hash u)))"
    if "distinct (map u_Hash us)" "\<forall>u \<in> set us. m_adwIpsSigning u = votes log (u_Hash u)" for us
    using that
  proof (induction us)
    case (Cons u us)
    then show ?case by (cases "u_Hash u = h") (auto simp: add image_iff)
  qed (simp add: add)
  have us: "distinct (map u_Hash us)" "\<forall>u \<in> set us. m_adwIpsSigning u = votes log (u_Hash u)" "set (map u_Hash us) = fst ` set log"
    using assms by (simp_all add: ballot_def)
  have "votes log h = {}" if "h \<notin> set (map u_Hash us)"
    using that unfolding us(3) by (force simp: votes_def)
  then have e: "(if h \<in> set (map u_Hash us) then votes log h else {}) = votes log h" by auto
  from gen [OF us(1,2), unfolded e] us(3) show ?thesis unfolding ballot_def v by simp
qed

lemma count_signers_result:
  assumes "count_signers i us (T, P, M) = (T', P', M')" "\<forall>u \<in> set us. card (m_adwIpsSigning u) < 2 ^ 32"
  shows "T' = T + of_nat (\<Sum>u\<leftarrow>us. card (m_adwIpsSigning u)) \<and> M \<le> M' \<and>
    (\<forall>u \<in> set us. card (m_adwIpsSigning u) \<le> unat M') \<and>
    (P' = P \<and> M' = M \<or> (\<exists>j < length us. P' = Some (i + j) \<and> unat M' = card (m_adwIpsSigning (us ! j))))"
  using assms
proof (induction us arbitrary: i T P M)
  case Nil
  then show ?case by simp
next
  case (Cons u us)
  define n where "n = (of_nat (card (m_adwIpsSigning u)) :: u32)"
  have n: "unat n = card (m_adwIpsSigning u)" using Cons.prems(2) by (simp add: n_def unat_of_nat_small)
  obtain P1 M1 where step: "count_signers (Suc i) us (T + n, P1, M1) = (T', P', M')"
    "P1 = Some i \<and> M1 = n \<and> M < n \<or> P1 = P \<and> M1 = M \<and> \<not> M < n"
  proof (cases "M < n")
    case True
    then show ?thesis using Cons.prems(1) that [of "Some i" n] by (simp add: n_def [symmetric])
  next
    case False
    then show ?thesis using Cons.prems(1) that [of P M] by (simp add: n_def [symmetric])
  qed
  note IH = Cons.IH [OF step(1)]
  have IH': "T' = T + n + of_nat (\<Sum>u\<leftarrow>us. card (m_adwIpsSigning u))" "M1 \<le> M'" "\<forall>u \<in> set us. card (m_adwIpsSigning u) \<le> unat M'"
    "P' = P1 \<and> M' = M1 \<or> (\<exists>j < length us. P' = Some (Suc i + j) \<and> unat M' = card (m_adwIpsSigning (us ! j)))"
    using IH Cons.prems(2) by auto
  have le: "M \<le> M'" "card (m_adwIpsSigning u) \<le> unat M'"
    using step(2) IH'(2) n by (auto simp: word_le_nat_alt word_less_nat_alt)
  have "P' = P \<and> M' = M \<or> (\<exists>j < length (u # us). P' = Some (i + j) \<and> unat M' = card (m_adwIpsSigning ((u # us) ! j)))"
    using IH'(4)
  proof (elim disjE exE conjE)
    assume "P' = P1" "M' = M1"
    then show ?thesis
    proof (cases "M < n")
      case True
      then show ?thesis using \<open>P' = P1\<close> \<open>M' = M1\<close> step(2) n by (intro disjI2 exI [of _ 0]) simp
    qed (use step(2) in simp)
  next
    fix j assume "j < length us" "P' = Some (Suc i + j)" "unat M' = card (m_adwIpsSigning (us ! j))"
    then show ?thesis by (intro disjI2 exI [of _ "Suc j"]) simp
  qed
  then show ?case using IH'(1,3) le by (simp add: n_def)
qed

text \<open>The rule of the program over the messages so far.\<close>

definition all_votes :: "(CAICHHash \<times> u32) list \<Rightarrow> nat" where
  "all_votes log = (\<Sum>h \<in> fst ` set log. card (votes log h))"

definition trusted :: "(CAICHHash \<times> u32) list \<Rightarrow> CAICHHash \<Rightarrow> bool" where
  "trusted log h \<longleftrightarrow> 10 \<le> card (votes log h) \<and> 92 * all_votes log \<le> 100 * card (votes log h)"

lemma all_votes_le: "all_votes log \<le> length log"
proof -
  have "all_votes log = card (\<Union>h \<in> fst ` set log. Pair h ` votes log h)"
    unfolding all_votes_def by (subst card_UN_disjoint) (auto simp: votes_bounded(1) card_image inj_on_def)
  also have "(\<Union>h \<in> fst ` set log. Pair h ` votes log h) \<subseteq> (\<lambda>(h, ip). (h, signer ip)) ` set log"
    by (force simp: votes_def)
  then have "card (\<Union>h \<in> fst ` set log. Pair h ` votes log h) \<le> card ((\<lambda>(h, ip). (h, signer ip)) ` set log)"
    by (intro card_mono) auto
  also have "\<dots> \<le> card (set log)" by (rule card_image_le) simp
  also have "\<dots> \<le> length log" by (rule card_length)
  finally show ?thesis .
qed

lemma ballot_total: "ballot log us \<Longrightarrow> (\<Sum>u\<leftarrow>us. card (m_adwIpsSigning u)) = all_votes log"
proof -
  assume b: "ballot log us"
  then have "(\<Sum>u\<leftarrow>us. card (m_adwIpsSigning u)) = (\<Sum>u\<leftarrow>us. card (votes log (u_Hash u)))"
    by (intro arg_cong [of _ _ sum_list] map_cong) (auto simp: ballot_def)
  also have "\<dots> = (\<Sum>h\<leftarrow>map u_Hash us. card (votes log h))" by (simp add: comp_def)
  also have "\<dots> = (\<Sum>h \<in> set (map u_Hash us). card (votes log h))"
    using b by (intro sum_list_distinct_conv_sum_set) (simp add: ballot_def)
  finally show ?thesis using b by (simp add: ballot_def all_votes_def)
qed

text \<open>The choice after one message.\<close>

definition elected :: "bool \<Rightarrow> (CAICHHash \<times> u32) list \<Rightarrow> CAICHHashSet \<Rightarrow> bool" where
  "elected trusting log hs \<longleftrightarrow>
     ballot log (m_aUntrustedHashs hs) \<and> HasValidMasterHash hs \<and> GetMasterHash hs \<in> fst ` set log \<and>
     (\<forall>h. card (votes log h) \<le> card (votes log (GetMasterHash hs))) \<and>
     m_eStatus hs = (if trusting \<or> trusted log (GetMasterHash hs) then AICH_TRUSTED else AICH_UNTRUSTED)"

lemma adopt_hash_effect:
  "m_eStatus (adopt_hash h st hs) = st \<and> HasValidMasterHash (adopt_hash h st hs) \<and> GetMasterHash (adopt_hash h st hs) = h \<and>
     m_aUntrustedHashs (adopt_hash h st hs) = m_aUntrustedHashs hs"
  by (cases "m_pHashTree hs")
    (simp add: adopt_hash_def Let_def SetStatus_def SetMasterHash_def FreeHashSet_def HasValidMasterHash_def GetMasterHash_def set_tree_hash_def)

lemma div_ge_92: "0 < t \<Longrightarrow> 92 \<le> 100 * m div t \<longleftrightarrow> 92 * t \<le> 100 * m" for t m :: nat
  by (simp add: less_eq_div_iff_mult_less_eq)

lemma UntrustedHashReceived_elects:
  assumes "ballot log (m_aUntrustedHashs hs)" "m_eStatus hs \<in> {AICH_EMPTY, AICH_UNTRUSTED, AICH_TRUSTED}" "length log + 1 < 2 ^ 32"
  shows "elected trusting (log @ [(h, ip)]) (UntrustedHashReceived trusting h ip hs)"
proof -
  define log' where "log' = log @ [(h, ip)]"
  define us where "us = sign_hash h ip (m_aUntrustedHashs hs)"
  define hs1 where "hs1 = hs\<lparr>m_aUntrustedHashs := us\<rparr>"
  have b: "ballot log' us" unfolding log'_def us_def by (rule sign_hash_ballot [OF assms(1)])
  obtain T P M where cs: "count_signers 0 us (0, None, 0) = (T, P, M)" by (metis prod_cases3)
  have small: "card (m_adwIpsSigning u) \<le> 2 ^ 20" if "u \<in> set us" for u
    using b that votes_bounded(2) by (simp add: ballot_def)
  then have "\<forall>u \<in> set us. card (m_adwIpsSigning u) < 2 ^ 32" by fastforce
  note r = count_signers_result [OF cs this]
  have tot: "unat T = all_votes log'"
    using r ballot_total [OF b] all_votes_le [of log'] assms(3) by (simp add: log'_def unat_of_nat_small)
  have "h \<in> set (map u_Hash us)" using b by (auto simp: ballot_def log'_def)
  then obtain u where u: "u \<in> set us" "u_Hash u = h" by auto
  have "signer ip \<in> m_adwIpsSigning u" using b u by (auto simp: ballot_def log'_def votes_def)
  moreover have "finite (m_adwIpsSigning u)" using b u votes_bounded(1) by (simp add: ballot_def)
  ultimately have "0 < card (m_adwIpsSigning u)" by (auto simp: card_gt_0_iff)
  then have "0 < unat M" using r u by force
  then obtain j where j: "j < length us" "P = Some j" "unat M = card (m_adwIpsSigning (us ! j))" using r by auto
  define w where "w = u_Hash (us ! j)"
  have M: "unat M = card (votes log' w)" using b j by (simp add: ballot_def w_def)
  have w: "w \<in> fst ` set log'" using b j unfolding ballot_def w_def by (metis length_map nth_map nth_mem)
  have max: "card (votes log' h') \<le> card (votes log' w)" for h'
  proof (cases "h' \<in> set (map u_Hash us)")
    case True
    then obtain u' where "u' \<in> set us" "u_Hash u' = h'" by auto
    then show ?thesis using r b by (auto simp: M [symmetric] ballot_def)
  next
    case False
    then have "votes log' h' = {}" using b unfolding ballot_def votes_def by force
    then show ?thesis by simp
  qed
  have "card (votes log' w) \<le> all_votes log'" unfolding all_votes_def by (rule member_le_sum) (auto simp: w)
  then have T: "0 < unat T" using \<open>0 < unat M\<close> M tot by simp
  have "unat (100 * M) = 100 * unat M"
    using votes_bounded(2) [of log' w] M by (simp add: unat_word_ariths)
  then have rule: "MINUNIQUEIPS_TOTRUST \<le> M \<and> MINPERCENTAGE_TOTRUST \<le> 100 * M div T \<longleftrightarrow> trusted log' w"
    using div_ge_92 [OF T, of "unat M"]
    by (simp add: MINUNIQUEIPS_TOTRUST_def MINPERCENTAGE_TOTRUST_def word_le_nat_alt unat_div trusted_def M tot)
  have "UntrustedHashReceived trusting h ip hs = adopt_hash w (if trusting \<or> trusted log' w then AICH_TRUSTED else AICH_UNTRUSTED) hs1"
    using assms(2) T unfolding UntrustedHashReceived_def Let_def us_def [symmetric] hs1_def [symmetric]
    by (auto simp: cs j(2) rule hs1_def w_def word_less_nat_alt)
  then show ?thesis
    using adopt_hash_effect [of w _ hs1] b w max by (simp add: elected_def log'_def hs1_def)
qed



end
