(* ===== verification/AICHTransfer.thy ===== *)
theory AICHTransfer
  imports AICHHashSet
begin

text \<open>
  Recovery data from one client to another (\<open>CAICHHashSet::CreatePartRecoveryData\<close> and
  \<open>CAICHHashSet::ReadRecoveryData\<close> of src/amule-3.0.1/src/SHAHashSet.cpp): the packet that a client
  with a complete tree writes, and what a client that only knows the root hash has in its tree
  after reading it.
\<close>

subsection \<open>Reading recovery data\<close>

lemma ident_from_bounds:
  assumes "p \<noteq> []" "length p \<le> n" "n < 31"
  shows "ident_from 1 p \<noteq> 1" "unat (ident_from 1 p) < 2 ^ (n + 1)"
proof -
  have "bit (ident_from 1 p) (length p)" using assms by (simp add: bit_ident_from)
  moreover have "\<not> bit (1 :: u32) (length p)" using assms(1) by (simp add: bit_1_iff)
  ultimately show "ident_from 1 p \<noteq> 1" by metis
  have "take_bit (n + 1) (ident_from 1 p) = ident_from 1 p"
    by (rule bit_word_eqI) (use assms in \<open>auto simp: bit_take_bit_iff bit_ident_from\<close>)
  then have "unat (ident_from 1 p) = take_bit (n + 1) (unat (ident_from 1 p))" by (metis unsigned_take_bit_eq)
  then show "unat (ident_from 1 p) < 2 ^ (n + 1)" by (metis take_bit_nat_less_exp)
qed

text \<open>How long a way may be for the identifiers of the two widths.\<close>

definition way_limit :: "bool \<Rightarrow> nat" where
  "way_limit b32 = (if b32 then 21 else 15)"

context byte_source
begin

lemma parses_ident:
  assumes "p \<noteq> []" "length p \<le> way_limit b32"
  shows "parses ok content pos (read_ident V b32) (ident_bytes (ident_from 1 p) b32) (ident_from 1 p)"
proof (cases b32)
  case True
  then show ?thesis by (simp add: read_ident_def ident_bytes_def parses_ints)
next
  case False
  have "unat (ident_from 1 p) < 2 ^ 16"
    using ident_from_bounds(2) [OF assms(1), of 15] assms(2) False by (simp add: way_limit_def)
  then have "ucast (ucast (ident_from 1 p) :: u16) = ident_from 1 p"
    by (simp add: word_unat_eq_iff unat_ucast_up unat_ucast_small)
  then show ?thesis
    using parses_map [OF parses_ints(2) [of "ucast (ident_from 1 p)"], of "ucast :: u16 \<Rightarrow> u32"] False
    by (simp add: read_ident_def ident_bytes_def)
qed

lemma read_hashes_put:
  assumes "shaped u" "shaped t" "same_root u t"
    and "\<forall>(q, h) \<in> set rs. node_at q u \<noteq> None \<and> length h = HASHSIZE \<and> q \<noteq> [] \<and> length q \<le> way_limit b32"
    and "ok s" "pos s \<le> length (content s)" "drop (pos s) (content s) = record_bytes 1 b32 rs @ rest"
  shows "\<exists>s'. read_hashes V b32 (length rs) t s = (Ok True s', fold put_record rs t) \<and> ok s' \<and> content s' = content s \<and>
    pos s' = pos s + length (record_bytes 1 b32 rs)"
  using assms(2-7)
proof (induction rs arbitrary: t s)
  case Nil
  then show ?case by simp
next
  case (Cons r rs)
  obtain q h where r: "r = (q, h)" by (cases r)
  have q: "node_at q u \<noteq> None" "length h = HASHSIZE" "q \<noteq> []" "length q \<le> way_limit b32" using Cons.prems(3) by (auto simp: r)
  have lim: "length q \<le> 31" "length q \<le> 21" using q(4) by (auto simp: way_limit_def split: if_splits)
  let ?w = "ident_from 1 q" and ?ib = "ident_bytes (ident_from 1 q) b32"
  have d: "drop (pos s) (content s) = ?ib @ h @ record_bytes 1 b32 rs @ rest" using Cons.prems(6) by (simp add: r)
  have len: "length (content s) - pos s = length (?ib @ h @ record_bytes 1 b32 rs @ rest)" using d by (metis length_drop)
  obtain s1 where s1: "read_ident V b32 s = Ok ?w s1" "ok s1" "content s1 = content s" "pos s1 = pos s + length ?ib"
    using parsesD [OF parses_ident [OF q(3,4)] Cons.prems(4,5) d] by blast
  have "drop (pos s1) (content s1) = drop (length ?ib) (drop (pos s) (content s))" by (simp add: s1(3,4) add.commute)
  then have d1: "drop (pos s1) (content s1) = h @ record_bytes 1 b32 rs @ rest" unfolding d by simp
  have p1: "pos s1 \<le> length (content s1)" using s1(3,4) len Cons.prems(5) by simp
  obtain s2 where s2: "SetHash V ?w False t s1 = (Ok True s2, put_at q h t)" "ok s2" "content s2 = content s1" "pos s2 = pos s1 + HASHSIZE"
    using SetHash_put [OF assms(1) Cons.prems(1,2) q(1,2) lim(1) q(3) s1(2) p1 d1] by blast
  have "drop (pos s2) (content s2) = drop (length h) (drop (pos s1) (content s1))" by (simp add: s2(3,4) q(2) add.commute)
  then have d2: "drop (pos s2) (content s2) = record_bytes 1 b32 rs @ rest" unfolding d1 by simp
  have p2: "pos s2 \<le> length (content s2)" using s2(3,4) s1(3,4) len Cons.prems(5) q(2) by simp
  have t2: "shaped (put_at q h t)" "same_root u (put_at q h t)"
    using SetHash_shaped [OF Cons.prems(1), of V ?w False s1] Cons.prems(2) by (auto simp: s2(1) same_root_def)
  obtain s3 where s3: "read_hashes V b32 (length rs) (put_at q h t) s2 = (Ok True s3, fold put_record rs (put_at q h t))"
    "ok s3" "content s3 = content s2" "pos s3 = pos s2 + length (record_bytes 1 b32 rs)"
    using Cons.IH [OF t2 _ s2(2) p2 d2] Cons.prems(3) by auto
  have w: "?w \<noteq> 1" "\<not> ?w > 0x400000"
    using ident_from_bounds [OF q(3) lim(2)] by (simp_all add: word_less_nat_alt)
  show ?case
    using s1 s2 s3 w q(2) by (auto simp: r put_record_def)
qed

end

subsection \<open>The blocks of a recovered part\<close>

lemma FindHash_recovered:
  assumes "honest alg u" "shaped u" "FindHash pos sz lev u = (Some p, lev1, u1)" "FindHash pos' sz' lev u = (Some q, lev', u2)"
    and "unat pos \<le> unat pos'" "unat pos' + unat sz' \<le> unat pos + unat sz" "0 < unat sz'" "unat pos + unat sz \<le> unat (m_nDataSize u)"
  shows "FindHash pos' sz' lev (recovered p u) = (Some q, lev', recovered p u) \<and> node_at q (recovered p u) = node_at q u"
  using assms
proof (induction p arbitrary: pos pos' lev u u1 u2 q)
  case Nil
  then show ?case using FindHash_honest [OF Nil.prems(1,4)] by simp
next
  case (Cons d p)
  obtain h ds bs lb v pl pr where u: "u = HashTree h ds bs lb v pl pr" by (cases u)
  let ?n = "tree_nLeft ds bs lb"
  have nl: "unat ?n < unat ds" if "\<not> ds \<le> bs" using tree_nLeft_le [of bs ds lb] that by simp
  have "unat pos + unat sz \<le> unat ds" using Cons.prems(8) by (simp add: u)
  then have sum: "unat (pos + sz) = unat pos + unat sz"
    using unat_lt_64 [of ds] by (intro unat_add_small) (simp del: unat_lt_64)
  from Cons.prems(3) [unfolded u] show ?case
  proof (cases rule: FindHash_Some_cases)
    case (left p' c)
    then have "bs < ds" by simp
    from honest_or_new [OF Cons.prems(1) [unfolded u] this] obtain l r
      where lr: "pl = Some l" "pr = Some r" "or_new pl ?n True = l" "honest alg l" by metis
    have le0: "unat pos + unat sz \<le> unat ?n" using left(8) sum by (simp add: word_less_nat_alt)
    then have le: "unat pos' + unat sz' \<le> unat ?n" using Cons.prems(6) by linarith
    have sh: "shaped l" "m_nDataSize l = ?n" using Cons.prems(2) by (simp_all add: u lr shaped.simps)
    from Cons.prems(4) [unfolded u] show ?thesis
    proof (cases rule: FindHash_Some_cases)
      case here
      then show ?thesis using le nl [OF left(3)] by simp
    next
      case l2: (left q' c')
      have "FindHash pos' sz' (lev + 1) (recovered p l) = (Some q', lev', recovered p l) \<and> node_at q' (recovered p l) = node_at q' l"
        using Cons.IH [OF lr(4) sh(1), of pos "lev + 1" c pos' q' c'] left l2 lr(3) Cons.prems(5-7) sh(2) le0 by simp
      then show ?thesis
        using left(1) l2 lr by (auto simp: u FindHash.simps [of pos'] or_new_def Let_def)
    next
      case (right q' c')
      then show ?thesis using le Cons.prems(7) by (simp add: word_less_nat_alt)
    qed
  next
    case (right p' c)
    then have "bs < ds" by simp
    from honest_or_new [OF Cons.prems(1) [unfolded u] this] obtain l r
      where lr: "pl = Some l" "pr = Some r" "or_new pr (ds - ?n) False = r" "honest alg r" by metis
    have ge: "unat ?n \<le> unat pos" "unat ?n \<le> unat pos'" using right(7) Cons.prems(5) by (simp_all add: word_less_nat_alt)
    have sub: "unat (pos - ?n) = unat pos - unat ?n" "unat (pos' - ?n) = unat pos' - unat ?n" "unat (ds - ?n) = unat ds - unat ?n"
      using ge nl [OF right(3)] by (simp_all add: unat_sub_le word_le_nat_alt)
    have sh: "shaped r" "m_nDataSize r = ds - ?n" using Cons.prems(2) by (simp_all add: u lr shaped.simps)
    have pos: "0 < unat ?n" using unat_tree_nLeft(3) [OF _ \<open>bs < ds\<close> refl, of lb] child_base_gt_1 [of ds] Cons.prems(2)
      by (auto simp: u shaped.simps word_less_nat_alt)
    from Cons.prems(4) [unfolded u] show ?thesis
    proof (cases rule: FindHash_Some_cases)
      case here
      then show ?thesis using ge(2) pos by simp
    next
      case (left q' c')
      then show ?thesis using ge(2) by (simp add: word_less_nat_alt)
    next
      case r2: (right q' c')
      have "FindHash (pos' - ?n) sz' (lev + 1) (recovered p r) = (Some q', lev', recovered p r) \<and> node_at q' (recovered p r) = node_at q' r"
        using Cons.IH [OF lr(4) sh(1), of "pos - ?n" "lev + 1" c "pos' - ?n" q' c'] right r2 lr(3) Cons.prems(5-7) sh(2) sub ge
          \<open>unat pos + unat sz \<le> unat ds\<close> by simp
      then show ?thesis
        using right(1) r2 lr by (auto simp: u FindHash.simps [of pos'] or_new_def Let_def)
    qed
  qed simp
qed

lemma honest_node: "honest alg u \<Longrightarrow> node_at q u = Some n \<Longrightarrow> honest alg n"
proof (induction q arbitrary: u)
  case (Cons d q)
  obtain h ds bs lb v pl pr where u: "u = HashTree h ds bs lb v pl pr" by (cases u)
  from Cons.prems(1) [unfolded u] show ?case
    by (cases rule: honest_cases) (use Cons in \<open>auto simp: u split: if_splits\<close>)
qed simp

text \<open>A part of a file: where it starts, its size, and the way to its node.\<close>

definition part_at :: "aich_tree \<Rightarrow> nat \<Rightarrow> nat \<Rightarrow> bool list \<Rightarrow> bool" where
  "part_at u k n p \<longleftrightarrow> k * 9728000 < unat (m_nDataSize u) \<and> n = min 9728000 (unat (m_nDataSize u) - k * 9728000) \<and>
     (\<exists>lev. FindHash (of_nat (k * 9728000)) (of_nat n) 0 u = (Some p, lev, u))"

lemma part_piece: "part_at u k n p \<Longrightarrow> piece (unat (m_nDataSize u)) (k * 9728000) n"
  by (simp add: part_at_def piece_def Let_def)

lemma block_piece:
  assumes "part_at u k n p" "pos < n" "184320 dvd pos"
  shows "piece (unat (m_nDataSize u)) (k * 9728000 + pos) (min 184320 (n - pos))"
proof -
  have "pos < 9728000" using assms(1,2) by (simp add: part_at_def)
  then have "(k * 9728000 + pos) div 9728000 = k" "(k * 9728000 + pos) mod 9728000 = pos" by simp_all
  then show ?thesis using assms by (auto simp: part_at_def piece_def Let_def)
qed

lemma part_exists:
  assumes "honest alg u" "shaped u" "unat (m_nDataSize u) \<le> 2 ^ 38" "k * 9728000 < unat (m_nDataSize u)"
  obtains p where "part_at u k (min 9728000 (unat (m_nDataSize u) - k * 9728000)) p"
proof -
  let ?n = "min 9728000 (unat (m_nDataSize u) - k * 9728000)"
  have small: "k * 9728000 < 2 ^ 64" "?n < 2 ^ 64" using assms(3,4) by simp_all
  then have w: "unat (of_nat (k * 9728000) :: u64) = k * 9728000" "unat (of_nat ?n :: u64) = ?n"
    using unat_of_nat_small [of "k * 9728000", where ?'a = 64] unat_of_nat_small [of ?n, where ?'a = 64] by simp_all
  have "piece (unat (m_nDataSize u)) (k * 9728000) ?n" using assms(4) by (simp add: piece_def Let_def)
  then obtain p where p: "fst (FindHash (of_nat (k * 9728000)) (of_nat ?n) 0 u) = Some p"
    using FindHash_piece [of u 15 0 "of_nat (k * 9728000)" "of_nat ?n"] assms(2,3) w by auto
  then obtain lev u' where f: "FindHash (of_nat (k * 9728000)) (of_nat ?n) 0 u = (Some p, lev, u')"
    by (metis prod.collapse)
  from FindHash_honest [OF assms(1) f] f assms(4) have "part_at u k ?n p" unfolding part_at_def by blast
  then show thesis by (rule that)
qed

text \<open>The hash of the node for a range, as a client looks it up.\<close>

definition range_hash :: "u64 \<Rightarrow> u64 \<Rightarrow> aich_tree \<Rightarrow> CAICHHash option" where
  "range_hash pos sz t =
     (case FindHash pos sz 0 t of
        (Some p, lev, t') \<Rightarrow> (case node_at p t' of Some n \<Rightarrow> if m_bHashValid n then Some (m_Hash n) else None | None \<Rightarrow> None)
      | _ \<Rightarrow> None)"

lemma block_recovered:
  assumes "honest alg u" "shaped u" "unat (m_nDataSize u) \<le> 2 ^ 38" "part_at u k n p" "184320 dvd pos" "pos < n"
  shows "\<exists>q lev nd. FindHash (of_nat (k * 9728000) + of_nat pos) (of_nat (min 184320 (n - pos))) 0 (recovered p u) = (Some q, lev, recovered p u) \<and>
    FindHash (of_nat (k * 9728000) + of_nat pos) (of_nat (min 184320 (n - pos))) 0 u = (Some q, lev, u) \<and>
    node_at q (recovered p u) = Some nd \<and> node_at q u = Some nd \<and> m_bHashValid nd"
proof -
  let ?a = "of_nat (k * 9728000) :: u64" and ?s = "min 184320 (n - pos)"
  note bp = block_piece [OF assms(4,6,5)]
  have n: "n \<le> 9728000" "k * 9728000 + n \<le> 2 ^ 38" using assms(3,4) by (auto simp: part_at_def)
  have w: "unat (?a + of_nat pos) = k * 9728000 + pos" "unat (of_nat ?s :: u64) = ?s"
    using n assms(6) unat_of_nat_small [of "k * 9728000 + pos", where ?'a = 64] unat_of_nat_small [of ?s, where ?'a = 64] by simp_all
  have wp: "unat ?a = k * 9728000" "unat (of_nat n :: u64) = n"
    using n unat_of_nat_small [of "k * 9728000", where ?'a = 64] unat_of_nat_small [of n, where ?'a = 64] by simp_all
  obtain q where "fst (FindHash (?a + of_nat pos) (of_nat ?s) 0 u) = Some q"
    using FindHash_piece [of u 15 0 "?a + of_nat pos" "of_nat ?s"] assms(2,3) bp w by auto
  then obtain lev u' where f: "FindHash (?a + of_nat pos) (of_nat ?s) 0 u = (Some q, lev, u')" by (metis prod.collapse)
  note u' = FindHash_honest [OF assms(1) f]
  obtain lev0 where fp: "FindHash ?a (of_nat n) 0 u = (Some p, lev0, u)" using assms(4) unfolding part_at_def by blast
  have fit: "pos + ?s \<le> n" using assms(6) by simp
  have r: "FindHash (?a + of_nat pos) (of_nat ?s) 0 (recovered p u) = (Some q, lev, recovered p u)"
    "node_at q (recovered p u) = node_at q u"
    using FindHash_recovered [OF assms(1,2) fp f] w wp assms(6) fit piece_bounds [OF bp] piece_bounds(1) [OF part_piece [OF assms(4)]] by auto
  obtain nd where nd: "node_at q u' = Some nd" using FindHash_node [OF f assms(2)] by blast
  then have nd': "node_at q u = Some nd" using u' by simp
  then have "m_bHashValid nd" using honest_valid honest_node [OF assms(1)] by blast
  then show ?thesis using r f u' nd' by auto
qed

lemma check_blocks_recovered:
  assumes "honest alg u" "shaped u" "unat (m_nDataSize u) \<le> 2 ^ 38" "part_at u k n p" "184320 dvd pos"
  shows "check_blocks (of_nat (k * 9728000)) n pos (recovered p u) = (True, recovered p u)"
  using assms(5)
proof (induction "n - pos" arbitrary: pos rule: less_induct)
  case less
  show ?case
  proof (cases "pos < n")
    case True
    obtain q lev nd where "FindHash (of_nat (k * 9728000) + of_nat pos) (of_nat (min 184320 (n - pos))) 0 (recovered p u) = (Some q, lev, recovered p u)"
      "node_at q (recovered p u) = Some nd" "m_bHashValid nd"
      using block_recovered [OF assms(1-4) less.prems True] by blast
    moreover have "check_blocks (of_nat (k * 9728000)) n (pos + 184320) (recovered p u) = (True, recovered p u)"
      using less True by (intro less.hyps) auto
    ultimately show ?thesis using True by (simp add: check_blocks.simps [of _ n pos])
  qed (simp add: check_blocks.simps [of _ n pos])
qed

lemma hashes_needed_count:
  assumes "honest alg u" "shaped u" "unat (m_nDataSize u) \<le> 2 ^ 38" "part_at u k n p" "FindHash (of_nat (k * 9728000)) (of_nat n) 0 t = (Some p, lev, t')"
    "shaped t"
  shows "hashes_needed lev (of_nat n) = of_nat (length (recovery p u))" "length (recovery p u) < 100" "node_at p u \<noteq> None" "length p \<le> 21"
proof -
  obtain lev0 where fp: "FindHash (of_nat (k * 9728000)) (of_nat n) 0 u = (Some p, lev0, u)" using assms(4) unfolding part_at_def by blast
  obtain nd where nd: "node_at p u = Some nd" "m_nDataSize nd = of_nat n" using FindHash_node [OF fp assms(2)] by blast
  then show "node_at p u \<noteq> None" by simp
  have n: "n \<le> 9728000" "0 < n" using assms(4) by (auto simp: part_at_def)
  show len: "length p \<le> 21" using depth_in_file [OF assms(2), of 15 p] assms(3) nd by simp
  have lev: "lev = 1 + of_nat (length p)" using FindHash_node [OF assms(5,6)] by auto
  have un: "unat (of_nat n :: u64) = n" "unat (of_nat n :: u32) = n"
    using n unat_of_nat_small [of n, where ?'a = 64] unat_of_nat_small [of n, where ?'a = 32] by simp_all
  have cnt: "length (recovery p u) = length p + block_count n"
    using recovery_count [OF assms(1,2) nd(1)] nd(2) n un by simp
  have "block_count n \<le> 53" using n by (auto simp: block_count_def)
  then show "length (recovery p u) < 100" using cnt len by simp
  have "unat lev = 1 + length p" using len unat_of_nat_small [of "1 + length p", where ?'a = 8] by (simp add: lev)
  then have "ucast lev - 1 = (of_nat (length p) :: u32)"
    using len unat_of_nat_small [of "length p", where ?'a = 32] by (simp add: word_unat_eq_iff unat_sub_le word_le_nat_alt unat_ucast_up)
  moreover have "blocks_of (of_nat n) = of_nat (block_count n)"
  proof (rule word_eq_of_nat)
    have "(of_nat n :: u32) mod 184320 \<noteq> 0 \<longleftrightarrow> n mod 184320 \<noteq> 0" using un(2) by (simp add: word_unat_eq_iff unat_mod)
    moreover have "unat ((of_nat n :: u32) div 184320) = n div 184320" using un(2) by (simp add: unat_div)
    moreover have "n div 184320 \<le> 52" using n by simp
    ultimately show "unat (blocks_of (of_nat n)) = block_count n"
      by (auto simp: blocks_of_def block_count_def EMBLOCKSIZE_def unat_word_ariths)
  qed
  ultimately have h: "hashes_needed lev (of_nat n) = ucast (of_nat (length p + block_count n) :: u32)" by (simp add: hashes_needed_def)
  have "unat (of_nat (length (recovery p u)) :: u32) = length (recovery p u)" "unat (of_nat (length (recovery p u)) :: u16) = length (recovery p u)"
    using \<open>length (recovery p u) < 100\<close> unat_of_nat_small [of "length (recovery p u)", where ?'a = 32]
      unat_of_nat_small [of "length (recovery p u)", where ?'a = 16] by simp_all
  then have "ucast (of_nat (length (recovery p u)) :: u32) = (of_nat (length (recovery p u)) :: u16)"
    using \<open>length (recovery p u) < 100\<close> by (simp add: word_unat_eq_iff unat_ucast_small)
  with h show "hashes_needed lev (of_nat n) = of_nat (length (recovery p u))" by (simp only: cnt)
qed

subsection \<open>The packet\<close>

definition recovery_packet :: "bool \<Rightarrow> (bool list \<times> CAICHHash) list \<Rightarrow> u8 list" where
  "recovery_packet b32 rs =
     (if b32 then le_split 2 (0 :: u16) else []) @ le_split 2 (of_nat (length rs) :: u16) @ record_bytes 1 b32 rs @
     (if b32 then [] else le_split 2 (0 :: u16))"

lemma part_ucast:
  assumes "part_at u k n p"
  shows "ucast (of_nat n :: u32) = (of_nat n :: u64)" "ucast (of_nat n :: u64) = (of_nat n :: u32)"
proof -
  have small: "n < 2 ^ 32" using assms by (simp add: part_at_def)
  have u: "unat (of_nat n :: u64) = n" "unat (of_nat n :: u32) = n"
    using small unat_of_nat_small [of n, where ?'a = 64] unat_of_nat_small [of n, where ?'a = 32] by simp_all
  show "ucast (of_nat n :: u32) = (of_nat n :: u64)" "ucast (of_nat n :: u64) = (of_nat n :: u32)"
    using u small by (simp_all add: word_unat_eq_iff unat_ucast_small unat_ucast_up)
qed

lemma part_size_at:
  assumes "part_at u k n p" "m_nFileSize owner = m_nDataSize u"
  shows "part_size owner (of_nat (k * 9728000)) = of_nat n"
proof -
  have n: "k * 9728000 < unat (m_nDataSize u)" "n = min 9728000 (unat (m_nDataSize u) - k * 9728000)" using assms(1) by (auto simp: part_at_def)
  have a: "unat (of_nat (k * 9728000) :: u64) = k * 9728000"
    using n(1) unat_lt_64 [of "m_nDataSize u"] by (intro unat_of_nat_small) (simp del: unat_lt_64)
  have "unat (m_nDataSize u - of_nat (k * 9728000)) = unat (m_nDataSize u) - k * 9728000"
    using n(1) a by (simp add: unat_sub_le word_le_nat_alt)
  then have "unat (part_size owner (of_nat (k * 9728000))) = n"
    using n(2) assms(2) by (simp add: part_size_def PARTSIZE_def min_def word_le_nat_alt)
  then show "part_size owner (of_nat (k * 9728000)) = of_nat n" by (rule word_eq_of_nat)
qed

text \<open>The ways of a file are short enough for the identifiers that its size asks for.\<close>

lemma way_limit_file:
  assumes "shaped u" "m_nDataSize u \<le> MAX_FILE_SIZE" "node_at q u \<noteq> None" "b32 = (m_nDataSize u > OLD_MAX_FILE_SIZE)"
  shows "length q \<le> way_limit b32"
proof (cases b32)
  case True
  have "length q \<le> 15 + 6" by (rule depth_in_file [OF assms(1) _ assms(3)]) (use assms(2) in \<open>simp add: MAX_FILE_SIZE_def word_le_nat_alt\<close>)
  then show ?thesis using True by (simp add: way_limit_def)
next
  case False
  have "length q \<le> 9 + 6"
    by (rule depth_in_file [OF assms(1) _ assms(3)]) (use assms(4) False in \<open>simp add: OLD_MAX_FILE_SIZE_def word_less_nat_alt\<close>)
  then show ?thesis using False by (simp add: way_limit_def)
qed

context byte_stream
begin

lemma emits_checked:
  assumes "emits_val ok content pos w bs True" "X = of_nat (length bs)"
  shows "emits_val ok content pos (\<lambda>s. io_bind w (\<lambda>b s'. Ok (b \<and> X = (of_nat (GetPosition V s' - GetPosition V s) :: u64)) s') s) bs True"
  unfolding emits_val_def
proof (intro allI impI)
  fix s assume s: "ok s \<and> pos s = length (content s)"
  obtain s' where s': "w s = Ok True s'" "ok s'" "content s' = content s @ bs" "pos s' = length (content s')"
    using assms(1) s unfolding emits_val_def by blast
  then have "GetPosition V s' - GetPosition V s = length bs" using s position by simp
  then show "\<exists>s'. io_bind w (\<lambda>b s'. Ok (b \<and> X = of_nat (GetPosition V s' - GetPosition V s)) s') s = Ok True s' \<and>
      ok s' \<and> content s' = content s @ bs \<and> pos s' = length (content s')"
    using s' assms(2) by (auto simp: io_bind_def)
qed

lemma write_recovery_packet:
  assumes "honest alg u" "shaped u" "m_bIsLeftBranch u" "m_nBaseSize u < m_nDataSize u" "m_nDataSize u \<le> MAX_FILE_SIZE" "part_at u k n p"
    and "m_pHashTree hs = u" "m_nFileSize (m_pOwner hs) = m_nDataSize u" "b32 = IsLargeFile (m_pOwner hs)"
    and "ok s" "pos s = length (content s)"
  shows "\<exists>s'. write_recovery V (of_nat (k * 9728000)) hs s = (Ok True s', hs) \<and> ok s' \<and>
    content s' = content s @ recovery_packet b32 (recovery p u) \<and> pos s' = length (content s')"
proof -
  let ?a = "of_nat (k * 9728000) :: u64" and ?rs = "recovery p u"
  obtain lev where fp: "FindHash ?a (of_nat n) 0 u = (Some p, lev, u)" using assms(6) unfolding part_at_def by blast
  have max: "unat (m_nDataSize u) \<le> 2 ^ 38" using assms(5) by (simp add: MAX_FILE_SIZE_def word_le_nat_alt)
  note need = hashes_needed_count [OF assms(1,2) max assms(6) fp assms(2)]
  have hs: "hs\<lparr>m_pHashTree := u\<rparr> = hs" using assms(7) by (cases hs) simp
  have len: "length (record_bytes 1 b32 ?rs) = length ?rs * (20 + (if b32 then 4 else 2))"
    using recovery_bytes_length [OF assms(1) need(3) assms(4)] by (simp add: HASHSIZE_def)
  have "unat (of_nat (length ?rs) :: u16) = length ?rs" using need(2) by (intro unat_of_nat_small) simp
  then have "unat (ucast (of_nat (length ?rs) :: u16) :: u64) = length ?rs" by (simp add: unat_ucast_up)
  then have "ucast (of_nat (length ?rs) :: u16) = (of_nat (length ?rs) :: u64)" by (rule word_eq_of_nat)
  then have X: "ucast (of_nat (length ?rs) :: u16) * (20 + (if b32 then 4 else 2)) = (of_nat (length (record_bytes 1 b32 ?rs)) :: u64)"
    unfolding len by simp
  have id: "ident_step 0 (m_bIsLeftBranch u) = 1" using assms(3) by (simp add: ident_step_def)
  note rec = emits_recovery [OF assms(1,2) fp, of 0 b32, unfolded id]
  note chk = emits_checked [OF rec X]
  let ?pre = "if b32 then le_split 2 (0 :: u16) else []" and ?post = "if b32 then [] else le_split 2 (0 :: u16)"
  have pre: "emits_val ok content pos (if b32 then WriteUInt16 V 0 else io_return ()) ?pre ()"
    and post: "emits_val ok content pos (if \<not> b32 then WriteUInt16 V 0 else io_return ()) ?post ()"
    by (auto intro: emits_val_unit emits_ints)
  let ?body = "\<lambda>s. io_bind (CreatePartRecoveryData V ?a (of_nat n) 0 b32 u) (\<lambda>b s'. Ok (b \<and>
      ucast (of_nat (length ?rs) :: u16) * (20 + (if b32 then 4 else 2)) = (of_nat (GetPosition V s' - GetPosition V s) :: u64)) s') s"
  have "emits_val ok content pos (io_bind (WriteUInt16 V (of_nat (length ?rs))) (\<lambda>_. ?body))
      (le_split 2 (of_nat (length ?rs) :: u16) @ record_bytes 1 b32 ?rs) True"
    by (rule emits_val_bind [OF emits_val_unit [OF emits_ints(2)] chk])
  from emits_val_bind [OF pre this] obtain s1 where
    s1: "io_bind (if b32 then WriteUInt16 V 0 else io_return ()) (\<lambda>_. io_bind (WriteUInt16 V (of_nat (length ?rs))) (\<lambda>_. ?body)) s = Ok True s1"
    "ok s1" "content s1 = content s @ ?pre @ le_split 2 (of_nat (length ?rs) :: u16) @ record_bytes 1 b32 ?rs" "pos s1 = length (content s1)"
    using assms(10,11) unfolding emits_val_def by blast
  obtain s2 where s2: "(if \<not> b32 then WriteUInt16 V 0 else io_return ()) s1 = Ok () s2" "ok s2" "content s2 = content s1 @ ?post"
      "pos s2 = length (content s2)"
    using post s1(2,4) unfolding emits_val_def by blast
  have "io_bind (if \<not> b32 then WriteUInt16 V 0 else io_return ()) (\<lambda>_. io_return True) s1 = Ok True s2"
    using s2(1) by (simp add: io_bind_def io_return_def)
  then have "write_recovery V ?a hs s = (Ok True s2, hs)"
    unfolding write_recovery_def Let_def part_size_at [OF assms(6,8)] part_ucast [OF assms(6)] assms(7) fp prod.case need(1) hs assms(9) [symmetric]
    using s1(1) by (simp del: of_nat_mult)
  then show ?thesis using s1(3) s2 by (auto simp: recovery_packet_def)
qed

end

context byte_source
begin

lemma bytes_left_eq:
  assumes "ok s" "pos s \<le> length (content s)" "length (content s) < 2 ^ 64"
  shows "unat (bytes_left V s) = length (content s) - pos s"
proof -
  have "unat (of_nat (length (content s)) :: u64) = length (content s)" "unat (of_nat (pos s) :: u64) = pos s"
    using assms(2,3) unat_of_nat_small [of "length (content s)", where ?'a = 64] unat_of_nat_small [of "pos s", where ?'a = 64] by simp_all
  then show ?thesis using assms by (simp add: bytes_left_def position size_law unat_sub_le word_le_nat_alt)
qed

lemma read_recovery_packet:
  assumes "honest alg u" "shaped u" "m_nBaseSize u < m_nDataSize u" "m_nDataSize u \<le> MAX_FILE_SIZE" "part_at u k n p"
    and b32: "b32 = (m_nDataSize u > OLD_MAX_FILE_SIZE)"
    and t0: "t0 = HashTree (m_Hash u) (m_nDataSize u) (m_nBaseSize u) (m_bIsLeftBranch u) True None None"
    and s: "ok s" "pos s \<le> length (content s)" "drop (pos s) (content s) = recovery_packet b32 (recovery p u) @ rest" "length (content s) < 2 ^ 64"
  shows "\<exists>s'. read_recovery alg V (of_nat (k * 9728000)) (of_nat n) t0 s = (Ok True s', recovered p u)"
proof -
  let ?a = "of_nat (k * 9728000) :: u64" and ?rs = "recovery p u"
  let ?c = "of_nat (length ?rs) :: u16"
  obtain lev0 where fp: "FindHash ?a (of_nat n) 0 u = (Some p, lev0, u)" using assms(5) unfolding part_at_def by blast
  have max: "unat (m_nDataSize u) \<le> 2 ^ 38" using assms(4) by (simp add: MAX_FILE_SIZE_def word_le_nat_alt)
  have f0: "FindHash ?a (of_nat n) 0 t0 = (Some p, lev0, way (m_Hash u) True p u)"
    unfolding t0 by (rule FindHash_way [OF assms(1,2) fp])
  have sh0: "shaped t0" using assms(2) shaped_base [OF assms(2)] by (simp add: t0 shaped.simps)
  note way = FindHash_shaped [OF f0 sh0]
  have root: "same_root u (way (m_Hash u) True p u)" using way by (simp add: t0 same_root_def)
  note need = hashes_needed_count [OF assms(1,2) max assms(5) f0 sh0]
  have ways: "\<forall>(q, h) \<in> set ?rs. node_at q u \<noteq> None \<and> length h = HASHSIZE \<and> q \<noteq> [] \<and> length q \<le> way_limit b32"
    using recovery_ways [OF _ assms(1) need(3) assms(3)] way_limit_file [OF assms(2,4) _ b32] by fast
  have c: "unat ?c = length ?rs" using need(2) by (intro unat_of_nat_small) simp
  have "0 < length ?rs" using recovery_nonempty [OF assms(1) need(3)] by simp
  then have c0: "?c \<noteq> 0" using c by (auto simp: word_unat_eq_iff)
  have blen: "length (record_bytes 1 b32 ?rs) = length ?rs * (20 + (if b32 then 4 else 2))"
    using recovery_bytes_length [OF assms(1) need(3) assms(3)] by (simp add: HASHSIZE_def)
  have cw: "unat (ucast ?c * m :: u64) = length ?rs * unat m" if "unat m < 100" for m :: u64
  proof -
    have "length ?rs * unat m < 100 * 100" using need(2) that by (intro mult_strict_mono) auto
    then have "unat (ucast ?c :: u64) * unat m < 2 ^ LENGTH(64)" using c by (simp add: unat_ucast_up)
    then show ?thesis using c by (simp add: unat_mult_small unat_ucast_up)
  qed
  have fin: "finish_recovery alg ?a (of_nat n) (fold put_record ?rs (way (m_Hash u) True p u)) s' = (Ok True s', recovered p u)" for s' :: 's
  proof -
    have "unat (of_nat n :: u32) = n" using assms(5) by (intro unat_of_nat_small) (simp add: part_at_def)
    then show ?thesis
      using put_recovery [OF assms(1,2) need(3)] Verify_received [OF assms(1) need(3) assms(3)] check_blocks_recovered [OF assms(1,2) max assms(5), of 0]
      by (simp add: finish_recovery_def)
  qed
  note put = read_hashes_put [OF assms(2) _ root ways]
  note uc = part_ucast(1) [OF assms(5)]
  show ?thesis
  proof (cases b32)
    case False
    have d: "drop (pos s) (content s) = le_split 2 ?c @ (record_bytes 1 b32 ?rs @ le_split 2 (0 :: u16) @ rest)"
      using s(3) False by (simp add: recovery_packet_def)
    obtain s1 where s1: "ReadUInt16 V s = Ok ?c s1" "ok s1" "content s1 = content s" "pos s1 = pos s + 2"
      using parsesD [OF parses_ints(2) s(1,2) d] by auto
    have "length (content s) - pos s = length (drop (pos s) (content s))" by simp
    then have len: "length (content s) - pos s = 2 + length ?rs * 22 + 2 + length rest" unfolding d using blen False by simp
    have "drop (pos s1) (content s1) = drop 2 (drop (pos s) (content s))" by (simp add: s1(3,4))
    then have d1: "drop (pos s1) (content s1) = record_bytes 1 b32 ?rs @ le_split 2 (0 :: u16) @ rest" unfolding d by simp
    have p1: "pos s1 \<le> length (content s1)" using s1(3,4) len by simp
    have left: "\<not> bytes_left V s1 < ucast ?c * 22"
      using bytes_left_eq [OF s1(2) p1] s(4) s1(3,4) len cw [of 22] by (simp add: word_less_nat_alt)
    obtain s2 where s2: "read_hashes V False (length ?rs) (way (m_Hash u) True p u) s1 = (Ok True s2, fold put_record ?rs (way (m_Hash u) True p u))"
      using put [OF _ s1(2) p1 d1] way False by auto
    show ?thesis
      using f0 need(1) s1(1) left s2 c c0 fin uc by (simp add: read_recovery_def Let_def)
  next
    case True
    have d: "drop (pos s) (content s) = le_split 2 (0 :: u16) @ (le_split 2 ?c @ record_bytes 1 b32 ?rs @ rest)"
      using s(3) True by (simp add: recovery_packet_def)
    obtain s1 where s1: "ReadUInt16 V s = Ok 0 s1" "ok s1" "content s1 = content s" "pos s1 = pos s + 2"
      using parsesD [OF parses_ints(2) s(1,2) d] by auto
    have "length (content s) - pos s = length (drop (pos s) (content s))" by simp
    then have len: "length (content s) - pos s = 2 + 2 + length ?rs * 24 + length rest" unfolding d using blen True by simp
    have "drop (pos s1) (content s1) = drop 2 (drop (pos s) (content s))" by (simp add: s1(3,4))
    then have d1: "drop (pos s1) (content s1) = le_split 2 ?c @ (record_bytes 1 b32 ?rs @ rest)" unfolding d by simp
    have p1: "pos s1 \<le> length (content s1)" using s1(3,4) len by simp
    have left1: "\<not> bytes_left V s1 < ucast ?c * 22" "bytes_left V s1 \<ge> 2"
      using bytes_left_eq [OF s1(2) p1] s(4) s1(3,4) len cw [of 22] by (simp_all add: word_less_nat_alt word_le_nat_alt)
    obtain s2 where s2: "ReadUInt16 V s1 = Ok ?c s2" "ok s2" "content s2 = content s" "pos s2 = pos s + 4"
      using parsesD [OF parses_ints(2) s1(2) p1 d1] s1(3,4) by auto
    have "drop (pos s2) (content s2) = drop 2 (drop (pos s1) (content s1))" by (simp add: s1(3,4) s2(3,4) eval_nat_numeral)
    then have d2: "drop (pos s2) (content s2) = record_bytes 1 b32 ?rs @ rest" unfolding d1 by simp
    have p2: "pos s2 \<le> length (content s2)" using s2(3,4) len by simp
    have left2: "\<not> bytes_left V s2 < ucast ?c * 24"
      using bytes_left_eq [OF s2(2) p2] s(4) s2(3,4) len cw [of 24] by (simp add: word_less_nat_alt)
    obtain s3 where s3: "read_hashes V True (length ?rs) (way (m_Hash u) True p u) s2 = (Ok True s3, fold put_record ?rs (way (m_Hash u) True p u))"
      using put [OF _ s2(2) p2 d2] way True by auto
    show ?thesis
      using f0 need(1) s1(1) left1 left2 s2(1) s3 c c0 fin uc by (simp add: read_recovery_def read_32bit_hashes_def Let_def)
  qed
qed

end

subsection \<open>From the sender to the receiver\<close>

lemma sent_data_arrives:
  assumes "honest alg u" "shaped u" "m_bIsLeftBranch u" "EMBLOCKSIZE < m_nDataSize u" "m_nDataSize u \<le> MAX_FILE_SIZE" "part_at u k n p"
    and sender: "m_pHashTree hs = u" "m_pOwner hs = \<lparr>IsPartFile = False, m_nFileSize = m_nDataSize u\<rparr>"
    and receiver: "m_pHashTree rs = HashTree (m_Hash u) (m_nDataSize u) (m_nBaseSize u) True True None None"
      "m_nFileSize (m_pOwner rs) = m_nDataSize u" "m_eStatus rs \<in> {AICH_TRUSTED, AICH_VERIFIED}"
    and f: "mem_open f" "m_position f = m_fileSize f" "m_fileSize f < 2 ^ 63" "V = mem_ops (total_heap g)"
  shows "\<exists>f' f''. write_recovery V (of_nat (k * 9728000)) hs f = (Ok True f', hs) \<and>
    ReadRecoveryData alg V (of_nat (k * 9728000)) rs (f'\<lparr>m_position := m_position f\<rparr>) = (Ok True f'', rs\<lparr>m_pHashTree := recovered p u\<rparr>)"
proof -
  let ?b = "m_nDataSize u > OLD_MAX_FILE_SIZE" and ?a = "of_nat (k * 9728000) :: u64"
  have l: "mem_open h \<Longrightarrow> length (mem_content h) = m_fileSize h" for h by (simp add: mem_open_def)
  have base: "m_nBaseSize u < m_nDataSize u" using shaped_base [OF assms(2)] assms(4) by (auto simp: child_base_def EMBLOCKSIZE_def PARTSIZE_def not_le)
  obtain f' where f': "write_recovery V ?a hs f = (Ok True f', hs)" "mem_open f'"
    "mem_content f' = mem_content f @ recovery_packet ?b (recovery p u)" "m_position f' = length (mem_content f')"
    using mem.write_recovery_packet [OF assms(1-3) base assms(5,6) sender(1), of ?b f g] sender(2) f l [OF f(1)]
    by (auto simp: IsLargeFile_def)
  let ?r = "f'\<lparr>m_position := m_position f\<rparr>" and ?n = "length (recovery_packet ?b (recovery p u))"
  have max: "unat (m_nDataSize u) \<le> 2 ^ 38" using assms(5) by (simp add: MAX_FILE_SIZE_def word_le_nat_alt)
  obtain lev where fp: "FindHash ?a (of_nat n) 0 u = (Some p, lev, u)" using assms(6) unfolding part_at_def by blast
  note need = hashes_needed_count [OF assms(1,2) max assms(6) fp assms(2)]
  have "?n < 100 * 100"
    using recovery_bytes_length [OF assms(1) need(3) base, of 1 ?b] need(2) by (auto simp: recovery_packet_def HASHSIZE_def)
  then have small: "length (mem_content ?r) < 2 ^ 64" using f'(3) f(3) l [OF f(1)] by simp
  have t: "m_pHashTree rs = HashTree (m_Hash u) (m_nDataSize u) (m_nBaseSize u) (m_bIsLeftBranch u) True None None"
    using receiver(1) assms(3) by simp
  have "mem_open ?r" "m_position ?r \<le> length (mem_content ?r)"
    "drop (m_position ?r) (mem_content ?r) = recovery_packet ?b (recovery p u) @ []"
    using f' f(1,2) l by simp_all
  from mem.read_recovery_packet [OF assms(1,2) base assms(5,6) refl t this small, of g]
  obtain f'' where "read_recovery alg V ?a (of_nat n) (m_pHashTree rs) ?r = (Ok True f'', recovered p u)" unfolding f(4) by blast
  moreover have "ucast (part_size (m_pOwner rs) ?a) = (of_nat n :: u32)"
    unfolding part_size_at [OF assms(6) receiver(2)] by (rule part_ucast(2) [OF assms(6)])
  ultimately have "ReadRecoveryData alg V ?a rs ?r = (Ok True f'', rs\<lparr>m_pHashTree := recovered p u\<rparr>)"
    using receiver(3) unfolding ReadRecoveryData_def by auto
  with f'(1) show ?thesis by blast
qed

text \<open>The blocks of a part have the same hashes in two trees.\<close>

definition same_blocks :: "u64 \<Rightarrow> nat \<Rightarrow> aich_tree \<Rightarrow> aich_tree \<Rightarrow> bool" where
  "same_blocks a n t u \<longleftrightarrow> (\<forall>pos. pos < n \<and> 184320 dvd pos \<longrightarrow>
     (\<exists>h. range_hash (a + of_nat pos) (of_nat (min 184320 (n - pos))) t = Some h \<and>
        range_hash (a + of_nat pos) (of_nat (min 184320 (n - pos))) u = Some h))"

lemma recovered_part:
  assumes "honest alg u" "shaped u" "m_nDataSize u \<le> MAX_FILE_SIZE" "part_at u k n p"
    and "m_pHashTree rs = recovered p u" "m_nFileSize (m_pOwner rs) = m_nDataSize u" "m_eStatus rs \<in> {AICH_TRUSTED, AICH_VERIFIED}"
  shows "IsPartDataAvailable (of_nat (k * 9728000)) rs = (True, rs) \<and> same_blocks (of_nat (k * 9728000)) n (m_pHashTree rs) u"
proof -
  have max: "unat (m_nDataSize u) \<le> 2 ^ 38" using assms(3) by (simp add: MAX_FILE_SIZE_def word_le_nat_alt)
  have un: "unat (of_nat n :: u64) = n" using assms(4) by (intro unat_of_nat_small) (simp add: part_at_def)
  have "rs\<lparr>m_pHashTree := recovered p u\<rparr> = rs" using assms(5) by (cases rs) simp
  then have "IsPartDataAvailable (of_nat (k * 9728000)) rs = (True, rs)"
    unfolding IsPartDataAvailable_def part_size_at [OF assms(4,6)] un assms(5) check_blocks_recovered [OF assms(1,2) max assms(4) dvd_0_right] using assms(7) by auto
  moreover have "same_blocks (of_nat (k * 9728000)) n (m_pHashTree rs) u"
    unfolding same_blocks_def
  proof (intro allI impI)
    fix pos assume pos: "pos < n \<and> 184320 dvd pos"
    then show "\<exists>h. range_hash (of_nat (k * 9728000) + of_nat pos) (of_nat (min 184320 (n - pos))) (m_pHashTree rs) = Some h \<and>
        range_hash (of_nat (k * 9728000) + of_nat pos) (of_nat (min 184320 (n - pos))) u = Some h"
      unfolding assms(5) using block_recovered [OF assms(1,2) max assms(4), of pos] unfolding range_hash_def by force
  qed
  ultimately show ?thesis by blast
qed

text \<open>C5: recovery data for any part of a file of up to the maximal size: the client that shares
  the file writes the data successfully to a memory file; a client that knows only the trusted
  root hash and the size of the file and reads the data from where it was written accepts it, has
  the data of the part available afterwards, and finds for every block of the part the same hash
  as the sender. It holds for files whose hashes have 16-bit identifiers and for large files with
  32-bit ones, and for every digest function.\<close>

theorem recovery_data_arrives:
  assumes "honest alg u" "shaped u" "m_bIsLeftBranch u" "EMBLOCKSIZE < m_nDataSize u" "m_nDataSize u \<le> MAX_FILE_SIZE"
    and part: "k * 9728000 < unat (m_nDataSize u)" "n = min 9728000 (unat (m_nDataSize u) - k * 9728000)" "a = of_nat (k * 9728000)"
    and sender: "m_pHashTree hs = u" "m_pOwner hs = \<lparr>IsPartFile = False, m_nFileSize = m_nDataSize u\<rparr>" "m_eStatus hs = AICH_HASHSETCOMPLETE"
    and receiver: "m_pHashTree rs = HashTree (m_Hash u) (m_nDataSize u) (m_nBaseSize u) True True None None"
      "m_nFileSize (m_pOwner rs) = m_nDataSize u" "m_eStatus rs \<in> {AICH_TRUSTED, AICH_VERIFIED}"
    and f: "mem_open f" "m_position f = m_fileSize f" "m_fileSize f < 2 ^ 63" "V = mem_ops (total_heap g)"
  shows "\<exists>f' f'' rs'. CreateSetRecoveryData alg K exists opened V a True hs c f = (Ok True f', hs, c) \<and>
    ReadRecoveryData alg V a rs (f'\<lparr>m_position := m_position f\<rparr>) = (Ok True f'', rs') \<and>
    IsPartDataAvailable a rs' = (True, rs') \<and>
    same_blocks a n (m_pHashTree rs') u"
proof -
  have max: "unat (m_nDataSize u) \<le> 2 ^ 38" using assms(5) by (simp add: MAX_FILE_SIZE_def word_le_nat_alt)
  obtain p where p: "part_at u k n p" using part_exists [OF assms(1,2) max part(1)] part(2) by blast
  obtain f' f'' where w: "write_recovery V a hs f = (Ok True f', hs)"
    and r: "ReadRecoveryData alg V a rs (f'\<lparr>m_position := m_position f\<rparr>) = (Ok True f'', rs\<lparr>m_pHashTree := recovered p u\<rparr>)"
    using sent_data_arrives [OF assms(1-5) p sender(1,2) receiver f] unfolding part(3) by blast
  have "CreateSetRecoveryData alg K exists opened V a True hs c f = (Ok True f', hs, c)"
    using w sender assms(4) unfolding CreateSetRecoveryData_def by auto
  moreover note recovered_part [OF assms(1,2,5) p, of "rs\<lparr>m_pHashTree := recovered p u\<rparr>", folded part(3)]
  ultimately show ?thesis using r receiver(2,3) by auto
qed

lemma GetNewHashAlgo_sha1: "\<forall>d \<in> set ds. length d < 2 ^ 32 \<Longrightarrow> GetNewHashAlgo h ds = sha1 (concat ds)"
  unfolding GetNewHashAlgo_def CSHA_alg_def by (rule csha.session) (simp_all add: csha_fresh_def)

text \<open>The tree of a file of two blocks.\<close>

definition two_blocks :: "hashalg \<Rightarrow> aich_tree" where
  "two_blocks alg =
     HashTree (alg [replicate 20 1, replicate 20 2]) 200000 184320 True True
       (Some (HashTree (replicate 20 1) 184320 184320 True True None None))
       (Some (HashTree (replicate 20 2) 15680 184320 False True None None))"

lemma two_blocks_simps [simp]:
  "m_nDataSize (two_blocks alg) = 200000" "m_nBaseSize (two_blocks alg) = 184320" "m_bIsLeftBranch (two_blocks alg)"
  by (simp_all add: two_blocks_def)

lemma two_blocks_tree: "honest (GetNewHashAlgo h) (two_blocks (GetNewHashAlgo h))" "shaped (two_blocks alg)"
  by (simp_all add: two_blocks_def hash_pair_def HASHSIZE_def GetNewHashAlgo_sha1 length_sha1 shaped.simps tree_nLeft_def child_base_def
      PARTSIZE_def EMBLOCKSIZE_def)

definition sharing :: "hashalg \<Rightarrow> CAICHHashSet" where
  "sharing alg = \<lparr>m_pOwner = \<lparr>IsPartFile = False, m_nFileSize = 200000\<rparr>, m_eStatus = AICH_HASHSETCOMPLETE,
     m_aUntrustedHashs = [], m_pHashTree = two_blocks alg\<rparr>"

definition downloading :: "hashalg \<Rightarrow> CAICHHashSet" where
  "downloading alg = \<lparr>m_pOwner = \<lparr>IsPartFile = True, m_nFileSize = 200000\<rparr>, m_eStatus = AICH_TRUSTED, m_aUntrustedHashs = [],
     m_pHashTree = HashTree (m_Hash (two_blocks alg)) 200000 184320 True True None None\<rparr>"

theorem recovery_data_arrives_witness:
  "\<exists>f' f'' rs'. CreateSetRecoveryData (GetNewHashAlgo LittleEndian) (mem_ops (total_heap (\<lambda>_. 0))) False None
      (mem_ops (total_heap (\<lambda>_. 0))) 0 True (sharing (GetNewHashAlgo LittleEndian)) (\<lparr>s_rootHashCache = Map.empty, s_rootHashCacheLoaded = False\<rparr>) (CMemFile_new 0) =
      (Ok True f', sharing (GetNewHashAlgo LittleEndian), \<lparr>s_rootHashCache = Map.empty, s_rootHashCacheLoaded = False\<rparr>) \<and>
    ReadRecoveryData (GetNewHashAlgo LittleEndian) (mem_ops (total_heap (\<lambda>_. 0))) 0 (downloading (GetNewHashAlgo LittleEndian))
      (f'\<lparr>m_position := m_position (CMemFile_new 0)\<rparr>) = (Ok True f'', rs') \<and>
    IsPartDataAvailable 0 rs' = (True, rs') \<and> same_blocks 0 200000 (m_pHashTree rs') (two_blocks (GetNewHashAlgo LittleEndian))"
  by (rule recovery_data_arrives [of "GetNewHashAlgo LittleEndian" "two_blocks (GetNewHashAlgo LittleEndian)" 0 200000 0
      "sharing (GetNewHashAlgo LittleEndian)" "downloading (GetNewHashAlgo LittleEndian)" "CMemFile_new 0" "mem_ops (total_heap (\<lambda>_. 0))" "\<lambda>_. 0"
      "mem_ops (total_heap (\<lambda>_. 0))" False None "\<lparr>s_rootHashCache = Map.empty, s_rootHashCacheLoaded = False\<rparr>", OF two_blocks_tree])
    (simp_all add: EMBLOCKSIZE_def MAX_FILE_SIZE_def sharing_def downloading_def)

subsection \<open>Hashes that are not verified\<close>

text \<open>A file of three parts and a byte; the last part is the right child of the right child.\<close>

definition bare_root :: "CAICHHash \<Rightarrow> aich_tree" where
  "bare_root h = HashTree h 29184001 9728000 True True None None"

definition byte_part :: "CAICHHash \<Rightarrow> CAICHHash \<Rightarrow> bool \<Rightarrow> aich_tree" where
  "byte_part h x v = HashTree h 29184001 9728000 True True None
     (Some (HashTree CAICHHash_new 9728001 9728000 False False None (Some (HashTree x 1 184320 False v None None))))"

lemma find_byte_part:
  "FindHash 29184000 1 0 (bare_root h) = (Some [False, False], 3, byte_part h CAICHHash_new False)"
  "FindHash 29184000 1 0 (byte_part h x v) = (Some [False, False], 3, byte_part h x v)"
  by (simp_all add: bare_root_def byte_part_def FindHash.simps Let_def tree_nLeft_def or_new_def CAICHHashTree_def child_base_def
      PARTSIZE_def EMBLOCKSIZE_def)

lemma put_byte_part: "put_record ([False, False], y) (byte_part h x v) = byte_part h y True"
  by (simp add: put_record_def byte_part_def or_new_def set_tree_hash_def)

lemma byte_part_kept:
  "VerifyHashTree alg True (byte_part h x True) = (True, byte_part h x True)"
  "check_blocks 29184000 (Suc 0) 0 (byte_part h x True) = (True, byte_part h x True)"
  "range_hash 29184000 1 (byte_part h x True) = Some x"
proof -
  show "VerifyHashTree alg True (byte_part h x True) = (True, byte_part h x True)"
    by (simp add: byte_part_def VerifyHashTree.simps fill_child_def)
  have n: "node_at [False, False] (byte_part h x True) = Some (HashTree x 1 184320 False True None None)" by (simp add: byte_part_def)
  then show "check_blocks 29184000 (Suc 0) 0 (byte_part h x True) = (True, byte_part h x True)"
    by (simp add: check_blocks.simps find_byte_part)
  show "range_hash 29184000 1 (byte_part h x True) = Some x" using n by (simp add: range_hash_def find_byte_part)
qed

text \<open>Three times the same hash for that node.\<close>

definition forged_records :: "bool \<Rightarrow> CAICHHash \<Rightarrow> u8 list" where
  "forged_records b32 x = concat (replicate 3 ((if b32 then le_split 4 (4 :: u32) else le_split 2 (4 :: u16)) @ x))"

context byte_source
begin

lemma read_forged:
  assumes "length x = 20" "ok s" "pos s \<le> length (content s)" "drop (pos s) (content s) = forged_records b32 x @ rest"
  shows "\<exists>s'. read_hashes V b32 3 (byte_part h CAICHHash_new False) s = (Ok True s', byte_part h x True) \<and> ok s' \<and> content s' = content s \<and>
    pos s' = pos s + length (forged_records b32 x)"
proof -
  let ?rs = "replicate 3 ([False, False], x)" and ?t = "byte_part h CAICHHash_new False"
  have sh: "shaped ?t" by (simp add: byte_part_def shaped.simps tree_nLeft_def child_base_def PARTSIZE_def EMBLOCKSIZE_def)
  have "ident_from 1 [False, False] = 4" by (simp add: ident_from_def ident_step_def)
  then have r: "record_bytes 1 b32 ?rs = forged_records b32 x"
    by (simp add: record_bytes_def forged_records_def ident_bytes_def)
  have "fold put_record ?rs ?t = byte_part h x True" by (simp add: numeral_eq_Suc put_byte_part)
  with read_hashes_put [of ?t ?t ?rs b32 s rest] sh assms show ?thesis
    unfolding r by (auto simp: same_root_def byte_part_def HASHSIZE_def way_limit_def)
qed

end

text \<open>C16: hashes are taken for verified although nothing was verified: for the last part of a file
  of three parts and one byte, a packet with the expected number of hashes that are all for the
  node of the part, and none for the other nodes, is accepted whatever the hash is and whatever
  the trusted root hash is; the part's data counts as available and the block has the sender's
  hash. (\<open>VerifyHashTree\<close> stops with success at a node of which neither child is valid.)\<close>

theorem unverified_data_accepted:
  assumes "length x = 20" "m_pHashTree rs = HashTree root 29184001 PARTSIZE True True None None"
    "m_nFileSize (m_pOwner rs) = 29184001" "m_eStatus rs \<in> {AICH_TRUSTED, AICH_VERIFIED}"
  shows "\<exists>f rs'. ReadRecoveryData alg (mem_ops h) 29184000 rs (CMemFile_const (le_split 2 (3 :: u16) @ forged_records False x)) = (Ok True f, rs') \<and>
    IsPartDataAvailable 29184000 rs' = (True, rs') \<and> range_hash 29184000 1 (m_pHashTree rs') = Some x"
proof -
  let ?b = "le_split 2 (3 :: u16) @ forged_records False x" and ?t = "byte_part root x True"
  let ?s = "CMemFile_const ?b"
  have len: "length (forged_records False x) = 66" using assms(1) by (simp add: forged_records_def numeral_eq_Suc)
  have s: "mem_inv ?s" "m_position ?s = 0" "mem_content ?s = ?b"
    by (simp_all add: CMemFile_const_def CMemFile_attach_def mem_inv_def m_BufferSize_def mem_content_def)
  obtain s1 where s1: "ReadUInt16 (mem_ops h) ?s = Ok 3 s1" "mem_inv s1" "mem_content s1 = ?b" "m_position s1 = 2"
    using parsesD [OF mem_in.parses_ints(2) [of h 3], of ?s "forged_records False x"] s by auto
  obtain s2 where s2: "read_hashes (mem_ops h) False 3 (byte_part root CAICHHash_new False) s1 = (Ok True s2, ?t)"
    using mem_in.read_forged [OF assms(1) s1(2), of False "[]"] s1(3,4) by auto
  have left: "unat (bytes_left (mem_ops h) s1) = 66"
    using mem_in.bytes_left_eq [OF s1(2), of h] s1(3,4) len by simp
  have ps: "part_size (m_pOwner rs) 29184000 = 1" using assms(3) by (simp add: part_size_def PARTSIZE_def min_def word_le_nat_alt)
  have need: "hashes_needed 3 1 = 3" by (simp add: hashes_needed_def blocks_of_def EMBLOCKSIZE_def)
  have "read_recovery alg (mem_ops h) 29184000 1 (bare_root root) ?s = (Ok True s2, ?t)"
    using s1(1) s2 left
    by (simp add: read_recovery_def find_byte_part need Let_def finish_recovery_def byte_part_kept word_less_nat_alt)
  then have "ReadRecoveryData alg (mem_ops h) 29184000 rs ?s = (Ok True s2, rs\<lparr>m_pHashTree := ?t\<rparr>)"
    using assms(2,4) by (auto simp: ReadRecoveryData_def ps bare_root_def PARTSIZE_def)
  moreover have "IsPartDataAvailable 29184000 (rs\<lparr>m_pHashTree := ?t\<rparr>) = (True, rs\<lparr>m_pHashTree := ?t\<rparr>)"
    using assms(4) by (auto simp: IsPartDataAvailable_def ps byte_part_kept)
  ultimately show ?thesis using byte_part_kept(3) by auto
qed

theorem unverified_data_accepted_witness:
  "\<exists>f rs'. ReadRecoveryData (GetNewHashAlgo LittleEndian) (mem_ops (total_heap (\<lambda>_. 0))) 29184000
      \<lparr>m_pOwner = \<lparr>IsPartFile = True, m_nFileSize = 29184001\<rparr>, m_eStatus = AICH_TRUSTED, m_aUntrustedHashs = [],
       m_pHashTree = HashTree (replicate 20 5) 29184001 PARTSIZE True True None None\<rparr>
      (CMemFile_const (le_split 2 (3 :: u16) @ forged_records False (replicate 20 7))) = (Ok True f, rs') \<and>
    IsPartDataAvailable 29184000 rs' = (True, rs') \<and> range_hash 29184000 1 (m_pHashTree rs') = Some (replicate 20 7)"
  by (rule unverified_data_accepted) simp_all

text \<open>C17: a packet whose two counts are both zero is not empty for the second loop, which reads as
  many hashes as the part needs, whatever its count says: the call fails, but the hashes stay in
  the tree, nothing was verified, and from then on the part's data counts as available with the
  sender's hash.\<close>

theorem rejected_data_stays:
  assumes "length x = 20" "m_pHashTree rs = HashTree root 29184001 PARTSIZE True True None None"
    "m_nFileSize (m_pOwner rs) = 29184001" "m_eStatus rs \<in> {AICH_TRUSTED, AICH_VERIFIED}"
  shows "\<exists>f rs'. ReadRecoveryData alg (mem_ops h) 29184000 rs
      (CMemFile_const (le_split 2 (0 :: u16) @ le_split 2 (0 :: u16) @ forged_records True x)) = (Ok False f, rs') \<and>
    IsPartDataAvailable 29184000 rs' = (True, rs') \<and> range_hash 29184000 1 (m_pHashTree rs') = Some x"
proof -
  let ?b = "le_split 2 (0 :: u16) @ le_split 2 (0 :: u16) @ forged_records True x" and ?t = "byte_part root x True"
  let ?s = "CMemFile_const ?b"
  have len: "length (forged_records True x) = 72" using assms(1) by (simp add: forged_records_def numeral_eq_Suc)
  have s: "mem_inv ?s" "m_position ?s = 0" "mem_content ?s = ?b"
    by (simp_all add: CMemFile_const_def CMemFile_attach_def mem_inv_def m_BufferSize_def mem_content_def)
  obtain s1 where s1: "ReadUInt16 (mem_ops h) ?s = Ok 0 s1" "mem_inv s1" "mem_content s1 = ?b" "m_position s1 = 2"
    using parsesD [OF mem_in.parses_ints(2) [of h 0], of ?s "le_split 2 (0 :: u16) @ forged_records True x"] s by auto
  have d1: "drop (m_position s1) (mem_content s1) = le_split 2 (0 :: u16) @ forged_records True x" unfolding s1(3,4) by simp
  obtain s2 where s2: "ReadUInt16 (mem_ops h) s1 = Ok 0 s2" "mem_inv s2" "mem_content s2 = ?b" "m_position s2 = 4"
    using parsesD [OF mem_in.parses_ints(2) [of h 0] s1(2) _ d1] s1(3,4) by auto
  have d2: "drop (m_position s2) (mem_content s2) = forged_records True x @ []" unfolding s2(3,4) by simp
  obtain s3 where s3: "read_hashes (mem_ops h) True 3 (byte_part root CAICHHash_new False) s2 = (Ok True s3, ?t)"
    using mem_in.read_forged [OF assms(1) s2(2) _ d2] s2(3,4) by auto
  have left: "unat (bytes_left (mem_ops h) s1) = 74" "unat (bytes_left (mem_ops h) s2) = 72"
    using mem_in.bytes_left_eq [OF s1(2), of h] mem_in.bytes_left_eq [OF s2(2), of h] s1(3,4) s2(3,4) len by simp_all
  have ps: "part_size (m_pOwner rs) 29184000 = 1" using assms(3) by (simp add: part_size_def PARTSIZE_def min_def word_le_nat_alt)
  have need: "hashes_needed 3 1 = 3" by (simp add: hashes_needed_def blocks_of_def EMBLOCKSIZE_def)
  have "read_recovery alg (mem_ops h) 29184000 1 (bare_root root) ?s = (Ok False s3, ?t)"
    using s1(1) s2(1) s3 left
    by (simp add: read_recovery_def read_32bit_hashes_def find_byte_part need Let_def word_less_nat_alt word_le_nat_alt)
  then have "ReadRecoveryData alg (mem_ops h) 29184000 rs ?s = (Ok False s3, rs\<lparr>m_pHashTree := ?t\<rparr>)"
    using assms(2,4) by (auto simp: ReadRecoveryData_def ps bare_root_def PARTSIZE_def)
  moreover have "IsPartDataAvailable 29184000 (rs\<lparr>m_pHashTree := ?t\<rparr>) = (True, rs\<lparr>m_pHashTree := ?t\<rparr>)"
    using assms(4) by (auto simp: IsPartDataAvailable_def ps byte_part_kept)
  ultimately show ?thesis using byte_part_kept(3) by auto
qed

theorem rejected_data_stays_witness:
  "\<exists>f rs'. ReadRecoveryData (GetNewHashAlgo LittleEndian) (mem_ops (total_heap (\<lambda>_. 0))) 29184000
      \<lparr>m_pOwner = \<lparr>IsPartFile = True, m_nFileSize = 29184001\<rparr>, m_eStatus = AICH_VERIFIED, m_aUntrustedHashs = [],
       m_pHashTree = HashTree (replicate 20 5) 29184001 PARTSIZE True True None None\<rparr>
      (CMemFile_const (le_split 2 (0 :: u16) @ le_split 2 (0 :: u16) @ forged_records True (replicate 20 7))) = (Ok False f, rs') \<and>
    IsPartDataAvailable 29184000 rs' = (True, rs') \<and> range_hash 29184000 1 (m_pHashTree rs') = Some (replicate 20 7)"
  by (rule rejected_data_stays) simp_all

text \<open>C15: what verification does guarantee: when \<open>VerifyHashTree\<close> of a hash set succeeds, every node
  that is reached from the root through valid nodes has the hash that the node has in the complete
  tree of the file with that root hash, provided that the digest has no collision among the pairs
  of hashes in the two trees. So a wrong hash is only possible below a node that is not valid.\<close>

theorem verified_hashes_authentic:
  assumes "VerifySet alg bDeleteBadTrees hs = (True, hs')" "shaped (m_pHashTree hs)"
    and "honest alg u" "shaped u" "m_Hash u = GetMasterHash hs" "m_nDataSize u = m_nDataSize (m_pHashTree hs)"
      "m_bIsLeftBranch u = m_bIsLeftBranch (m_pHashTree hs)"
    and "inj_on alg (child_hashes (m_pHashTree hs') \<union> child_hashes u)" "valid_chain p (m_pHashTree hs')"
  shows "\<exists>n m. node_at p (m_pHashTree hs') = Some n \<and> node_at p u = Some m \<and> m_Hash n = m_Hash m"
proof -
  obtain t where t: "VerifyHashTree alg bDeleteBadTrees (m_pHashTree hs) = (True, t)" "m_pHashTree hs' = t"
    using assms(1) by (auto simp: VerifySet_def split: prod.splits)
  have "agree_at p t u"
    by (rule VerifyHashTree_agrees [OF t(1) assms(2,4,3)]) (use assms t(2) in \<open>auto simp: GetMasterHash_def\<close>)
  then show ?thesis by (simp add: agree_at_def t(2))
qed

theorem verified_hashes_authentic_witness:
  "\<exists>n m. node_at [True] (m_pHashTree (sharing (GetNewHashAlgo BigEndian))) = Some n \<and>
     node_at [True] (two_blocks (GetNewHashAlgo BigEndian)) = Some m \<and> m_Hash n = m_Hash m"
proof (rule verified_hashes_authentic)
  let ?alg = "GetNewHashAlgo BigEndian"
  have t: "m_pHashTree (sharing ?alg) = two_blocks ?alg" by (simp add: sharing_def)
  show "VerifySet ?alg True (sharing ?alg) = (True, sharing ?alg)"
    using Verify_honest [OF two_blocks_tree(1)] unfolding VerifySet_def t by (simp add: sharing_def)
  show "shaped (m_pHashTree (sharing ?alg))" "honest ?alg (two_blocks ?alg)" "shaped (two_blocks ?alg)"
    unfolding t by (fact two_blocks_tree)+
qed (simp_all add: sharing_def GetMasterHash_def, simp_all add: two_blocks_def)

end
