(* ===== verification/Known2File.thy ===== *)
theory Known2File
  imports AICHTransfer
begin

text \<open>
  The file \<open>known2_64.met\<close> (\<open>SaveHashSet\<close>, \<open>LoadHashSet\<close> and \<open>LoadRootHashCacheLocked\<close> of
  src/amule-3.0.1/src/SHAHashSet.cpp): what it contains, what the cache of the offsets of its entries
  is, and that a hash set that was saved is loaded again.
\<close>

subsection \<open>The contents of the file\<close>

text \<open>An entry is a root hash and the hashes of the blocks, with their number before them; the file
  is the version and the entries.\<close>

type_synonym met_entry = "CAICHHash \<times> CAICHHash list"

definition entry_bytes :: "met_entry \<Rightarrow> u8 list" where
  "entry_bytes e = fst e @ le_split 4 (of_nat (length (snd e)) :: u32) @ concat (snd e)"

definition met_bytes :: "met_entry list \<Rightarrow> u8 list" where
  "met_bytes es = le_split 1 KNOWN2_MET_VERSION @ concat (map entry_bytes es)"

definition entry_ok :: "met_entry \<Rightarrow> bool" where
  "entry_ok e \<longleftrightarrow> length (fst e) = 20 \<and> (\<forall>x \<in> set (snd e). length x = 20) \<and> length (snd e) < 2 ^ 32"

text \<open>The offset of each entry, from that of the first one on, and the map that the cache should be:
  of two entries with the same root hash the first one counts.\<close>

fun offsets :: "nat \<Rightarrow> met_entry list \<Rightarrow> (CAICHHash \<times> nat) list" where
  "offsets n [] = []"
| "offsets n (e # es) = (fst e, n) # offsets (n + length (entry_bytes e)) es"

definition met_index :: "nat \<Rightarrow> met_entry list \<Rightarrow> CAICHHash \<rightharpoonup> u64" where
  "met_index n es h = map_option of_nat (map_of (offsets n es) h)"

lemma length_concat_hashes: "\<forall>x \<in> set hs. length x = 20 \<Longrightarrow> length (concat hs) = length hs * 20"
  by (induction hs) auto

lemma length_entry: "entry_ok e \<Longrightarrow> length (entry_bytes e) = 24 + length (snd e) * 20"
  by (simp add: entry_bytes_def entry_ok_def length_concat_hashes)

lemma met_bytes_nonempty [simp]: "met_bytes es \<noteq> []" "[] \<noteq> met_bytes es"
proof -
  have "0 < length (met_bytes es)" by (simp add: met_bytes_def)
  then show "met_bytes es \<noteq> []" "[] \<noteq> met_bytes es" by auto
qed

lemma length_entries: "\<forall>e \<in> set es. entry_ok e \<Longrightarrow> length es \<le> length (concat (map entry_bytes es))"
  by (induction es) (auto simp: length_entry)

lemma map_of_offsets_append:
  "map_of (offsets n (es @ es')) = map_of (offsets (n + length (concat (map entry_bytes es))) es') ++ map_of (offsets n es)"
  by (induction es arbitrary: n) (auto simp: add.assoc)

lemma offsets_dom: "map_of (offsets n es) h = None \<longleftrightarrow> h \<notin> fst ` set es"
  by (induction es arbitrary: n) auto

lemma offsets_at:
  assumes "map_of (offsets n es) h = Some off"
  shows "\<exists>es1 e es2. es = es1 @ e # es2 \<and> fst e = h \<and> off = n + length (concat (map entry_bytes es1))"
  using assms
proof (induction es arbitrary: n)
  case (Cons e es)
  show ?case
  proof (cases "fst e = h")
    case True
    then show ?thesis using Cons.prems by (intro exI [of _ "[]"]) auto
  next
    case False
    then obtain es1 e' es2 where "es = es1 @ e' # es2" "fst e' = h" "off = n + length (entry_bytes e) + length (concat (map entry_bytes es1))"
      using Cons.IH [of "n + length (entry_bytes e)"] Cons.prems by auto
    then show ?thesis by (intro exI [of _ "e # es1"]) auto
  qed
qed simp

subsection \<open>The cache\<close>

context byte_source
begin

lemma Seek_current:
  assumes "ok s" "pos s + k \<le> length (content s)"
  shows "\<exists>s'. Seek V (int k) wxFromCurrent s = Ok (int (pos s + k)) s' \<and> ok s' \<and> content s' = content s \<and> pos s' = pos s + k"
  using seek_law [OF assms] position [OF assms(1)]
  by (auto simp: Seek_def Let_def io_bind_def io_check_def io_return_def)

lemma parses_hash: "length h = 20 \<Longrightarrow> parses ok content pos (CAICHHash_Read V) h h"
  unfolding CAICHHash_Read_def HASHSIZE_def by (rule parses_Read) simp

lemma advance:
  assumes "drop (pos s) (content s) = bs @ rest" "content s' = content s" "pos s' = pos s + length bs" "pos s \<le> length (content s)"
  shows "drop (pos s') (content s') = rest" "pos s' \<le> length (content s')"
proof -
  have "drop (pos s') (content s') = drop (length bs) (drop (pos s) (content s))" by (simp add: assms(2,3) add.commute)
  then show "drop (pos s') (content s') = rest" unfolding assms(1) by simp
  have "length (content s) - pos s = length (bs @ rest)" using assms(1) by (metis length_drop)
  then show "pos s' \<le> length (content s')" using assms(2-4) by simp
qed

lemma read_entry_ok:
  assumes "entry_ok e" "ok s" "pos s \<le> length (content s)" "drop (pos s) (content s) = entry_bytes e @ rest" "n = length (content s)"
  shows "\<exists>s'. read_entry V n s = Ok (Some (fst e, of_nat (pos s))) s' \<and> ok s' \<and> content s' = content s \<and> pos s' = pos s + length (entry_bytes e)"
proof -
  let ?c = "of_nat (length (snd e)) :: u32"
  have e: "length (fst e) = 20" "unat ?c = length (snd e)" "length (concat (snd e)) = length (snd e) * 20"
    using assms(1) by (auto simp: entry_ok_def length_concat_hashes intro: unat_of_nat_small)
  have d: "drop (pos s) (content s) = fst e @ (le_split 4 ?c @ concat (snd e) @ rest)" using assms(4) by (simp add: entry_bytes_def)
  obtain s1 where s1: "CAICHHash_Read V s = Ok (fst e) s1" "ok s1" "content s1 = content s" "pos s1 = pos s + length (fst e)"
    using parsesD [OF parses_hash [OF e(1)] assms(2,3) d] by blast
  note a1 = advance [OF d s1(3,4) assms(3)]
  obtain s2 where s2: "ReadUInt32 V s1 = Ok ?c s2" "ok s2" "content s2 = content s1" "pos s2 = pos s1 + length (le_split 4 ?c)"
    using parsesD [OF parses_ints(3) s1(2) a1(2,1)] by blast
  note a2 = advance [OF a1(1) s2(3,4) a1(2)]
  have "length (content s2) - pos s2 = length (concat (snd e) @ rest)" using a2(1) by (metis length_drop)
  then have fit: "pos s2 + length (snd e) * 20 \<le> length (content s2)" using a2(2) e(3) by simp
  obtain s3 where s3: "Seek V (int (length (snd e) * 20)) wxFromCurrent s2 = Ok (int (pos s2 + length (snd e) * 20)) s3" "ok s3"
      "content s3 = content s2" "pos s3 = pos s2 + length (snd e) * 20"
    using Seek_current [OF s2(2) fit] by blast
  have "pos s3 = pos s + length (entry_bytes e)" using s1 s2 s3 e length_entry [OF assms(1)] by simp
  then show ?thesis
    using s1 s2 s3 fit e assms(5) position [OF assms(2)] position [OF s2(2)]
    by (auto simp: read_entry_def io_bind_def io_return_def Let_def HASHSIZE_def)
qed

lemma cache_loop_entries:
  assumes "\<forall>e \<in> set es. entry_ok e" "ok s" "pos s \<le> length (content s)" "drop (pos s) (content s) = concat (map entry_bytes es)"
    "n = length (content s)" "length es \<le> fuel"
  shows "cache_loop fuel V n c s = (None, c\<lparr>s_rootHashCache := met_index (pos s) es ++ s_rootHashCache c\<rparr>)"
  using assms
proof (induction es arbitrary: s c fuel)
  case Nil
  have "\<not> GetPosition V s < n" using Nil.prems(3-5) position [OF Nil.prems(2)] by auto
  moreover have "met_index (pos s) [] = Map.empty" by (simp add: met_index_def fun_eq_iff)
  ultimately show ?case by (cases fuel) simp_all
next
  case (Cons e es)
  obtain fuel' where fuel: "fuel = Suc fuel'" using Cons.prems(6) by (cases fuel) auto
  have d: "drop (pos s) (content s) = entry_bytes e @ concat (map entry_bytes es)" using Cons.prems(4) by simp
  have e: "entry_ok e" using Cons.prems(1) by simp
  obtain s1 where s1: "read_entry V n s = Ok (Some (fst e, of_nat (pos s))) s1" "ok s1" "content s1 = content s" "pos s1 = pos s + length (entry_bytes e)"
    using read_entry_ok [OF e Cons.prems(2,3) d Cons.prems(5)] by blast
  note a = advance [OF d s1(3,4) Cons.prems(3)]
  have "pos s < n" using a(2) s1(3,4) Cons.prems(5) length_entry [OF e] by simp
  moreover have "met_index (pos s1) es ++ s_rootHashCache (cache_emplace (fst e) (of_nat (pos s)) c) = met_index (pos s) (e # es) ++ s_rootHashCache c"
    by (auto simp: fun_eq_iff map_add_def met_index_def cache_emplace_def s1(4) split: option.splits)
  ultimately show ?case
    using Cons.IH [OF _ s1(2) a(2,1), of fuel' "cache_emplace (fst e) (of_nat (pos s)) c"] Cons.prems(1,5,6) s1(1,3) position [OF Cons.prems(2)]
    by (simp add: fuel cache_emplace_def split: if_splits)
qed

lemma LoadRootHashCacheLocked_empty:
  assumes "ok s" "content s = []"
  shows "LoadRootHashCacheLocked V True (Some s) c = (None, \<lparr>s_rootHashCache = Map.empty, s_rootHashCacheLoaded = True\<rparr>)"
  using size_law [OF assms(1)] assms(2) by (simp add: LoadRootHashCacheLocked_def)

lemma LoadRootHashCacheLocked_entries:
  assumes "\<forall>e \<in> set es. entry_ok e" "ok s" "pos s = 0" "content s = met_bytes es"
  shows "LoadRootHashCacheLocked V True (Some s) c = (None, \<lparr>s_rootHashCache = met_index 1 es, s_rootHashCacheLoaded = True\<rparr>)"
proof -
  let ?c0 = "\<lparr>s_rootHashCache = Map.empty, s_rootHashCacheLoaded = True\<rparr>"
  have d: "drop (pos s) (content s) = le_split 1 KNOWN2_MET_VERSION @ concat (map entry_bytes es)" using assms(3,4) by (simp add: met_bytes_def)
  have p: "pos s \<le> length (content s)" using assms(3) by simp
  obtain s1 where s1: "ReadUInt8 V s = Ok KNOWN2_MET_VERSION s1" "ok s1" "content s1 = content s" "pos s1 = pos s + length (le_split 1 KNOWN2_MET_VERSION)"
    using parsesD [OF parses_ints(1) assms(2) p d] by blast
  note a = advance [OF d s1(3,4) p]
  let ?n = "length (content s)"
  have n: "length es \<le> ?n" "?n \<noteq> 0" using length_entries [OF assms(1)] assms(4) by (simp_all add: met_bytes_def)
  have "cache_loop ?n V ?n ?c0 s1 = (None, ?c0\<lparr>s_rootHashCache := met_index (pos s1) es ++ s_rootHashCache ?c0\<rparr>)"
    by (rule cache_loop_entries [OF assms(1) s1(2) a(2,1)]) (use s1(3) n in simp_all)
  then show ?thesis
    using n(2) size_law [OF assms(2)] s1(1,4) assms(3) by (simp add: LoadRootHashCacheLocked_def caught_def)
qed

lemma load_found_ok:
  assumes "honest alg u" "shaped u" "shaped t" "same_root u t" "m_bHashValid t" "hash_count (m_nDataSize u) = of_nat (length (leaf_hashes u))"
    and "ok s" "pos s \<le> length (content s)"
      "drop (pos s) (content s) = le_split 4 (of_nat (length (leaf_hashes u)) :: u32) @ concat (leaf_hashes u) @ rest"
  shows "load_found alg V (m_Hash u) t s = (Inr True, u)"
proof -
  obtain s1 where s1: "ReadUInt32 V s = Ok (of_nat (length (leaf_hashes u))) s1" "ok s1" "content s1 = content s"
    "pos s1 = pos s + length (le_split 4 (of_nat (length (leaf_hashes u)) :: u32))"
    using parsesD [OF parses_ints(3) assms(7-9)] by blast
  note a = advance [OF assms(9) s1(3,4) assms(8)]
  have root: "m_nDataSize t = m_nDataSize u" "m_bIsLeftBranch t = m_bIsLeftBranch u" using assms(4) by (simp_all add: same_root_def)
  obtain s2 t1 where "LoadLowestLevelHashs V t s1 = (Ok True s2, t1)" "ReCalculateHash alg False t1 = (True, u)"
    using Load_honest [OF assms(2,1,3) root s1(2) a(2,1)] by blast
  then show ?thesis using s1(1) assms(6) root by (simp add: load_found_def)
qed

lemma load_loop_here:
  assumes "honest alg u" "shaped u" "shaped t" "same_root u t" "m_bHashValid t" "m_Hash t = m_Hash u"
    "hash_count (m_nDataSize u) = of_nat (length (leaf_hashes u))"
    and "ok s" "pos s \<le> length (content s)" "drop (pos s) (content s) = entry_bytes (m_Hash u, leaf_hashes u) @ rest"
  shows "load_loop (Suc fuel) alg V (length (content s)) cached False t c s = (Inr True, u, c)"
proof -
  have h: "length (m_Hash u) = 20" using honest_valid [OF assms(1)] by (simp add: HASHSIZE_def)
  have d: "drop (pos s) (content s) = m_Hash u @ (le_split 4 (of_nat (length (leaf_hashes u)) :: u32) @ concat (leaf_hashes u) @ rest)"
    using assms(10) by (simp add: entry_bytes_def)
  obtain s1 where s1: "CAICHHash_Read V s = Ok (m_Hash u) s1" "ok s1" "content s1 = content s" "pos s1 = pos s + length (m_Hash u)"
    using parsesD [OF parses_hash [OF h] assms(8,9) d] by blast
  note a = advance [OF d s1(3,4) assms(9)]
  have "load_found alg V (m_Hash u) t s1 = (Inr True, u)" by (rule load_found_ok [OF assms(1-5,7) s1(2) a(2,1)])
  moreover have "pos s < length (content s)" using s1(3,4) a(2) h by simp
  ultimately show ?thesis using s1(1) assms(6) position [OF assms(8)] by simp
qed

lemma LoadHashSet_entry:
  assumes "honest alg u" "shaped u" "0 < m_nDataSize u" "hash_count (m_nDataSize u) = of_nat (length (leaf_hashes u))"
    and hs: "shaped (m_pHashTree hs)" "same_root u (m_pHashTree hs)" "m_bHashValid (m_pHashTree hs)" "m_Hash (m_pHashTree hs) = m_Hash u"
      "m_eStatus hs = AICH_HASHSETCOMPLETE" "m_nFileSize (m_pOwner hs) = m_nDataSize u"
    and es: "\<forall>e \<in> set es. entry_ok e" "map_of (offsets 1 es) (m_Hash u) = Some off" "\<forall>e \<in> set es. fst e = m_Hash u \<longrightarrow> snd e = leaf_hashes u"
    and s: "ok s" "pos s = 0" "content s = met_bytes es" "length (content s) < 2 ^ 64"
    and c: "c = \<lparr>s_rootHashCache = met_index 1 es, s_rootHashCacheLoaded = True\<rparr> \<or> \<not> s_rootHashCacheLoaded c"
  shows "LoadHashSet alg V True (Some s) hs c = (Inr True, hs\<lparr>m_pHashTree := u\<rparr>, \<lparr>s_rootHashCache = met_index 1 es, s_rootHashCacheLoaded = True\<rparr>)"
proof -
  let ?c = "\<lparr>s_rootHashCache = met_index 1 es, s_rootHashCacheLoaded = True\<rparr>" and ?t = "m_pHashTree hs"
  obtain es1 e es2 where e: "es = es1 @ e # es2" "fst e = m_Hash u" "off = 1 + length (concat (map entry_bytes es1))"
    using offsets_at [OF es(2)] by blast
  have eu: "e = (m_Hash u, leaf_hashes u)" using e(1,2) es(3) by (cases e) auto
  have split: "content s = (le_split 1 KNOWN2_MET_VERSION @ concat (map entry_bytes es1)) @ entry_bytes (m_Hash u, leaf_hashes u) @ concat (map entry_bytes es2)"
    using s(3) by (simp add: met_bytes_def e(1) eu)
  have "entry_ok e" using es(1) e(1) by simp
  then have len: "length (entry_bytes (m_Hash u, leaf_hashes u)) \<ge> 24" using length_entry [of e] by (simp add: eu)
  have offlen: "off = length (le_split 1 KNOWN2_MET_VERSION @ concat (map entry_bytes es1))" using e(3) by simp
  have off: "off < length (content s)" unfolding split offlen length_append using len by linarith
  have un: "unat (of_nat off :: u64) = off" using off s(4) by (intro unat_of_nat_small) simp
  have d0: "drop (pos s) (content s) = le_split 1 KNOWN2_MET_VERSION @ concat (map entry_bytes es)" using s(2,3) by (simp add: met_bytes_def)
  obtain s1 where s1: "ReadUInt8 V s = Ok KNOWN2_MET_VERSION s1" "ok s1" "content s1 = content s"
    using parsesD [OF parses_ints(1) s(1) _ d0] s(2) by auto
  obtain s2 where s2: "Seek V (int off) wxFromStart s1 = Ok (int off) s2" "ok s2" "content s2 = content s1" "pos s2 = off"
    using Seek_start [OF s1(2), of off] off s1(3) by auto
  have d2: "drop (pos s2) (content s2) = entry_bytes (m_Hash u, leaf_hashes u) @ concat (map entry_bytes es2)"
    unfolding s2(3,4) s1(3) offlen split by simp
  have p2: "pos s2 \<le> length (content s2)" using s1(3) s2(3,4) off by simp
  have "load_loop (Suc (length (content s) + 1)) alg V (length (content s2)) True False ?t ?c s2 = (Inr True, u, ?c)"
    by (rule load_loop_here [OF assms(1,2) hs(1-4) assms(4) s2(2) p2 d2])
  then have load: "load_from_file alg V (Some (of_nat off)) ?t ?c s = (Inr True, u, ?c)"
    using s1 s2 un off size_law [OF s1(2)] by (simp add: load_from_file_def Let_def)
  have cache: "(if \<not> s_rootHashCacheLoaded c then LoadRootHashCacheLocked V True (Some s) c else (None, c)) = (None, ?c)"
    using LoadRootHashCacheLocked_entries [OF es(1) s(1-3)] c by auto
  have idx: "met_index 1 es (m_Hash u) = Some (of_nat off)" using es(2) by (simp add: met_index_def)
  have root: "m_nDataSize ?t = m_nDataSize u" using hs(2) by (simp add: same_root_def)
  show ?thesis unfolding LoadHashSet_def Let_def cache using assms(3) hs root load idx by simp
qed

end

subsection \<open>The number of block hashes\<close>

definition file_blocks :: "nat \<Rightarrow> nat" where
  "file_blocks n = 53 * (n div 9728000) + block_count (n mod 9728000)"

lemma file_blocks_add: "file_blocks (9728000 * j + n) = 53 * j + file_blocks n"
  by (simp add: file_blocks_def)

lemma leaf_hashes_records: "honest alg t \<Longrightarrow> length (leaf_hashes t) = length (leaf_records t)"
proof (induction t)
  case (HashTree h ds bs lb v pl pr)
  from HashTree.prems show ?case by (cases rule: honest_cases) (use HashTree.IH in auto)
qed

lemma leaf_hashes_length: "honest alg t \<Longrightarrow> x \<in> set (leaf_hashes t) \<Longrightarrow> length x = 20"
proof (induction t)
  case (HashTree h ds bs lb v pl pr)
  from HashTree.prems(1) show ?case by (cases rule: honest_cases) (use HashTree in \<open>auto simp: HASHSIZE_def\<close>)
qed

lemma leaf_count_file:
  assumes "honest alg t" "shaped t" "0 < unat (m_nDataSize t)"
  shows "length (leaf_hashes t) = file_blocks (unat (m_nDataSize t))"
  using assms
proof (induction t)
  case (HashTree h ds bs lb v pl pr)
  show ?case
  proof (cases "unat ds \<le> 9728000")
    case True
    then have "file_blocks (unat ds) = block_count (unat ds)"
      by (cases "unat ds = 9728000") (auto simp: file_blocks_def block_count_def)
    then show ?thesis using leaf_count [OF HashTree.prems(1,2)] leaf_hashes_records [OF HashTree.prems(1)] HashTree.prems(3) True by simp
  next
    case False
    then have bs: "bs = 9728000" using HashTree.prems(2) by (simp add: shaped.simps child_base_def PARTSIZE_def word_le_nat_alt)
    from HashTree.prems(1) show ?thesis
    proof (cases rule: honest_cases)
      case leaf
      then show ?thesis using False bs by (simp add: word_le_nat_alt)
    next
      case (inner l r)
      have sh: "shaped l" "m_nDataSize l = tree_nLeft ds bs lb" "shaped r" "m_nDataSize r = ds - tree_nLeft ds bs lb"
        using HashTree.prems(2) by (simp_all add: inner shaped.simps)
      note half = split_halves [OF _ inner(5), of "unat ds" _ lb, OF _ _ refl]
      obtain j where j: "unat (tree_nLeft ds bs lb) = 9728000 * j" "0 < j" "unat (tree_nLeft ds bs lb) < unat ds"
        using half(1) half(4) by (auto simp: bs)
      have r: "unat (m_nDataSize r) = unat ds - 9728000 * j" using sh(4) j by (simp add: unat_sub_le word_le_nat_alt)
      have "length (leaf_hashes l) = file_blocks (9728000 * j)" "length (leaf_hashes r) = file_blocks (unat ds - 9728000 * j)"
        using HashTree.IH(1) [of l] HashTree.IH(2) [of r] inner sh j r by simp_all
      moreover have "file_blocks (9728000 * j) = 53 * j" using file_blocks_add [of j 0] by (simp add: file_blocks_def block_count_def)
      moreover have "file_blocks (unat ds) = 53 * j + file_blocks (unat ds - 9728000 * j)"
        using file_blocks_add [of j "unat ds - 9728000 * j"] j by simp
      ultimately show ?thesis using inner by simp
    qed
  qed
qed

lemma hash_count_leaves:
  assumes "honest alg u" "shaped u" "0 < m_nDataSize u" "m_nDataSize u \<le> MAX_FILE_SIZE"
  shows "hash_count (m_nDataSize u) = of_nat (length (leaf_hashes u))" "length (leaf_hashes u) < 2 ^ 22"
proof -
  define n where "n = unat (m_nDataSize u)"
  have n: "0 < n" "n \<le> 2 ^ 38" using assms(3,4) by (auto simp: n_def word_less_nat_alt MAX_FILE_SIZE_def word_le_nat_alt)
  have cnt: "length (leaf_hashes u) = file_blocks n" using leaf_count_file [OF assms(1,2)] n by (simp add: n_def)
  have q: "n div 9728000 < 2 ^ 15" using n(2) by simp
  have b: "block_count (n mod 9728000) \<le> 53"
  proof -
    have "n mod 9728000 div 184320 \<le> 52" using mod_less_divisor [of 9728000 n] by (simp add: less_mult_imp_div_less)
    then show ?thesis by (simp add: block_count_def)
  qed
  show "length (leaf_hashes u) < 2 ^ 22" using cnt q b by (simp add: file_blocks_def)
  have "unat (hash_count (m_nDataSize u)) = file_blocks n"
  proof -
    have md: "unat (m_nDataSize u div PARTSIZE) = n div 9728000" "unat (m_nDataSize u mod PARTSIZE) = n mod 9728000"
      by (simp_all add: n_def PARTSIZE_def unat_div unat_mod)
    have "unat (53 * (m_nDataSize u div PARTSIZE)) = 53 * (n div 9728000)"
      using q md(1) by (subst unat_mult_small) simp_all
    then have a: "unat (ucast (53 * (m_nDataSize u div PARTSIZE)) :: u32) = 53 * (n div 9728000)" using q by (simp add: unat_ucast_small)
    define m where "m = m_nDataSize u mod PARTSIZE"
    have m: "unat m = n mod 9728000" using md(2) by (simp add: m_def)
    have "unat (m div 184320) = n mod 9728000 div 184320" "unat (m mod 184320) = n mod 9728000 mod 184320" by (simp_all add: unat_div unat_mod m)
    moreover from this(2) have "m mod 184320 \<noteq> 0 \<longleftrightarrow> n mod 9728000 mod 184320 \<noteq> 0" by (metis unat_eq_zero)
    ultimately have "unat (m div 184320 + (if m mod 184320 \<noteq> 0 then 1 else 0)) = block_count (n mod 9728000)"
      using b by (auto simp: block_count_def unat_word_ariths)
    then have c: "unat (ucast (m div 184320 + (if m mod 184320 \<noteq> 0 then 1 else 0)) :: u32) = block_count (n mod 9728000)"
      using b by (subst unat_ucast_small) simp_all
    have z: "m = 0 \<Longrightarrow> block_count (n mod 9728000) = 0" using m by (simp add: block_count_def)
    have pp: "PARTSIZE div EMBLOCKSIZE + (if PARTSIZE mod EMBLOCKSIZE \<noteq> 0 then 1 else 0) = (53 :: u64)" by (simp add: PARTSIZE_def EMBLOCKSIZE_def)
    show ?thesis
      unfolding hash_count_def Let_def pp m_def [symmetric] unfolding EMBLOCKSIZE_def
      using a c z q b by (auto simp: file_blocks_def unat_word_ariths)
  qed
  then show "hash_count (m_nDataSize u) = of_nat (length (leaf_hashes u))" using cnt by (metis word_eq_of_nat)
qed

subsection \<open>Saving\<close>

lemma tree_entry_ok:
  assumes "honest alg u" "shaped u" "0 < m_nDataSize u" "m_nDataSize u \<le> MAX_FILE_SIZE"
  shows "entry_ok (m_Hash u, leaf_hashes u)"
  using hash_count_leaves [OF assms] honest_valid [OF assms(1)] leaf_hashes_length [OF assms(1)] by (simp add: entry_ok_def HASHSIZE_def)

context byte_stream
begin

lemma save_entry_ok:
  assumes u: "honest alg u" "shaped u" "0 < m_nDataSize u" "m_nDataSize u \<le> MAX_FILE_SIZE"
    and s: "ok s" "pos s = length (content s)" "n = length (content s)"
  shows "\<exists>s'. save_entry V set_length u n s = Ok (Some n) s' \<and> ok s' \<and> content s' = content s @ entry_bytes (m_Hash u, leaf_hashes u)"
proof -
  let ?c = "of_nat (length (leaf_hashes u)) :: u32"
  note cnt = hash_count_leaves [OF u] and e = tree_entry_ok [OF u]
  have low: "emits_val ok content pos (WriteLowestLevelHashs V 0 True True u) (concat (leaf_hashes u)) True"
    using emits_lowest [OF u(1), of 0 True True] by (simp add: lowest_bytes_plain)
  obtain s1 where s1: "CAICHHash_Write V (m_Hash u) s = Ok () s1" "ok s1" "content s1 = content s @ m_Hash u" "pos s1 = length (content s1)"
    using emitsD [OF emits_Write s(1,2)] unfolding CAICHHash_Write_def by blast
  obtain s2 where s2: "WriteUInt32 V ?c s1 = Ok () s2" "ok s2" "content s2 = content s1 @ le_split 4 ?c" "pos s2 = length (content s2)"
    using emitsD [OF emits_ints(3) s1(2,4)] by blast
  obtain s3 where s3: "WriteLowestLevelHashs V 0 True True u s2 = Ok True s3" "ok s3" "content s3 = content s2 @ concat (leaf_hashes u)"
    using low s2(2,4) unfolding emits_val_def by blast
  have content: "content s3 = content s @ entry_bytes (m_Hash u, leaf_hashes u)"
    using s1(3) s2(3) s3(3) by (simp add: entry_bytes_def)
  have "?c + 1 = of_nat (length (leaf_hashes u) + 1)" by simp
  then have "unat (?c + 1) = length (leaf_hashes u) + 1" using cnt(2) by (simp only:) (intro unat_of_nat_small, simp)
  then have "unat ((?c + 1) * 20) = (length (leaf_hashes u) + 1) * 20" using cnt(2) by (subst unat_mult_small) simp_all
  then have "GetLength V s3 = n + unat ((?c + 1) * 20) + 4"
    using size_law [OF s3(2)] content length_entry [OF e] s(3) by simp
  then show ?thesis using s1(1) s2(1) s3(1,2) content cnt(1) by (simp add: save_entry_def Let_def io_bind_def)
qed

lemma save_to_file_ok:
  assumes u: "honest alg u" "shaped u" "0 < m_nDataSize u" "m_nDataSize u \<le> MAX_FILE_SIZE"
    and s: "ok s" "pos s = 0" "content s = [] \<and> es = [] \<or> content s = met_bytes es"
  shows "\<exists>s'. save_to_file V set_length u s = Ok (Some (length (met_bytes es))) s' \<and> ok s' \<and> content s' = met_bytes (es @ [(m_Hash u, leaf_hashes u)])"
proof (cases "content s = []")
  case True
  then have es: "es = []" using s(3) by auto
  have p: "pos s = length (content s)" using True s(2) by simp
  obtain s1 where s1: "WriteUInt8 V KNOWN2_MET_VERSION s = Ok () s1" "ok s1" "content s1 = content s @ le_split 1 KNOWN2_MET_VERSION" "pos s1 = length (content s1)"
    using emitsD [OF emits_ints(1) s(1) p] by blast
  obtain s2 where "save_entry V set_length u 1 s1 = Ok (Some 1) s2" "ok s2" "content s2 = content s1 @ entry_bytes (m_Hash u, leaf_hashes u)"
    using save_entry_ok [OF u s1(2,4), of 1] s1(3) True by auto
  then show ?thesis using s1 True size_law [OF s(1)] es by (simp add: save_to_file_def io_bind_def met_bytes_def)
next
  case False
  then have met: "content s = met_bytes es" using s(3) by simp
  then have d: "drop (pos s) (content s) = le_split 1 KNOWN2_MET_VERSION @ concat (map entry_bytes es)" using s(2) by (simp add: met_bytes_def)
  obtain s1 where s1: "ReadUInt8 V s = Ok KNOWN2_MET_VERSION s1" "ok s1" "content s1 = content s"
    using parsesD [OF parses_ints(1) s(1) _ d] s(2) by auto
  obtain s2 where s2: "Seek V (int (length (content s))) wxFromStart s1 = Ok (int (length (content s))) s2" "ok s2" "content s2 = content s1" "pos s2 = length (content s)"
    using Seek_start [OF s1(2)] s1(3) by auto
  have p2: "pos s2 = length (content s2)" "length (content s) = length (content s2)" using s2(3,4) s1(3) by simp_all
  obtain s3 where s3: "save_entry V set_length u (length (content s)) s2 = Ok (Some (length (content s))) s3" "ok s3"
      "content s3 = content s2 @ entry_bytes (m_Hash u, leaf_hashes u)"
    using save_entry_ok [OF u s2(2) p2] by blast
  have "content s3 = met_bytes es @ entry_bytes (m_Hash u, leaf_hashes u)" by (simp only: s3(3) s2(3) s1(3) met)
  then have c3: "content s3 = met_bytes (es @ [(m_Hash u, leaf_hashes u)])" by (simp add: met_bytes_def)
  have "save_to_file V set_length u s = Ok (Some (length (content s))) s3"
    using s1(1) s2(1) s3(1) False by (simp add: save_to_file_def io_bind_def size_law [OF s(1)])
  then show ?thesis using s3(2) c3 by (simp add: met)
qed

text \<open>Saving starts with the cache of the file's entries, which it loads when it has to.\<close>

lemma cache_ready:
  assumes es: "\<forall>e \<in> set es. entry_ok e"
    and s: "ok s" "pos s = 0" "content s = [] \<and> es = [] \<or> content s = met_bytes es"
    and c: "\<not> s_rootHashCacheLoaded c \<or> c = \<lparr>s_rootHashCache = met_index 1 es, s_rootHashCacheLoaded = True\<rparr>"
  shows "(if \<not> s_rootHashCacheLoaded c then LoadRootHashCacheLocked V True (Some s) c else (None, c)) =
    (None, \<lparr>s_rootHashCache = met_index 1 es, s_rootHashCacheLoaded = True\<rparr>)"
proof (cases "content s = []")
  case True
  moreover from this have "es = []" using s(3) by auto
  moreover have "met_index 1 [] = Map.empty" by (simp add: met_index_def fun_eq_iff)
  ultimately show ?thesis using LoadRootHashCacheLocked_empty [OF s(1)] c by auto
next
  case False
  then show ?thesis using LoadRootHashCacheLocked_entries [OF es s(1,2)] s(3) c by auto
qed

lemma SaveHashSet_known:
  assumes hs: "m_bHashValid (m_pHashTree hs)" "m_eStatus hs = AICH_HASHSETCOMPLETE" "m_nFileSize (m_pOwner hs) = m_nDataSize (m_pHashTree hs)"
    and es: "\<forall>e \<in> set es. entry_ok e" "m_Hash (m_pHashTree hs) \<in> fst ` set es"
    and s: "ok s" "pos s = 0" "content s = [] \<and> es = [] \<or> content s = met_bytes es"
    and c: "\<not> s_rootHashCacheLoaded c \<or> c = \<lparr>s_rootHashCache = met_index 1 es, s_rootHashCacheLoaded = True\<rparr>"
  shows "SaveHashSet V set_length True (Some s) w hs c = (Inr True, \<lparr>s_rootHashCache = met_index 1 es, s_rootHashCacheLoaded = True\<rparr>, None)"
proof -
  have "met_index 1 es (m_Hash (m_pHashTree hs)) \<noteq> None" using es(2) offsets_dom [of 1 es] by (simp add: met_index_def)
  then show ?thesis unfolding SaveHashSet_def Let_def cache_ready [OF es(1) s c] using hs by simp
qed

lemma SaveHashSet_appends:
  assumes u: "honest alg u" "shaped u" "0 < m_nDataSize u" "m_nDataSize u \<le> MAX_FILE_SIZE"
    and hs: "m_pHashTree hs = u" "m_eStatus hs = AICH_HASHSETCOMPLETE" "m_nFileSize (m_pOwner hs) = m_nDataSize u"
    and es: "\<forall>e \<in> set es. entry_ok e" "m_Hash u \<notin> fst ` set es"
    and s: "ok s" "pos s = 0" "content s = [] \<and> es = [] \<or> content s = met_bytes es"
    and c: "\<not> s_rootHashCacheLoaded c \<or> c = \<lparr>s_rootHashCache = met_index 1 es, s_rootHashCacheLoaded = True\<rparr>"
  shows "\<exists>s'. SaveHashSet V set_length True (Some s) (Some s) hs c =
      (Inr True, \<lparr>s_rootHashCache = met_index 1 (es @ [(m_Hash u, leaf_hashes u)]), s_rootHashCacheLoaded = True\<rparr>, Some s') \<and> ok s' \<and>
    content s' = met_bytes (es @ [(m_Hash u, leaf_hashes u)])"
proof -
  let ?c = "\<lparr>s_rootHashCache = met_index 1 es, s_rootHashCacheLoaded = True\<rparr>"
  note load = cache_ready [OF es(1) s c]
  have none: "met_index 1 es (m_Hash u) = None" using es(2) by (simp add: met_index_def offsets_dom)
  have valid: "m_bHashValid u" using honest_valid [OF u(1)] by simp
  have "cache_emplace (m_Hash u) (of_nat (length (met_bytes es))) ?c =
      \<lparr>s_rootHashCache = met_index 1 (es @ [(m_Hash u, leaf_hashes u)]), s_rootHashCacheLoaded = True\<rparr>"
    using none
    by (auto simp: cache_emplace_def met_index_def fun_eq_iff map_of_offsets_append map_add_def met_bytes_def add.commute split: option.splits)
  moreover obtain s' where "save_to_file V set_length u s = Ok (Some (length (met_bytes es))) s'" "ok s'"
      "content s' = met_bytes (es @ [(m_Hash u, leaf_hashes u)])"
    using save_to_file_ok [OF u s] by blast
  ultimately show ?thesis unfolding SaveHashSet_def Let_def load using hs valid none by simp
qed

end

text \<open>C10: the hash set of a complete file is saved to a file \<open>known2_64.met\<close> that is empty or holds
  any well-formed entries, none of them for this file: one entry is appended. After the hashes have
  been freed, the hash set is loaded again completely, both in the same session, with the cache of
  offsets that saving has extended, and in a new session, which builds the cache from the file; the
  two caches are the same. Saving it again leaves the file alone.\<close>

theorem known2_save_load:
  assumes "honest alg u" "shaped u" "0 < m_nDataSize u" "m_nDataSize u \<le> MAX_FILE_SIZE"
    and hs: "m_pHashTree hs = u" "m_eStatus hs = AICH_HASHSETCOMPLETE" "m_nFileSize (m_pOwner hs) = m_nDataSize u"
    and es: "\<forall>e \<in> set es. entry_ok e" "m_Hash u \<notin> fst ` set es"
    and f: "mem_open f" "m_position f = 0" "mem_content f = [] \<and> es = [] \<or> mem_content f = met_bytes es" "m_fileSize f < 2 ^ 63"
    and V: "V = mem_ops (total_heap g)"
  shows "\<exists>f' c'. SaveHashSet V set_length True (Some f) (Some f) hs (InvalidateRootHashCache c) = (Inr True, c', Some f') \<and>
    mem_content f' = met_bytes (es @ [(m_Hash u, leaf_hashes u)]) \<and>
    LoadHashSet alg V True (Some (f'\<lparr>m_position := 0\<rparr>)) (FreeHashSet hs) c' = (Inr True, hs, c') \<and>
    LoadHashSet alg V True (Some (f'\<lparr>m_position := 0\<rparr>)) (FreeHashSet hs) (InvalidateRootHashCache c') = (Inr True, hs, c') \<and>
    SaveHashSet V set_length True (Some f') (Some f') hs c' = (Inr True, c', None)"
proof -
  let ?e = "(m_Hash u, leaf_hashes u)" and ?fh = "FreeHashSet hs"
  let ?es = "es @ [?e]"
  let ?c = "\<lparr>s_rootHashCache = met_index 1 ?es, s_rootHashCacheLoaded = True\<rparr>"
  have inv: "\<not> s_rootHashCacheLoaded (InvalidateRootHashCache c)" for c by (simp add: InvalidateRootHashCache_def)
  obtain f' where f': "SaveHashSet V set_length True (Some f) (Some f) hs (InvalidateRootHashCache c) = (Inr True, ?c, Some f')"
      "mem_open f'" "mem_content f' = met_bytes ?es"
    using mem.SaveHashSet_appends [OF assms(1-4) hs es f(1-3), of "InvalidateRootHashCache c" g set_length] inv unfolding V by blast
  note e = tree_entry_ok [OF assms(1-4)] and cnt = hash_count_leaves [OF assms(1-4)]
  have ok: "\<forall>e \<in> set ?es. entry_ok e" "\<forall>e \<in> set ?es. fst e = m_Hash u \<longrightarrow> snd e = leaf_hashes u" using es e by force+
  obtain off where off: "map_of (offsets 1 ?es) (m_Hash u) = Some off" using offsets_dom [of 1 ?es "m_Hash u"] by fastforce
  have "length (mem_content f) = m_fileSize f" using f(1) by (simp add: mem_open_def)
  then have "length (mem_content f') < 2 ^ 64"
    using f'(3) f(3,4) length_entry [OF e] cnt(2) by (auto simp: met_bytes_def)
  then have len: "length (mem_content (f'\<lparr>m_position := 0\<rparr>)) < 2 ^ 64" by simp
  obtain h ds bs lb v l r where t: "u = HashTree h ds bs lb v l r" by (cases u)
  have valid: "m_bHashValid u" using honest_valid [OF assms(1)] by simp
  have free: "m_pHashTree ?fh = HashTree h ds bs lb v None None" "m_eStatus ?fh = AICH_HASHSETCOMPLETE" "m_pOwner ?fh = m_pOwner hs"
    using hs(1,2) by (simp_all add: FreeHashSet_def t)
  have sh: "shaped (m_pHashTree ?fh)" "same_root u (m_pHashTree ?fh)" "m_bHashValid (m_pHashTree ?fh)" "m_Hash (m_pHashTree ?fh) = m_Hash u"
    using assms(2) valid unfolding free(1) by (simp_all add: t shaped_cut same_root_def)
  have refill: "?fh\<lparr>m_pHashTree := u\<rparr> = hs" using hs(1) by (cases hs) (simp add: FreeHashSet_def)
  have load: "LoadHashSet alg V True (Some (f'\<lparr>m_position := 0\<rparr>)) ?fh c'' = (Inr True, hs, ?c)"
    if "c'' = ?c \<or> \<not> s_rootHashCacheLoaded c''" for c''
    using mem.LoadHashSet_entry [OF assms(1-3) cnt(1) sh free(2) _ ok(1) off ok(2) _ _ _ len that] free(3) hs(3) f'(2,3) refill unfolding V by simp
  have "met_index 1 ?es (m_Hash u) \<noteq> None" using off by (simp add: met_index_def)
  then have "SaveHashSet V set_length True (Some f') (Some f') hs ?c = (Inr True, ?c, None)"
    using hs valid by (simp add: SaveHashSet_def Let_def)
  then show ?thesis using f' load [of ?c] load [of "InvalidateRootHashCache ?c"] inv by blast
qed

theorem known2_save_load_witness:
  "\<exists>f' c'. SaveHashSet (mem_ops (total_heap (\<lambda>_. 0))) (\<lambda>_. io_return ()) True (Some (CMemFile_new 0)) (Some (CMemFile_new 0))
      (sharing (GetNewHashAlgo LittleEndian)) (InvalidateRootHashCache \<lparr>s_rootHashCache = Map.empty, s_rootHashCacheLoaded = True\<rparr>) = (Inr True, c', Some f') \<and>
    mem_content f' = met_bytes ([] @ [(m_Hash (two_blocks (GetNewHashAlgo LittleEndian)), leaf_hashes (two_blocks (GetNewHashAlgo LittleEndian)))]) \<and>
    LoadHashSet (GetNewHashAlgo LittleEndian) (mem_ops (total_heap (\<lambda>_. 0))) True (Some (f'\<lparr>m_position := 0\<rparr>))
      (FreeHashSet (sharing (GetNewHashAlgo LittleEndian))) c' = (Inr True, sharing (GetNewHashAlgo LittleEndian), c') \<and>
    LoadHashSet (GetNewHashAlgo LittleEndian) (mem_ops (total_heap (\<lambda>_. 0))) True (Some (f'\<lparr>m_position := 0\<rparr>))
      (FreeHashSet (sharing (GetNewHashAlgo LittleEndian))) (InvalidateRootHashCache c') = (Inr True, sharing (GetNewHashAlgo LittleEndian), c') \<and>
    SaveHashSet (mem_ops (total_heap (\<lambda>_. 0))) (\<lambda>_. io_return ()) True (Some f') (Some f') (sharing (GetNewHashAlgo LittleEndian)) c' = (Inr True, c', None)"
  by (rule known2_save_load [OF two_blocks_tree(1) two_blocks_tree(2), where es = "[]"])
    (simp_all add: sharing_def MAX_FILE_SIZE_def)

end
