(* ===== verification/AICHHashing.thy ===== *)
theory AICHHashing
  imports Known2File
begin

text \<open>
  Hashing data block by block (\<open>CKnownFile::CreateHashFromInput\<close> of src/amule-3.0.1/src/KnownFile.cpp):
  the data of a part goes through the digest in small pieces, each complete block sets one hash of
  a hash tree, and the tree is recalculated at the end. The result is the complete tree over the
  SHA-1 digests of the blocks. The lemmas on building a tree from its units serve both blocks in a
  part and parts in a file.
\<close>

subsection \<open>Units of a range\<close>

text \<open>The sizes of the pieces of a range that is cut into units, and the pieces of a list.\<close>

function units :: "nat \<Rightarrow> nat \<Rightarrow> nat list" where
  "units U n = (if U = 0 \<or> n = 0 then [] else if n \<le> U then [n] else U # units U (n - U))"
  by auto
termination by (relation "measure snd") auto

declare units.simps [simp del]

function chunks :: "nat \<Rightarrow> 'a list \<Rightarrow> 'a list list" where
  "chunks U xs = (if U = 0 \<or> xs = [] then [] else take U xs # chunks U (drop U xs))"
  by auto
termination by (relation "measure (\<lambda>(U, xs). length xs)") auto

declare chunks.simps [simp del]

lemma units_split: "0 < U \<Longrightarrow> 0 < m \<Longrightarrow> units U (U * j + m) = replicate j U @ units U m"
proof (induction j)
  case (Suc j)
  have "\<not> U * Suc j + m \<le> U" "U * Suc j + m - U = U * j + m" using Suc.prems by simp_all
  then have "units U (U * Suc j + m) = U # units U (U * j + m)" using Suc.prems by (subst units.simps) (simp only: if_False, simp)
  then show ?case using Suc by simp
qed simp

lemma length_units_pos: "0 < U \<Longrightarrow> 0 < n \<Longrightarrow> units U n \<noteq> []"
  by (simp add: units.simps [of U n])

lemma sum_units: "0 < U \<Longrightarrow> sum_list (units U n) = n"
proof (induction U n rule: units.induct)
  case (1 U n)
  then show ?case by (simp add: units.simps [of U n])
qed

lemma units_le: "m \<in> set (units U n) \<Longrightarrow> 0 < m \<and> m \<le> U"
proof (induction U n rule: units.induct)
  case (1 U n)
  then show ?case by (auto simp: units.simps [of U n] split: if_splits)
qed

lemma map_length_chunks: "0 < U \<Longrightarrow> map length (chunks U xs) = units U (length xs)"
proof (induction U xs rule: chunks.induct)
  case (1 U xs)
  show ?case
  proof (cases "xs = []")
    case False
    then show ?thesis
      using 1 by (cases "length xs \<le> U") (auto simp: chunks.simps [of U xs] units.simps [of U "length xs"] chunks.simps [of U "[]"] units.simps [of U 0])
  qed (simp add: chunks.simps [of U] units.simps [of U])
qed

lemma chunks_full:
  assumes "0 < U" "\<forall>b \<in> set full. length b = U" "length rest < U"
  shows "chunks U (concat full @ rest) = full @ (if rest = [] then [] else [rest])"
  using assms
proof (induction full)
  case Nil
  then show ?case by (simp add: chunks.simps [of U] chunks.simps [of U "[]"])
next
  case (Cons b full)
  then have "b \<noteq> []" by auto
  then show ?case using Cons by (simp add: chunks.simps [of U "b @ concat full @ rest"])
qed

lemma concat_chunks: "0 < U \<Longrightarrow> concat (chunks U xs) = xs"
proof (induction U xs rule: chunks.induct)
  case (1 U xs)
  then show ?case by (cases "xs = []") (auto simp: chunks.simps [of U xs] chunks.simps [of U "[]"])
qed

subsection \<open>Changing the nodes of a tree one after the other\<close>

text \<open>The node for a range is looked up, created if it is missing, and changed.\<close>

definition apply_at :: "u8 \<Rightarrow> u64 \<Rightarrow> u64 \<Rightarrow> (aich_tree \<Rightarrow> aich_tree) \<Rightarrow> aich_tree \<Rightarrow> aich_tree" where
  "apply_at lev pos sz f t =
     (case FindHash pos sz lev t of (Some p, lev', t') \<Rightarrow> update_at p f t' | (None, lev', t') \<Rightarrow> t')"

fun apply_pieces :: "u8 \<Rightarrow> nat \<Rightarrow> (nat \<times> (aich_tree \<Rightarrow> aich_tree)) list \<Rightarrow> aich_tree \<Rightarrow> aich_tree" where
  "apply_pieces lev pos [] t = t"
| "apply_pieces lev pos ((n, f) # ps) t = apply_pieces lev (pos + n) ps (apply_at lev (of_nat pos) (of_nat n) f t)"

lemma apply_pieces_append:
  "apply_pieces lev pos (ps @ qs) t = apply_pieces lev (pos + sum_list (map fst ps)) qs (apply_pieces lev pos ps t)"
  by (induction lev pos ps t rule: apply_pieces.induct) (auto simp: add.assoc)

lemma apply_at_here: "lev + 1 \<le> 22 \<Longrightarrow> apply_at lev 0 (m_nDataSize t) f t = f t"
  by (cases t) (simp add: apply_at_def FindHash.simps)

lemma apply_at_left:
  assumes "bs < ds" "lev + 1 \<le> 22" "unat pos + unat sz \<le> unat (tree_nLeft ds bs lb)" "0 < unat sz" "unat (tree_nLeft ds bs lb) < unat ds"
  shows "apply_at lev pos sz f (HashTree h ds bs lb v l r) =
    HashTree h ds bs lb v (Some (apply_at (lev + 1) pos sz f (or_new l (tree_nLeft ds bs lb) True))) r"
proof -
  have "unat (pos + sz) = unat pos + unat sz"
    using assms(3) unat_lt_64 [of "tree_nLeft ds bs lb"] by (intro unat_add_small) (simp del: unat_lt_64)
  then have "pos + sz \<le> ds" "sz \<le> ds" "\<not> (pos = 0 \<and> sz = ds)" "pos < tree_nLeft ds bs lb" "\<not> pos + sz > tree_nLeft ds bs lb"
    using assms(3-5) by (auto simp: word_le_nat_alt word_less_nat_alt)
  with assms show ?thesis by (auto simp: apply_at_def FindHash.simps [of pos sz lev] Let_def split: prod.splits option.splits)
qed

lemma apply_at_right:
  assumes "bs < ds" "lev + 1 \<le> 22" "unat (tree_nLeft ds bs lb) \<le> unat pos" "unat pos + unat sz \<le> unat ds" "0 < unat (tree_nLeft ds bs lb)"
  shows "apply_at lev pos sz f (HashTree h ds bs lb v l r) =
    HashTree h ds bs lb v l (Some (apply_at (lev + 1) (pos - tree_nLeft ds bs lb) sz f (or_new r (ds - tree_nLeft ds bs lb) False)))"
proof -
  let ?n = "tree_nLeft ds bs lb"
  have "unat (pos + sz) = unat pos + unat sz"
    using assms(4) unat_lt_64 [of ds] by (intro unat_add_small) (simp del: unat_lt_64)
  moreover have "unat (pos - ?n) = unat pos - unat ?n" "unat (ds - ?n) = unat ds - unat ?n"
    using assms(3,4) by (simp_all add: unat_sub_le word_le_nat_alt)
  moreover from this have "unat (pos - ?n + sz) = unat pos - unat ?n + unat sz"
    using assms(3,4) unat_lt_64 [of ds] by (simp add: unat_add_small del: unat_lt_64)
  ultimately have "pos + sz \<le> ds" "sz \<le> ds" "\<not> (pos = 0 \<and> sz = ds)" "\<not> pos < ?n" "\<not> pos - ?n + sz > ds - ?n"
    using assms(3-5) by (auto simp: word_le_nat_alt word_less_nat_alt)
  with assms show ?thesis by (auto simp: apply_at_def FindHash.simps [of pos sz lev] Let_def split: prod.splits option.splits)
qed

lemma unat_of_nat_le: "n \<le> unat (x :: u64) \<Longrightarrow> unat (of_nat n :: u64) = n"
  using unat_lt_64 [of x] by (intro unat_of_nat_small) (simp del: unat_lt_64)

lemma apply_pieces_left:
  assumes "bs < ds" "lev + 1 \<le> 22" "unat (tree_nLeft ds bs lb) < unat ds"
    and "pos + sum_list (map fst ps) \<le> unat (tree_nLeft ds bs lb)" "\<forall>(n, f) \<in> set ps. 0 < n"
  shows "apply_pieces lev pos ps (HashTree h ds bs lb v l r) =
    HashTree h ds bs lb v (if ps = [] then l else Some (apply_pieces (lev + 1) pos ps (or_new l (tree_nLeft ds bs lb) True))) r"
  using assms(4,5)
proof (induction ps arbitrary: pos l)
  case (Cons p ps)
  obtain n f where p: "p = (n, f)" by (cases p)
  have w: "unat (of_nat pos :: u64) = pos" "unat (of_nat n :: u64) = n"
    using Cons.prems(1) unat_of_nat_le [of pos "tree_nLeft ds bs lb"] unat_of_nat_le [of n "tree_nLeft ds bs lb"] by (simp_all add: p)
  have "apply_at lev (of_nat pos) (of_nat n) f (HashTree h ds bs lb v l r) =
      HashTree h ds bs lb v (Some (apply_at (lev + 1) (of_nat pos) (of_nat n) f (or_new l (tree_nLeft ds bs lb) True))) r"
    by (rule apply_at_left [OF assms(1,2) _ _ assms(3)]) (use Cons.prems w in \<open>auto simp: p\<close>)
  then show ?case using Cons.IH [of "pos + n"] Cons.prems by (auto simp: p add.assoc or_new_def)
qed simp

lemma apply_pieces_right:
  assumes "bs < ds" "lev + 1 \<le> 22" "0 < unat (tree_nLeft ds bs lb)"
    and "pos + sum_list (map fst ps) + unat (tree_nLeft ds bs lb) \<le> unat ds"
  shows "apply_pieces lev (pos + unat (tree_nLeft ds bs lb)) ps (HashTree h ds bs lb v l r) =
    HashTree h ds bs lb v l (if ps = [] then r else Some (apply_pieces (lev + 1) pos ps (or_new r (ds - tree_nLeft ds bs lb) False)))"
  using assms(4)
proof (induction ps arbitrary: pos r)
  case (Cons p ps)
  let ?n = "tree_nLeft ds bs lb"
  obtain n f where p: "p = (n, f)" by (cases p)
  have w: "unat (of_nat (pos + unat ?n) :: u64) = pos + unat ?n" "unat (of_nat n :: u64) = n"
    using Cons.prems unat_of_nat_le [of "pos + unat ?n" ds] unat_of_nat_le [of n ds] by (simp_all add: p)
  have sub: "of_nat (pos + unat ?n) - ?n = (of_nat pos :: u64)" by simp
  have "apply_at lev (of_nat (pos + unat ?n)) (of_nat n) f (HashTree h ds bs lb v l r) =
      HashTree h ds bs lb v l (Some (apply_at (lev + 1) (of_nat (pos + unat ?n) - ?n) (of_nat n) f (or_new r (ds - ?n) False)))"
    by (rule apply_at_right [OF assms(1,2)]) (use Cons.prems w assms(3) in \<open>auto simp: p\<close>)
  then have step: "apply_at lev (of_nat (pos + unat ?n)) (of_nat n) f (HashTree h ds bs lb v l r) =
      HashTree h ds bs lb v l (Some (apply_at (lev + 1) (of_nat pos) (of_nat n) f (or_new r (ds - ?n) False)))"
    unfolding sub .
  have sw: "pos + unat ?n + n = (pos + n) + unat ?n" by simp
  have "(pos + n) + sum_list (map fst ps) + unat ?n \<le> unat ds" using Cons.prems by (simp add: p)
  from Cons.IH [OF this] show ?case unfolding p apply_pieces.simps step sw by (simp add: or_new_def)
qed simp

subsection \<open>Trees that get complete\<close>

text \<open>A changed tree \<open>x\<close> of the tree \<open>c\<close> has all block hashes: recalculating it succeeds and gives a
  complete tree with the hashes \<open>hs\<close>.\<close>

definition completes :: "hashalg \<Rightarrow> aich_tree \<Rightarrow> aich_tree \<Rightarrow> CAICHHash list \<Rightarrow> bool" where
  "completes alg c x hs \<longleftrightarrow> shaped x \<and> same_root c x \<and>
     (\<exists>u. ReCalculateHash alg False x = (True, u) \<and> honest alg u \<and> shaped u \<and> same_root c u \<and> leaf_hashes u = hs)"

text \<open>The digest of two hashes is a hash.\<close>

definition digests_pairs :: "hashalg \<Rightarrow> bool" where
  "digests_pairs alg \<longleftrightarrow> (\<forall>a b. length a = HASHSIZE \<and> length b = HASHSIZE \<longrightarrow> length (alg [a, b]) = HASHSIZE)"

lemma completes_inner:
  assumes "digests_pairs alg" "shaped (HashTree h ds bs lb v l r)" "bs < ds"
    and "completes alg (or_new l (tree_nLeft ds bs lb) True) x1 hs1" "completes alg (or_new r (ds - tree_nLeft ds bs lb) False) x2 hs2"
  shows "completes alg (HashTree h ds bs lb v l r) (HashTree h ds bs lb v (Some x1) (Some x2)) (hs1 @ hs2)"
proof -
  note new = shaped_or_new [OF assms(2)]
  have both: "shaped (HashTree h' ds bs lb v' (Some y1) (Some y2))"
    if "shaped y1" "same_root (or_new l (tree_nLeft ds bs lb) True) y1" "shaped y2" "same_root (or_new r (ds - tree_nLeft ds bs lb) False) y2" for h' v' y1 y2
  proof -
    have "shaped (HashTree h ds bs lb v (Some y1) r)" by (rule shaped_left [OF assms(2,3) that(1,2)])
    from shaped_right [OF this assms(3) that(3,4)] show ?thesis by (rule shaped_hash)
  qed
  obtain u1 u2 where u: "ReCalculateHash alg False x1 = (True, u1)" "honest alg u1" "shaped u1" "same_root (or_new l (tree_nLeft ds bs lb) True) u1" "leaf_hashes u1 = hs1"
    "ReCalculateHash alg False x2 = (True, u2)" "honest alg u2" "shaped u2" "same_root (or_new r (ds - tree_nLeft ds bs lb) False) u2" "leaf_hashes u2 = hs2"
    using assms(4,5) unfolding completes_def by blast
  note valid = honest_valid [OF u(2)] honest_valid [OF u(7)]
  have "length (hash_pair alg u1 u2) = HASHSIZE" using assms(1) valid unfolding digests_pairs_def hash_pair_def by blast
  then have "honest alg (HashTree (hash_pair alg u1 u2) ds bs lb True (Some u1) (Some u2))" using u assms(3) by simp
  moreover have "ReCalculateHash alg False (HashTree h ds bs lb v (Some x1) (Some x2)) = (True, HashTree (hash_pair alg u1 u2) ds bs lb True (Some u1) (Some u2))"
    using u valid by simp
  ultimately show ?thesis
    using both assms(4,5) u unfolding completes_def by (auto simp: same_root_def)
qed

text \<open>Pieces with the operation for each node and the hashes that it provides. A tree whose nodes
  of more than a unit are split between units gets complete when each unit does.\<close>

lemma completes_units:
  assumes "digests_pairs alg" "U = 184320 \<and> unat (m_nDataSize t) \<le> 9728000 \<or> U = 9728000"
    and "shaped t" "0 < unat (m_nDataSize t)" "unat (m_nDataSize t) \<le> U * 2 ^ k" "unat lev + k + 1 \<le> 22"
    and "map fst ps = units U (unat (m_nDataSize t))"
    and "\<forall>(m, f, hs) \<in> set ps. \<forall>c. shaped c \<and> unat (m_nDataSize c) = m \<longrightarrow> completes alg c (f c) hs"
  shows "completes alg t (apply_pieces lev 0 (map (\<lambda>(m, f, hs). (m, f)) ps) t) (concat (map (\<lambda>(m, f, hs). hs) ps))"
  using assms(2-)
proof (induction k arbitrary: t lev ps)
  have one: "completes alg t (apply_pieces lev 0 (map (\<lambda>(m, f, hs). (m, f)) ps) t) (concat (map (\<lambda>(m, f, hs). hs) ps))"
    if "shaped t" "0 < unat (m_nDataSize t)" "unat (m_nDataSize t) \<le> U" "unat lev + 1 \<le> 22" "map fst ps = units U (unat (m_nDataSize t))"
      "\<forall>(m, f, hs) \<in> set ps. \<forall>c. shaped c \<and> unat (m_nDataSize c) = m \<longrightarrow> completes alg c (f c) hs" for t lev ps
  proof -
    have "map fst ps = [unat (m_nDataSize t)]" using that(2,3,5) by (simp add: units.simps [of U])
    then obtain f hs where ps: "ps = [(unat (m_nDataSize t), f, hs)]" by (cases ps) auto
    have "lev + 1 \<le> 22" using that(4) by (simp add: word_le_nat_alt unat_add_1)
    then show ?thesis using that(1,6) apply_at_here [of lev t f] by (auto simp: ps)
  qed
  {
    case 0
    then show ?case by (intro one) simp_all
  next
    case (Suc k)
    obtain h ds bs lb v l r where t: "t = HashTree h ds bs lb v l r" by (cases t)
    have lev: "lev + 1 \<le> 22" "unat (lev + 1) + k + 1 \<le> 22" using Suc.prems(5) by (simp_all add: word_le_nat_alt unat_add_1)
    show ?case
    proof (cases "unat ds \<le> U")
      case True
      then show ?thesis using Suc.prems by (intro one) (simp_all add: t)
    next
      case False
      have U: "1 < U" using Suc.prems(1) by auto
      have bs: "unat bs = U"
        using Suc.prems(1,2) False by (auto simp: t shaped.simps child_base_def PARTSIZE_def EMBLOCKSIZE_def word_le_nat_alt)
      have gt: "bs < ds" "1 < bs" using False U bs by (simp_all add: word_less_nat_alt)
      define nl where "nl = unat (tree_nLeft ds bs lb)"
      have "unat ds \<le> unat bs * (2 * 2 ^ k)" using Suc.prems(4) by (simp add: t bs ac_simps)
      note half = split_halves [OF gt(2,1) this nl_def]
      then obtain j where j: "nl = U * j" "0 < j" by (auto simp: bs)
      have less: "nl \<le> U * 2 ^ k" "unat ds - nl \<le> U * 2 ^ k" "nl < unat ds" using half by (simp_all add: bs)
      have "map fst ps = units U (U * j + (unat ds - nl))" using Suc.prems(6) j less(3) by (simp add: t)
      then have split: "map fst ps = replicate j U @ units U (unat ds - nl)" using units_split [of U "unat ds - nl" j] U less(3) by simp
      define ps1 ps2 where "ps1 = take j ps" and "ps2 = drop j ps"
      have ps: "ps = ps1 @ ps2" by (simp add: ps1_def ps2_def)
      have m1: "map fst ps1 = replicate j U" "map fst ps2 = units U (unat ds - nl)"
        using arg_cong [OF split, of "take j"] arg_cong [OF split, of "drop j"] by (simp_all add: ps1_def ps2_def take_map drop_map)
      have "units U (U * (j - 1) + U) = replicate (j - 1) U @ [U]" using units_split [of U U "j - 1"] U by (simp add: units.simps [of U U])
      moreover have "U * (j - 1) + U = nl" "replicate (j - 1) U @ [U] = replicate j U"
        using j by (cases j; simp add: replicate_append_same)+
      ultimately have u1: "map fst ps1 = units U nl" using m1(1) by simp
      let ?l = "or_new l (tree_nLeft ds bs lb) True" and ?r = "or_new r (ds - tree_nLeft ds bs lb) False"
      note new = shaped_or_new [OF Suc.prems(2) [unfolded t]]
      have sz: "unat (m_nDataSize ?l) = nl" "unat (m_nDataSize ?r) = unat ds - nl"
        using new less(3) by (simp_all add: nl_def unat_sub_le word_le_nat_alt)
      have le: "unat ds \<le> 9728000" if "U = 184320" using Suc.prems(1) that by (simp add: t)
      have c1: "completes alg ?l (apply_pieces (lev + 1) 0 (map (\<lambda>(m, f, hs). (m, f)) ps1) ?l) (concat (map (\<lambda>(m, f, hs). hs) ps1))"
        using Suc.prems(1,7) new(1) sz less lev(2) u1 j U le by (intro Suc.IH) (auto simp: ps)
      have c2: "completes alg ?r (apply_pieces (lev + 1) 0 (map (\<lambda>(m, f, hs). (m, f)) ps2) ?r) (concat (map (\<lambda>(m, f, hs). hs) ps2))"
        using Suc.prems(1,7) new(2) sz less lev(2) m1(2) le by (intro Suc.IH) (auto simp: ps)
      let ?q1 = "map (\<lambda>(m, f, hs). (m, f)) ps1" and ?q2 = "map (\<lambda>(m, f, hs). (m, f)) ps2"
      have fst: "map fst (map (\<lambda>(m, f, hs). (m, f)) qs) = map fst qs" for qs :: "(nat \<times> (aich_tree \<Rightarrow> aich_tree) \<times> CAICHHash list) list"
        by (induction qs) auto
      have sum: "sum_list (map fst ?q1) = nl" "sum_list (map fst ?q2) = unat ds - nl" unfolding fst
        using sum_units [of U] U u1 m1(2) by simp_all
      have pos: "\<forall>(n, f) \<in> set ?q1. 0 < n"
      proof -
        have "\<forall>n \<in> set (map fst ?q1). 0 < n" unfolding fst m1(1) using U by simp
        then show ?thesis by force
      qed
      have ne: "?q1 \<noteq> []" "?q2 \<noteq> []"
        using j m1 length_units_pos [of U "unat ds - nl"] U less(3) by (cases ps1; cases ps2; simp)+
      have "apply_pieces lev 0 ?q1 t = HashTree h ds bs lb v (Some (apply_pieces (lev + 1) 0 ?q1 ?l)) r"
        unfolding t using apply_pieces_left [OF gt(1) lev(1), of lb 0 ?q1 h v l r] less(3) sum(1) pos ne(1) by (simp add: nl_def)
      moreover have "apply_pieces lev nl ?q2 (HashTree h ds bs lb v l' r) = HashTree h ds bs lb v l' (Some (apply_pieces (lev + 1) 0 ?q2 ?r))" for l'
        using apply_pieces_right [OF gt(1) lev(1), of lb 0 ?q2 h v l' r] less(3) sum(2) ne(2) j U by (simp add: nl_def [symmetric])
      ultimately have "apply_pieces lev 0 (?q1 @ ?q2) t =
          HashTree h ds bs lb v (Some (apply_pieces (lev + 1) 0 ?q1 ?l)) (Some (apply_pieces (lev + 1) 0 ?q2 ?r))"
        unfolding apply_pieces_append sum(1) by simp
      then show ?thesis using completes_inner [OF assms(1) Suc.prems(2) [unfolded t] gt(1) c1 c2] by (simp add: ps t)
    qed
  }
qed

subsection \<open>Hashing data\<close>

text \<open>\<open>CreateHashFromInput\<close> reads the data in pieces of at most 8192 bytes, feeds them to the digest
  and sets the hash of a block whenever 184320 bytes are complete. The counters are 32-bit numbers
  that are at most the length of the data, so that natural numbers are exact.\<close>

abbreviation EMBLOCK_bytes :: nat where
  "EMBLOCK_bytes \<equiv> unat (EMBLOCKSIZE :: u32)"

record input_hasher =
  pHashAlg :: CSHA
  posCurrentEMBlock :: nat
  nIACHPos :: nat
  pShaHashOut :: aich_tree

definition set_block :: "host \<Rightarrow> nat \<Rightarrow> input_hasher \<Rightarrow> input_hasher" where
  "set_block h n st =
     (case Finish h (pHashAlg st) of (alg, digest) \<Rightarrow>
        st\<lparr>pHashAlg := alg, posCurrentEMBlock := posCurrentEMBlock st + n,
           pShaHashOut := SetBlockHash (of_nat n) (of_nat (posCurrentEMBlock st)) digest (pShaHashOut st)\<rparr>)"

definition hash_piece :: "host \<Rightarrow> u8 list \<Rightarrow> input_hasher \<Rightarrow> input_hasher" where
  "hash_piece h X st =
     (if nIACHPos st + length X \<ge> EMBLOCK_bytes then
        let nToComplete = EMBLOCK_bytes - nIACHPos st;
            st = set_block h EMBLOCK_bytes (st\<lparr>pHashAlg := SHA.Add h (take nToComplete X) (pHashAlg st)\<rparr>)
        in st\<lparr>pHashAlg := SHA.Add h (drop nToComplete X) (Reset (pHashAlg st)), nIACHPos := length X - nToComplete\<rparr>
      else st\<lparr>pHashAlg := SHA.Add h X (pHashAlg st), nIACHPos := nIACHPos st + length X\<rparr>)"

text \<open>The loop over whole 64-byte units; \<open>data\<close> is what is still to be read.\<close>

function hash_input_loop :: "host \<Rightarrow> u8 list \<Rightarrow> input_hasher \<Rightarrow> input_hasher \<times> u8 list" where
  "hash_input_loop h data st =
     (if length data \<ge> 64 then
        let len = min (length data div 64) 128
        in hash_input_loop h (drop (len * 64) data) (hash_piece h (take (len * 64) data) st)
      else (st, data))"
  by auto
termination
proof (relation "measure (\<lambda>(h, data, st). length data)", goal_cases)
  case (2 h data st len)
  then have "1 \<le> length data div 64" by simp
  then have "0 < len" using 2 by simp
  then show ?case using 2 by simp
qed simp

declare hash_input_loop.simps [simp del]

definition hash_blocks :: "host \<Rightarrow> u8 list \<Rightarrow> aich_tree \<Rightarrow> aich_tree" where
  "hash_blocks h input t =
     (let st = \<lparr>pHashAlg = Reset csha_fresh, posCurrentEMBlock = 0, nIACHPos = 0, pShaHashOut = t\<rparr>;
          (st, data) = hash_input_loop h input st;
          Required = length input mod 64;
          st = (if Required \<noteq> 0 then hash_piece h (take Required data) st else st);
          st = (if nIACHPos st > 0 then set_block h (nIACHPos st) st else st)
      in snd (ReCalculateHash (GetNewHashAlgo h) False (pShaHashOut st)))"

text \<open>Which hashes are asked for: \<open>Output\<close> the MD4 digest of all data, which the library Crypto++
  computes, \<open>pSha\<close> the block hashes.\<close>

type_synonym CMD4Hash = "u8 list"

definition CreateHashFromInput ::
  "host \<Rightarrow> (u8 list \<Rightarrow> CMD4Hash) \<Rightarrow> u8 list \<Rightarrow> bool \<Rightarrow> aich_tree option \<Rightarrow> CMD4Hash option \<times> aich_tree option" where
  "CreateHashFromInput h md4 input Output pSha =
     (if Output then Some (md4 input) else None, map_option (hash_blocks h input) pSha)"

subsection \<open>What hashing data does\<close>

lemma length_buf_put [simp]: "length buf = 64 \<Longrightarrow> i < 16 \<Longrightarrow> length (buf_put h i w buf) = 64"
  by (simp add: buf_put_def)

lemma Finish_buffer: "length (m_nBuffer s) = 64 \<Longrightarrow> length (m_nBuffer (fst (Finish h s))) = 64"
proof -
  assume s: "length (m_nBuffer s) = 64"
  have i: "unat (m_nCount0 s AND SHA1_MASK) < 64"
    using SHA1_MASK_pos [of "unat (m_nCount0 s)"] by simp
  have zp: "length (zero_pad h i buf) = 64" if "length buf = 64" "i \<le> 14" for i buf using that by (subst zero_pad_effect) simp_all
  have cb: "length (m_nBuffer (Compile h s')) = 64" if "length (m_nBuffer s') = 64" for s' using Compile_effect(2) [OF that] that by simp
  show ?thesis using s i by (auto simp: Finish_def Let_def zp cb)
qed

text \<open>The blocks of data that have been seen, and the tree with their hashes.\<close>

fun set_blocks :: "nat \<Rightarrow> u8 list list \<Rightarrow> aich_tree \<Rightarrow> aich_tree" where
  "set_blocks pos [] t = t"
| "set_blocks pos (b # bs) t = set_blocks (pos + length b) bs (SetBlockHash (of_nat (length b)) (of_nat pos) (sha1 b) t)"

lemma set_blocks_append: "set_blocks pos (bs @ cs) t = set_blocks (pos + length (concat bs)) cs (set_blocks pos bs t)"
  by (induction pos bs t rule: set_blocks.induct) (auto simp: add.assoc)

definition hashed :: "aich_tree \<Rightarrow> u8 list \<Rightarrow> input_hasher \<Rightarrow> bool" where
  "hashed t d st \<longleftrightarrow> (\<exists>full rest. d = concat full @ rest \<and> (\<forall>b \<in> set full. length b = 184320) \<and> length rest < 184320 \<and>
     absorbed rest (pHashAlg st) \<and> nIACHPos st = length rest \<and> posCurrentEMBlock st = length (concat full) \<and>
     pShaHashOut st = set_blocks 0 full t)"

lemma set_block_effect:
  assumes "absorbed b (pHashAlg st)"
  shows "pShaHashOut (set_block h n st) = SetBlockHash (of_nat n) (of_nat (posCurrentEMBlock st)) (sha1 b) (pShaHashOut st)"
    "posCurrentEMBlock (set_block h n st) = posCurrentEMBlock st + n" "nIACHPos (set_block h n st) = nIACHPos st"
    "absorbed [] (Reset (pHashAlg (set_block h n st)))"
proof -
  obtain alg where f: "Finish h (pHashAlg st) = (alg, sha1 b)" using Finish_absorbed [OF assms, of h] by (metis prod.collapse)
  then show "pShaHashOut (set_block h n st) = SetBlockHash (of_nat n) (of_nat (posCurrentEMBlock st)) (sha1 b) (pShaHashOut st)"
    "posCurrentEMBlock (set_block h n st) = posCurrentEMBlock st + n" "nIACHPos (set_block h n st) = nIACHPos st"
    by (simp_all add: set_block_def)
  have "length (m_nBuffer alg) = 64" using Finish_buffer [of "pHashAlg st" h] assms f by (simp add: absorbed_def)
  then show "absorbed [] (Reset (pHashAlg (set_block h n st)))" using f by (simp add: set_block_def Reset_absorbed)
qed

lemma hash_piece_hashed:
  assumes "hashed t d st" "length X \<le> 8192"
  shows "hashed t (d @ X) (hash_piece h X st)"
proof -
  obtain full rest where st: "d = concat full @ rest" "\<forall>b \<in> set full. length b = 184320" "length rest < 184320"
    "absorbed rest (pHashAlg st)" "nIACHPos st = length rest" "posCurrentEMBlock st = length (concat full)" "pShaHashOut st = set_blocks 0 full t"
    using assms(1) unfolding hashed_def by blast
  have small: "length Y < 2 ^ 32" if "length Y \<le> length X" for Y :: "u8 list" using that assms(2) by simp
  show ?thesis
  proof (cases "length rest + length X \<ge> 184320")
    case False
    then show ?thesis
      using st Add_absorbed [OF st(4) small, of X h] unfolding hashed_def
      by (intro exI [of _ full] exI [of _ "rest @ X"]) (simp add: hash_piece_def EMBLOCKSIZE_def)
  next
    case True
    define k where "k = 184320 - length rest"
    have k: "k \<le> length X" "length (rest @ take k X) = 184320" using True st(3) by (simp_all add: k_def)
    let ?st1 = "st\<lparr>pHashAlg := SHA.Add h (take k X) (pHashAlg st)\<rparr>"
    have "absorbed (rest @ take k X) (pHashAlg ?st1)" using Add_absorbed [OF st(4) small, of "take k X" h] by simp
    note e = set_block_effect [OF this, of h 184320]
    have "absorbed (drop k X) (SHA.Add h (drop k X) (Reset (pHashAlg (set_block h 184320 ?st1))))"
      using Add_absorbed [OF e(4) small, of "drop k X" h] by simp
    moreover have "hash_piece h X st = (set_block h 184320 ?st1)\<lparr>pHashAlg := SHA.Add h (drop k X) (Reset (pHashAlg (set_block h 184320 ?st1))),
        nIACHPos := length X - k\<rparr>"
      using True st(5) by (simp add: hash_piece_def EMBLOCKSIZE_def Let_def k_def)
    ultimately show ?thesis
      unfolding hashed_def using st e k assms(2) True
      by (intro exI [of _ "full @ [rest @ take k X]"] exI [of _ "drop k X"]) (auto simp: set_blocks_append)
  qed
qed

lemma hash_input_loop_hashed:
  assumes "hash_input_loop h data st = (st', r)" "hashed t d st"
  shows "\<exists>c. data = c @ r \<and> hashed t (d @ c) st' \<and> length r = length data mod 64"
  using assms
proof (induction h data st arbitrary: d rule: hash_input_loop.induct)
  case (1 h data st)
  show ?case
  proof (cases "length data \<ge> 64")
    case False
    then show ?thesis using "1.prems" by (simp add: hash_input_loop.simps [of h data])
  next
    case True
    define len where "len = min (length data div 64) 128"
    have len: "len * 64 \<le> length data" "length (take (len * 64) data) \<le> 8192" by (auto simp: len_def)
    have "hash_input_loop h (drop (len * 64) data) (hash_piece h (take (len * 64) data) st) = (st', r)"
      using "1.prems"(1) True by (simp add: hash_input_loop.simps [of h data] Let_def len_def)
    from "1.IH" [OF True len_def this hash_piece_hashed [OF "1.prems"(2) len(2)]]
    obtain c where c: "drop (len * 64) data = c @ r" "hashed t ((d @ take (len * 64) data) @ c) st'" "length r = length (drop (len * 64) data) mod 64"
      by blast
    have "data = take (len * 64) data @ drop (len * 64) data" by simp
    then have "data = (take (len * 64) data @ c) @ r" using c(1) by simp
    moreover have "length data = (length data - len * 64) + len * 64" using len(1) by simp
    then have "length r = length data mod 64" using c(3) by (metis length_drop mod_mult_self1)
    ultimately show ?thesis using c(2) by (intro exI [of _ "take (len * 64) data @ c"]) simp
  qed
qed

lemma hash_blocks_sets:
  "hash_blocks h input t = snd (ReCalculateHash (GetNewHashAlgo h) False (set_blocks 0 (chunks 184320 input) t))"
proof -
  let ?st = "\<lparr>pHashAlg = Reset csha_fresh, posCurrentEMBlock = 0, nIACHPos = 0, pShaHashOut = t\<rparr>"
  have "absorbed [] (Reset csha_fresh)" by (rule Reset_absorbed) (simp add: csha_fresh_def)
  then have start: "hashed t [] ?st" unfolding hashed_def by (intro exI [of _ "[]"]) simp
  obtain st1 r where loop: "hash_input_loop h input ?st = (st1, r)" by (metis prod.collapse)
  obtain c where c: "input = c @ r" "hashed t c st1" "length r = length input mod 64"
    using hash_input_loop_hashed [OF loop start] unfolding append_Nil by blast
  define st2 where "st2 = (if length input mod 64 \<noteq> 0 then hash_piece h (take (length input mod 64) r) st1 else st1)"
  have "length r < 64" unfolding c(3) by simp
  then have piece: "hashed t (c @ r) (hash_piece h r st1)" by (intro hash_piece_hashed [OF c(2)]) simp
  have "take (length input mod 64) r = r" unfolding c(3) [symmetric] by simp
  moreover have "r = []" if "length input mod 64 = 0" using c(3) that by (simp only: length_0_conv [symmetric])
  ultimately have "hashed t (c @ r) st2" using piece c(2) unfolding st2_def by (cases "length input mod 64 = 0") auto
  then have "hashed t input st2" unfolding c(1) [symmetric] .
  then obtain full rest where st: "input = concat full @ rest" "\<forall>b \<in> set full. length b = 184320" "length rest < 184320"
    "absorbed rest (pHashAlg st2)" "nIACHPos st2 = length rest" "posCurrentEMBlock st2 = length (concat full)" "pShaHashOut st2 = set_blocks 0 full t"
    unfolding hashed_def by blast
  have "chunks 184320 input = full @ (if rest = [] then [] else [rest])" using chunks_full [OF _ st(2,3)] st(1) by simp
  moreover have "pShaHashOut (if nIACHPos st2 > 0 then set_block h (nIACHPos st2) st2 else st2) = set_blocks 0 (full @ (if rest = [] then [] else [rest])) t"
    using st set_block_effect [OF st(4), of h "length rest"] by (simp add: set_blocks_append)
  moreover have "hash_blocks h input t =
      snd (ReCalculateHash (GetNewHashAlgo h) False (pShaHashOut (if nIACHPos st2 > 0 then set_block h (nIACHPos st2) st2 else st2)))"
    by (simp add: hash_blocks_def loop st2_def Let_def)
  ultimately show ?thesis by simp
qed

lemma shaped_node: "shaped t \<Longrightarrow> node_at p t = Some n \<Longrightarrow> shaped n"
proof (induction p arbitrary: t)
  case (Cons d p)
  then show ?case by (cases t) (auto simp: shaped.simps split: if_splits option.splits)
qed simp

lemma SetBlockHash_apply:
  assumes "shaped t" "sz \<le> PARTSIZE"
  shows "SetBlockHash sz pos x t = apply_at 0 pos sz (set_tree_hash x) t"
proof -
  obtain p lev t' where f: "FindHash pos sz 0 t = (p, lev, t')" by (metis prod_cases3)
  show ?thesis
  proof (cases p)
    case None
    then show ?thesis by (simp add: SetBlockHash_def apply_at_def f)
  next
    case (Some q)
    obtain n where n: "node_at q t' = Some n" "m_nDataSize n = sz" using FindHash_node [OF f [unfolded Some] assms(1)] by blast
    have "shaped n" using shaped_node n(1) FindHash_shaped [OF f assms(1)] by blast
    then have "m_nBaseSize n = EMBLOCKSIZE" using n(2) assms(2) by (simp add: shaped_base child_base_def)
    then show ?thesis using n by (simp add: SetBlockHash_def apply_at_def f Some)
  qed
qed

lemma set_blocks_apply:
  assumes "shaped t" "\<forall>b \<in> set bs. length b \<le> 184320"
  shows "set_blocks pos bs t = apply_pieces 0 pos (map (\<lambda>b. (length b, set_tree_hash (sha1 b))) bs) t"
  using assms
proof (induction pos bs t rule: set_blocks.induct)
  case (2 pos b bs t)
  have "unat (of_nat (length b) :: u64) = length b" using 2(3) by (intro unat_of_nat_small) simp
  then have "(of_nat (length b) :: u64) \<le> PARTSIZE" using 2(3) by (simp add: PARTSIZE_def word_le_nat_alt)
  note a = SetBlockHash_apply [OF "2.prems"(1) this, of "of_nat pos" "sha1 b"]
  have "shaped (SetBlockHash (of_nat (length b)) (of_nat pos) (sha1 b) t)" using SetBlockHash_shaped [OF "2.prems"(1)] by blast
  from "2.IH" [OF this] "2.prems"(2) show ?case by (simp add: a)
qed simp

lemma completes_leaf:
  assumes "shaped c" "unat (m_nDataSize c) \<le> 184320" "length x = 20"
  shows "completes alg c (set_tree_hash x c) [x]"
proof -
  obtain h ds bs lb v l r where c: "c = HashTree h ds bs lb v l r" by (cases c)
  have bs: "\<not> bs < ds" using assms(1,2) by (simp add: c shaped.simps child_base_def PARTSIZE_def EMBLOCKSIZE_def word_le_nat_alt word_less_nat_alt)
  then have "l = None" "r = None" using assms(1) by (cases l; cases r; simp add: c shaped.simps)+
  then show ?thesis using assms(1,3) bs by (auto simp: c completes_def set_tree_hash_def same_root_def shaped.simps HASHSIZE_def)
qed

lemma ReCalculate_honest: "honest alg t \<Longrightarrow> ReCalculateHash alg False t = (True, t)"
proof (induction t)
  case (HashTree h ds bs lb v pl pr)
  from HashTree.prems show ?case
  proof (cases rule: honest_cases)
    case (inner l r)
    then show ?thesis using HashTree.IH honest_valid [OF inner(7)] honest_valid [OF inner(8)] by simp
  qed simp
qed

lemma digests_pairs_sha1: "digests_pairs (GetNewHashAlgo h)"
  by (simp add: digests_pairs_def GetNewHashAlgo_sha1 length_sha1 HASHSIZE_def)

lemma hash_blocks_tree:
  assumes "shaped t" "unat (m_nDataSize t) = length input" "0 < length input" "length input \<le> 9728000"
  shows "honest (GetNewHashAlgo h) (hash_blocks h input t) \<and> shaped (hash_blocks h input t) \<and> same_root t (hash_blocks h input t) \<and>
    leaf_hashes (hash_blocks h input t) = map sha1 (chunks 184320 input)"
proof -
  let ?alg = "GetNewHashAlgo h" and ?bs = "chunks 184320 input"
  let ?ps = "map (\<lambda>b. (length b, set_tree_hash (sha1 b), [sha1 b])) ?bs"
  have len: "map length ?bs = units 184320 (length input)" by (rule map_length_chunks) simp
  have le: "\<forall>b \<in> set ?bs. length b \<le> 184320"
  proof
    fix b assume "b \<in> set ?bs"
    then have "length b \<in> set (units 184320 (length input))" unfolding len [symmetric] by simp
    then show "length b \<le> 184320" using units_le by blast
  qed
  have "completes ?alg t (apply_pieces 0 0 (map (\<lambda>(m, f, hs). (m, f)) ?ps) t) (concat (map (\<lambda>(m, f, hs). hs) ?ps))"
    by (rule completes_units [OF digests_pairs_sha1, of 184320 t 6])
      (use assms len le in \<open>auto simp: comp_def length_sha1 intro!: completes_leaf\<close>)
  moreover have "map (\<lambda>(m, f, hs). (m, f)) ?ps = map (\<lambda>b. (length b, set_tree_hash (sha1 b))) ?bs"
    "concat (map (\<lambda>(m, f, hs). hs) ?ps) = map sha1 ?bs" by (simp_all add: comp_def)
  ultimately have "completes ?alg t (set_blocks 0 ?bs t) (map sha1 ?bs)" unfolding set_blocks_apply [OF assms(1) le, of 0] by (simp only:)
  then show ?thesis unfolding hash_blocks_sets completes_def by auto
qed

lemma hash_blocks_completes:
  assumes "shaped t" "unat (m_nDataSize t) = length input" "0 < length input" "length input \<le> 9728000"
  shows "completes (GetNewHashAlgo h) t (hash_blocks h input t) (map sha1 (chunks 184320 input))"
  using hash_blocks_tree [OF assms, of h] ReCalculate_honest unfolding completes_def by blast

end
