(* ===== verification/HashingTask.thy ===== *)
theory HashingTask
  imports AICHHashing
begin

text \<open>
  Hashing a file (\<open>CHashingTask\<close> of src/amule-3.0.1/src/ThreadTasks.cpp with the functions of
  src/amule-3.0.1/src/KnownFile.cpp that it uses): the parts of a file are read one after the other;
  each gives an MD4 hash for the hash list and a subtree of the hash tree. The MD4 digest is that of
  Crypto++ and a parameter. Reading is that of builds without memory-mapped files. The result is
  compared with the definition of the two hashes by the pieces of the file.
\<close>


subsection \<open>Known files\<close>

text \<open>What hashing uses of a \<open>CKnownFile\<close>: its size, the numbers that depend on it, the MD4 hashes and
  the hash set. The hash set asks its owner for the size, so the owner that it holds has the same.\<close>

record CKnownFile =
  kf_nFileSize :: u64
  kf_iPartCount :: u16
  kf_sizeLastPart :: u32
  kf_iED2KPartCount :: u16
  kf_iED2KPartHashCount :: u16
  kf_hashlist :: "CMD4Hash list"
  kf_abyFileHash :: CMD4Hash
  kf_pAICHHashSet :: CAICHHashSet

definition CKnownFile_new :: CKnownFile where
  "CKnownFile_new = \<lparr>kf_nFileSize = 0, kf_iPartCount = 0, kf_sizeLastPart = 0, kf_iED2KPartCount = 0, kf_iED2KPartHashCount = 0,
     kf_hashlist = [], kf_abyFileHash = replicate 16 0, kf_pAICHHashSet = CAICHHashSet_new \<lparr>IsPartFile = False, m_nFileSize = 0\<rparr>\<rparr>"

definition KnownFile_SetFileSize :: "u64 \<Rightarrow> CKnownFile \<Rightarrow> CKnownFile" where
  "KnownFile_SetFileSize nFileSize f =
     (let hs = SetFileSize nFileSize (kf_pAICHHashSet f);
          f = f\<lparr>kf_nFileSize := nFileSize, kf_pAICHHashSet := hs\<lparr>m_pOwner := (m_pOwner hs)\<lparr>m_nFileSize := nFileSize\<rparr>\<rparr>\<rparr>
      in if nFileSize = 0
         then f\<lparr>kf_iPartCount := 0, kf_iED2KPartCount := 0, kf_iED2KPartHashCount := 0, kf_sizeLastPart := 0\<rparr>
         else let cnt = ucast (nFileSize div PARTSIZE + 1); lastsz = ucast (nFileSize mod PARTSIZE) :: u32;
                  (cnt, lastsz) = (if lastsz = 0 then (cnt - 1, ucast PARTSIZE) else (cnt, lastsz));
                  hc = ucast (nFileSize div PARTSIZE) :: u16
              in f\<lparr>kf_iPartCount := cnt, kf_sizeLastPart := lastsz, kf_iED2KPartCount := ucast (nFileSize div PARTSIZE + 1),
                   kf_iED2KPartHashCount := (if hc \<noteq> 0 then hc + 1 else hc)\<rparr>)"

definition KnownFile_GetPartSize :: "CKnownFile \<Rightarrow> u16 \<Rightarrow> u32" where
  "KnownFile_GetPartSize f part = (if unat part + 1 = unat (kf_iPartCount f) then kf_sizeLastPart f else ucast PARTSIZE)"

definition CreateHashFromHashlist :: "host \<Rightarrow> (u8 list \<Rightarrow> CMD4Hash) \<Rightarrow> CMD4Hash list \<Rightarrow> CMD4Hash option" where
  "CreateHashFromHashlist h md4 hashes =
     (if hashes = [] then None else fst (CreateHashFromInput h md4 (concat hashes) True None))"

text \<open>Reading is seeking and reading; an exception ends the call.\<close>

definition CreateHashFromFile ::
  "host \<Rightarrow> (u8 list \<Rightarrow> CMD4Hash) \<Rightarrow> 's file_ops \<Rightarrow> u64 \<Rightarrow> u32 \<Rightarrow> bool \<Rightarrow> aich_tree option \<Rightarrow>
     ('s, CMD4Hash option \<times> aich_tree option) io" where
  "CreateHashFromFile h md4 V offset Length Output pSha =
     (if Length = 0 then io_return (None, pSha)
      else io_bind (Seek V (int (unat offset)) wxFromStart) (\<lambda>_.
           io_bind (Read V (unat Length)) (\<lambda>data. io_return (CreateHashFromInput h md4 data Output pSha))))"

subsection \<open>The hashing task\<close>

definition g_emptyMD4Hash :: CMD4Hash where
  "g_emptyMD4Hash = [0x31, 0xD6, 0xCF, 0xE0, 0xD1, 0x6A, 0xE9, 0x31, 0xB7, 0x3C, 0x59, 0xD7, 0xE0, 0xC0, 0x89, 0xC0]"

definition set_file_tree :: "aich_tree \<Rightarrow> CKnownFile \<Rightarrow> CKnownFile" where
  "set_file_tree t f = f\<lparr>kf_pAICHHashSet := (kf_pAICHHashSet f)\<lparr>m_pHashTree := t\<rparr>\<rparr>"

definition CreateNextPartHash ::
  "host \<Rightarrow> (u8 list \<Rightarrow> CMD4Hash) \<Rightarrow> 's file_ops \<Rightarrow> bool \<Rightarrow> bool \<Rightarrow> u16 \<Rightarrow> CKnownFile \<Rightarrow> 's \<Rightarrow> ('s, bool) res \<times> CKnownFile" where
  "CreateNextPartHash h md4 V toMD4 toAICH part f s =
     (if Eof V s then (Ok False s, f)
      else let offset = ucast part * PARTSIZE; partLength = KnownFile_GetPartSize f part;
               (p, t) = (if toAICH
                         then case FindHash offset (ucast partLength) 0 (m_pHashTree (kf_pAICHHashSet f)) of (p, lev, t) \<Rightarrow> (p, t)
                         else (None, m_pHashTree (kf_pAICHHashSet f)));
               aichHash = (case p of None \<Rightarrow> None | Some q \<Rightarrow> node_at q t);
               f = set_file_tree t f
           in case CreateHashFromFile h md4 V offset partLength toMD4 aichHash s of
                Exc e s' \<Rightarrow> (Exc e s', f)
              | Ok (hash, sub) s' \<Rightarrow>
                  let f = (case (p, sub) of (Some q, Some c) \<Rightarrow> set_file_tree (update_at q (\<lambda>_. c) t) f | _ \<Rightarrow> f) in
                  (Ok True s',
                   if toMD4
                   then f\<lparr>kf_hashlist := kf_hashlist f @ [case hash of Some x \<Rightarrow> x | None \<Rightarrow> replicate 16 0] @
                            (if ucast partLength = PARTSIZE \<and> Eof V s' then [g_emptyMD4Hash] else [])\<rparr>
                   else f))"

text \<open>\<open>TestDestroy\<close> is asked before each part and at each later stage; from some question on
  the thread is told to end, or never. The questions after the parts have the numbers that follow.\<close>

definition TestDestroy :: "nat option \<Rightarrow> nat \<Rightarrow> bool" where
  "TestDestroy d k = (case d of None \<Rightarrow> False | Some n \<Rightarrow> n \<le> k)"

fun hash_parts ::
  "host \<Rightarrow> (u8 list \<Rightarrow> CMD4Hash) \<Rightarrow> 's file_ops \<Rightarrow> bool \<Rightarrow> bool \<Rightarrow> nat option \<Rightarrow> nat \<Rightarrow> nat \<Rightarrow> CKnownFile \<Rightarrow> 's \<Rightarrow>
     ('s, bool) res \<times> CKnownFile" where
  "hash_parts h md4 V toMD4 toAICH d 0 part f s = (Ok True s, f)"
| "hash_parts h md4 V toMD4 toAICH d (Suc n) part f s =
     (if TestDestroy d part then (Ok True s, f)
      else case CreateNextPartHash h md4 V toMD4 toAICH (of_nat part) f s of (res, f') \<Rightarrow>
        (case res of
           Ok True s' \<Rightarrow> hash_parts h md4 V toMD4 toAICH d n (part + 1) f' s'
         | _ \<Rightarrow> (res, f')))"

definition finish_MD4 :: "host \<Rightarrow> (u8 list \<Rightarrow> CMD4Hash) \<Rightarrow> CKnownFile \<Rightarrow> CKnownFile" where
  "finish_MD4 h md4 f =
     (if length (kf_hashlist f) = 1 then f\<lparr>kf_abyFileHash := hd (kf_hashlist f), kf_hashlist := []\<rparr>
      else if kf_hashlist f \<noteq> []
      then f\<lparr>kf_abyFileHash := (case CreateHashFromHashlist h md4 (kf_hashlist f) of Some x \<Rightarrow> x | None \<Rightarrow> replicate 16 0)\<rparr>
      else f)"

text \<open>The file known2\_64.met is given by its operations, whether it exists and what opening it for
  reading and for writing yields. An exception of \<open>SaveHashSet\<close> is not caught.\<close>

record 'k known2 =
  k_ops :: "'k file_ops"
  k_set_length :: "nat \<Rightarrow> ('k, unit) io"
  k_exists :: bool
  k_read :: "'k option"
  k_write :: "'k option"

definition finish_AICH ::
  "host \<Rightarrow> 'k known2 \<Rightarrow> root_cache \<Rightarrow> CKnownFile \<Rightarrow> (mule_exception + CKnownFile) \<times> root_cache \<times> 'k option" where
  "finish_AICH h K c f =
     (case ReCalculateSet (GetNewHashAlgo h) False (kf_pAICHHashSet f) of (_, hs) \<Rightarrow>
      case VerifySet (GetNewHashAlgo h) True hs of (ok, hs) \<Rightarrow>
        if \<not> ok then (Inr (f\<lparr>kf_pAICHHashSet := hs\<rparr>), c, None)
        else let hs = SetStatus AICH_HASHSETCOMPLETE hs in
          case SaveHashSet (k_ops K) (k_set_length K) (k_exists K) (k_read K) (k_write K) hs c of
            (Inl e, c, k) \<Rightarrow> (Inl e, c, k)
          | (Inr _, c, k) \<Rightarrow> (Inr (f\<lparr>kf_pAICHHashSet := FreeHashSet hs\<rparr>), c, k))"

datatype hashing_event = NoEvent | MULE_EVT_HASHING CKnownFile | MULE_EVT_AICH_HASHING CKnownFile

definition post_event :: "bool \<Rightarrow> bool \<Rightarrow> nat option \<Rightarrow> CKnownFile \<Rightarrow> hashing_event" where
  "post_event toMD4 toAICH d f =
     (let n = unat (kf_iPartCount f) in
      if \<not> toMD4 \<and> toAICH \<and> \<not> TestDestroy d (n + 2) then MULE_EVT_AICH_HASHING f
      else if \<not> TestDestroy d (n + 3) then MULE_EVT_HASHING f
      else NoEvent)"

definition CHashingTask_Entry ::
  "host \<Rightarrow> (u8 list \<Rightarrow> CMD4Hash) \<Rightarrow> 's file_ops \<Rightarrow> 's option \<Rightarrow> bool \<Rightarrow> bool \<Rightarrow> nat option \<Rightarrow> 'k known2 \<Rightarrow> root_cache \<Rightarrow>
     (mule_exception + hashing_event) \<times> root_cache \<times> 'k option" where
  "CHashingTask_Entry h md4 V opened toMD4 toAICH d K c =
     (case opened of
        None \<Rightarrow> (Inr NoEvent, c, None)
      | Some s \<Rightarrow>
          let fileLength = GetLength V s in
          if fileLength > unat (MAX_FILE_SIZE :: u64) then (Inr NoEvent, c, None)
          else if fileLength = 0 then (Inr NoEvent, c, None)
          else let f = KnownFile_SetFileSize (of_nat fileLength) CKnownFile_new;
                   f = (if toAICH then f\<lparr>kf_pAICHHashSet := FreeHashSet (kf_pAICHHashSet f)\<rparr> else f) in
            if \<not> toMD4 \<and> \<not> toAICH then (Inr NoEvent, c, None)
            else case hash_parts h md4 V toMD4 toAICH d (unat (kf_iPartCount f)) 0 f s of (res, f) \<Rightarrow>
              (case res of
                 Exc e s' \<Rightarrow> (if is_CSafeIOException e then Inr NoEvent else Inl e, c, None)
               | Ok False s' \<Rightarrow> (Inr NoEvent, c, None)
               | Ok True s' \<Rightarrow>
                   let n = unat (kf_iPartCount f);
                       f = (if toMD4 \<and> \<not> TestDestroy d n then finish_MD4 h md4 f else f) in
                   (case (if toAICH \<and> \<not> TestDestroy d (n + 1) then finish_AICH h K c f else (Inr f, c, None)) of
                      (Inl e, c, k) \<Rightarrow> (Inl e, c, k)
                    | (Inr f, c, k) \<Rightarrow> (Inr (post_event toMD4 toAICH d f), c, k))))"

subsection \<open>One part\<close>

lemma update_at_node: "node_at q t = Some c \<Longrightarrow> update_at q (\<lambda>_. f c) t = update_at q f t"
proof (induction q arbitrary: t)
  case (Cons d q)
  then show ?case by (cases t) (auto split: if_splits option.splits)
qed simp

lemma apply_at_node:
  assumes "shaped t" "FindHash pos sz lev t = (p, lev', t')"
  shows "apply_at lev pos sz f t = (case p of None \<Rightarrow> t' | Some q \<Rightarrow> update_at q (\<lambda>_. f (the (node_at q t'))) t')"
    "p = Some q \<Longrightarrow> \<exists>c. node_at q t' = Some c"
proof -
  show node: "\<exists>c. node_at q t' = Some c" if "p = Some q" for q
    using FindHash_node [OF assms(2) [unfolded that] assms(1)] by blast
  then show "apply_at lev pos sz f t = (case p of None \<Rightarrow> t' | Some q \<Rightarrow> update_at q (\<lambda>_. f (the (node_at q t'))) t')"
    by (cases p) (auto simp: apply_at_def assms(2) update_at_node)
qed

definition file_tree :: "CKnownFile \<Rightarrow> aich_tree" where
  "file_tree f = m_pHashTree (kf_pAICHHashSet f)"

text \<open>What hashing a part adds to the file: its MD4 hash, the hash of nothing after a last part of
  full size, and its subtree.\<close>

definition with_part :: "host \<Rightarrow> (u8 list \<Rightarrow> CMD4Hash) \<Rightarrow> bool \<Rightarrow> bool \<Rightarrow> nat \<Rightarrow> u8 list \<Rightarrow> bool \<Rightarrow> CKnownFile \<Rightarrow> CKnownFile" where
  "with_part h md4 toMD4 toAICH p b end_of_file f =
     f\<lparr>kf_hashlist := kf_hashlist f @ (if toMD4 then md4 b # (if length b = 9728000 \<and> end_of_file then [g_emptyMD4Hash] else []) else []),
       kf_pAICHHashSet := (kf_pAICHHashSet f)\<lparr>m_pHashTree :=
         (if toAICH then apply_at 0 (of_nat p) (of_nat (length b)) (hash_blocks h b) (file_tree f) else file_tree f)\<rparr>\<rparr>"

context byte_source
begin

lemma CreateHashFromFile_reads:
  assumes "ok s" "take n (drop p (content s)) = b" "length b = n" "0 < n" "n < 2 ^ 32" "p < 2 ^ 63"
  shows "\<exists>s'. CreateHashFromFile h md4 V (of_nat p) (of_nat n) Output pSha s = Ok (CreateHashFromInput h md4 b Output pSha) s' \<and>
    ok s' \<and> content s' = content s \<and> pos s' = p + n"
proof -
  have w: "unat (of_nat p :: u64) = p" "unat (of_nat n :: u32) = n" using assms(5,6) by (auto intro!: unat_of_nat_small)
  have n0: "(of_nat n :: u32) \<noteq> 0" using w(2) assms(4) by (metis less_numeral_extra(3) unat_0)
  have fit: "p + n \<le> length (content s)" using assms(2-4) by auto
  obtain s1 where s1: "Seek V (int p) wxFromStart s = Ok (int p) s1" "ok s1" "content s1 = content s" "pos s1 = p"
    using Seek_start [OF assms(1), of p] fit by auto
  have "drop p (content s) = b @ drop n (drop p (content s))" using assms(2) by (metis append_take_drop_id)
  then have d: "drop (pos s1) (content s1) = b @ drop n (drop p (content s))" unfolding s1(3,4) .
  obtain s2 where "Read V n s1 = Ok b s2" "ok s2" "content s2 = content s1" "pos s2 = pos s1 + length b"
    using parsesD [OF parses_Read [OF assms(3) [symmetric]] s1(2) _ d] s1(3,4) fit by auto
  then show ?thesis using s1 n0 w assms(3) by (auto simp: CreateHashFromFile_def io_bind_def io_return_def)
qed

lemma CreateNextPartHash_step:
  assumes "ok s" "shaped (file_tree f)" "k < 65536" "p = k * 9728000" "pos s = p"
    and b: "take (length b) (drop p (content s)) = b" "0 < length b" "length b \<le> 9728000" "KnownFile_GetPartSize f (of_nat k) = of_nat (length b)"
  shows "\<exists>s'. CreateNextPartHash h md4 V toMD4 toAICH (of_nat k) f s =
      (Ok True s', with_part h md4 toMD4 toAICH p b (p + length b = length (content s)) f) \<and>
    ok s' \<and> content s' = content s \<and> pos s' = p + length b"
proof -
  let ?t = "file_tree f"
  have p63: "p < 2 ^ 63" using assms(3,4) by simp
  have fit: "p + length b \<le> length (content s)" using arg_cong [OF b(1), of length] b(2) by (simp only: length_take length_drop)
  have eof: "\<not> Eof V s" using position [OF assms(1)] size_law [OF assms(1)] assms(5) fit b(2) unfolding Eof_def by linarith
  have "ucast (of_nat k :: u16) = (of_nat k :: u64)" using assms(3) by (intro word_unat_eq_iff [THEN iffD2]) (simp add: unat_ucast_small unat_of_nat_small)
  then have off: "ucast (of_nat k :: u16) * PARTSIZE = (of_nat p :: u64)" by (simp add: assms(4) PARTSIZE_def)
  have len: "ucast (of_nat (length b) :: u32) = (of_nat (length b) :: u64)" "unat (of_nat (length b) :: u64) = length b"
    using b(3) by (auto intro!: unat_of_nat_small word_unat_eq_iff [THEN iffD2] simp: unat_ucast_small unat_of_nat_small)
  have full: "(of_nat (length b) :: u64) = PARTSIZE \<longleftrightarrow> length b = 9728000"
    using len(2) by (auto simp: PARTSIZE_def word_unat_eq_iff)
  have b32: "length b < 2 ^ 32" using b(3) by simp
  obtain q lev t' where find: "FindHash (of_nat p) (of_nat (length b)) 0 ?t = (q, lev, t')" by (metis prod_cases3)
  note at = apply_at_node [OF assms(2) find]
  show ?thesis
  proof (cases toAICH)
    case True
    obtain s' where s': "CreateHashFromFile h md4 V (of_nat p) (of_nat (length b)) toMD4 (case q of None \<Rightarrow> None | Some q \<Rightarrow> node_at q t') s =
        Ok (CreateHashFromInput h md4 b toMD4 (case q of None \<Rightarrow> None | Some q \<Rightarrow> node_at q t')) s'"
        "ok s'" "content s' = content s" "pos s' = p + length b"
      using CreateHashFromFile_reads [OF assms(1) b(1) refl b(2) b32 p63] by blast
    have "Eof V s' \<longleftrightarrow> p + length b = length (content s)"
      using position [OF s'(2)] size_law [OF s'(2)] s'(3,4) fit by (auto simp: Eof_def)
    then show ?thesis
      using eof off len(1) full s' find at True b(4) unfolding file_tree_def
      by (cases q) (auto simp: CreateNextPartHash_def Let_def with_part_def CreateHashFromInput_def set_file_tree_def file_tree_def)
  next
    case False
    obtain s' where s': "CreateHashFromFile h md4 V (of_nat p) (of_nat (length b)) toMD4 None s =
        Ok (CreateHashFromInput h md4 b toMD4 None) s'" "ok s'" "content s' = content s" "pos s' = p + length b"
      using CreateHashFromFile_reads [OF assms(1) b(1) refl b(2) b32 p63] by blast
    have "Eof V s' \<longleftrightarrow> p + length b = length (content s)"
      using position [OF s'(2)] size_law [OF s'(2)] s'(3,4) fit by (auto simp: Eof_def)
    then show ?thesis
      using eof off len(1) full s' False b(4)
      by (auto simp: CreateNextPartHash_def Let_def with_part_def CreateHashFromInput_def set_file_tree_def file_tree_def)
  qed
qed

end
text \<open>The tree keeps its shape.\<close>

lemma hash_blocks_shaped: "shaped t \<Longrightarrow> shaped (hash_blocks h b t) \<and> same_root t (hash_blocks h b t)"
proof -
  have set: "shaped (set_blocks p bs t) \<and> same_root t (set_blocks p bs t)" if "shaped t" for p bs t
    using that
  proof (induction p bs t rule: set_blocks.induct)
    case (2 p b bs t)
    then show ?case using SetBlockHash_shaped [OF "2.prems"] by (auto simp: same_root_def)
  qed (simp add: same_root_def)
  show ?thesis if "shaped t"
    using set [OF that] ReCalculateHash_shaped [OF conjunct1 [OF set [OF that]]] unfolding hash_blocks_sets by (auto simp: same_root_def)
qed

lemma update_at_keeps:
  assumes "\<forall>c. shaped c \<longrightarrow> shaped (f c) \<and> same_root c (f c)" "shaped t"
  shows "shaped (update_at p f t) \<and> same_root t (update_at p f t)"
  using assms(2)
proof (induction p arbitrary: t)
  case (Cons d p)
  show ?case using Cons by (cases t) (auto simp: same_root_def shaped.simps option.set_map)
qed (use assms(1) in simp)

lemma apply_at_shaped:
  assumes "\<forall>c. shaped c \<longrightarrow> shaped (f c) \<and> same_root c (f c)" "shaped t"
  shows "shaped (apply_at lev pos sz f t)"
  using FindHash_shaped [of pos sz lev t] update_at_keeps [OF assms(1)] assms(2) by (auto simp: apply_at_def split: prod.splits option.splits)

subsection \<open>All parts\<close>

definition with_parts :: "host \<Rightarrow> (u8 list \<Rightarrow> CMD4Hash) \<Rightarrow> bool \<Rightarrow> bool \<Rightarrow> nat \<Rightarrow> u8 list list \<Rightarrow> CKnownFile \<Rightarrow> CKnownFile" where
  "with_parts h md4 toMD4 toAICH p bs f =
     f\<lparr>kf_hashlist := kf_hashlist f @ (if toMD4 then map md4 bs @ (if bs \<noteq> [] \<and> length (List.last bs) = 9728000 then [g_emptyMD4Hash] else []) else []),
       kf_pAICHHashSet := (kf_pAICHHashSet f)\<lparr>m_pHashTree :=
         (if toAICH then apply_pieces 0 p (map (\<lambda>b. (length b, hash_blocks h b)) bs) (file_tree f) else file_tree f)\<rparr>\<rparr>"

lemma with_part_parts:
  "with_part h md4 toMD4 toAICH p b True f = with_parts h md4 toMD4 toAICH p [b] f"
  "bs \<noteq> [] \<Longrightarrow> with_parts h md4 toMD4 toAICH (p + length b) bs (with_part h md4 toMD4 toAICH p b False f) = with_parts h md4 toMD4 toAICH p (b # bs) f"
  by (simp_all add: with_part_def with_parts_def file_tree_def)

context byte_source
begin

lemma hash_parts_all:
  assumes "ok s" "shaped (file_tree f)" "pos s = k * 9728000" "k * 9728000 \<le> length (content s)"
    and "chunks 9728000 (drop (k * 9728000) (content s)) = bs" "k + length bs \<le> 65536"
    and "\<forall>i < length bs. KnownFile_GetPartSize f (of_nat (k + i)) = of_nat (length (bs ! i))"
  shows "\<exists>s'. hash_parts h md4 V toMD4 toAICH None (length bs) k f s = (Ok True s', with_parts h md4 toMD4 toAICH (k * 9728000) bs f) \<and>
    ok s' \<and> content s' = content s"
  using assms
proof (induction bs arbitrary: k f s)
  case Nil
  have "with_parts h md4 toMD4 toAICH (k * 9728000) [] f = f"
    by (simp add: with_parts_def file_tree_def)
  then show ?case using Nil.prems(1) by simp
next
  case (Cons b bs)
  define rest where "rest = drop (k * 9728000) (content s)"
  have "rest \<noteq> []" using Cons.prems(5) unfolding rest_def by (auto simp: chunks.simps [of _ "[]"])
  then have b: "b = take 9728000 rest" "chunks 9728000 (drop 9728000 rest) = bs"
    using Cons.prems(5) unfolding rest_def [symmetric] by (simp_all add: chunks.simps [of _ rest])
  have tk: "take (length b) rest = b" "0 < length b" "length b \<le> 9728000" using \<open>rest \<noteq> []\<close> unfolding b(1) by (simp_all add: min_def)
  have len: "length rest = length (content s) - k * 9728000" by (simp add: rest_def)
  have "KnownFile_GetPartSize f (of_nat (k + 0)) = of_nat (length ((b # bs) ! 0))" using Cons.prems(7) by (metis length_greater_0_conv list.discI)
  then have gp: "KnownFile_GetPartSize f (of_nat k) = of_nat (length b)" by simp
  have "k < 65536" using Cons.prems(6) by simp
  from CreateNextPartHash_step [OF Cons.prems(1,2) this refl Cons.prems(3) _ tk(2,3) gp] tk(1)
  obtain s1 where s1: "CreateNextPartHash h md4 V toMD4 toAICH (of_nat k) f s =
      (Ok True s1, with_part h md4 toMD4 toAICH (k * 9728000) b (k * 9728000 + length b = length (content s)) f)"
    "ok s1" "content s1 = content s" "pos s1 = k * 9728000 + length b" unfolding rest_def by blast
  show ?case
  proof (cases "length rest \<le> 9728000")
    case True
    then have "bs = []" using b(2) by (simp add: chunks.simps [of _ "[]"])
    moreover have "k * 9728000 + length b = length (content s)" using True len b(1) Cons.prems(4) by simp
    ultimately show ?thesis using s1 by (simp add: TestDestroy_def with_part_parts)
  next
    case False
    then have lb: "length b = 9728000" by (simp add: b(1))
    have more: "k * 9728000 + length b \<noteq> length (content s)" using False len lb by linarith
    have ne: "bs \<noteq> []" using False unfolding b(2) [symmetric] by (simp add: chunks.simps [of _ "drop 9728000 rest"])
    let ?f = "with_part h md4 toMD4 toAICH (k * 9728000) b False f"
    have "shaped (file_tree ?f)"
      using apply_at_shaped [of "hash_blocks h b"] hash_blocks_shaped Cons.prems(2) by (auto simp: with_part_def file_tree_def)
    moreover have "pos s1 = (k + 1) * 9728000" "(k + 1) * 9728000 \<le> length (content s1)" using s1(3,4) lb False len by simp_all
    moreover have "chunks 9728000 (drop ((k + 1) * 9728000) (content s1)) = bs" using b(2) s1(3) by (simp add: rest_def add.commute)
    moreover have "\<forall>i < length bs. KnownFile_GetPartSize ?f (of_nat (k + 1 + i)) = of_nat (length (bs ! i))"
    proof (intro allI impI)
      fix i assume "i < length bs"
      then have "Suc i < length (b # bs)" by simp
      then have "KnownFile_GetPartSize f (of_nat (k + Suc i)) = of_nat (length ((b # bs) ! Suc i))" using Cons.prems(7) by blast
      then show "KnownFile_GetPartSize ?f (of_nat (k + 1 + i)) = of_nat (length (bs ! i))" by (simp add: KnownFile_GetPartSize_def with_part_def split: if_splits)
    qed
    ultimately obtain s2 where "hash_parts h md4 V toMD4 toAICH None (length bs) (k + 1) ?f s1 =
        (Ok True s2, with_parts h md4 toMD4 toAICH ((k + 1) * 9728000) bs ?f)" "ok s2" "content s2 = content s1"
      using Cons.IH [OF s1(2), of ?f "k + 1"] Cons.prems(6) by auto
    moreover have at: "(k + 1) * 9728000 = k * 9728000 + length b" using lb by simp
    have "with_parts h md4 toMD4 toAICH ((k + 1) * 9728000) bs ?f = with_parts h md4 toMD4 toAICH (k * 9728000) (b # bs) f"
      unfolding at by (rule with_part_parts(2) [OF ne])
    ultimately show ?thesis using s1(1,3) more by (simp add: TestDestroy_def)
  qed
qed

end

subsection \<open>The size of the file and of its parts\<close>

lemma parts_of:
  assumes "0 < n"
  obtains j m where "n = 9728000 * j + m" "0 < m" "m \<le> 9728000" "units 9728000 n = replicate j 9728000 @ [m]"
proof -
  define j m where "j = (n - 1) div 9728000" and "m = (n - 1) mod 9728000 + 1"
  have "9728000 * j + (m - 1) = n - 1" by (simp add: j_def m_def)
  moreover have m: "0 < m" "m - 1 < 9728000" by (simp_all add: m_def)
  ultimately have "n = 9728000 * j + m" using assms by linarith
  moreover have "m \<le> 9728000" using m by simp
  moreover from this have "units 9728000 m = [m]" using m(1) by (simp add: units.simps [of _ m])
  ultimately show ?thesis using units_split [of 9728000 m j] m(1) that by simp
qed

lemma KnownFile_SetFileSize_parts:
  assumes "0 < n" "n \<le> 2 ^ 38" "f = KnownFile_SetFileSize (of_nat n) CKnownFile_new"
  shows "unat (kf_iPartCount f) = length (units 9728000 n)"
    "i < length (units 9728000 n) \<Longrightarrow> KnownFile_GetPartSize f (of_nat i) = of_nat (units 9728000 n ! i)"
    "length (units 9728000 n) < 65536"
proof -
  obtain j m where u: "n = 9728000 * j + m" "0 < m" "m \<le> 9728000" "units 9728000 n = replicate j 9728000 @ [m]"
    by (rule parts_of [OF assms(1)])
  have j: "j \<le> 28256" using u(1,2) assms(2) by simp
  then show "length (units 9728000 n) < 65536" by (simp add: u(4))
  have n: "unat (of_nat n :: u64) = n" using assms(2) by (intro unat_of_nat_small) simp
  have n0: "(of_nat n :: u64) \<noteq> 0" using n assms(1) by (metis less_numeral_extra(3) unat_0)
  have dm: "unat ((of_nat n :: u64) div PARTSIZE) = n div 9728000" "unat ((of_nat n :: u64) mod PARTSIZE) = n mod 9728000"
    by (simp_all add: unat_div unat_mod n PARTSIZE_def)
  have q: "n div 9728000 = (if m = 9728000 then j + 1 else j)" "n mod 9728000 = (if m = 9728000 then 0 else m)" using u(1-3) by auto
  have "unat ((of_nat n :: u64) div PARTSIZE + 1) = n div 9728000 + 1" using dm(1) q j by (simp add: unat_add_small)
  then have c: "unat (ucast ((of_nat n :: u64) div PARTSIZE + 1) :: u16) = n div 9728000 + 1" using q j by (subst unat_ucast_small) auto
  have l: "unat (ucast ((of_nat n :: u64) mod PARTSIZE) :: u32) = n mod 9728000" using dm(2) by (subst unat_ucast_small) auto
  have l0: "ucast ((of_nat n :: u64) mod PARTSIZE) = (0 :: u32) \<longleftrightarrow> m = 9728000" using l q(2) u(2) by (metis less_numeral_extra(3) unat_0 unat_eq_zero)
  have cnt: "unat (ucast ((of_nat n :: u64) div PARTSIZE + 1) - 1 :: u16) = n div 9728000"
    using c by (subst unat_sub_le) (simp_all add: word_le_nat_alt)
  show count: "unat (kf_iPartCount f) = length (units 9728000 n)"
    unfolding assms(3) KnownFile_SetFileSize_def Let_def using n0 l0 c cnt q by (auto simp: u(4))
  have last: "kf_sizeLastPart f = of_nat m"
  proof -
    have "unat (kf_sizeLastPart f) = m"
      unfolding assms(3) KnownFile_SetFileSize_def Let_def using n0 l0 l q by (auto simp: PARTSIZE_def)
    then show ?thesis by (metis word_eq_of_nat)
  qed
  show "KnownFile_GetPartSize f (of_nat i) = of_nat (units 9728000 n ! i)" if i: "i < length (units 9728000 n)"
  proof -
    have "unat (of_nat i :: u16) = i" using i j by (intro unat_of_nat_small) (simp add: u(4))
    then show ?thesis using i count last by (auto simp: KnownFile_GetPartSize_def u(4) nth_append PARTSIZE_def)
  qed
qed

lemma KnownFile_SetFileSize_tree:
  assumes "f = KnownFile_SetFileSize n CKnownFile_new" "n \<noteq> 0"
  shows "shaped (file_tree f)" "m_nDataSize (file_tree f) = n" "m_nFileSize (m_pOwner (kf_pAICHHashSet f)) = n"
    "\<not> IsPartFile (m_pOwner (kf_pAICHHashSet f))" "m_pLeftTree (file_tree f) = None" "m_pRightTree (file_tree f) = None" "kf_hashlist f = []"
    "FreeHashSet (kf_pAICHHashSet f) = kf_pAICHHashSet f"
  using assms(2) unfolding assms(1)
  by (simp_all add: KnownFile_SetFileSize_def CKnownFile_new_def CAICHHashSet_new_def SetFileSize_def file_tree_def Let_def
      shaped.simps child_base_def FreeHashSet_def CAICHHashTree_def)

subsection \<open>The hashes of a file\<close>

text \<open>The definition of the hashes by the pieces of a file: an MD4 hash for each part, with the hash
  of nothing after a last part of full size; the file's hash is that of its only part or that of the
  list; and a SHA-1 hash for each block of each part.\<close>

definition ed2k_hashlist :: "(u8 list \<Rightarrow> CMD4Hash) \<Rightarrow> u8 list \<Rightarrow> CMD4Hash list" where
  "ed2k_hashlist md4 data = map md4 (chunks 9728000 data) @ (if 9728000 dvd length data then [g_emptyMD4Hash] else [])"

definition ed2k_hash :: "(u8 list \<Rightarrow> CMD4Hash) \<Rightarrow> u8 list \<Rightarrow> CMD4Hash" where
  "ed2k_hash md4 data = (if length data < 9728000 then md4 data else md4 (concat (ed2k_hashlist md4 data)))"

definition block_hashes :: "u8 list \<Rightarrow> CAICHHash list" where
  "block_hashes data = concat (map (\<lambda>part. map sha1 (chunks 184320 part)) (chunks 9728000 data))"

lemma chunks_parts:
  assumes "0 < length data"
  shows "length (chunks 9728000 data) = length (units 9728000 (length data))"
    "i < length (chunks 9728000 data) \<Longrightarrow> length (chunks 9728000 data ! i) = units 9728000 (length data) ! i"
    "chunks 9728000 data \<noteq> []" "length (List.last (chunks 9728000 data)) = 9728000 \<longleftrightarrow> 9728000 dvd length data"
proof -
  let ?bs = "chunks 9728000 data"
  have m: "map length ?bs = units 9728000 (length data)" by (rule map_length_chunks) simp
  then show "length ?bs = length (units 9728000 (length data))" by (metis length_map)
  show "length (?bs ! i) = units 9728000 (length data) ! i" if "i < length ?bs" using m that by (metis nth_map)
  obtain j k where u: "length data = 9728000 * j + k" "0 < k" "k \<le> 9728000" "units 9728000 (length data) = replicate j 9728000 @ [k]"
    by (rule parts_of [OF assms])
  show ne: "?bs \<noteq> []" using m u(4) by auto
  then have "length (List.last ?bs) = k" using m u(4) last_map [of ?bs length] by simp
  moreover have "9728000 dvd length data \<longleftrightarrow> 9728000 dvd k" unfolding u(1) by (rule dvd_add_right_iff) simp
  ultimately show "length (List.last ?bs) = 9728000 \<longleftrightarrow> 9728000 dvd length data" using u(2,3) by (auto dest: dvd_imp_le)
qed

lemma chunks_small: "0 < length data \<Longrightarrow> length data \<le> 9728000 \<Longrightarrow> chunks 9728000 data = [data]"
  using chunks.simps [of 9728000 data] by (simp add: chunks.simps [of _ "[]"])

lemma finish_MD4_hashes:
  assumes "0 < length data" "kf_hashlist f = ed2k_hashlist md4 data"
  shows "finish_MD4 h md4 f = f\<lparr>kf_abyFileHash := ed2k_hash md4 data, kf_hashlist := (if length data < 9728000 then [] else ed2k_hashlist md4 data)\<rparr>"
proof (cases "length data < 9728000")
  case True
  then have "\<not> 9728000 dvd length data" using assms(1) by (auto dest: dvd_imp_le)
  then have "ed2k_hashlist md4 data = [md4 data]" using True assms(1) chunks_small [of data] by (simp add: ed2k_hashlist_def)
  then show ?thesis using True assms(2) by (simp add: finish_MD4_def ed2k_hash_def)
next
  case False
  have "length (ed2k_hashlist md4 data) \<noteq> 1" "ed2k_hashlist md4 data \<noteq> []"
  proof -
    have two: "2 \<le> length (chunks 9728000 data)" if "length data \<noteq> 9728000"
      using that False assms(1) by (simp add: chunks.simps [of _ data] chunks.simps [of _ "drop 9728000 data"])
    show "length (ed2k_hashlist md4 data) \<noteq> 1" "ed2k_hashlist md4 data \<noteq> []"
      using two chunks_small [of data] assms(1) by (cases "length data = 9728000"; auto simp: ed2k_hashlist_def)+
  qed
  then show ?thesis using False assms(2) by (simp add: finish_MD4_def ed2k_hash_def CreateHashFromHashlist_def CreateHashFromInput_def)
qed

lemma with_parts_completes:
  assumes "0 < length data" "length data \<le> 2 ^ 38" "f = KnownFile_SetFileSize (of_nat (length data)) CKnownFile_new"
  shows "completes (GetNewHashAlgo h) (file_tree f) (file_tree (with_parts h md4 toMD4 True 0 (chunks 9728000 data) f)) (block_hashes data)"
proof -
  let ?bs = "chunks 9728000 data" and ?alg = "GetNewHashAlgo h"
  let ?ps = "map (\<lambda>b. (length b, hash_blocks h b, map sha1 (chunks 184320 b))) ?bs"
  have n: "unat (of_nat (length data) :: u64) = length data" using assms(2) by (intro unat_of_nat_small) simp
  then have n0: "(of_nat (length data) :: u64) \<noteq> 0" using assms(1) by (metis less_numeral_extra(3) unat_0)
  note t = KnownFile_SetFileSize_tree [OF assms(3) n0]
  have len: "map length ?bs = units 9728000 (length data)" by (rule map_length_chunks) simp
  have le: "0 < length b \<and> length b \<le> 9728000" if "b \<in> set ?bs" for b
  proof -
    have "length b \<in> set (units 9728000 (length data))" using that unfolding len [symmetric] by simp
    then show ?thesis using units_le by blast
  qed
  have "completes ?alg (file_tree f) (apply_pieces 0 0 (map (\<lambda>(m, f, hs). (m, f)) ?ps) (file_tree f)) (concat (map (\<lambda>(m, f, hs). hs) ?ps))"
    by (rule completes_units [OF digests_pairs_sha1, of 9728000 "file_tree f" 15])
      (use t(1,2) n assms(1,2) len le in \<open>auto simp: comp_def intro!: hash_blocks_completes\<close>)
  moreover have "map (\<lambda>(m, f, hs). (m, f)) ?ps = map (\<lambda>b. (length b, hash_blocks h b)) ?bs" "concat (map (\<lambda>(m, f, hs). hs) ?ps) = block_hashes data"
    by (simp_all add: comp_def block_hashes_def)
  ultimately have "completes ?alg (file_tree f) (apply_pieces 0 0 (map (\<lambda>b. (length b, hash_blocks h b)) ?bs) (file_tree f)) (block_hashes data)"
    by (simp only:)
  then show ?thesis by (simp add: with_parts_def file_tree_def)
qed

context byte_source
begin

lemma hash_parts_file:
  assumes "ok s" "pos s = 0" "content s = data" "0 < length data" "length data \<le> 2 ^ 38"
    and "f = KnownFile_SetFileSize (of_nat (length data)) CKnownFile_new"
  shows "\<exists>s'. hash_parts h md4 V toMD4 toAICH None (unat (kf_iPartCount f)) 0 f s =
    (Ok True s', with_parts h md4 toMD4 toAICH 0 (chunks 9728000 data) f)"
proof -
  have n: "unat (of_nat (length data) :: u64) = length data" using assms(5) by (intro unat_of_nat_small) simp
  then have n0: "(of_nat (length data) :: u64) \<noteq> 0" using assms(4) by (metis less_numeral_extra(3) unat_0)
  note p = KnownFile_SetFileSize_parts [OF assms(4-6)] and c = chunks_parts [OF assms(4)]
  have "\<exists>s'. hash_parts h md4 V toMD4 toAICH None (length (chunks 9728000 data)) 0 f s =
      (Ok True s', with_parts h md4 toMD4 toAICH (0 * 9728000) (chunks 9728000 data) f) \<and> ok s' \<and> content s' = content s"
    by (rule hash_parts_all [OF assms(1) KnownFile_SetFileSize_tree(1) [OF assms(6) n0]]) (use assms(2,3) p(2,3) c in auto)
  then show ?thesis using p(1) c(1) by auto
qed

end
subsection \<open>The result of the task\<close>

definition memory_known2 :: "(nat \<Rightarrow> u8) \<Rightarrow> (nat \<Rightarrow> (memfile, unit) io) \<Rightarrow> memfile \<Rightarrow> memfile known2" where
  "memory_known2 g set_length k = \<lparr>k_ops = mem_ops (total_heap g), k_set_length = set_length, k_exists = True, k_read = Some k, k_write = Some k\<rparr>"

text \<open>What saving the hash set of a tree leaves in the file, which has the entries \<open>es\<close>.\<close>

definition saved_entries :: "met_entry list \<Rightarrow> aich_tree \<Rightarrow> met_entry list" where
  "saved_entries es u = (if m_Hash u \<in> fst ` set es then es else es @ [(m_Hash u, leaf_hashes u)])"

lemma finish_AICH_saves:
  assumes "completes (GetNewHashAlgo h) t (file_tree f) hs" "m_nDataSize t = m_nFileSize (m_pOwner (kf_pAICHHashSet f))"
    and n: "0 < m_nDataSize t" "m_nDataSize t \<le> MAX_FILE_SIZE"
    and es: "\<forall>e \<in> set es. entry_ok e"
    and k: "mem_open k" "m_position k = 0" "mem_content k = [] \<and> es = [] \<or> mem_content k = met_bytes es"
    and c: "\<not> s_rootHashCacheLoaded c \<or> c = \<lparr>s_rootHashCache = met_index 1 es, s_rootHashCacheLoaded = True\<rparr>"
  shows "\<exists>u k'. ReCalculateHash (GetNewHashAlgo h) False (file_tree f) = (True, u) \<and>
    honest (GetNewHashAlgo h) u \<and> shaped u \<and> same_root t u \<and> leaf_hashes u = hs \<and>
    finish_AICH h (memory_known2 g set_length k) c f =
      (Inr (f\<lparr>kf_pAICHHashSet := FreeHashSet ((kf_pAICHHashSet f)\<lparr>m_pHashTree := u, m_eStatus := AICH_HASHSETCOMPLETE\<rparr>)\<rparr>),
       \<lparr>s_rootHashCache = met_index 1 (saved_entries es u), s_rootHashCacheLoaded = True\<rparr>, k') \<and>
    (if m_Hash u \<in> fst ` set es then k' = None else \<exists>k1. k' = Some k1 \<and> mem_content k1 = met_bytes (saved_entries es u))"
proof -
  obtain u where u: "ReCalculateHash (GetNewHashAlgo h) False (file_tree f) = (True, u)" "honest (GetNewHashAlgo h) u" "shaped u" "same_root t u" "leaf_hashes u = hs"
    using assms(1) unfolding completes_def by blast
  let ?hs = "(kf_pAICHHashSet f)\<lparr>m_pHashTree := u, m_eStatus := AICH_HASHSETCOMPLETE\<rparr>"
  have sz: "m_nDataSize u = m_nDataSize t" using u(4) by (simp add: same_root_def)
  have set: "m_pHashTree ?hs = u" "m_eStatus ?hs = AICH_HASHSETCOMPLETE" "m_nFileSize (m_pOwner ?hs) = m_nDataSize u"
    using assms(2) sz by simp_all
  have upd: "(kf_pAICHHashSet f)\<lparr>m_pHashTree := u, m_eStatus := AICH_HASHSETCOMPLETE\<rparr> = SetStatus AICH_HASHSETCOMPLETE ((kf_pAICHHashSet f)\<lparr>m_pHashTree := u\<rparr>)"
    by (simp add: SetStatus_def)
  have "\<exists>k'. SaveHashSet (mem_ops (total_heap g)) set_length True (Some k) (Some k) ?hs c =
      (Inr True, \<lparr>s_rootHashCache = met_index 1 (saved_entries es u), s_rootHashCacheLoaded = True\<rparr>, k') \<and>
    (if m_Hash u \<in> fst ` set es then k' = None else \<exists>k1. k' = Some k1 \<and> mem_content k1 = met_bytes (saved_entries es u))"
  proof (cases "m_Hash u \<in> fst ` set es")
    case True
    have "SaveHashSet (mem_ops (total_heap g)) set_length True (Some k) (Some k) ?hs c = (Inr True, \<lparr>s_rootHashCache = met_index 1 es, s_rootHashCacheLoaded = True\<rparr>, None)"
      by (rule mem.SaveHashSet_known [OF _ _ _ es _ k c]) (use True honest_valid [OF u(2)] sz assms(2) in simp_all)
    then show ?thesis using True by (simp add: saved_entries_def)
  next
    case False
    from mem.SaveHashSet_appends [OF u(2,3) n [folded sz] set es False k c, of g set_length] show ?thesis using False by (auto simp: saved_entries_def)
  qed
  then obtain k' where k': "SaveHashSet (mem_ops (total_heap g)) set_length True (Some k) (Some k) ?hs c =
      (Inr True, \<lparr>s_rootHashCache = met_index 1 (saved_entries es u), s_rootHashCacheLoaded = True\<rparr>, k')"
    "if m_Hash u \<in> fst ` set es then k' = None else \<exists>k1. k' = Some k1 \<and> mem_content k1 = met_bytes (saved_entries es u)" by blast
  have "ReCalculateSet (GetNewHashAlgo h) False (kf_pAICHHashSet f) = (True, (kf_pAICHHashSet f)\<lparr>m_pHashTree := u\<rparr>)"
    using u(1) by (simp add: ReCalculateSet_def file_tree_def)
  moreover have "VerifySet (GetNewHashAlgo h) True ((kf_pAICHHashSet f)\<lparr>m_pHashTree := u\<rparr>) = (True, (kf_pAICHHashSet f)\<lparr>m_pHashTree := u\<rparr>)"
    using Verify_honest [OF u(2)] by (simp add: VerifySet_def)
  ultimately have "finish_AICH h (memory_known2 g set_length k) c f =
      (Inr (f\<lparr>kf_pAICHHashSet := FreeHashSet ?hs\<rparr>), \<lparr>s_rootHashCache = met_index 1 (saved_entries es u), s_rootHashCacheLoaded = True\<rparr>, k')"
    using k'(1) unfolding upd by (simp add: finish_AICH_def memory_known2_def)
  then show ?thesis using u k'(2) by blast
qed

text \<open>The file object after all parts, with the MD4 hashes when they are asked for.\<close>

definition hashed_file :: "host \<Rightarrow> (u8 list \<Rightarrow> CMD4Hash) \<Rightarrow> bool \<Rightarrow> bool \<Rightarrow> u8 list \<Rightarrow> CKnownFile" where
  "hashed_file h md4 toMD4 toAICH data =
     (let f = with_parts h md4 toMD4 toAICH 0 (chunks 9728000 data) (KnownFile_SetFileSize (of_nat (length data)) CKnownFile_new)
      in if toMD4 then finish_MD4 h md4 f else f)"

lemma hashed_file_facts:
  assumes "0 < length data" "length data \<le> 2 ^ 38"
  shows "toMD4 \<Longrightarrow> kf_abyFileHash (hashed_file h md4 toMD4 toAICH data) = ed2k_hash md4 data"
    "toMD4 \<Longrightarrow> kf_hashlist (hashed_file h md4 toMD4 toAICH data) = (if length data < 9728000 then [] else ed2k_hashlist md4 data)"
    "kf_nFileSize (hashed_file h md4 toMD4 toAICH data) = of_nat (length data)"
    "completes (GetNewHashAlgo h) (file_tree (KnownFile_SetFileSize (of_nat (length data)) CKnownFile_new)) (file_tree (hashed_file h md4 toMD4 True data)) (block_hashes data)"
    "m_nFileSize (m_pOwner (kf_pAICHHashSet (hashed_file h md4 toMD4 toAICH data))) = of_nat (length data)"
    "kf_pAICHHashSet (hashed_file h md4 toMD4 toAICH data) = kf_pAICHHashSet (hashed_file h md4 False toAICH data)"
proof -
  let ?f0 = "KnownFile_SetFileSize (of_nat (length data)) CKnownFile_new"
  let ?f1 = "\<lambda>toAICH. with_parts h md4 toMD4 toAICH 0 (chunks 9728000 data) ?f0"
  have n: "unat (of_nat (length data) :: u64) = length data" using assms(2) by (intro unat_of_nat_small) simp
  then have n0: "(of_nat (length data) :: u64) \<noteq> 0" using assms(1) by (metis less_numeral_extra(3) unat_0)
  note t = KnownFile_SetFileSize_tree [OF refl n0]
  have sz: "kf_nFileSize ?f0 = of_nat (length data)" by (simp add: KnownFile_SetFileSize_def Let_def split: prod.split)
  have fin: "hashed_file h md4 True toAICH data = (?f1 toAICH)\<lparr>kf_abyFileHash := ed2k_hash md4 data,
      kf_hashlist := (if length data < 9728000 then [] else ed2k_hashlist md4 data)\<rparr>" if "toMD4" for toAICH
  proof -
    have "kf_hashlist (?f1 toAICH) = ed2k_hashlist md4 data"
      using that t(7) chunks_parts(3,4) [OF assms(1)] by (simp add: with_parts_def ed2k_hashlist_def)
    from finish_MD4_hashes [OF assms(1) this, of h] show ?thesis using that by (simp add: hashed_file_def Let_def)
  qed
  show "toMD4 \<Longrightarrow> kf_abyFileHash (hashed_file h md4 toMD4 toAICH data) = ed2k_hash md4 data"
    "toMD4 \<Longrightarrow> kf_hashlist (hashed_file h md4 toMD4 toAICH data) = (if length data < 9728000 then [] else ed2k_hashlist md4 data)"
    using fin by simp_all
  have same: "kf_pAICHHashSet (hashed_file h md4 toMD4 toAICH data) = kf_pAICHHashSet (?f1 toAICH)" "kf_nFileSize (hashed_file h md4 toMD4 toAICH data) = kf_nFileSize (?f1 toAICH)" for toAICH
    using fin by (cases toMD4; simp add: hashed_file_def Let_def)+
  then show "kf_pAICHHashSet (hashed_file h md4 toMD4 toAICH data) = kf_pAICHHashSet (hashed_file h md4 False toAICH data)"
    by (simp add: hashed_file_def Let_def with_parts_def)
  from same show "kf_nFileSize (hashed_file h md4 toMD4 toAICH data) = of_nat (length data)"
    "m_nFileSize (m_pOwner (kf_pAICHHashSet (hashed_file h md4 toMD4 toAICH data))) = of_nat (length data)"
    using sz t(3) by (simp_all add: with_parts_def)
  show "completes (GetNewHashAlgo h) (file_tree ?f0) (file_tree (hashed_file h md4 toMD4 True data)) (block_hashes data)"
    using with_parts_completes [OF assms refl, of h md4 toMD4] same(1) by (simp add: file_tree_def)
qed

context byte_source
begin

lemma CHashingTask_Entry_runs:
  assumes "ok s" "pos s = 0" "content s = data" "0 < length data" "length data \<le> 2 ^ 38" "toMD4 \<or> toAICH"
  shows "CHashingTask_Entry h md4 V (Some s) toMD4 toAICH None K c =
    (case (if toAICH then finish_AICH h K c (hashed_file h md4 toMD4 toAICH data) else (Inr (hashed_file h md4 toMD4 toAICH data), c, None)) of
       (Inl e, c, k) \<Rightarrow> (Inl e, c, k)
     | (Inr f, c, k) \<Rightarrow> (Inr (if toMD4 then MULE_EVT_HASHING f else MULE_EVT_AICH_HASHING f), c, k))"
proof -
  let ?f0 = "KnownFile_SetFileSize (of_nat (length data)) CKnownFile_new"
  have n: "unat (of_nat (length data) :: u64) = length data" using assms(5) by (intro unat_of_nat_small) simp
  then have n0: "(of_nat (length data) :: u64) \<noteq> 0" using assms(4) by (metis less_numeral_extra(3) unat_0)
  have free: "?f0\<lparr>kf_pAICHHashSet := FreeHashSet (kf_pAICHHashSet ?f0)\<rparr> = ?f0"
    by (simp add: KnownFile_SetFileSize_tree(8) [OF refl n0])
  obtain s' where "hash_parts h md4 V toMD4 toAICH None (unat (kf_iPartCount ?f0)) 0 ?f0 s =
      (Ok True s', with_parts h md4 toMD4 toAICH 0 (chunks 9728000 data) ?f0)"
    using hash_parts_file [OF assms(1-5) refl] by blast
  moreover have "GetLength V s = length data" using size_law [OF assms(1)] assms(3) by simp
  moreover have "\<not> length data > unat MAX_FILE_SIZE" "length data \<noteq> 0" using assms(4,5) by (simp_all add: MAX_FILE_SIZE_def)
  ultimately show ?thesis
    using assms(6) unfolding CHashingTask_Entry_def
    by (cases toMD4; cases toAICH) (simp_all add: Let_def free TestDestroy_def hashed_file_def post_event_def split: prod.split sum.split)
qed

end

lemma hash_parts_not_ended:
  assumes "hash_parts h md4 V toMD4 toAICH d n part f s = (res, f')"
  shows "kf_iPartCount f' = kf_iPartCount f"
  using assms
proof (induction h md4 V toMD4 toAICH d n part f s arbitrary: res f' rule: hash_parts.induct)
  case (2 h md4 V toMD4 toAICH d n part f s)
  have step: "kf_iPartCount f1 = kf_iPartCount f" if "CreateNextPartHash h md4 V toMD4 toAICH (of_nat part) f s = (r, f1)" for r f1
    using that by (auto simp: CreateNextPartHash_def set_file_tree_def Let_def split: if_splits prod.splits option.splits res.splits)
  obtain r f1 where c: "CreateNextPartHash h md4 V toMD4 toAICH (of_nat part) f s = (r, f1)" by (metis prod.collapse)
  show ?case
    using 2 c step [OF c] by (auto split: if_splits res.splits bool.splits)
qed simp

lemma hashed_file_md4:
  assumes "0 < length data" "length data \<le> 2 ^ 38"
  shows "kf_abyFileHash (hashed_file h md4 True toAICH data) = ed2k_hash md4 data"
    "kf_hashlist (hashed_file h md4 True toAICH data) = (if length data < 9728000 then [] else ed2k_hashlist md4 data)"
  by (rule hashed_file_facts(1,2) [OF assms]; simp)+

lemma complete_set_kept:
  assumes "honest alg u"
  shows "m_eStatus (FreeHashSet (hs\<lparr>m_pHashTree := u, m_eStatus := AICH_HASHSETCOMPLETE\<rparr>)) = AICH_HASHSETCOMPLETE"
    "HasValidMasterHash (FreeHashSet (hs\<lparr>m_pHashTree := u, m_eStatus := AICH_HASHSETCOMPLETE\<rparr>))"
    "GetMasterHash (FreeHashSet (hs\<lparr>m_pHashTree := u, m_eStatus := AICH_HASHSETCOMPLETE\<rparr>)) = m_Hash u"
  using honest_valid [OF assms] by (cases u; simp add: FreeHashSet_def HasValidMasterHash_def GetMasterHash_def)+

text \<open>C4: a file of at most 256 GiB whose MD4 and AICH hashes are asked for is hashed completely. The task
  posts the hashes: the list of the MD4 hashes of the parts, with the hash of nothing after a last part
  of full size (no list for less than a part), and the file's MD4 hash; the hash set is complete and has
  the root of the complete tree over the SHA-1 digests of the blocks of the parts. When
  \<open>known2_64.met\<close> has no entry for that root, one with the block hashes is appended to it; otherwise the
  file is not touched. When only AICH is asked for, the hash set and the file are the same. When only MD4
  is, the MD4 hashes are the same and \<open>known2_64.met\<close> is not touched.\<close>

theorem hashing_task_hashes_file:
  assumes s: "mem_inv s" "m_position s = 0" "mem_content s = data" "0 < length data" "length data \<le> 2 ^ 38"
    and es: "\<forall>e \<in> set es. entry_ok e"
    and k: "mem_open k" "m_position k = 0" "mem_content k = [] \<and> es = [] \<or> mem_content k = met_bytes es"
    and c: "\<not> s_rootHashCacheLoaded c \<or> c = \<lparr>s_rootHashCache = met_index 1 es, s_rootHashCacheLoaded = True\<rparr>"
    and V: "V = mem_ops hp" and K: "K = memory_known2 g set_length k"
  shows "(\<exists>u f f' k' k''. honest (GetNewHashAlgo h) u \<and> shaped u \<and> m_nDataSize u = of_nat (length data) \<and> leaf_hashes u = block_hashes data \<and>
      CHashingTask_Entry h md4 V (Some s) True True None K c =
        (Inr (MULE_EVT_HASHING f), \<lparr>s_rootHashCache = met_index 1 (saved_entries es u), s_rootHashCacheLoaded = True\<rparr>, k') \<and>
      CHashingTask_Entry h md4 V (Some s) False True None K c =
        (Inr (MULE_EVT_AICH_HASHING f'), \<lparr>s_rootHashCache = met_index 1 (saved_entries es u), s_rootHashCacheLoaded = True\<rparr>, k'') \<and>
      kf_abyFileHash f = ed2k_hash md4 data \<and> kf_hashlist f = (if length data < 9728000 then [] else ed2k_hashlist md4 data) \<and>
      (\<forall>r \<in> {kf_pAICHHashSet f, kf_pAICHHashSet f'}. m_eStatus r = AICH_HASHSETCOMPLETE \<and> HasValidMasterHash r \<and> GetMasterHash r = m_Hash u) \<and>
      (\<forall>r \<in> {k', k''}. if m_Hash u \<in> fst ` set es then r = None else \<exists>k1. r = Some k1 \<and> mem_content k1 = met_bytes (saved_entries es u))) \<and>
    (\<exists>f. CHashingTask_Entry h md4 V (Some s) True False None K c = (Inr (MULE_EVT_HASHING f), c, None) \<and>
      kf_abyFileHash f = ed2k_hash md4 data \<and> kf_hashlist f = (if length data < 9728000 then [] else ed2k_hashlist md4 data))"
    (is "?A \<and> ?B")
proof -
  let ?t = "file_tree (KnownFile_SetFileSize (of_nat (length data)) CKnownFile_new)"
  have n: "unat (of_nat (length data) :: u64) = length data" using s(5) by (intro unat_of_nat_small) simp
  then have n0: "(of_nat (length data) :: u64) \<noteq> 0" using s(4) by (metis less_numeral_extra(3) unat_0)
  note facts = hashed_file_facts [OF s(4,5)] and t = KnownFile_SetFileSize_tree(2) [OF refl n0]
  have sz: "0 < m_nDataSize ?t" "m_nDataSize ?t \<le> MAX_FILE_SIZE" using t n s(4,5) n0 by (simp_all add: word_le_nat_alt word_gt_0 MAX_FILE_SIZE_def)
  have own: "m_nDataSize ?t = m_nFileSize (m_pOwner (kf_pAICHHashSet (hashed_file h md4 True True data)))"
    "m_nDataSize ?t = m_nFileSize (m_pOwner (kf_pAICHHashSet (hashed_file h md4 False True data)))" using facts(5) t by simp_all
  note aich = finish_AICH_saves [OF facts(4) own(1) sz es k c, where g = g and set_length = set_length, folded K]
    finish_AICH_saves [OF facts(4) own(2) sz es k c, where g = g and set_length = set_length, folded K]
  let ?F = "\<lambda>toMD4. hashed_file h md4 toMD4 True data"
  have tree: "file_tree (?F True) = file_tree (?F False)" unfolding file_tree_def by (metis facts(6))
  obtain u k' where u: "ReCalculateHash (GetNewHashAlgo h) False (file_tree (?F True)) = (True, u)"
      "honest (GetNewHashAlgo h) u" "shaped u" "same_root ?t u" "leaf_hashes u = block_hashes data"
    and k': "finish_AICH h K c (?F True) = (Inr ((?F True)\<lparr>kf_pAICHHashSet := FreeHashSet ((kf_pAICHHashSet (?F True))\<lparr>m_pHashTree := u, m_eStatus := AICH_HASHSETCOMPLETE\<rparr>)\<rparr>),
        \<lparr>s_rootHashCache = met_index 1 (saved_entries es u), s_rootHashCacheLoaded = True\<rparr>, k')"
      "if m_Hash u \<in> fst ` set es then k' = None else \<exists>k1. k' = Some k1 \<and> mem_content k1 = met_bytes (saved_entries es u)"
    using aich(1) by blast
  obtain k'' where k'': "finish_AICH h K c (?F False) = (Inr ((?F False)\<lparr>kf_pAICHHashSet := FreeHashSet ((kf_pAICHHashSet (?F False))\<lparr>m_pHashTree := u, m_eStatus := AICH_HASHSETCOMPLETE\<rparr>)\<rparr>),
        \<lparr>s_rootHashCache = met_index 1 (saved_entries es u), s_rootHashCacheLoaded = True\<rparr>, k'')"
      "if m_Hash u \<in> fst ` set es then k'' = None else \<exists>k1. k'' = Some k1 \<and> mem_content k1 = met_bytes (saved_entries es u)"
    using aich(2) u(1) unfolding tree by (metis prod.inject)
  note kept = complete_set_kept [OF u(2)]
  have size_u: "m_nDataSize u = of_nat (length data)" using u(4) t by (simp add: same_root_def)
  let ?done = "\<lambda>toMD4. (?F toMD4)\<lparr>kf_pAICHHashSet := FreeHashSet ((kf_pAICHHashSet (?F toMD4))\<lparr>m_pHashTree := u, m_eStatus := AICH_HASHSETCOMPLETE\<rparr>)\<rparr>"
  have both: "CHashingTask_Entry h md4 V (Some s) True True None K c = (Inr (MULE_EVT_HASHING (?done True)),
      \<lparr>s_rootHashCache = met_index 1 (saved_entries es u), s_rootHashCacheLoaded = True\<rparr>, k')"
    unfolding V by (subst mem_in.CHashingTask_Entry_runs [OF s]) (simp_all add: k'(1))
  have aich_only: "CHashingTask_Entry h md4 V (Some s) False True None K c = (Inr (MULE_EVT_AICH_HASHING (?done False)),
      \<lparr>s_rootHashCache = met_index 1 (saved_entries es u), s_rootHashCacheLoaded = True\<rparr>, k'')"
    unfolding V by (subst mem_in.CHashingTask_Entry_runs [OF s]) (simp_all add: k''(1))
  have md4_only: "CHashingTask_Entry h md4 V (Some s) True False None K c = (Inr (MULE_EVT_HASHING (hashed_file h md4 True False data)), c, None)"
    unfolding V by (subst mem_in.CHashingTask_Entry_runs [OF s]) simp_all
  note md4 = hashed_file_md4 [OF s(4,5)]
  have "kf_abyFileHash (?done True) = ed2k_hash md4 data \<and> kf_hashlist (?done True) = (if length data < 9728000 then [] else ed2k_hashlist md4 data)"
    "\<forall>r \<in> {kf_pAICHHashSet (?done True), kf_pAICHHashSet (?done False)}. m_eStatus r = AICH_HASHSETCOMPLETE \<and> HasValidMasterHash r \<and> GetMasterHash r = m_Hash u"
    by (simp_all add: md4 kept)
  moreover have "\<forall>r \<in> {k', k''}. if m_Hash u \<in> fst ` set es then r = None else \<exists>k1. r = Some k1 \<and> mem_content k1 = met_bytes (saved_entries es u)"
    using k'(2) k''(2) by blast
  ultimately have ?A using u(2,3,5) size_u both aich_only by blast
  then show ?thesis using md4_only md4 by blast
qed

lemma const_file:
  "mem_inv (CMemFile_const bs)" "m_position (CMemFile_const bs) = 0" "mem_content (CMemFile_const bs) = bs" "m_fileSize (CMemFile_const bs) = length bs"
  by (simp_all add: CMemFile_const_def CMemFile_attach_def mem_inv_def mem_content_def m_BufferSize_def)

theorem hashing_task_hashes_file_witness:
  "\<exists>u f c' k'. leaf_hashes u = [sha1 [1, 2, 3]] \<and>
    CHashingTask_Entry LittleEndian (\<lambda>_. g_emptyMD4Hash) (mem_ops (total_heap (\<lambda>_. 0))) (Some (CMemFile_const [1, 2, 3])) True True None
      (memory_known2 (\<lambda>_. 0) (\<lambda>_. io_return ()) (CMemFile_new 0)) \<lparr>s_rootHashCache = Map.empty, s_rootHashCacheLoaded = False\<rparr> =
      (Inr (MULE_EVT_HASHING f), c', Some k') \<and>
    mem_content k' = met_bytes [(m_Hash u, leaf_hashes u)] \<and> kf_abyFileHash f = g_emptyMD4Hash \<and> kf_hashlist f = []"
proof -
  have b: "block_hashes [1, 2, 3] = [sha1 [1, 2, 3]]" by (simp add: block_hashes_def chunks.simps)
  show ?thesis
    using hashing_task_hashes_file [of "CMemFile_const [1, 2, 3]" "[1, 2, 3]" "[]" "CMemFile_new 0" "\<lparr>s_rootHashCache = Map.empty, s_rootHashCacheLoaded = False\<rparr>"
      "mem_ops (total_heap (\<lambda>_. 0))" "total_heap (\<lambda>_. 0)" "memory_known2 (\<lambda>_. 0) (\<lambda>_. io_return ()) (CMemFile_new 0)" "\<lambda>_. 0" "\<lambda>_. io_return ()" LittleEndian "\<lambda>_. g_emptyMD4Hash"]
    by (auto simp: b saved_entries_def ed2k_hash_def const_file)
qed

text \<open>C18: a task that cannot open its file, finds it empty or larger than 256 GiB, or is told to end before
  its last part has been hashed posts no hashes and leaves \<open>known2_64.met\<close> and the cache alone.\<close>

theorem hashing_task_ends_silently:
  assumes "case opened of None \<Rightarrow> True
    | Some s \<Rightarrow> GetLength V s = 0 \<or> unat MAX_FILE_SIZE < GetLength V s \<or>
        (\<exists>n. d = Some n \<and> n \<le> unat (kf_iPartCount (KnownFile_SetFileSize (of_nat (GetLength V s)) CKnownFile_new)))"
  shows "\<exists>r. CHashingTask_Entry h md4 V opened toMD4 toAICH d K c = (r, c, None) \<and> (r = Inr NoEvent \<or> (\<exists>e. r = Inl e \<and> \<not> is_CSafeIOException e))"
proof (cases opened)
  case (Some s)
  let ?f0 = "KnownFile_SetFileSize (of_nat (GetLength V s)) CKnownFile_new"
  let ?f = "if toAICH then ?f0\<lparr>kf_pAICHHashSet := FreeHashSet (kf_pAICHHashSet ?f0)\<rparr> else ?f0"
  obtain res f' where p: "hash_parts h md4 V toMD4 toAICH d (unat (kf_iPartCount ?f)) 0 ?f s = (res, f')" by (metis prod.collapse)
  have cnt: "kf_iPartCount f' = kf_iPartCount ?f0" using hash_parts_not_ended [OF p] by (simp split: if_splits)
  show ?thesis
  proof (cases "GetLength V s = 0 \<or> unat MAX_FILE_SIZE < GetLength V s \<or> \<not> toMD4 \<and> \<not> toAICH")
    case True
    then show ?thesis by (auto simp: CHashingTask_Entry_def Some Let_def)
  next
    case False
    then obtain n where "d = Some n" "n \<le> unat (kf_iPartCount f')" using assms cnt by (auto simp: Some)
    then have td: "TestDestroy d (unat (kf_iPartCount f'))" "TestDestroy d (unat (kf_iPartCount f') + 1)"
      "TestDestroy d (unat (kf_iPartCount f') + 2)" "TestDestroy d (unat (kf_iPartCount f') + 3)"
      by (simp_all add: TestDestroy_def)
    have "CHashingTask_Entry h md4 V opened toMD4 toAICH d K c =
        (case res of Exc e s' \<Rightarrow> (if is_CSafeIOException e then Inr NoEvent else Inl e, c, None) | Ok b s' \<Rightarrow> (Inr NoEvent, c, None))"
      using False p td unfolding CHashingTask_Entry_def Some
      by (cases res) (auto simp: Let_def post_event_def simp del: is_CSafeIOException.simps split: bool.split)
    then show ?thesis by (auto simp del: is_CSafeIOException.simps split: res.splits)
  qed
qed (simp add: CHashingTask_Entry_def)

theorem hashing_task_ends_silently_witness:
  "\<exists>r. CHashingTask_Entry LittleEndian (\<lambda>_. g_emptyMD4Hash) (mem_ops (total_heap (\<lambda>_. 0))) (Some (CMemFile_const [1, 2, 3])) True True (Some 1)
      (memory_known2 (\<lambda>_. 0) (\<lambda>_. io_return ()) (CMemFile_new 0)) \<lparr>s_rootHashCache = Map.empty, s_rootHashCacheLoaded = False\<rparr> =
      (r, \<lparr>s_rootHashCache = Map.empty, s_rootHashCacheLoaded = False\<rparr>, None) \<and> (r = Inr NoEvent \<or> (\<exists>e. r = Inl e \<and> \<not> is_CSafeIOException e))"
  by (rule hashing_task_ends_silently) (simp add: KnownFile_SetFileSize_def PARTSIZE_def Let_def const_file)

end
