(* ===== verification/GapList.thy ===== *)
theory GapList
  imports StdMap Constants
begin

text \<open>
  \<open>CGapList\<close> (src/amule-3.0.1/src/GapList.h and GapList.cpp): the byte ranges of a part
  file that are still missing. The ranges are kept in a \<open>std::map\<close> from the last byte of a
  gap to its first byte; beside it the class caches the completeness of every part and the
  total size of the gaps. All arithmetic is on 64-, 32- and 16-bit words, and the writes to the
  part cache are bounds-checked (\<open>None\<close> is an access outside the vector, or a part loop
  that never ends).

  The abstraction is the set of missing byte offsets, \<open>missing\<close>; the operations are shown
  to be set union, set difference, an intersection test and a cardinality on it, under an
  invariant that says the gaps are separated and the two caches agree with them. The locale
  \<open>gap_store\<close> states that contract for the code that uses a gap list.
\<close>

subsection \<open>The class\<close>

datatype ePartComplete = complete | incomplete | unknown

record gaplist =
  m_gaplist :: "(u64, u64) std_map"
  m_filesize :: u64
  m_iPartCount :: u16
  m_sizeLastPart :: u32
  m_totalGapSize :: u64
  m_totalGapSizeValid :: bool
  m_partsComplete :: "ePartComplete list"

definition GetPartSize :: "gaplist \<Rightarrow> u16 \<Rightarrow> u32" where
  "GetPartSize g part =
     (if uint part = uint (m_iPartCount g) - 1 then m_sizeLastPart g else ucast PARTSIZE)"

text \<open>\<open>ArgCheck\<close> returns the clipped end, \<open>None\<close> for the result \<open>false\<close>.\<close>

definition ArgCheck :: "gaplist \<Rightarrow> u64 \<Rightarrow> u64 \<Rightarrow> u64 option" where
  "ArgCheck g gapstart gapend =
     (if gapend < gapstart then None
      else if gapend \<ge> m_filesize g then Some (m_filesize g - 1)
      else Some gapend)"

text \<open>The loop that marks the parts a range touches; its counter is a \<open>uint16\<close>.\<close>

partial_function (option) mark_parts ::
  "ePartComplete \<Rightarrow> u16 \<Rightarrow> u16 \<Rightarrow> ePartComplete list \<Rightarrow> ePartComplete list option" where
  "mark_parts st part partlast v =
     (if part \<le> partlast
      then Option.bind (vec_set (unat part) st v) (mark_parts st (part + 1) partlast)
      else Some v)"

fun AddGap_loop :: "(u64, u64) std_map \<Rightarrow> u64 \<Rightarrow> u64 \<Rightarrow> (u64, u64) std_map \<Rightarrow> (u64, u64) std_map" where
  "AddGap_loop [] gapstart gapend m = std_insert gapend gapstart m"
| "AddGap_loop ((curGapEnd, curGapStart) # it) gapstart gapend m =
     (if curGapStart \<ge> gapstart \<and> curGapEnd \<le> gapend then
        AddGap_loop it gapstart gapend (std_erase curGapEnd m)
      else if curGapStart \<ge> gapstart \<and> curGapStart \<le> gapend + 1 then
        AddGap_loop it gapstart curGapEnd (std_erase curGapEnd m)
      else if curGapEnd \<le> gapend \<and> curGapEnd \<ge> gapstart - 1 then
        AddGap_loop it curGapStart gapend (std_erase curGapEnd m)
      else if curGapStart \<le> gapstart \<and> curGapEnd \<ge> gapend then m
      else if curGapStart > gapstart then std_insert gapend gapstart m
      else AddGap_loop it gapstart gapend m)"

definition AddGap :: "u64 \<Rightarrow> u64 \<Rightarrow> gaplist \<Rightarrow> gaplist option" where
  "AddGap gapstart gapend0 g =
     (case ArgCheck g gapstart gapend0 of
        None \<Rightarrow> Some g
      | Some gapend \<Rightarrow>
          Option.bind
            (mark_parts incomplete (ucast (gapstart div PARTSIZE)) (ucast (gapend div PARTSIZE))
               (m_partsComplete g))
            (\<lambda>v. Some (g\<lparr>m_partsComplete := v, m_totalGapSizeValid := False,
                 m_gaplist := AddGap_loop
                   (std_lower_bound (if gapstart > 0 then gapstart - 1 else 0) (m_gaplist g))
                   gapstart gapend (m_gaplist g)\<rparr>)))"

definition AddGap_part :: "u16 \<Rightarrow> gaplist \<Rightarrow> gaplist option" where
  "AddGap_part part g =
     (if part \<ge> m_iPartCount g then Some g
      else let gapstart = ucast part * PARTSIZE;
               gapend = gapstart + ucast (GetPartSize g part) - 1
           in Option.bind (AddGap gapstart gapend g)
                (\<lambda>g'. Option.bind (vec_set (unat part) incomplete (m_partsComplete g'))
                  (\<lambda>v. Some (g'\<lparr>m_partsComplete := v\<rparr>))))"

fun FillGap_loop :: "(u64, u64) std_map \<Rightarrow> u64 \<Rightarrow> u64 \<Rightarrow> (u64, u64) std_map \<Rightarrow> (u64, u64) std_map" where
  "FillGap_loop [] partstart partend m = m"
| "FillGap_loop ((curGapEnd, curGapStart) # it) partstart partend m =
     (if curGapStart \<ge> partstart then
        (if curGapEnd \<le> partend then
           FillGap_loop it partstart partend (std_erase curGapEnd m)
         else if curGapStart \<le> partend then std_set curGapEnd (partend + 1) m
         else m)
      else
        (if curGapEnd > partend then
           std_insert (partstart - 1) curGapStart (std_set curGapEnd (partend + 1) m)
         else if curGapEnd \<ge> partstart then
           FillGap_loop it partstart partend
             (std_erase curGapEnd (std_insert (partstart - 1) curGapStart m))
         else FillGap_loop it partstart partend m))"

definition FillGap :: "u64 \<Rightarrow> u64 \<Rightarrow> gaplist \<Rightarrow> gaplist option" where
  "FillGap partstart partend0 g =
     (case ArgCheck g partstart partend0 of
        None \<Rightarrow> Some g
      | Some partend \<Rightarrow>
          Option.bind
            (mark_parts unknown (ucast (partstart div PARTSIZE)) (ucast (partend div PARTSIZE))
               (m_partsComplete g))
            (\<lambda>v. Some (g\<lparr>m_partsComplete := v, m_totalGapSizeValid := False,
                 m_gaplist := FillGap_loop (std_lower_bound partstart (m_gaplist g))
                   partstart partend (m_gaplist g)\<rparr>)))"

definition FillGap_part :: "u16 \<Rightarrow> gaplist \<Rightarrow> gaplist option" where
  "FillGap_part part g =
     (if part \<ge> m_iPartCount g then Some g
      else let gapstart = ucast part * PARTSIZE;
               gapend = gapstart + ucast (GetPartSize g part) - 1
           in Option.bind (FillGap gapstart gapend g)
                (\<lambda>g'. Option.bind (vec_set (unat part) complete (m_partsComplete g'))
                  (\<lambda>v. Some (g'\<lparr>m_partsComplete := v\<rparr>))))"

definition Init :: "u64 \<Rightarrow> bool \<Rightarrow> gaplist option" where
  "Init fileSize isEmpty =
     (let partCount0 = ucast (fileSize div PARTSIZE + 1) :: u16;
          sizeLast0 = ucast (fileSize mod PARTSIZE) :: u32;
          whole = (sizeLast0 = 0 \<and> fileSize \<noteq> 0);
          sizeLast = (if whole then ucast PARTSIZE else sizeLast0);
          partCount = (if whole then partCount0 - 1 else partCount0);
          g = \<lparr>m_gaplist = [], m_filesize = fileSize, m_iPartCount = partCount,
               m_sizeLastPart = sizeLast, m_totalGapSize = 0, m_totalGapSizeValid = True,
               m_partsComplete = replicate (unat partCount) (if isEmpty then incomplete else complete)\<rparr>
      in if isEmpty
         then map_option (\<lambda>g'. g'\<lparr>m_totalGapSize := fileSize, m_totalGapSizeValid := True\<rparr>)
                (AddGap 0 (fileSize - 1) g)
         else Some g)"

definition GetGapSize :: "gaplist \<Rightarrow> u64 \<times> gaplist" where
  "GetGapSize g =
     (let g' = (if \<not> m_totalGapSizeValid g
                then g\<lparr>m_totalGapSizeValid := True,
                       m_totalGapSize := foldl (\<lambda>t p. t + (fst p - snd p + 1)) 0 (m_gaplist g)\<rparr>
                else g)
      in (m_totalGapSize g', g'))"

fun GetGapSize_part_loop :: "(u64, u64) std_map \<Rightarrow> u64 \<Rightarrow> u64 \<Rightarrow> u64 \<Rightarrow> u64" where
  "GetGapSize_part_loop [] uRangeStart uRangeEnd uTotal = uTotal"
| "GetGapSize_part_loop ((curGapEnd, curGapStart) # it) uRangeStart uRangeEnd uTotal =
     (if curGapStart \<le> uRangeStart \<and> curGapEnd \<ge> uRangeEnd then
        uTotal + (uRangeEnd - uRangeStart + 1)
      else if curGapStart \<ge> uRangeStart then
        (if curGapStart \<le> uRangeEnd then
           GetGapSize_part_loop it uRangeStart uRangeEnd
             (uTotal + (min curGapEnd uRangeEnd - curGapStart + 1))
         else uTotal)
      else if curGapEnd \<ge> uRangeStart \<and> curGapEnd \<le> uRangeEnd then
        GetGapSize_part_loop it uRangeStart uRangeEnd (uTotal + (curGapEnd - uRangeStart + 1))
      else GetGapSize_part_loop it uRangeStart uRangeEnd uTotal)"

definition GetGapSize_part :: "gaplist \<Rightarrow> u16 \<Rightarrow> u32" where
  "GetGapSize_part g part =
     (let uRangeStart = ucast part * PARTSIZE;
          uRangeEnd = uRangeStart + ucast (GetPartSize g part) - 1
      in ucast (GetGapSize_part_loop (std_lower_bound uRangeStart (m_gaplist g))
                  uRangeStart uRangeEnd 0))"

fun IsComplete_loop :: "(u64, u64) std_map \<Rightarrow> u64 \<Rightarrow> u64 \<Rightarrow> bool" where
  "IsComplete_loop [] gapstart gapend = True"
| "IsComplete_loop ((curGapEnd, curGapStart) # it) gapstart gapend =
     (if curGapStart \<ge> gapstart \<and> curGapEnd \<le> gapend
         \<or> curGapStart \<ge> gapstart \<and> curGapStart \<le> gapend
         \<or> curGapEnd \<le> gapend \<and> curGapEnd \<ge> gapstart
         \<or> gapstart \<ge> curGapStart \<and> gapend \<le> curGapEnd then False
      else if curGapStart > gapend then True
      else IsComplete_loop it gapstart gapend)"

definition IsComplete_range :: "gaplist \<Rightarrow> u64 \<Rightarrow> u64 \<Rightarrow> bool" where
  "IsComplete_range g gapstart gapend0 =
     (case ArgCheck g gapstart gapend0 of
        None \<Rightarrow> False
      | Some gapend \<Rightarrow> IsComplete_loop (std_lower_bound gapstart (m_gaplist g)) gapstart gapend)"

definition IsComplete_part :: "u16 \<Rightarrow> gaplist \<Rightarrow> (bool \<times> gaplist) option" where
  "IsComplete_part part g =
     (if part = m_iPartCount g \<and> ucast (m_sizeLastPart g) = PARTSIZE then Some (True, g)
      else if part \<ge> m_iPartCount g then Some (False, g)
      else Option.bind (vec_get (unat part) (m_partsComplete g))
        (\<lambda>status.
          if status = unknown then
            let partstart = ucast part * PARTSIZE;
                partend = partstart + ucast (GetPartSize g part) - 1;
                status' = (if IsComplete_range g partstart partend then complete else incomplete)
            in Option.bind (vec_set (unat part) status' (m_partsComplete g))
                 (\<lambda>v. Some (status' = complete, g\<lparr>m_partsComplete := v\<rparr>))
          else Some (status = complete, g)))"

definition IsComplete_all :: "gaplist \<Rightarrow> bool" where
  "IsComplete_all g \<longleftrightarrow> m_gaplist g = []"


subsection \<open>The missing bytes and the separation of the gaps\<close>

definition gap_bytes :: "(u64, u64) std_map \<Rightarrow> nat set" where
  "gap_bytes m = (\<Union>p \<in> set m. {unat (snd p) .. unat (fst p)})"

definition gaps_wf :: "nat \<Rightarrow> (u64, u64) std_map \<Rightarrow> bool" where
  "gaps_wf fs m \<longleftrightarrow>
     sorted_wrt (\<lambda>p q. unat (fst p) + 1 < unat (snd q)) m \<and>
     (\<forall>p \<in> set m. unat (snd p) \<le> unat (fst p) \<and> unat (fst p) < fs)"

lemma gap_bytes_simps [simp]:
  "gap_bytes [] = {}"
  "gap_bytes ((e, s) # m) = {unat s .. unat e} \<union> gap_bytes m"
  "gap_bytes (m @ m') = gap_bytes m \<union> gap_bytes m'"
  by (auto simp: gap_bytes_def)

lemma gaps_wf_Nil [simp]: "gaps_wf fs []"
  by (simp add: gaps_wf_def)

lemma gaps_wf_Cons [simp]:
  "gaps_wf fs ((e, s) # m) \<longleftrightarrow>
     unat s \<le> unat e \<and> unat e < fs \<and> (\<forall>p \<in> set m. unat e + 1 < unat (snd p)) \<and> gaps_wf fs m"
  by (auto simp: gaps_wf_def)

lemma gaps_wf_append:
  "gaps_wf fs (xs @ ys) \<longleftrightarrow> gaps_wf fs xs \<and> gaps_wf fs ys \<and>
     (\<forall>p \<in> set xs. \<forall>q \<in> set ys. unat (fst p) + 1 < unat (snd q))"
  by (auto simp: gaps_wf_def sorted_wrt_append)

lemma gaps_wf_start_le: "gaps_wf fs m \<Longrightarrow> p \<in> set m \<Longrightarrow> unat (snd p) \<le> unat (fst p)"
  by (auto simp: gaps_wf_def)

lemma gaps_wf_end_less: "gaps_wf fs m \<Longrightarrow> p \<in> set m \<Longrightarrow> unat (fst p) < fs"
  by (auto simp: gaps_wf_def)

lemma gaps_wf_map_wf: "gaps_wf fs m \<Longrightarrow> map_wf m"
proof (induction m)
  case (Cons p m)
  obtain e s where p: "p = (e, s)" by (cases p)
  have "e < fst q" if "q \<in> set m" for q
    using Cons.prems that gaps_wf_start_le [of fs m q] p by (fastforce simp: unat_conv)
  with Cons p show ?case by auto
qed simp

lemma gap_bytes_bound: "gaps_wf fs m \<Longrightarrow> gap_bytes m \<subseteq> {..<fs}"
  by (fastforce simp: gap_bytes_def gaps_wf_def)

lemma finite_gap_bytes [simp]: "finite (gap_bytes m)"
  by (simp add: gap_bytes_def)

text \<open>Every gap entry of a well-formed list ends before the next ones start, in whatever
  way the list is split.\<close>

lemma gaps_wf_before:
  assumes "gaps_wf fs (xs @ ys)" "p \<in> set xs" "q \<in> set ys"
  shows "unat (fst p) + 1 < unat (snd q)" "unat (fst p) < unat (fst q)" "fst p < fst q"
proof -
  from assms show 1: "unat (fst p) + 1 < unat (snd q)" by (simp add: gaps_wf_append)
  have "unat (snd q) \<le> unat (fst q)"
    using assms by (auto simp: gaps_wf_append intro: gaps_wf_start_le)
  with 1 show "unat (fst p) < unat (fst q)" by simp
  then show "fst p < fst q" by (simp add: unat_conv)
qed

lemma erase_mid:
  assumes "gaps_wf fs (pre @ (e, s) # it)"
  shows "std_erase e (pre @ (e, s) # it) = pre @ it"
proof (rule std_erase_append)
  fix p assume "p \<in> set pre"
  from gaps_wf_before(3) [OF assms this, of "(e, s)"] show "fst p \<noteq> e" by simp
qed

lemma gaps_wf_remove: "gaps_wf fs (pre @ x # it) \<Longrightarrow> gaps_wf fs (pre @ it)"
  by (cases x) (auto simp: gaps_wf_append)

subsection \<open>AddGap unites\<close>

text \<open>A new gap with room on both sides is inserted between them.\<close>

lemma insert_separated:
  assumes wf: "gaps_wf fs (pre @ it)" and se: "unat s \<le> unat e" "unat e < fs"
    and pre: "\<And>p. p \<in> set pre \<Longrightarrow> unat (fst p) + 1 < unat s"
    and it: "\<And>p. p \<in> set it \<Longrightarrow> unat e + 1 < unat (snd p)"
  shows "std_insert e s (pre @ it) = pre @ (e, s) # it" "gaps_wf fs (pre @ (e, s) # it)"
proof -
  have "fst p < e" if "p \<in> set pre" for p
    using pre [OF that] se by (simp add: unat_conv)
  moreover have "e < fst p" if "p \<in> set it" for p
    using it [OF that] wf that gaps_wf_start_le [of fs it p]
    by (simp add: unat_conv gaps_wf_append)
  ultimately show "std_insert e s (pre @ it) = pre @ (e, s) # it"
    by (rule std_insert_between)
  show "gaps_wf fs (pre @ (e, s) # it)"
    using wf se pre it by (auto simp: gaps_wf_append)
qed

lemma AddGap_loop_correct:
  assumes "gaps_wf fs (pre @ it)" "unat gs \<le> unat ge" "unat ge < fs" "fs < 2 ^ 64"
    and "\<And>p. p \<in> set pre \<Longrightarrow> unat (fst p) + 1 < unat gs"
  shows "gaps_wf fs (AddGap_loop it gs ge (pre @ it)) \<and>
     gap_bytes (AddGap_loop it gs ge (pre @ it)) = gap_bytes (pre @ it) \<union> {unat gs .. unat ge}"
  using assms
proof (induction it arbitrary: pre gs ge)
  case Nil
  have "std_insert ge gs (pre @ []) = pre @ (ge, gs) # []" "gaps_wf fs (pre @ (ge, gs) # [])"
    by (rule insert_separated; use Nil.prems in force)+
  then show ?case by auto
next
  case (Cons p it)
  obtain ce cs where p: "p = (ce, cs)" by (cases p)
  note wf = Cons.prems(1) [unfolded p]
  have cur: "unat cs \<le> unat ce" "unat ce < fs" "\<And>q. q \<in> set it \<Longrightarrow> unat ce + 1 < unat (snd q)"
    using wf by (auto simp: gaps_wf_append)
  have pre_cs: "unat (fst q) + 1 < unat cs" if "q \<in> set pre" for q
    using wf that by (auto simp: gaps_wf_append)
  have er: "std_erase ce (pre @ (ce, cs) # it) = pre @ it"
    by (rule erase_mid [OF wf])
  have wf': "gaps_wf fs (pre @ it)"
    by (rule gaps_wf_remove [OF wf])
  have ge1: "unat (ge + 1) = unat ge + 1"
    using Cons.prems(3,4) by (intro unat_add_1) simp
  have gs1: "gs \<noteq> 0 \<Longrightarrow> unat (gs - 1) = unat gs - 1"
    by (rule unat_sub_1)
  consider (inside) "cs \<ge> gs" "ce \<le> ge"
    | (head) "\<not> (cs \<ge> gs \<and> ce \<le> ge)" "cs \<ge> gs" "cs \<le> ge + 1"
    | (tail) "\<not> cs \<ge> gs" "ce \<le> ge" "ce \<ge> gs - 1"
    | (enclosed) "\<not> cs \<ge> gs" "\<not> ce \<le> ge"
    | (behind) "cs \<ge> gs" "\<not> cs \<le> ge + 1"
    | (before) "\<not> cs \<ge> gs" "ce \<le> ge" "\<not> ce \<ge> gs - 1"
    by blast
  then show ?case
  proof cases
    case inside
    from Cons.IH [OF wf' Cons.prems(2,3,4,5)] inside cur show ?thesis
      by (auto simp: p er unat_conv)
  next
    case head
    have "unat gs \<le> unat ce" using head cur(1) by (simp add: unat_conv)
    from Cons.IH [OF wf' this cur(2) Cons.prems(4,5)] head cur ge1 show ?thesis
      by (auto simp: p er unat_conv)
  next
    case tail
    have gs0: "gs \<noteq> 0" using tail(1) by auto
    have *: "unat cs \<le> unat ge" using tail cur(1) by (simp add: unat_conv)
    from tail gs0 gs1 have "unat gs \<le> unat ce + 1" by (simp add: unat_conv)
    with Cons.IH [OF wf' * Cons.prems(3,4) pre_cs] tail cur Cons.prems(2) show ?thesis
      by (auto simp: p er unat_conv)
  next
    case enclosed
    then have "{unat gs .. unat ge} \<subseteq> {unat cs .. unat ce}" by (auto simp: unat_conv)
    with enclosed wf show ?thesis by (auto simp: p unat_conv)
  next
    case behind
    have "unat ge + 1 < unat (snd q)" if "q \<in> set (p # it)" for q
      using that behind cur(1,3) ge1 by (fastforce simp: p unat_conv)
    from insert_separated [OF Cons.prems(1,2,3,5) this] behind cur(1) ge1 Cons.prems(2) show ?thesis
      by (auto simp: p unat_conv)
  next
    case before
    have gs0: "gs \<noteq> 0" using before(1) by auto
    have *: "unat (fst q) + 1 < unat gs" if "q \<in> set (pre @ [(ce, cs)])" for q
      using that before gs0 gs1 Cons.prems(5) [of q] by (auto simp: unat_conv)
    have "gaps_wf fs ((pre @ [(ce, cs)]) @ it)" using wf by simp
    from Cons.IH [OF this Cons.prems(2,3,4) *] before gs1 [OF gs0] Cons.prems(2) show ?thesis
      by (auto simp: p unat_conv)
  qed
qed


subsection \<open>FillGap subtracts\<close>

lemma FillGap_loop_correct:
  assumes "gaps_wf fs (pre @ it)" "unat ps \<le> unat pe" "unat pe < fs" "fs < 2 ^ 64"
    and "\<And>p. p \<in> set pre \<Longrightarrow> unat (fst p) < unat ps"
    and "\<And>p. p \<in> set it \<Longrightarrow> unat ps \<le> unat (fst p)"
  shows "gaps_wf fs (FillGap_loop it ps pe (pre @ it)) \<and>
     gap_bytes (FillGap_loop it ps pe (pre @ it)) = gap_bytes (pre @ it) - {unat ps .. unat pe}"
  using assms
proof (induction it arbitrary: pre)
  case Nil
  then have "gap_bytes pre \<inter> {unat ps .. unat pe} = {}"
    by (fastforce simp: gap_bytes_def)
  with Nil show ?case by auto
next
  case (Cons p it)
  obtain ce cs where p: "p = (ce, cs)" by (cases p)
  note wf = Cons.prems(1) [unfolded p]
  have cur: "unat cs \<le> unat ce" "unat ce < fs" "\<And>q. q \<in> set it \<Longrightarrow> unat ce + 1 < unat (snd q)"
    using wf by (auto simp: gaps_wf_append)
  have pre_cs: "unat (fst q) + 1 < unat cs" "fst q < ce" if "q \<in> set pre" for q
    using gaps_wf_before [OF wf that, of "(ce, cs)"] by auto
  have ps_ce: "unat ps \<le> unat ce" using Cons.prems(6) [of p] by (simp add: p)
  have pe1: "unat (pe + 1) = unat pe + 1"
    using Cons.prems(3,4) by (intro unat_add_1) simp
  have pre_free: "gap_bytes pre \<inter> {unat ps .. unat pe} = {}"
    using Cons.prems(5) by (fastforce simp: gap_bytes_def)
  have it_free: "gap_bytes it \<inter> {unat ps .. unat pe} = {}" if "unat pe \<le> unat ce"
    using cur(3) that by (fastforce simp: gap_bytes_def)
  have st: "std_set ce v (pre @ (ce, cs) # it) = pre @ (ce, v) # it" for v
    using pre_cs(2) by (rule std_set_at)
  have wf': "gaps_wf fs (pre @ it)"
    by (rule gaps_wf_remove [OF wf])
  consider (covered) "cs \<ge> ps" "ce \<le> pe"
    | (lower) "cs \<ge> ps" "ce > pe" "cs \<le> pe"
    | (past) "cs \<ge> ps" "ce > pe" "cs > pe"
    | (split) "cs < ps" "ce > pe"
    | (upper) "cs < ps" "ce \<le> pe"
    by fastforce
  then show ?case
  proof cases
    case covered
    have "std_erase ce (pre @ (ce, cs) # it) = pre @ it" by (rule erase_mid [OF wf])
    with Cons.IH [OF wf' Cons.prems(2,3,4,5)] Cons.prems(6) covered show ?thesis
      by (auto simp: p unat_conv)
  next
    case lower
    then have "unat pe + 1 \<le> unat ce" by (simp add: unat_conv)
    with lower wf cur st pre_free it_free pe1 show ?thesis
      by (fastforce simp: p unat_conv gaps_wf_append)
  next
    case past
    with wf pre_free it_free show ?thesis by (fastforce simp: p unat_conv)
  next
    case split
    have ps1: "unat (ps - 1) = unat ps - 1" using split by (intro unat_sub_1) auto
    have wf2: "gaps_wf fs (pre @ (ce, pe + 1) # it)"
      using wf split pe1 cur Cons.prems(2) by (fastforce simp: unat_conv gaps_wf_append)
    have "std_insert (ps - 1) cs (pre @ (ce, pe + 1) # it) = pre @ (ps - 1, cs) # (ce, pe + 1) # it"
      "gaps_wf fs (pre @ (ps - 1, cs) # (ce, pe + 1) # it)"
      using insert_separated [OF wf2, of cs "ps - 1"] split ps1 pe1 cur Cons.prems(2,3) pre_cs(1)
      by (fastforce simp: unat_conv)+
    then show ?thesis
      using split st pre_free it_free pe1 ps1 Cons.prems(2) by (fastforce simp: p unat_conv)
  next
    case upper
    have "ps \<noteq> 0" using upper by auto
    then have ps1: "unat (ps - 1) = unat ps - 1" "ps \<noteq> 0" by (simp_all add: unat_sub_1)
    have "gaps_wf fs (pre @ (ps - 1, cs) # it)"
      using wf upper ps1 cur ps_ce by (fastforce simp: unat_conv gaps_wf_append)
    moreover have "std_insert (ps - 1) cs (pre @ (ce, cs) # it) = (pre @ [(ps - 1, cs)]) @ (ce, cs) # it"
      using std_insert_between [of pre "ps - 1" "(ce, cs) # it" cs] pre_cs(1) upper ps1 ps_ce cur
        Cons.prems(5) gaps_wf_before(3) [of fs "pre @ [(ce, cs)]" it "(ce, cs)"] wf
      by (fastforce simp: unat_conv)
    moreover have "std_erase ce ((pre @ [(ps - 1, cs)]) @ (ce, cs) # it) = (pre @ [(ps - 1, cs)]) @ it"
      by (rule std_erase_append) (use pre_cs(2) ps1 ps_ce in \<open>force simp: unat_conv\<close>)
    ultimately show ?thesis
      using Cons.IH [of "pre @ [(ps - 1, cs)]"] Cons.prems upper ps1 ps_ce pre_free
      by (fastforce simp: p unat_conv)
  qed
qed


subsection \<open>Queries\<close>

lemma IsComplete_loop_correct:
  assumes "gaps_wf fs it" "unat gs \<le> unat ge"
    and "\<And>p. p \<in> set it \<Longrightarrow> unat gs \<le> unat (fst p)"
  shows "IsComplete_loop it gs ge \<longleftrightarrow> gap_bytes it \<inter> {unat gs .. unat ge} = {}"
  using assms
proof (induction it)
  case (Cons p it)
  obtain ce cs where p: "p = (ce, cs)" by (cases p)
  have cur: "unat cs \<le> unat ce" "\<And>q. q \<in> set it \<Longrightarrow> unat ce + 1 < unat (snd q)" "unat gs \<le> unat ce"
    using Cons.prems(1) Cons.prems(3) [of p] by (auto simp: p)
  have IH: "IsComplete_loop it gs ge \<longleftrightarrow> gap_bytes it \<inter> {unat gs .. unat ge} = {}"
    using Cons by (auto simp: p)
  have past: "gap_bytes it \<inter> {unat gs .. unat ge} = {}" if "unat ge \<le> unat ce"
    using cur(2) that by (fastforce simp: gap_bytes_def)
  show ?case
  proof (cases "unat cs \<le> unat ge")
    case True
    then have "max (unat cs) (unat gs) \<in> gap_bytes (p # it) \<inter> {unat gs .. unat ge}"
      using cur Cons.prems(2) by (simp add: p)
    then have "gap_bytes (p # it) \<inter> {unat gs .. unat ge} \<noteq> {}" by blast
    moreover have "\<not> IsComplete_loop (p # it) gs ge"
      using True cur Cons.prems(2) by (auto simp: p unat_conv)
    ultimately show ?thesis by simp
  next
    case False
    then have "IsComplete_loop (p # it) gs ge" "gap_bytes (p # it) \<inter> {unat gs .. unat ge} = {}"
      using past cur(1) Cons.prems(2) by (auto simp: p unat_conv)
    then show ?thesis by simp
  qed
qed simp

lemma card_gap_bytes_Cons:
  assumes "gaps_wf fs ((e, s) # m)"
  shows "card (gap_bytes ((e, s) # m)) = unat (e - s) + 1 + card (gap_bytes m)"
proof -
  have "{unat s .. unat e} \<inter> gap_bytes m = {}"
    using assms by (fastforce simp: gap_bytes_def)
  moreover have "unat (e - s) = unat e - unat s"
    using assms by (intro unat_sub_le) (simp add: unat_conv)
  moreover have "unat s \<le> unat e" using assms by simp
  ultimately show ?thesis by (simp add: card_Un_disjoint)
qed

lemma gap_sum_correct:
  assumes "gaps_wf fs m" "unat t + card (gap_bytes m) < 2 ^ 64"
  shows "unat (foldl (\<lambda>t p. t + (fst p - snd p + 1)) t m) = unat t + card (gap_bytes m)"
  using assms
proof (induction m arbitrary: t)
  case (Cons p m)
  obtain e s where p: "p = (e, s)" by (cases p)
  note c = card_gap_bytes_Cons [OF Cons.prems(1) [unfolded p]]
  have 1: "unat (e - s + 1) = unat (e - s) + 1"
    using Cons.prems(2) c by (intro unat_add_1) (simp add: p)
  have 2: "unat (t + (e - s + 1)) = unat t + (unat (e - s) + 1)"
    using Cons.prems(2) c 1 by (subst unat_add_small) (simp_all add: p)
  show ?case
    using Cons.IH [of "t + (e - s + 1)"] Cons.prems c 2 by (simp add: p)
qed simp


lemma card_gap_bytes_Int_Cons:
  assumes "gaps_wf fs ((e, s) # m)"
  shows "card (gap_bytes ((e, s) # m) \<inter> A) = card ({unat s .. unat e} \<inter> A) + card (gap_bytes m \<inter> A)"
proof -
  have "({unat s .. unat e} \<inter> A) \<inter> (gap_bytes m \<inter> A) = {}"
    using assms by (fastforce simp: gap_bytes_def)
  then show ?thesis by (simp add: Int_Un_distrib2 card_Un_disjoint)
qed

lemma GetGapSize_part_loop_correct:
  assumes "gaps_wf fs it" "unat rs \<le> unat re" "unat re < fs" "fs < 2 ^ 64"
    and "\<And>p. p \<in> set it \<Longrightarrow> unat rs \<le> unat (fst p)"
    and "unat t + card (gap_bytes it \<inter> {unat rs .. unat re}) < 2 ^ 64"
  shows "unat (GetGapSize_part_loop it rs re t) = unat t + card (gap_bytes it \<inter> {unat rs .. unat re})"
  using assms
proof (induction it arbitrary: t)
  case (Cons p it)
  let ?A = "{unat rs .. unat re}"
  obtain ce cs where p: "p = (ce, cs)" by (cases p)
  note split = card_gap_bytes_Int_Cons [OF Cons.prems(1) [unfolded p], of ?A]
  have cur: "unat cs \<le> unat ce" "unat ce < fs" "\<And>q. q \<in> set it \<Longrightarrow> unat ce + 1 < unat (snd q)"
    "unat rs \<le> unat ce"
    using Cons.prems(1) Cons.prems(5) [of p] by (auto simp: p)
  have past: "gap_bytes it \<inter> ?A = {}" if "unat re \<le> unat ce"
    using cur(3) that by (fastforce simp: gap_bytes_def)
  have span: "unat (b - a + 1) = unat b - unat a + 1" if "unat a \<le> unat b" "unat b < fs" for a b :: u64
    using that Cons.prems(4) unat_sub_le [of a b]
    by (subst unat_add_1) (simp_all add: unat_conv)
  have step: "unat (GetGapSize_part_loop it rs re (t + x)) = unat t + card (gap_bytes (p # it) \<inter> ?A)"
    if x: "unat x = card ({unat cs .. unat ce} \<inter> ?A)" for x
  proof -
    have "unat (t + x) = unat t + unat x"
      using Cons.prems(6) split x by (intro unat_add_small) (simp add: p)
    with Cons.IH [of "t + x"] Cons.prems split x show ?thesis by (simp add: p)
  qed
  consider (all) "cs \<le> rs" "re \<le> ce" | (mid) "\<not> (cs \<le> rs \<and> re \<le> ce)" "rs \<le> cs" "cs \<le> re"
    | (behind) "\<not> (cs \<le> rs \<and> re \<le> ce)" "rs \<le> cs" "\<not> cs \<le> re" | (low) "\<not> rs \<le> cs" "ce < re"
    by fastforce
  then show ?case
  proof cases
    case all
    then have eq: "{unat cs .. unat ce} \<inter> ?A = ?A" by (auto simp: unat_conv)
    have "unat (t + (re - rs + 1)) = unat t + (unat re - unat rs + 1)"
      using Cons.prems(2,3,6) split eq span
      by (subst unat_add_small) (simp_all add: p)
    with all past split eq Cons.prems(2) show ?thesis by (simp add: p unat_conv)
  next
    case mid
    then have eq: "{unat cs .. unat ce} \<inter> ?A = {unat cs .. unat (min ce re)}"
      by (auto simp: unat_conv min_def)
    have "unat (min ce re - cs + 1) = card ({unat cs .. unat ce} \<inter> ?A)"
      unfolding eq using mid cur Cons.prems(2,3) by (subst span) (auto simp: min_def unat_conv)
    from step [OF this] mid show ?thesis by (auto simp: p)
  next
    case behind
    then have "{unat cs .. unat ce} \<inter> ?A = {}" by (auto simp: unat_conv)
    with behind past split cur Cons.prems(2) show ?thesis by (auto simp: p unat_conv)
  next
    case low
    then have eq: "{unat cs .. unat ce} \<inter> ?A = {unat rs .. unat ce}" by (auto simp: unat_conv)
    have "unat (ce - rs + 1) = card ({unat cs .. unat ce} \<inter> ?A)"
      unfolding eq using low cur by (subst span) (auto simp: unat_conv)
    from step [OF this] low cur show ?thesis by (auto simp: p unat_conv)
  qed
qed simp


subsection \<open>The class invariant\<close>

definition missing :: "gaplist \<Rightarrow> nat set" where
  "missing g = gap_bytes (m_gaplist g)"

definition file_size :: "gaplist \<Rightarrow> nat" where
  "file_size g = unat (m_filesize g)"

definition part_count :: "gaplist \<Rightarrow> nat" where
  "part_count g = unat (m_iPartCount g)"

definition part_bytes :: "gaplist \<Rightarrow> nat \<Rightarrow> nat set" where
  "part_bytes g p = {b. b < file_size g \<and> b div 9728000 = p}"

definition cache_ok :: "gaplist \<Rightarrow> bool" where
  "cache_ok g \<longleftrightarrow> (\<forall>p < part_count g.
     (m_partsComplete g ! p = complete \<longrightarrow> part_bytes g p \<inter> missing g = {}) \<and>
     (m_partsComplete g ! p = incomplete \<longrightarrow> part_bytes g p \<inter> missing g \<noteq> {}))"

definition gap_inv :: "gaplist \<Rightarrow> bool" where
  "gap_inv g \<longleftrightarrow>
     0 < file_size g \<and> file_size g \<le> unat MAX_FILE_SIZE \<and>
     part_count g = (file_size g - 1) div 9728000 + 1 \<and>
     unat (m_sizeLastPart g) = file_size g - (part_count g - 1) * 9728000 \<and>
     length (m_partsComplete g) = part_count g \<and>
     gaps_wf (file_size g) (m_gaplist g) \<and>
     cache_ok g \<and>
     (m_totalGapSizeValid g \<longrightarrow> unat (m_totalGapSize g) = card (missing g))"

lemma unat_PARTSIZE [simp]: "unat PARTSIZE = 9728000"
  by (simp add: PARTSIZE_def)

lemma unat_MAX_FILE_SIZE [simp]: "unat MAX_FILE_SIZE = 274877906944"
  by (simp add: MAX_FILE_SIZE_def)

lemma mark_parts_correct:
  assumes "unat l < length v" "unat l < 65535"
  shows "\<exists>w. mark_parts st p l v = Some w \<and> length w = length v \<and>
    (\<forall>i < length v. w ! i = (if unat p \<le> i \<and> i \<le> unat l then st else v ! i))"
  using assms
proof (induction "Suc (unat l) - unat p" arbitrary: p v)
  case 0
  then have "\<not> p \<le> l" by (simp add: unat_conv)
  then show ?case using 0 by (subst mark_parts.simps) (auto simp: unat_conv)
next
  case (Suc n)
  then have le: "p \<le> l" by (simp add: unat_conv)
  have p1: "unat (p + 1) = unat p + 1"
    using le Suc.prems by (intro unat_add_1) (simp add: unat_conv)
  have i: "unat p < length v" using le Suc.prems by (simp add: unat_conv)
  have "n = Suc (unat l) - unat (p + 1)" using Suc.hyps(2) p1 by simp
  from Suc.hyps(1) [OF this, of "v[unat p := st]"] Suc.prems
  obtain w where w: "mark_parts st (p + 1) l (v[unat p := st]) = Some w" "length w = length v"
    "\<forall>i < length v. w ! i = (if unat (p + 1) \<le> i \<and> i \<le> unat l then st else v[unat p := st] ! i)"
    by auto
  have "mark_parts st p l v = Some w"
    using le i w(1) by (subst mark_parts.simps) simp
  moreover have "w ! j = (if unat p \<le> j \<and> j \<le> unat l then st else v ! j)" if "j < length v" for j
    using w(3) that p1 le by (cases "j = unat p") (auto simp: unat_conv)
  ultimately show ?case using w(2) by blast
qed

lemma part_index:
  assumes "gap_inv g" "unat x < file_size g"
  shows "unat (ucast (x div PARTSIZE) :: u16) = unat x div 9728000"
    "unat x div 9728000 < part_count g" "part_count g < 65535"
proof -
  have "unat x div 9728000 \<le> (file_size g - 1) div 9728000"
    using assms(2) by (intro div_le_mono) simp
  also have "\<dots> \<le> 274877906944 div 9728000"
    using assms(1) by (intro div_le_mono) (auto simp: gap_inv_def)
  finally have "unat x div 9728000 < 65536" by simp
  then show "unat (ucast (x div PARTSIZE) :: u16) = unat x div 9728000"
    by (subst unat_ucast_small) (simp_all add: unat_div)
  show "unat x div 9728000 < part_count g"
    using assms \<open>unat x div 9728000 \<le> (file_size g - 1) div 9728000\<close> by (simp add: gap_inv_def)
  have "(file_size g - 1) div 9728000 \<le> 274877906944 div 9728000"
    using assms(1) by (intro div_le_mono) (auto simp: gap_inv_def)
  then show "part_count g < 65535" using assms(1) by (simp add: gap_inv_def)
qed

lemma ArgCheck_Some:
  assumes "gap_inv g" "gs \<le> ge" "unat gs < file_size g"
  obtains e where "ArgCheck g gs ge = Some e" "unat e = min (unat ge) (file_size g - 1)"
    "unat gs \<le> unat e" "unat e < file_size g"
proof -
  have "m_filesize g \<noteq> 0" using assms(1) by (auto simp: gap_inv_def file_size_def)
  then have fs: "unat (m_filesize g - 1) = file_size g - 1"
    by (simp add: unat_sub_1 file_size_def)
  show thesis
  proof (cases "m_filesize g \<le> ge")
    case True
    then show ?thesis
      using that [of "m_filesize g - 1"] assms fs
      by (auto simp: ArgCheck_def unat_conv file_size_def)
  next
    case False
    then show ?thesis
      using that [of ge] assms by (auto simp: ArgCheck_def unat_conv file_size_def)
  qed
qed

text \<open>A range touches a part between those of its two ends, and no other part.\<close>

lemma range_meets_part:
  assumes "s \<le> (e::nat)" "e < file_size g" "s div 9728000 \<le> p" "p \<le> e div 9728000"
  shows "part_bytes g p \<inter> {s .. e} \<noteq> {}"
proof -
  let ?b = "max s (p * 9728000)"
  have "?b \<le> e" using assms(1,4) by (simp add: less_eq_div_iff_mult_less_eq)
  moreover have "?b div 9728000 = p"
    using assms(3) by (auto simp: max_def)
  ultimately have "?b \<in> part_bytes g p \<inter> {s .. e}" using assms(2) by (simp add: part_bytes_def)
  then show ?thesis by blast
qed

lemma range_misses_part:
  assumes "\<not> (s div 9728000 \<le> p \<and> p \<le> e div 9728000)"
  shows "part_bytes g p \<inter> {s .. (e::nat)} = {}"
  using assms by (auto simp: part_bytes_def div_le_mono)


subsection \<open>The operations on the set of missing bytes\<close>

definition same_file :: "gaplist \<Rightarrow> gaplist \<Rightarrow> bool" where
  "same_file g' g \<longleftrightarrow> m_filesize g' = m_filesize g \<and> m_iPartCount g' = m_iPartCount g \<and>
     m_sizeLastPart g' = m_sizeLastPart g"

lemma same_file_simps:
  assumes "same_file g' g"
  shows "file_size g' = file_size g" "part_count g' = part_count g" "part_bytes g' p = part_bytes g p"
  using assms by (auto simp: same_file_def file_size_def part_count_def part_bytes_def)

lemma same_file_refl [simp]: "same_file g g"
  by (simp add: same_file_def)

lemma same_file_trans: "same_file a b \<Longrightarrow> same_file b c \<Longrightarrow> same_file a c"
  by (simp add: same_file_def)

lemma gap_inv_sizes:
  assumes "gap_inv g"
  shows "0 < file_size g" "file_size g < 2 ^ 64" "gaps_wf (file_size g) (m_gaplist g)"
    "missing g \<subseteq> {..<file_size g}" "finite (missing g)"
  using assms gap_bytes_bound [of "file_size g" "m_gaplist g"]
  by (auto simp: gap_inv_def missing_def)

text \<open>What a changed gap list with a remarked cache has to satisfy to be a legal state again.\<close>

lemma gap_inv_update:
  assumes inv: "gap_inv g" and len: "length v = part_count g"
    and wf: "gaps_wf (file_size g) m"
    and cache: "\<And>p. p < part_count g \<Longrightarrow>
      (v ! p = complete \<longrightarrow> part_bytes g p \<inter> gap_bytes m = {}) \<and>
      (v ! p = incomplete \<longrightarrow> part_bytes g p \<inter> gap_bytes m \<noteq> {})"
  shows "gap_inv (g\<lparr>m_partsComplete := v, m_totalGapSizeValid := False, m_gaplist := m\<rparr>)"
  using assms
  by (simp add: gap_inv_def cache_ok_def missing_def file_size_def part_count_def part_bytes_def)

lemma AddGap_range:
  assumes inv: "gap_inv g" and arg: "gs \<le> ge" "unat gs < file_size g"
  shows "\<exists>g'. AddGap gs ge g = Some g' \<and> gap_inv g' \<and> same_file g' g \<and>
    missing g' = missing g \<union> {unat gs .. min (unat ge) (file_size g - 1)} \<and>
    (\<forall>p < part_count g. unat gs div 9728000 \<le> p \<and> p \<le> min (unat ge) (file_size g - 1) div 9728000
       \<longrightarrow> m_partsComplete g' ! p = incomplete)"
proof -
  obtain e where e: "ArgCheck g gs ge = Some e" "unat e = min (unat ge) (file_size g - 1)"
    "unat gs \<le> unat e" "unat e < file_size g"
    using ArgCheck_Some [OF inv arg] by blast
  note wf = gap_inv_sizes(3) [OF inv]
  let ?lb = "if gs > 0 then gs - 1 else 0"
  obtain pre where pre: "m_gaplist g = pre @ std_lower_bound ?lb (m_gaplist g)"
    "\<And>p. p \<in> set pre \<Longrightarrow> fst p < ?lb"
    using std_lower_bound_split [OF gaps_wf_map_wf [OF wf]] by metis
  have "unat (fst p) + 1 < unat gs" if "p \<in> set pre" for p
    using pre(2) [OF that] unat_sub_1 [of gs] by (auto simp: unat_conv split: if_splits)
  with AddGap_loop_correct [of "file_size g" pre "std_lower_bound ?lb (m_gaplist g)" gs e]
  have loop: "gaps_wf (file_size g) (AddGap_loop (std_lower_bound ?lb (m_gaplist g)) gs e (m_gaplist g))"
    "gap_bytes (AddGap_loop (std_lower_bound ?lb (m_gaplist g)) gs e (m_gaplist g)) =
       missing g \<union> {unat gs .. unat e}" (is "gap_bytes ?m = _")
    using wf pre(1) e(3,4) gap_inv_sizes(2) [OF inv] by (auto simp: missing_def)
  note ixs = part_index [OF inv arg(2)] part_index [OF inv e(4)]
  obtain v where v: "mark_parts incomplete (ucast (gs div PARTSIZE)) (ucast (e div PARTSIZE))
       (m_partsComplete g) = Some v" "length v = part_count g"
    "\<forall>i < part_count g. v ! i = (if unat gs div 9728000 \<le> i \<and> i \<le> unat e div 9728000
       then incomplete else m_partsComplete g ! i)"
    using mark_parts_correct [of "ucast (e div PARTSIZE)" "m_partsComplete g" incomplete
        "ucast (gs div PARTSIZE)"] ixs inv by (auto simp: gap_inv_def)
  let ?g' = "g\<lparr>m_partsComplete := v, m_totalGapSizeValid := False, m_gaplist := ?m\<rparr>"
  have "gap_inv ?g'"
  proof (rule gap_inv_update [OF inv v(2) loop(1)])
    fix p assume p: "p < part_count g"
    show "(v ! p = complete \<longrightarrow> part_bytes g p \<inter> gap_bytes ?m = {}) \<and>
      (v ! p = incomplete \<longrightarrow> part_bytes g p \<inter> gap_bytes ?m \<noteq> {})"
    proof (cases "unat gs div 9728000 \<le> p \<and> p \<le> unat e div 9728000")
      case True
      with range_meets_part [of "unat gs" "unat e" g p] e v(3) p loop(2) show ?thesis by auto
    next
      case False
      with range_misses_part [OF False, of g] v(3) p loop(2) inv show ?thesis
        by (auto simp: gap_inv_def cache_ok_def Int_Un_distrib)
    qed
  qed
  moreover have "AddGap gs ge g = Some ?g'" by (simp add: AddGap_def e(1) v(1))
  moreover have "same_file ?g' g" by (simp add: same_file_def)
  ultimately show ?thesis using loop(2) e(2) v(3) by (auto simp: missing_def)
qed

lemma FillGap_range:
  assumes inv: "gap_inv g" and arg: "ps \<le> pe" "unat ps < file_size g"
  shows "\<exists>g'. FillGap ps pe g = Some g' \<and> gap_inv g' \<and> same_file g' g \<and>
    missing g' = missing g - {unat ps .. min (unat pe) (file_size g - 1)}"
proof -
  obtain e where e: "ArgCheck g ps pe = Some e" "unat e = min (unat pe) (file_size g - 1)"
    "unat ps \<le> unat e" "unat e < file_size g"
    using ArgCheck_Some [OF inv arg] by blast
  note wf = gap_inv_sizes(3) [OF inv]
  obtain pre where pre: "m_gaplist g = pre @ std_lower_bound ps (m_gaplist g)"
    "\<And>p. p \<in> set pre \<Longrightarrow> fst p < ps"
    "\<And>p. p \<in> set (std_lower_bound ps (m_gaplist g)) \<Longrightarrow> ps \<le> fst p"
    using std_lower_bound_split [OF gaps_wf_map_wf [OF wf]] by metis
  with FillGap_loop_correct [of "file_size g" pre "std_lower_bound ps (m_gaplist g)" ps e]
  have loop: "gaps_wf (file_size g) (FillGap_loop (std_lower_bound ps (m_gaplist g)) ps e (m_gaplist g))"
    "gap_bytes (FillGap_loop (std_lower_bound ps (m_gaplist g)) ps e (m_gaplist g)) =
       missing g - {unat ps .. unat e}" (is "gap_bytes ?m = _")
    using wf e(3,4) gap_inv_sizes(2) [OF inv] by (auto simp: missing_def unat_conv)
  note ixs = part_index [OF inv arg(2)] part_index [OF inv e(4)]
  obtain v where v: "mark_parts unknown (ucast (ps div PARTSIZE)) (ucast (e div PARTSIZE))
       (m_partsComplete g) = Some v" "length v = part_count g"
    "\<forall>i < part_count g. v ! i = (if unat ps div 9728000 \<le> i \<and> i \<le> unat e div 9728000
       then unknown else m_partsComplete g ! i)"
    using mark_parts_correct [of "ucast (e div PARTSIZE)" "m_partsComplete g" unknown
        "ucast (ps div PARTSIZE)"] ixs inv by (auto simp: gap_inv_def)
  let ?g' = "g\<lparr>m_partsComplete := v, m_totalGapSizeValid := False, m_gaplist := ?m\<rparr>"
  have "gap_inv ?g'"
  proof (rule gap_inv_update [OF inv v(2) loop(1)])
    fix p assume p: "p < part_count g"
    show "(v ! p = complete \<longrightarrow> part_bytes g p \<inter> gap_bytes ?m = {}) \<and>
      (v ! p = incomplete \<longrightarrow> part_bytes g p \<inter> gap_bytes ?m \<noteq> {})"
    proof (cases "unat ps div 9728000 \<le> p \<and> p \<le> unat e div 9728000")
      case True
      with v(3) p show ?thesis by auto
    next
      case False
      from range_misses_part [OF False, of g]
      have "part_bytes g p \<inter> (missing g - {unat ps .. unat e}) = part_bytes g p \<inter> missing g" by blast
      with False v(3) p loop(2) inv show ?thesis by (auto simp: gap_inv_def cache_ok_def)
    qed
  qed
  moreover have "FillGap ps pe g = Some ?g'" by (simp add: FillGap_def e(1) v(1))
  moreover have "same_file ?g' g" by (simp add: same_file_def)
  ultimately show ?thesis using loop(2) e(2) by (auto simp: missing_def)
qed


subsection \<open>Whole parts\<close>

lemma part_limits:
  assumes inv: "gap_inv g" and p: "part < m_iPartCount g"
  shows "unat (ucast part * PARTSIZE) = unat part * 9728000"
    "unat (ucast part * PARTSIZE + ucast (GetPartSize g part) - 1) =
       min (unat part * 9728000 + 9727999) (file_size g - 1)"
    "unat part * 9728000 < file_size g"
    "unat part < part_count g"
    "part_bytes g (unat part) =
       {unat part * 9728000 .. min (unat part * 9728000 + 9727999) (file_size g - 1)}"
    "ucast part * PARTSIZE \<le> (ucast part * PARTSIZE + ucast (GetPartSize g part) - 1 :: u64)"
    "unat part \<le> min (unat part * 9728000 + 9727999) (file_size g - 1) div 9728000"
proof -
  let ?s = "unat part * 9728000"
  have cnt: "unat part < part_count g" using p by (simp add: part_count_def unat_conv)
  then show "unat part < part_count g" .
  have sz: "part_count g = (file_size g - 1) div 9728000 + 1" "0 < file_size g"
    "file_size g \<le> 274877906944"
    "unat (m_sizeLastPart g) = file_size g - (part_count g - 1) * 9728000"
    using inv by (auto simp: gap_inv_def)
  have le: "unat part \<le> (file_size g - 1) div 9728000" using cnt sz(1) by simp
  then have s_le: "?s \<le> file_size g - 1" by (simp add: less_eq_div_iff_mult_less_eq)
  with sz(2) show lt: "?s < file_size g" by simp
  have uc: "unat (ucast part :: u64) = unat part"
    by (rule unat_ucast_up) simp
  show s: "unat (ucast part * PARTSIZE) = ?s"
    by (subst unat_mult_small) (use uc lt sz(3) in simp_all)
  have last: "unat part = part_count g - 1 \<longleftrightarrow> (file_size g - 1) div 9728000 = unat part"
    using sz(1) by auto
  have ints: "uint part = int (unat part)" "uint (m_iPartCount g) = int (part_count g)"
    by (simp_all add: part_count_def)
  have size: "unat (ucast (GetPartSize g part) :: u64) = min 9728000 (file_size g - ?s)"
  proof (cases "unat part = part_count g - 1")
    case True
    then have "file_size g - 1 < ?s + 9728000"
      using last div_less_iff_less_mult [of 9728000 "file_size g - 1" "Suc (unat part)"] by simp
    moreover have "uint part = uint (m_iPartCount g) - 1"
      using True cnt ints by linarith
    ultimately show ?thesis
      using True sz(4) by (subst unat_ucast_small) (auto simp: GetPartSize_def)
  next
    case False
    then have "unat part + 1 \<le> (file_size g - 1) div 9728000" using le last by simp
    then have "(unat part + 1) * 9728000 \<le> file_size g - 1" by (simp add: less_eq_div_iff_mult_less_eq)
    moreover have "uint part \<noteq> uint (m_iPartCount g) - 1"
      using False cnt ints by linarith
    ultimately show ?thesis by (simp add: GetPartSize_def PARTSIZE_def)
  qed
  have sum: "unat (ucast part * PARTSIZE + ucast (GetPartSize g part)) = ?s + min 9728000 (file_size g - ?s)"
    by (subst unat_add_small) (use s size lt sz(3) in simp_all)
  moreover have "ucast part * PARTSIZE + ucast (GetPartSize g part) \<noteq> (0::u64)"
    using sum lt by (auto simp: unat_conv)
  ultimately show e: "unat (ucast part * PARTSIZE + ucast (GetPartSize g part) - 1) =
      min (?s + 9727999) (file_size g - 1)"
    using lt by (subst unat_sub_1) auto
  show "ucast part * PARTSIZE \<le> (ucast part * PARTSIZE + ucast (GetPartSize g part) - 1 :: u64)"
    unfolding word_le_nat_alt s e using s_le by simp
  show "unat part \<le> min (?s + 9727999) (file_size g - 1) div 9728000"
    using s_le by (simp add: less_eq_div_iff_mult_less_eq)
  show "part_bytes g (unat part) = {?s .. min (?s + 9727999) (file_size g - 1)}"
    using sz(2) by (auto simp: part_bytes_def)
qed

lemma AddGap_part_correct:
  assumes inv: "gap_inv g" and p: "part < m_iPartCount g"
  shows "\<exists>g'. AddGap_part part g = Some g' \<and> gap_inv g' \<and> same_file g' g \<and>
    missing g' = missing g \<union> part_bytes g (unat part)"
proof -
  let ?s = "ucast part * PARTSIZE :: u64" and ?e = "ucast part * PARTSIZE + ucast (GetPartSize g part) - 1 :: u64"
  note lim = part_limits [OF inv p]
  obtain g' where g': "AddGap ?s ?e g = Some g'" "gap_inv g'" "same_file g' g"
    "missing g' = missing g \<union> part_bytes g (unat part)"
    "m_partsComplete g' ! unat part = incomplete"
    using AddGap_range [OF inv lim(6)] lim by auto
  have "unat part < length (m_partsComplete g')"
    using g'(2,3) lim(4) by (simp add: gap_inv_def same_file_simps)
  moreover have "g'\<lparr>m_partsComplete := (m_partsComplete g')[unat part := incomplete]\<rparr> = g'"
    using g'(5) by (metis gaplist.surjective gaplist.update_convs(7) list_update_id)
  ultimately have "AddGap_part part g = Some g'"
    using p g'(1) by (simp add: AddGap_part_def Let_def)
  with g' show ?thesis by blast
qed

lemma FillGap_part_correct:
  assumes inv: "gap_inv g" and p: "part < m_iPartCount g"
  shows "\<exists>g'. FillGap_part part g = Some g' \<and> gap_inv g' \<and> same_file g' g \<and>
    missing g' = missing g - part_bytes g (unat part)"
proof -
  let ?s = "ucast part * PARTSIZE :: u64" and ?e = "ucast part * PARTSIZE + ucast (GetPartSize g part) - 1 :: u64"
  note lim = part_limits [OF inv p]
  obtain g' where g': "FillGap ?s ?e g = Some g'" "gap_inv g'" "same_file g' g"
    "missing g' = missing g - part_bytes g (unat part)"
    using FillGap_range [OF inv lim(6)] lim by auto
  note sf = same_file_simps [OF g'(3)]
  have len: "unat part < length (m_partsComplete g')"
    using g'(2) lim(4) by (simp add: gap_inv_def sf)
  let ?h = "g'\<lparr>m_partsComplete := (m_partsComplete g')[unat part := complete]\<rparr>"
  have "gap_inv ?h"
    using g'(2,4) len
    by (auto simp: gap_inv_def cache_ok_def missing_def file_size_def part_count_def part_bytes_def
        nth_list_update sf [unfolded part_bytes_def file_size_def] split: if_splits)
  moreover have "FillGap_part part g = Some ?h"
    using p g'(1) len by (simp add: FillGap_part_def Let_def)
  moreover have "same_file ?h g" "missing ?h = missing g'"
    using g'(3) by (simp_all add: same_file_def missing_def)
  ultimately show ?thesis using g'(4) by blast
qed


subsection \<open>Initialisation\<close>

definition Init_full :: "u64 \<Rightarrow> ePartComplete \<Rightarrow> gaplist" where
  "Init_full fs st =
     (let whole = unat fs mod 9728000 = 0;
          n = (if whole then unat fs div 9728000 else unat fs div 9728000 + 1)
      in \<lparr>m_gaplist = [], m_filesize = fs, m_iPartCount = of_nat n,
          m_sizeLastPart = of_nat (if whole then 9728000 else unat fs mod 9728000),
          m_totalGapSize = 0, m_totalGapSizeValid = True, m_partsComplete = replicate n st\<rparr>)"

lemma Init_full_count:
  assumes "0 < (n::nat)"
  shows "(if n mod 9728000 = 0 then n div 9728000 else n div 9728000 + 1) = (n - 1) div 9728000 + 1"
proof -
  have "n div 9728000 * 9728000 + n mod 9728000 = n" by simp
  then show ?thesis using assms by (cases n) (auto simp: div_Suc mod_Suc)
qed

lemma Init_full_last:
  assumes "0 < (n::nat)"
  shows "n - (n - 1) div 9728000 * 9728000 = (if n mod 9728000 = 0 then 9728000 else n mod 9728000)"
proof (cases "n mod 9728000 = 0")
  case True
  then obtain k where k: "n = 9728000 * k" by auto
  with assms have "(n - 1) div 9728000 = k - 1" "0 < k" using Init_full_count [OF assms] by auto
  then show ?thesis using True k by (simp add: diff_mult_distrib)
next
  case False
  then have "(n - 1) div 9728000 = n div 9728000" using Init_full_count [OF assms] by simp
  then show ?thesis using False by (simp add: minus_div_mult_eq_mod)
qed

lemma Init_unfold:
  assumes "0 < unat fs" "unat fs \<le> unat MAX_FILE_SIZE"
  shows "Init fs isEmpty =
    (if isEmpty
     then map_option (\<lambda>g'. g'\<lparr>m_totalGapSize := fs, m_totalGapSizeValid := True\<rparr>)
            (AddGap 0 (fs - 1) (Init_full fs incomplete))
     else Some (Init_full fs complete))"
proof -
  have q: "unat fs div 9728000 \<le> 274877906944 div 9728000"
    using assms(2) by (intro div_le_mono) simp
  have "unat (fs div PARTSIZE + 1) = unat fs div 9728000 + 1"
    by (subst unat_add_1) (use q in \<open>simp_all add: unat_div\<close>)
  then have cnt: "unat (ucast (fs div PARTSIZE + 1) :: u16) = unat fs div 9728000 + 1"
    by (subst unat_ucast_small) (use q in simp_all)
  have m: "unat (ucast (fs mod PARTSIZE) :: u32) = unat fs mod 9728000"
    by (subst unat_ucast_small) (simp_all add: unat_mod less_trans [OF mod_less_divisor])
  have z: "(ucast (fs mod PARTSIZE) :: u32) = 0 \<longleftrightarrow> unat fs mod 9728000 = 0"
    using m by (metis unat_0 unat_eq_zero)
  have c1: "ucast (fs div PARTSIZE + 1) = (of_nat (unat fs div 9728000 + 1) :: u16)"
    by (rule word_eq_of_nat [OF cnt])
  have s1: "ucast (fs mod PARTSIZE) = (of_nat (unat fs mod 9728000) :: u32)"
    by (rule word_eq_of_nat [OF m])
  have n1: "unat (of_nat (unat fs div 9728000) :: u16) = unat fs div 9728000"
    using q by (subst unat_of_nat_small) simp_all
  have fs0: "fs \<noteq> 0" using assms(1) by auto
  show ?thesis
    unfolding Init_def Init_full_def Let_def z
    using cnt c1 s1 n1 fs0 by (auto simp: PARTSIZE_def)
qed

lemma Init_full_inv:
  assumes "0 < unat fs" "unat fs \<le> unat MAX_FILE_SIZE" "st = complete \<or> st = unknown"
  shows "gap_inv (Init_full fs st)" "missing (Init_full fs st) = {}" "file_size (Init_full fs st) = unat fs"
proof -
  let ?g = "Init_full fs st"
  let ?n = "(unat fs - 1) div 9728000 + 1"
  have "?n \<le> 274877906944 div 9728000 + 1"
    using assms(2) by (intro add_right_mono div_le_mono) simp
  then have n: "unat (of_nat ?n :: u16) = ?n" by (subst unat_of_nat_small) simp_all
  have g: "?g = \<lparr>m_gaplist = [], m_filesize = fs, m_iPartCount = of_nat ?n,
      m_sizeLastPart = of_nat (if unat fs mod 9728000 = 0 then 9728000 else unat fs mod 9728000),
      m_totalGapSize = 0, m_totalGapSizeValid = True, m_partsComplete = replicate ?n st\<rparr>"
    using Init_full_count [OF assms(1)] by (simp add: Init_full_def Let_def)
  show m: "missing ?g = {}" and "file_size ?g = unat fs"
    by (simp_all add: g missing_def file_size_def)
  have pc: "part_count ?g = ?n" by (simp only: part_count_def g gaplist.simps n)
  have "unat fs - (?n - 1) * 9728000 = (if unat fs mod 9728000 = 0 then 9728000 else unat fs mod 9728000)"
    using Init_full_last [OF assms(1)] by simp
  moreover have "unat fs mod 9728000 < 4294967296"
    by (rule less_trans [OF mod_less_divisor]) simp_all
  ultimately have sl: "unat (m_sizeLastPart ?g) = unat fs - (?n - 1) * 9728000"
    by (simp add: g unat_of_nat_small)
  have parts: "m_partsComplete ?g = replicate ?n st" and fsz: "file_size ?g = unat fs"
    and gaps: "m_gaplist ?g = []" and total: "m_totalGapSize ?g = 0"
    by (simp_all only: g gaplist.simps file_size_def)
  have "cache_ok ?g"
    unfolding cache_ok_def pc m parts using assms(3) by (auto simp del: replicate_Suc)
  then show "gap_inv ?g"
    unfolding gap_inv_def pc sl fsz gaps total parts m using assms(1,2) by simp
qed


lemma AddGap_whole_file:
  assumes "0 < unat fs" "unat fs \<le> unat MAX_FILE_SIZE"
  shows "AddGap 0 (fs - 1) (Init_full fs incomplete) = AddGap 0 (fs - 1) (Init_full fs complete)"
proof -
  let ?g = "Init_full fs complete" and ?h = "Init_full fs incomplete"
  let ?l = "ucast ((fs - 1) div PARTSIZE) :: u16"
  have inv: "gap_inv ?g" "file_size ?g = unat fs" using Init_full_inv [OF assms] by auto
  have fs1: "unat (fs - 1) = unat fs - 1" using assms(1) by (intro unat_sub_1) auto
  then have lt: "unat (fs - 1) < file_size ?g" using assms inv(2) by simp
  note ix = part_index [OF inv(1) lt]
  have len: "length (m_partsComplete ?h) = length (m_partsComplete ?g)"
    by (simp add: Init_full_def Let_def)
  have last: "unat ?l = part_count ?g - 1" "part_count ?g = length (m_partsComplete ?g)"
    using ix(1) inv fs1 by (auto simp: gap_inv_def)
  have mp: "mark_parts incomplete 0 ?l v = Some (replicate (length v) incomplete)"
    if len_v: "length v = part_count ?g" for v
  proof -
    have pre: "unat ?l < length v" "unat ?l < 65535"
      using last ix(2,3) fs1 len_v by auto
    obtain w where w: "mark_parts incomplete 0 ?l v = Some w" "length w = length v"
      "\<forall>i < length v. w ! i = (if unat (0::u16) \<le> i \<and> i \<le> unat ?l then incomplete else v ! i)"
      using mark_parts_correct [OF pre, of incomplete 0] by blast
    have "w = replicate (length v) incomplete"
      by (rule nth_equalityI) (use w(2,3) last(1) len_v in auto)
    with w(1) show ?thesis by simp
  qed
  have same: "AddGap 0 (fs - 1) (?g\<lparr>m_partsComplete := v\<rparr>) = AddGap 0 (fs - 1) ?g"
    if "length v = part_count ?g" for v
    using mp [OF that] mp [OF last(2) [symmetric]] that last(2) assms(1)
    by (auto simp: AddGap_def ArgCheck_def Init_full_def Let_def unat_conv fs1)
  have "?h = ?g\<lparr>m_partsComplete := m_partsComplete ?h\<rparr>" by (simp add: Init_full_def Let_def)
  then show ?thesis using same [of "m_partsComplete ?h"] len last(2) by simp
qed

lemma Init_correct:
  assumes "0 < unat fs" "unat fs \<le> unat MAX_FILE_SIZE"
  shows "\<exists>g. Init fs isEmpty = Some g \<and> gap_inv g \<and> file_size g = unat fs \<and>
    missing g = (if isEmpty then {..<unat fs} else {})"
proof (cases isEmpty)
  case False
  then show ?thesis
    using Init_full_inv [OF assms, of complete] by (simp add: Init_unfold [OF assms])
next
  case True
  note inv = Init_full_inv [OF assms, of complete]
  have "unat (fs - 1) = unat fs - 1" using assms(1) by (intro unat_sub_1) auto
  then obtain g' where g': "AddGap 0 (fs - 1) (Init_full fs complete) = Some g'" "gap_inv g'"
    "same_file g' (Init_full fs complete)" "missing g' = {0 .. unat fs - 1}"
    using AddGap_range [of "Init_full fs complete" 0 "fs - 1"] inv assms by auto
  have eq: "{0 .. unat fs - 1} = {..<unat fs}" using assms(1) by auto
  let ?h = "g'\<lparr>m_totalGapSize := fs, m_totalGapSizeValid := True\<rparr>"
  have "missing ?h = {..<unat fs}" using g'(4) eq by (simp add: missing_def)
  moreover have "gap_inv ?h"
    using g'(2,4) eq
    by (auto simp: gap_inv_def cache_ok_def missing_def file_size_def part_count_def part_bytes_def)
  moreover have "file_size ?h = unat fs"
    using same_file_simps(1) [OF g'(3)] inv(3) by (simp add: file_size_def)
  ultimately show ?thesis
    using True g'(1) by (simp add: Init_unfold [OF assms] AddGap_whole_file [OF assms])
qed


subsection \<open>The queries on the set of missing bytes\<close>

lemma lower_bound_range:
  assumes "gap_inv g"
  shows "gaps_wf (file_size g) (std_lower_bound a (m_gaplist g))"
    "\<And>p. p \<in> set (std_lower_bound a (m_gaplist g)) \<Longrightarrow> unat a \<le> unat (fst p)"
    "gap_bytes (std_lower_bound a (m_gaplist g)) \<inter> {unat a .. e} = missing g \<inter> {unat a .. e}"
proof -
  note wf = gap_inv_sizes(3) [OF assms]
  obtain pre where pre: "m_gaplist g = pre @ std_lower_bound a (m_gaplist g)"
    "\<And>p. p \<in> set pre \<Longrightarrow> fst p < a"
    "\<And>p. p \<in> set (std_lower_bound a (m_gaplist g)) \<Longrightarrow> a \<le> fst p"
    using std_lower_bound_split [OF gaps_wf_map_wf [OF wf]] by metis
  show "gaps_wf (file_size g) (std_lower_bound a (m_gaplist g))"
    using wf pre(1) gaps_wf_append by metis
  show "\<And>p. p \<in> set (std_lower_bound a (m_gaplist g)) \<Longrightarrow> unat a \<le> unat (fst p)"
    using pre(3) by (simp add: unat_conv)
  have "gap_bytes pre \<inter> {unat a .. e} = {}"
    using pre(2) by (fastforce simp: gap_bytes_def unat_conv)
  moreover have "missing g = gap_bytes pre \<union> gap_bytes (std_lower_bound a (m_gaplist g))"
    using pre(1) gap_bytes_simps(3) missing_def by metis
  ultimately show "gap_bytes (std_lower_bound a (m_gaplist g)) \<inter> {unat a .. e} = missing g \<inter> {unat a .. e}"
    by blast
qed

lemma IsComplete_range_iff:
  assumes inv: "gap_inv g" and arg: "gs \<le> ge" "unat gs < file_size g"
  shows "IsComplete_range g gs ge \<longleftrightarrow> missing g \<inter> {unat gs .. min (unat ge) (file_size g - 1)} = {}"
proof -
  obtain e where e: "ArgCheck g gs ge = Some e" "unat e = min (unat ge) (file_size g - 1)"
    "unat gs \<le> unat e"
    using ArgCheck_Some [OF inv arg] by blast
  have "IsComplete_loop (std_lower_bound gs (m_gaplist g)) gs e \<longleftrightarrow>
      gap_bytes (std_lower_bound gs (m_gaplist g)) \<inter> {unat gs .. unat e} = {}"
    by (rule IsComplete_loop_correct [OF lower_bound_range(1) [OF inv] e(3) lower_bound_range(2) [OF inv]])
  then show ?thesis
    unfolding lower_bound_range(3) [OF inv] e(2) by (simp add: IsComplete_range_def e(1))
qed

lemma GetGapSize_card:
  assumes inv: "gap_inv g"
  shows "unat (fst (GetGapSize g)) = card (missing g)" "gap_inv (snd (GetGapSize g))"
    "missing (snd (GetGapSize g)) = missing g" "same_file (snd (GetGapSize g)) g"
proof -
  have "card (missing g) \<le> card {..<file_size g}"
    using gap_inv_sizes(4) [OF inv] by (intro card_mono) simp_all
  then have "card (missing g) < 2 ^ 64" using gap_inv_sizes(2) [OF inv] by simp
  with gap_sum_correct [OF gap_inv_sizes(3) [OF inv], of 0]
  have sum: "unat (foldl (\<lambda>t p. t + (fst p - snd p + 1)) 0 (m_gaplist g)) = card (missing g)"
    by (simp add: missing_def)
  show "unat (fst (GetGapSize g)) = card (missing g)"
    using inv sum by (auto simp: GetGapSize_def gap_inv_def Let_def)
  show "gap_inv (snd (GetGapSize g))"
    using inv sum by (auto simp: GetGapSize_def gap_inv_def Let_def cache_ok_def missing_def
        file_size_def part_count_def part_bytes_def)
  show "missing (snd (GetGapSize g)) = missing g" "same_file (snd (GetGapSize g)) g"
    by (simp_all add: GetGapSize_def Let_def missing_def same_file_def)
qed

lemma GetGapSize_part_card:
  assumes inv: "gap_inv g" and p: "part < m_iPartCount g"
  shows "unat (GetGapSize_part g part) = card (missing g \<inter> part_bytes g (unat part))"
proof -
  let ?s = "ucast part * PARTSIZE :: u64" and ?e = "ucast part * PARTSIZE + ucast (GetPartSize g part) - 1 :: u64"
  note lim = part_limits [OF inv p]
  let ?l = "GetGapSize_part_loop (std_lower_bound ?s (m_gaplist g)) ?s ?e 0"
  have pb: "part_bytes g (unat part) = {unat ?s .. unat ?e}" by (simp only: lim(1,2,5))
  have "card (missing g \<inter> part_bytes g (unat part)) \<le> card (part_bytes g (unat part))"
    unfolding pb by (intro card_mono) auto
  also have "\<dots> \<le> 9728000" unfolding lim(5) by simp
  finally have le: "card (missing g \<inter> {unat ?s .. unat ?e}) \<le> 9728000" unfolding pb .
  have "unat ?e < file_size g" using lim(2) gap_inv_sizes(1) [OF inv] by simp
  with le have "unat ?l = unat (0::u64) + card (gap_bytes (std_lower_bound ?s (m_gaplist g)) \<inter> {unat ?s .. unat ?e})"
    by (intro GetGapSize_part_loop_correct [OF lower_bound_range(1) [OF inv] _ _ gap_inv_sizes(2) [OF inv] lower_bound_range(2) [OF inv]])
       (use lim(6) lower_bound_range(3) [OF inv] in \<open>simp_all add: word_le_nat_alt\<close>)
  then have l: "unat ?l = card (missing g \<inter> part_bytes g (unat part))"
    unfolding pb lower_bound_range(3) [OF inv] by simp
  have "unat (ucast ?l :: u32) = unat ?l"
    by (rule unat_ucast_small) (use l le pb in simp)
  then show ?thesis by (simp only: GetGapSize_part_def Let_def l)
qed

lemma IsComplete_part_iff:
  assumes inv: "gap_inv g" and p: "part < m_iPartCount g"
  shows "\<exists>g'. IsComplete_part part g = Some (missing g \<inter> part_bytes g (unat part) = {}, g') \<and>
    gap_inv g' \<and> same_file g' g \<and> missing g' = missing g"
proof -
  let ?s = "ucast part * PARTSIZE :: u64" and ?e = "ucast part * PARTSIZE + ucast (GetPartSize g part) - 1 :: u64"
  note lim = part_limits [OF inv p]
  have len: "unat part < length (m_partsComplete g)" using lim(4) inv by (simp add: gap_inv_def)
  have np: "\<not> m_iPartCount g \<le> part" "part \<noteq> m_iPartCount g" using p by auto
  let ?c = "missing g \<inter> part_bytes g (unat part) = {}"
  have cached: "m_partsComplete g ! unat part = complete \<Longrightarrow> ?c"
    "m_partsComplete g ! unat part = incomplete \<Longrightarrow> \<not> ?c"
    using inv lim(4) by (auto simp: gap_inv_def cache_ok_def)
  show ?thesis
  proof (cases "m_partsComplete g ! unat part = unknown")
    case False
    then have "(m_partsComplete g ! unat part = complete) = ?c"
      using cached by (cases "m_partsComplete g ! unat part") auto
    with False len np inv show ?thesis by (auto simp: IsComplete_part_def)
  next
    case True
    have r: "IsComplete_range g ?s ?e = ?c"
      using IsComplete_range_iff [OF inv lim(6)] lim by simp
    let ?v = "(m_partsComplete g)[unat part := if ?c then complete else incomplete]"
    have "IsComplete_part part g = Some (?c, g\<lparr>m_partsComplete := ?v\<rparr>)"
      using True len np by (simp add: IsComplete_part_def Let_def r)
    moreover have "gap_inv (g\<lparr>m_partsComplete := ?v\<rparr>)"
      using inv len by (auto simp: gap_inv_def cache_ok_def missing_def file_size_def part_count_def
          part_bytes_def nth_list_update)
    moreover have "same_file (g\<lparr>m_partsComplete := ?v\<rparr>) g" "missing (g\<lparr>m_partsComplete := ?v\<rparr>) = missing g"
      by (simp_all add: same_file_def missing_def)
    ultimately show ?thesis by blast
  qed
qed

lemma IsComplete_all_iff:
  assumes "gap_inv g"
  shows "IsComplete_all g \<longleftrightarrow> missing g = {}"
proof -
  have "gap_bytes m \<noteq> {}" if "gaps_wf fs m" "m \<noteq> []" for fs m
    using that by (cases m) auto
  with gap_inv_sizes(3) [OF assms] show ?thesis
    by (auto simp: IsComplete_all_def missing_def)
qed


subsection \<open>The contract of a gap list, and its clients\<close>

text \<open>
  A part file drives its gap list by sequences of ranges: \<open>CPartFile::LoadPartFile\<close> adds the
  gaps it reads from the .part.met file, and \<open>CPartFile::WriteToBuffer\<close> fills the blocks it
  receives. The locale states what those loops rely on, and shows that a sequence of fills or adds
  is the difference or union with all its ranges, in whatever order they are applied.
\<close>

primrec apply_ranges :: "(u64 \<Rightarrow> u64 \<Rightarrow> 's \<Rightarrow> 's option) \<Rightarrow> (u64 \<times> u64) list \<Rightarrow> 's \<Rightarrow> 's option" where
  "apply_ranges f [] s = Some s"
| "apply_ranges f (r # rs) s = Option.bind (f (fst r) (snd r) s) (apply_ranges f rs)"

definition ranges_in :: "nat \<Rightarrow> (u64 \<times> u64) list \<Rightarrow> bool" where
  "ranges_in n rs \<longleftrightarrow> (\<forall>r \<in> set rs. fst r \<le> snd r \<and> unat (fst r) < n)"

definition ranges_bytes :: "nat \<Rightarrow> (u64 \<times> u64) list \<Rightarrow> nat set" where
  "ranges_bytes n rs = (\<Union>r \<in> set rs. {unat (fst r) .. min (unat (snd r)) (n - 1)})"

lemma ranges_simps [simp]:
  "ranges_in n []" "ranges_bytes n [] = {}"
  "ranges_in n (r # rs) \<longleftrightarrow> fst r \<le> snd r \<and> unat (fst r) < n \<and> ranges_in n rs"
  "ranges_bytes n (r # rs) = {unat (fst r) .. min (unat (snd r)) (n - 1)} \<union> ranges_bytes n rs"
  by (auto simp: ranges_in_def ranges_bytes_def)

locale gap_store =
  fixes inv :: "'s \<Rightarrow> bool" and size_of :: "'s \<Rightarrow> nat" and lacks :: "'s \<Rightarrow> nat set"
    and add :: "u64 \<Rightarrow> u64 \<Rightarrow> 's \<Rightarrow> 's option" and fill :: "u64 \<Rightarrow> u64 \<Rightarrow> 's \<Rightarrow> 's option"
    and full :: "'s \<Rightarrow> bool"
  assumes add_range: "inv s \<Longrightarrow> a \<le> b \<Longrightarrow> unat a < size_of s \<Longrightarrow>
      \<exists>s'. add a b s = Some s' \<and> inv s' \<and> size_of s' = size_of s \<and>
        lacks s' = lacks s \<union> {unat a .. min (unat b) (size_of s - 1)}"
    and fill_range: "inv s \<Longrightarrow> a \<le> b \<Longrightarrow> unat a < size_of s \<Longrightarrow>
      \<exists>s'. fill a b s = Some s' \<and> inv s' \<and> size_of s' = size_of s \<and>
        lacks s' = lacks s - {unat a .. min (unat b) (size_of s - 1)}"
    and full_iff: "inv s \<Longrightarrow> full s \<longleftrightarrow> lacks s = {}"
    and lacks_bound: "inv s \<Longrightarrow> lacks s \<subseteq> {..<size_of s}"
begin

lemma fill_ranges:
  "inv s \<Longrightarrow> ranges_in (size_of s) rs \<Longrightarrow>
    \<exists>s'. apply_ranges fill rs s = Some s' \<and> inv s' \<and> size_of s' = size_of s \<and>
      lacks s' = lacks s - ranges_bytes (size_of s) rs"
proof (induction rs arbitrary: s)
  case (Cons r rs)
  then obtain t where t: "fill (fst r) (snd r) s = Some t" "inv t" "size_of t = size_of s"
    "lacks t = lacks s - {unat (fst r) .. min (unat (snd r)) (size_of s - 1)}"
    using fill_range [of s "fst r" "snd r"] by auto
  from Cons.IH [OF t(2)] Cons.prems t(3)
  obtain u where "apply_ranges fill rs t = Some u" "inv u" "size_of u = size_of s"
    "lacks u = lacks t - ranges_bytes (size_of s) rs"
    by auto
  with t(1,4) show ?case by auto
qed simp

lemma add_ranges:
  "inv s \<Longrightarrow> ranges_in (size_of s) rs \<Longrightarrow>
    \<exists>s'. apply_ranges add rs s = Some s' \<and> inv s' \<and> size_of s' = size_of s \<and>
      lacks s' = lacks s \<union> ranges_bytes (size_of s) rs"
proof (induction rs arbitrary: s)
  case (Cons r rs)
  then obtain t where t: "add (fst r) (snd r) s = Some t" "inv t" "size_of t = size_of s"
    "lacks t = lacks s \<union> {unat (fst r) .. min (unat (snd r)) (size_of s - 1)}"
    using add_range [of s "fst r" "snd r"] by auto
  from Cons.IH [OF t(2)] Cons.prems t(3)
  obtain u where "apply_ranges add rs t = Some u" "inv u" "size_of u = size_of s"
    "lacks u = lacks t \<union> ranges_bytes (size_of s) rs"
    by auto
  with t(1,4) show ?case by auto
qed simp

lemma fill_full_iff:
  assumes "inv s" "ranges_in (size_of s) rs"
  shows "\<exists>s'. apply_ranges fill rs s = Some s' \<and> inv s' \<and>
    (full s' \<longleftrightarrow> lacks s \<subseteq> ranges_bytes (size_of s) rs)"
  using fill_ranges [OF assms] full_iff by fastforce

lemma fill_refills:
  assumes "inv s" "lacks s = {}" "ranges_in (size_of s) rs"
  shows "\<exists>t u. apply_ranges add rs s = Some t \<and> apply_ranges fill rs t = Some u \<and> inv u \<and> full u"
proof -
  obtain t where t: "apply_ranges add rs s = Some t" "inv t" "size_of t = size_of s"
    "lacks t = ranges_bytes (size_of s) rs"
    using add_ranges [OF assms(1,3)] assms(2) by auto
  with fill_full_iff [OF t(2), of rs] assms(3) show ?thesis by auto
qed

end

interpretation gaps: gap_store gap_inv file_size missing AddGap FillGap IsComplete_all
proof unfold_locales
  fix s and a b :: u64 assume "gap_inv s" "a \<le> b" "unat a < file_size s"
  then show "\<exists>s'. AddGap a b s = Some s' \<and> gap_inv s' \<and> file_size s' = file_size s \<and>
      missing s' = missing s \<union> {unat a .. min (unat b) (file_size s - 1)}"
    using AddGap_range same_file_simps(1) by blast
next
  fix s and a b :: u64 assume "gap_inv s" "a \<le> b" "unat a < file_size s"
  then show "\<exists>s'. FillGap a b s = Some s' \<and> gap_inv s' \<and> file_size s' = file_size s \<and>
      missing s' = missing s - {unat a .. min (unat b) (file_size s - 1)}"
    using FillGap_range same_file_simps(1) by blast
qed (simp_all add: IsComplete_all_iff gap_inv_sizes)

subsection \<open>Properties\<close>

text \<open>For every file size the client accepts, \<open>Init\<close> succeeds and builds a legal gap list
  in which either every byte of the file is missing or none is.\<close>

theorem Init_builds_gap_list:
  assumes "0 < unat fs" "unat fs \<le> unat MAX_FILE_SIZE"
  shows "\<exists>g. Init fs isEmpty = Some g \<and> gap_inv g \<and> file_size g = unat fs \<and>
    missing g = (if isEmpty then {..<unat fs} else {})"
  by (rule Init_correct [OF assms])

theorem Init_builds_gap_list_witness:
  "\<exists>g. Init 20000000 True = Some g \<and> gap_inv g \<and> file_size g = 20000000 \<and> missing g = {..<20000000}"
  using Init_builds_gap_list [of 20000000 True] by simp

text \<open>C21: \<open>AddGap\<close> of a range that starts inside the file never leaves its buffers, keeps the
  gap list legal, and adds exactly the bytes of the range (clipped to the file) to the missing
  ones.\<close>

theorem AddGap_unites:
  assumes "gap_inv g" "gapstart \<le> gapend" "unat gapstart < file_size g"
  shows "\<exists>g'. AddGap gapstart gapend g = Some g' \<and> gap_inv g' \<and> file_size g' = file_size g \<and>
    missing g' = missing g \<union> {unat gapstart .. min (unat gapend) (file_size g - 1)}"
  by (rule gaps.add_range [OF assms])

definition sample_gaps :: gaplist where
  "sample_gaps = \<lparr>m_gaplist = [(199, 100)], m_filesize = 1000, m_iPartCount = 1, m_sizeLastPart = 1000,
     m_totalGapSize = 100, m_totalGapSizeValid = True, m_partsComplete = [incomplete]\<rparr>"

lemma sample_gaps_inv: "gap_inv sample_gaps" "file_size sample_gaps = 1000" "missing sample_gaps = {100..199}"
  "m_iPartCount sample_gaps = 1"
proof -
  have "part_bytes sample_gaps 0 = {..<1000}"
    by (auto simp: part_bytes_def file_size_def sample_gaps_def)
  moreover show "missing sample_gaps = {100..199}"
    by (simp add: missing_def sample_gaps_def)
  ultimately have "100 \<in> part_bytes sample_gaps 0 \<inter> missing sample_gaps" by simp
  then have "cache_ok sample_gaps"
    unfolding cache_ok_def by (auto simp: part_count_def sample_gaps_def)
  then show "gap_inv sample_gaps" "file_size sample_gaps = 1000" "m_iPartCount sample_gaps = 1"
    by (simp_all add: gap_inv_def part_count_def file_size_def missing_def sample_gaps_def)
qed

theorem AddGap_unites_witness:
  "\<exists>g'. AddGap 150 5000 sample_gaps = Some g' \<and> gap_inv g' \<and> missing g' = {100..199} \<union> {150..999}"
  using AddGap_unites [of sample_gaps 150 5000] by (auto simp: sample_gaps_inv)

text \<open>C27: \<open>FillGap\<close> of a range that starts inside the file never leaves its buffers, keeps the
  gap list legal, and removes exactly the bytes of the range from the missing ones.\<close>

theorem FillGap_subtracts:
  assumes "gap_inv g" "partstart \<le> partend" "unat partstart < file_size g"
  shows "\<exists>g'. FillGap partstart partend g = Some g' \<and> gap_inv g' \<and> file_size g' = file_size g \<and>
    missing g' = missing g - {unat partstart .. min (unat partend) (file_size g - 1)}"
  by (rule gaps.fill_range [OF assms])

theorem FillGap_subtracts_witness:
  "\<exists>g'. FillGap 150 160 sample_gaps = Some g' \<and> gap_inv g' \<and> missing g' = {100..199} - {150..160}"
  using FillGap_subtracts [of sample_gaps 150 160] by (auto simp: sample_gaps_inv)

text \<open>C3: a file created empty is complete after a sequence of block writes exactly when the
  blocks cover every byte of it, whatever their order and overlaps.\<close>

theorem download_completes_iff_covered:
  assumes "0 < unat fs" "unat fs \<le> unat MAX_FILE_SIZE" "ranges_in (unat fs) blocks"
  shows "\<exists>g g'. Init fs True = Some g \<and> apply_ranges FillGap blocks g = Some g' \<and>
    (IsComplete_all g' \<longleftrightarrow> {..<unat fs} \<subseteq> ranges_bytes (unat fs) blocks)"
  using Init_correct [OF assms(1,2), of True] gaps.fill_full_iff assms(3) by fastforce

theorem download_completes_iff_covered_witness:
  "\<exists>g g'. Init 300 True = Some g \<and> apply_ranges FillGap [(100, 299), (0, 120)] g = Some g' \<and>
    IsComplete_all g'"
proof -
  have "{..<300::nat} \<subseteq> {100..299} \<union> {0..120}" by auto
  then show ?thesis
    using download_completes_iff_covered [of 300 "[(100, 299), (0, 120)]"] by (auto simp: unat_conv)
qed

text \<open>\<open>IsComplete\<close> of a range answers whether no byte of it (clipped to the file) is missing.\<close>

theorem IsComplete_range_decides:
  assumes "gap_inv g" "gapstart \<le> gapend" "unat gapstart < file_size g"
  shows "IsComplete_range g gapstart gapend \<longleftrightarrow>
    missing g \<inter> {unat gapstart .. min (unat gapend) (file_size g - 1)} = {}"
  by (rule IsComplete_range_iff [OF assms])

theorem IsComplete_range_decides_witness:
  "IsComplete_range sample_gaps 10 99 \<and> \<not> IsComplete_range sample_gaps 10 100"
  using IsComplete_range_decides [of sample_gaps 10 99] IsComplete_range_decides [of sample_gaps 10 100]
  by (auto simp: sample_gaps_inv)

text \<open>\<open>IsComplete\<close> of a part answers from its cache, or computes and caches, whether no byte
  of the part is missing; the answer is right in every state and the state stays legal.\<close>

theorem IsComplete_part_decides:
  assumes "gap_inv g" "part < m_iPartCount g"
  shows "\<exists>g'. IsComplete_part part g = Some (missing g \<inter> part_bytes g (unat part) = {}, g') \<and>
    gap_inv g' \<and> missing g' = missing g"
  using IsComplete_part_iff [OF assms] by blast

theorem IsComplete_part_decides_witness:
  "\<exists>g'. IsComplete_part 0 sample_gaps = Some (False, g') \<and> gap_inv g' \<and> missing g' = {100..199}"
proof -
  have "100 \<in> missing sample_gaps \<inter> part_bytes sample_gaps 0"
    by (simp add: sample_gaps_inv part_bytes_def)
  then have "missing sample_gaps \<inter> part_bytes sample_gaps 0 \<noteq> {}" by blast
  then show ?thesis
    using IsComplete_part_decides [of sample_gaps 0] by (auto simp: sample_gaps_inv)
qed

text \<open>\<open>GetGapSize\<close> returns the number of missing bytes of the file, whether its cached
  total is valid or recomputed, and \<open>GetGapSize(part)\<close> the number of missing bytes of a part;
  neither sum wraps around.\<close>

theorem GetGapSize_counts:
  assumes "gap_inv g" "part < m_iPartCount g"
  shows "unat (fst (GetGapSize g)) = card (missing g) \<and> gap_inv (snd (GetGapSize g)) \<and>
    unat (GetGapSize_part g part) = card (missing g \<inter> part_bytes g (unat part))"
  using GetGapSize_card [OF assms(1)] GetGapSize_part_card [OF assms] by simp

theorem GetGapSize_counts_witness:
  "fst (GetGapSize sample_gaps) = 100"
  using GetGapSize_counts [of sample_gaps 0] by (simp add: sample_gaps_inv unat_conv)

text \<open>Marking a whole part as missing, or as complete, changes exactly the bytes of that
  part.\<close>

theorem whole_part_operations:
  assumes "gap_inv g" "part < m_iPartCount g"
  shows "\<exists>a f. AddGap_part part g = Some a \<and> gap_inv a \<and> missing a = missing g \<union> part_bytes g (unat part) \<and>
    FillGap_part part g = Some f \<and> gap_inv f \<and> missing f = missing g - part_bytes g (unat part)"
  using AddGap_part_correct [OF assms] FillGap_part_correct [OF assms] by blast

theorem whole_part_operations_witness:
  "\<exists>f. FillGap_part 0 sample_gaps = Some f \<and> gap_inv f"
  using whole_part_operations [of sample_gaps 0] by (auto simp: sample_gaps_inv)


end
