(* ===== verification/PartRecovery.thy ===== *)
theory PartRecovery
  imports HashingTask GapList
begin

text \<open>
  Repairing a part of a download (\<open>CPartFile::AICHRecoveryDataAvailable\<close> and \<open>HashSinglePart\<close> of
  src/amule-3.0.1/src/PartFile.cpp): when recovery data for a corrupt part has been verified, the part's
  own data is hashed again, and the blocks whose hashes agree are taken out of the gap list. This is where
  the hash set, the hashing of data and the gap list meet.
\<close>

subsection \<open>The state of a part file\<close>

text \<open>What recovery uses of a \<open>CPartFile\<close>: the members that it has as a \<open>CKnownFile\<close>, its gap list, the
  requested blocks, the list of corrupted parts, and the messages that its corruption black box has got.\<close>

record CPartFile =
  pf_known :: CKnownFile
  pf_gaplist :: gaplist
  pf_requestedblocks_list :: "(u64 \<times> u64) list"
  pf_corrupted_list :: "u16 list"
  pf_hashsetneeded :: bool
  pf_PS_ERROR :: bool
  pf_VerifiedData :: "(bool \<times> u16 \<times> nat \<times> nat) list"

definition set_gaplist :: "CPartFile \<Rightarrow> gaplist \<Rightarrow> CPartFile" where
  "set_gaplist f g = f\<lparr>pf_gaplist := g\<rparr>"

definition CPartFile_FillGap :: "u64 \<Rightarrow> u64 \<Rightarrow> CPartFile \<Rightarrow> CPartFile option" where
  "CPartFile_FillGap a b f = map_option (set_gaplist f) (FillGap a b (pf_gaplist f))"

definition CPartFile_AddGap :: "u64 \<Rightarrow> u64 \<Rightarrow> CPartFile \<Rightarrow> CPartFile option" where
  "CPartFile_AddGap a b f = map_option (set_gaplist f) (AddGap a b (pf_gaplist f))"

definition CPartFile_AddGap_part :: "u16 \<Rightarrow> CPartFile \<Rightarrow> CPartFile option" where
  "CPartFile_AddGap_part part f = map_option (set_gaplist f) (AddGap_part part (pf_gaplist f))"

definition CPartFile_IsComplete :: "u16 \<Rightarrow> CPartFile \<Rightarrow> (bool \<times> CPartFile) option" where
  "CPartFile_IsComplete part f = map_option (\<lambda>(b, g). (b, set_gaplist f g)) (IsComplete_part part (pf_gaplist f))"

definition RemoveBlockFromList :: "u64 \<Rightarrow> u64 \<Rightarrow> CPartFile \<Rightarrow> CPartFile" where
  "RemoveBlockFromList a b f =
     f\<lparr>pf_requestedblocks_list := filter (\<lambda>(StartOffset, EndOffset). \<not> (StartOffset \<le> a \<and> EndOffset \<ge> b)) (pf_requestedblocks_list f)\<rparr>"

definition VerifiedData :: "bool \<Rightarrow> u16 \<Rightarrow> nat \<Rightarrow> nat \<Rightarrow> CPartFile \<Rightarrow> CPartFile" where
  "VerifiedData ok nPart a b f = f\<lparr>pf_VerifiedData := pf_VerifiedData f @ [(ok, nPart, a, b)]\<rparr>"

definition set_part_tree :: "aich_tree \<Rightarrow> CPartFile \<Rightarrow> CPartFile" where
  "set_part_tree t f = f\<lparr>pf_known := set_file_tree t (pf_known f)\<rparr>"

subsection \<open>Checking a part with MD4\<close>

text \<open>Outer \<open>None\<close>: an access outside of the list of parts, see \<open>GapList\<close>.\<close>

definition HashSinglePart ::
  "host \<Rightarrow> (u8 list \<Rightarrow> CMD4Hash) \<Rightarrow> 's file_ops \<Rightarrow> u16 \<Rightarrow> CPartFile \<Rightarrow> 's \<Rightarrow> (('s, bool) res \<times> CPartFile) option" where
  "HashSinglePart h md4 V partnumber f s =
     (let k = pf_known f; hashes = kf_hashlist k in
      if length hashes \<le> unat partnumber \<and> unat (kf_iPartCount k) \<noteq> 1 then Some (Ok True s, f\<lparr>pf_hashsetneeded := True\<rparr>)
      else let offset = PARTSIZE * ucast partnumber; len = KnownFile_GetPartSize k partnumber in
        if GetLength V s < unat (offset + ucast len)
        then map_option (\<lambda>f. (Ok False s, f)) (CPartFile_AddGap offset (offset + ucast len - 1) f)
        else case CreateHashFromFile h md4 V offset len True None s of
          Exc e s' \<Rightarrow>
            (if e = CIOFailureException \<or> e = CEOFException then Some (Ok False s', f\<lparr>pf_PS_ERROR := True\<rparr>)
             else Some (Exc e s', f))
        | Ok (hashresult, sub) s' \<Rightarrow>
            Some (Ok (hashresult = Some (if unat (kf_iPartCount k) > 1 then hashes ! unat partnumber else kf_abyFileHash k)) s', f))"

subsection \<open>Using recovery data\<close>

definition valid_hash_at :: "bool list option \<Rightarrow> aich_tree \<Rightarrow> CAICHHash option" where
  "valid_hash_at p t =
     (case p of None \<Rightarrow> None
      | Some q \<Rightarrow> (case node_at q t of None \<Rightarrow> None | Some n \<Rightarrow> if m_bHashValid n then Some (m_Hash n) else None))"

text \<open>The loop over the blocks of the part of \<open>len\<close> bytes: \<open>v\<close> is the verified tree of the part, \<open>w\<close> the
  tree of our data. The positions are below the size of a part, so that natural numbers are exact.\<close>

function recover_blocks ::
  "u16 \<Rightarrow> nat \<Rightarrow> nat \<Rightarrow> aich_tree \<Rightarrow> aich_tree \<Rightarrow> nat \<Rightarrow> CPartFile \<Rightarrow> (nat \<times> aich_tree \<times> CPartFile) option" where
  "recover_blocks nPart len pos v w nRecovered f =
     (if pos < len then
        let nBlockSize = min EMBLOCK_bytes (len - pos);
            (p, lev, v) = FindHash (of_nat pos) (of_nat nBlockSize) 0 v;
            (q, lev, w) = FindHash (of_nat pos) (of_nat nBlockSize) 0 w;
            next_pos = pos + EMBLOCK_bytes;
            part_pos = PARTSIZE * ucast nPart
        in (case (valid_hash_at p v, valid_hash_at q w) of
              (Some verified, Some ours) \<Rightarrow>
                if ours = verified then
                  Option.bind (CPartFile_FillGap (part_pos + of_nat pos) (part_pos + of_nat pos + of_nat (nBlockSize - 1)) f) (\<lambda>f.
                    recover_blocks nPart len next_pos v w (nRecovered + nBlockSize)
                      (VerifiedData True nPart pos (pos + nBlockSize - 1) (RemoveBlockFromList part_pos (part_pos + of_nat (nBlockSize - 1)) f)))
                else recover_blocks nPart len next_pos v w nRecovered (VerifiedData False nPart pos (pos + nBlockSize - 1) f)
            | _ \<Rightarrow> recover_blocks nPart len next_pos v w nRecovered f)
      else Some (nRecovered, v, f))"
  by auto
termination
  by (relation "measure (\<lambda>(nPart, len, pos, v, w, nRecovered, f). len - pos)") (auto simp: EMBLOCKSIZE_def)

declare recover_blocks.simps [simp del]

text \<open>The outcomes; \<open>Recovered\<close> has the number of bytes and whether the part is complete, after which
  the caller may finish the file.\<close>

datatype recovery_result = NoSuchPart | AlreadyComplete | NoVerifiedHash | ReadError | NoOwnHash | StillCorrupt | Recovered nat bool

definition finish_part_recovery ::
  "host \<Rightarrow> (u8 list \<Rightarrow> CMD4Hash) \<Rightarrow> 's file_ops \<Rightarrow> u16 \<Rightarrow> nat \<Rightarrow> CPartFile \<Rightarrow> 's \<Rightarrow> (('s, recovery_result) res \<times> CPartFile) option" where
  "finish_part_recovery h md4 V nPart nRecovered f s =
     Option.bind (CPartFile_IsComplete nPart f) (\<lambda>(b, f).
       let erase = (\<lambda>f. f\<lparr>pf_corrupted_list := remove1 nPart (pf_corrupted_list f)\<rparr>) in
       if \<not> b then Some (Ok (Recovered nRecovered False) s, erase f)
       else Option.bind (HashSinglePart h md4 V nPart f s) (\<lambda>(res, f).
         case res of
           Exc e s' \<Rightarrow> Some (Exc e s', f)
         | Ok True s' \<Rightarrow> Some (Ok (Recovered nRecovered True) s', erase f)
         | Ok False s' \<Rightarrow>
             map_option (\<lambda>f. (Ok StillCorrupt s', f))
               (CPartFile_AddGap_part nPart (f\<lparr>pf_known := (pf_known f)\<lparr>kf_pAICHHashSet := SetStatus AICH_ERROR (kf_pAICHHashSet (pf_known f))\<rparr>\<rparr>))))"

text \<open>The buffered data has been written before; the file \<open>s\<close> is that of the part file.\<close>

definition AICHRecoveryDataAvailable ::
  "host \<Rightarrow> (u8 list \<Rightarrow> CMD4Hash) \<Rightarrow> 's file_ops \<Rightarrow> u16 \<Rightarrow> CPartFile \<Rightarrow> 's \<Rightarrow> (('s, recovery_result) res \<times> CPartFile) option" where
  "AICHRecoveryDataAvailable h md4 V nPart f s =
     (if kf_iPartCount (pf_known f) < nPart then Some (Ok NoSuchPart s, f)
      else let len = KnownFile_GetPartSize (pf_known f) nPart in
        Option.bind (CPartFile_IsComplete nPart f) (\<lambda>(b, f).
          if b then Some (Ok AlreadyComplete s, f)
          else case FindHash (ucast nPart * PARTSIZE) (ucast len) 0 (file_tree (pf_known f)) of (p, lev, t) \<Rightarrow>
            let f = set_part_tree t f in
            (case (p, case p of None \<Rightarrow> None | Some q \<Rightarrow> node_at q t) of
               (Some q, Some v) \<Rightarrow>
                 if \<not> m_bHashValid v then Some (Ok NoVerifiedHash s, f)
                 else (case CreateHashFromFile h md4 V (PARTSIZE * ucast nPart) len False
                              (Some (CAICHHashTree (m_nDataSize v) (m_bIsLeftBranch v) (m_nBaseSize v))) s of
                         Exc e s' \<Rightarrow>
                           (if e = CIOFailureException then Some (Ok ReadError s', f\<lparr>pf_PS_ERROR := True\<rparr>) else Some (Exc e s', f))
                       | Ok (md, Some w) s' \<Rightarrow>
                           if \<not> m_bHashValid w then Some (Ok NoOwnHash s', f)
                           else Option.bind (recover_blocks nPart (unat len) 0 v w 0 f) (\<lambda>(nRecovered, v, f).
                             finish_part_recovery h md4 V nPart nRecovered (set_part_tree (update_at q (\<lambda>_. v) t) f) s')
                       | Ok (md, None) s' \<Rightarrow> Some (Ok NoOwnHash s', f))
             | _ \<Rightarrow> Some (Ok NoVerifiedHash s, f))))"

subsection \<open>The blocks of a part\<close>

lemma leaf_hashes_blocks:
  assumes "honest alg t" "shaped t" "0 < unat (m_nDataSize t)" "unat (m_nDataSize t) \<le> 9728000"
  shows "length (leaf_hashes t) = block_count (unat (m_nDataSize t))"
  using leaf_count [OF assms(1,2)] leaf_hashes_records [OF assms(1)] assms(3,4) by simp

text \<open>The node that \<open>FindHash\<close> finds for a block has the hash of that block.\<close>

lemma FindHash_leaf:
  assumes "honest alg t" "shaped t" "unat (m_nDataSize t) \<le> 9728000" "FindHash pos sz lev t = (Some q, lev', t')"
    and "unat pos = i * 184320" "unat sz = min 184320 (unat (m_nDataSize t) - unat pos)" "unat pos < unat (m_nDataSize t)"
  shows "\<exists>nd. node_at q t = Some nd \<and> m_Hash nd = leaf_hashes t ! i"
  using assms
proof (induction t arbitrary: pos lev q t' i)
  case (HashTree h ds bs lb v pl pr)
  have bs: "unat bs = 184320" using HashTree.prems(2,3) by (simp add: shaped.simps child_base_def PARTSIZE_def EMBLOCKSIZE_def word_le_nat_alt)
  from HashTree.prems(1) show ?case
  proof (cases rule: honest_cases)
    case leaf
    then have "unat ds \<le> 184320" using bs by (simp add: word_le_nat_alt)
    then have "i = 0" using HashTree.prems(5,7) by (cases i) auto
    moreover from HashTree.prems(4) have "q = []" by (cases rule: FindHash_Some_cases) (use leaf in simp_all)
    ultimately show ?thesis using leaf by simp
  next
    case (inner l r)
    define nl where "nl = unat (tree_nLeft ds bs lb)"
    have "1 < bs" using bs by (simp add: word_less_nat_alt)
    note half = split_halves [OF this inner(5) _ nl_def, of "unat ds"]
    obtain j where j: "nl = 184320 * j" "0 < j" "nl < unat ds" using half(1) half(4) bs by auto
    have sh: "shaped l" "m_nDataSize l = tree_nLeft ds bs lb" "shaped r" "m_nDataSize r = ds - tree_nLeft ds bs lb"
      using HashTree.prems(2) by (simp_all add: inner shaped.simps)
    have sz: "unat (m_nDataSize l) = nl" "unat (m_nDataSize r) = unat ds - nl" using sh j by (simp_all add: nl_def unat_sub_le word_le_nat_alt)
    have len: "length (leaf_hashes l) = j"
      using leaf_hashes_blocks [OF inner(7) sh(1)] sz(1) j HashTree.prems(3) block_count_add [of j 0] by (simp add: block_count_def)
    have or: "or_new pl (tree_nLeft ds bs lb) True = l" "or_new pr (ds - tree_nLeft ds bs lb) False = r" by (simp_all add: inner or_new_def)
    from HashTree.prems(4) show ?thesis
    proof (cases rule: FindHash_Some_cases)
      case here
      then have "unat sz = unat ds" "unat pos = 0" by simp_all
      moreover have "184320 < unat ds" using inner(5) bs by (simp add: word_less_nat_alt)
      ultimately show ?thesis using HashTree.prems(6) by simp
    next
      case (left q' c)
      then have "i < j" using HashTree.prems(5) j by (simp add: word_less_nat_alt nl_def [symmetric])
      have "unat sz = min 184320 (unat (m_nDataSize l) - unat pos)"
      proof -
        have "i * 184320 + 184320 \<le> nl" using \<open>i < j\<close> j(1) by simp
        then show ?thesis using HashTree.prems(5,6) sz(1) j(3) by simp
      qed
      then have "\<exists>nd. node_at q' l = Some nd \<and> m_Hash nd = leaf_hashes l ! i"
        using HashTree.IH(1) [of l pos "lev + 1" q' c i] inner sh sz j left or HashTree.prems(3,5) \<open>i < j\<close> by simp
      then show ?thesis using left inner len \<open>i < j\<close> by (auto simp: nth_append)
    next
      case (right q' c)
      then have ge: "nl \<le> unat pos" by (simp add: word_less_nat_alt nl_def)
      then have "j \<le> i" using HashTree.prems(5) j by simp
      have up: "unat (pos - tree_nLeft ds bs lb) = (i - j) * 184320"
        using ge HashTree.prems(5) j(1) by (simp add: unat_sub_le word_le_nat_alt nl_def diff_mult_distrib)
      then have "\<exists>nd. node_at q' r = Some nd \<and> m_Hash nd = leaf_hashes r ! (i - j)"
        using HashTree.IH(2) [of r "pos - tree_nLeft ds bs lb" "lev + 1" q' c "i - j"] inner sh sz j right or HashTree.prems(3,5-7) ge \<open>j \<le> i\<close>
        by (simp add: diff_mult_distrib)
      then show ?thesis using right inner len \<open>j \<le> i\<close> by (auto simp: nth_append)
    qed
  qed
qed

lemma FindHash_block_hash:
  assumes "honest alg v" "shaped v" "unat (m_nDataSize v) = n" "n \<le> 9728000" "i * 184320 < n"
  shows "\<exists>q lev. FindHash (of_nat (i * 184320)) (of_nat (min 184320 (n - i * 184320))) 0 v = (Some q, lev, v) \<and>
    valid_hash_at (Some q) v = Some (leaf_hashes v ! i)"
proof -
  let ?pos = "of_nat (i * 184320) :: u64" and ?sz = "of_nat (min 184320 (n - i * 184320)) :: u64"
  have "(of_nat n :: u64) = m_nDataSize v" using assms(3) by (metis word_eq_of_nat)
  then have "FindHash 0 (of_nat n) 0 v = (Some [], 1, v)" by (cases v) (simp add: FindHash.simps)
  then have "part_at v 0 n []" using assms(3-5) by (simp add: part_at_def)
  moreover have "unat (m_nDataSize v) \<le> 2 ^ 38" using assms(3,4) by simp
  moreover have "184320 dvd i * 184320" by simp
  ultimately obtain q lev nd where f: "FindHash (of_nat (0 * 9728000) + ?pos) ?sz 0 v = (Some q, lev, v)" "node_at q v = Some nd" "m_bHashValid nd"
    using block_recovered [OF assms(1,2), of 0 n "[]" "i * 184320"] assms(5) by blast
  have z: "of_nat (0 * 9728000) + ?pos = ?pos" by simp
  note f1 = f(1) [unfolded z]
  have u: "unat ?pos = i * 184320" "unat ?sz = min 184320 (n - i * 184320)" using assms(4,5) by (intro unat_of_nat_small; simp)+
  obtain nd' where "node_at q v = Some nd'" "m_Hash nd' = leaf_hashes v ! i"
    using FindHash_leaf [OF assms(1,2) _ f1 u(1)] u assms(3-5) by auto
  then show ?thesis using f1 f(2,3) by (auto simp: valid_hash_at_def)
qed

text \<open>The bytes of a block of a part of \<open>n\<close> bytes, and those of the blocks with the same hash in two lists.\<close>

definition part_block :: "nat \<Rightarrow> nat \<Rightarrow> nat \<Rightarrow> nat set" where
  "part_block k n i = {k * 9728000 + i * 184320 ..< k * 9728000 + min n (i * 184320 + 184320)}"

definition agreeing :: "nat \<Rightarrow> nat \<Rightarrow> nat \<Rightarrow> CAICHHash list \<Rightarrow> CAICHHash list \<Rightarrow> nat set" where
  "agreeing k n i hs hs' = (\<Union>j \<in> {j. i \<le> j \<and> j * 184320 < n \<and> hs ! j = hs' ! j}. part_block k n j)"

lemma agreeing_step:
  assumes "i * 184320 < n"
  shows "agreeing k n i hs hs' = (if hs ! i = hs' ! i then part_block k n i else {}) \<union> agreeing k n (i + 1) hs hs'"
proof -
  have "{j. i \<le> j \<and> j * 184320 < n \<and> hs ! j = hs' ! j} =
      (if hs ! i = hs' ! i then {i} else {}) \<union> {j. i + 1 \<le> j \<and> j * 184320 < n \<and> hs ! j = hs' ! j}"
    using assms by (auto simp: le_less)
  then show ?thesis unfolding agreeing_def by simp
qed

lemma FillGap_block:
  assumes "gap_inv g" "k < 65536" "k * 9728000 + n \<le> file_size g" "i * 184320 < n" "n \<le> 9728000" "sz = min 184320 (n - i * 184320)"
    and "a = PARTSIZE * ucast (of_nat k :: u16) + of_nat (i * 184320)"
  shows "\<exists>g'. FillGap a (a + of_nat (sz - 1)) g = Some g' \<and> gap_inv g' \<and> file_size g' = file_size g \<and> missing g' = missing g - part_block k n i"
proof -
  have "ucast (of_nat k :: u16) = (of_nat k :: u64)" using assms(2) by (intro word_unat_eq_iff [THEN iffD2]) (simp add: unat_ucast_small unat_of_nat_small)
  then have a: "a = of_nat (k * 9728000 + i * 184320)" unfolding assms(7) PARTSIZE_def by (simp add: mult.commute)
  have sz: "0 < sz" "i * 184320 + sz \<le> n" using assms(4,6) by auto
  have b: "a + of_nat (sz - 1) = of_nat (k * 9728000 + i * 184320 + (sz - 1))" unfolding a by (simp only: of_nat_add)
  have ua: "unat a = k * 9728000 + i * 184320" unfolding a using assms(2,4,5) by (intro unat_of_nat_small) simp
  have ub: "unat (a + of_nat (sz - 1)) = k * 9728000 + i * 184320 + (sz - 1)" unfolding b using assms(2,4,5) sz by (intro unat_of_nat_small) simp
  have le: "a \<le> a + of_nat (sz - 1)" unfolding word_le_nat_alt ua ub by simp
  have in_file: "unat a < file_size g" unfolding ua using assms(3,4) by linarith
  have last: "unat (a + of_nat (sz - 1)) \<le> file_size g - 1" unfolding ub using sz assms(3) by linarith
  have e: "k * 9728000 + i * 184320 + (sz - 1) + 1 = k * 9728000 + min n (i * 184320 + 184320)" using sz assms(4,6) by auto
  have "{unat a .. min (unat (a + of_nat (sz - 1))) (file_size g - 1)} = {k * 9728000 + i * 184320 .. k * 9728000 + i * 184320 + (sz - 1)}"
    using last unfolding ua ub by (simp add: min_absorb1)
  also have "\<dots> = part_block k n i" unfolding part_block_def e [symmetric] by auto
  finally show ?thesis using gaps.fill_range [OF assms(1) le in_file] by simp
qed

lemma recover_blocks_fills:
  assumes v: "honest alg v" "shaped v" "unat (m_nDataSize v) = n" and w: "honest alg' w" "shaped w" "unat (m_nDataSize w) = n"
    and "n \<le> 9728000" "k < 65536"
    and "gap_inv (pf_gaplist f)" "k * 9728000 + n \<le> file_size (pf_gaplist f)"
  shows "\<exists>r f'. recover_blocks (of_nat k) n (i * 184320) v w m f = Some (r, v, f') \<and> gap_inv (pf_gaplist f') \<and>
    file_size (pf_gaplist f') = file_size (pf_gaplist f) \<and> pf_known f' = pf_known f \<and> pf_corrupted_list f' = pf_corrupted_list f \<and>
    missing (pf_gaplist f') = missing (pf_gaplist f) - agreeing k n i (leaf_hashes w) (leaf_hashes v)"
  using assms(9,10)
proof (induction "n - i * 184320" arbitrary: i m f rule: less_induct)
  case less
  show ?case
  proof (cases "i * 184320 < n")
    case False
    then have "agreeing k n i (leaf_hashes w) (leaf_hashes v) = {}" by (auto simp: agreeing_def)
    then show ?thesis using False less.prems by (simp add: recover_blocks.simps [of _ n])
  next
    case True
    let ?sz = "min 184320 (n - i * 184320)" and ?a = "PARTSIZE * ucast (of_nat k :: u16) :: u64"
    have next_i: "i * 184320 + 184320 = (i + 1) * 184320" "n - (i + 1) * 184320 < n - i * 184320" using True by simp_all
    obtain p lev where p: "FindHash (of_nat (i * 184320)) (of_nat ?sz) 0 v = (Some p, lev, v)" "valid_hash_at (Some p) v = Some (leaf_hashes v ! i)"
      using FindHash_block_hash [OF v assms(7) True] by blast
    obtain q lev' where q: "FindHash (of_nat (i * 184320)) (of_nat ?sz) 0 w = (Some q, lev', w)" "valid_hash_at (Some q) w = Some (leaf_hashes w ! i)"
      using FindHash_block_hash [OF w assms(7) True] by blast
    have step: "recover_blocks (of_nat k) n (i * 184320) v w m f =
       (if leaf_hashes w ! i = leaf_hashes v ! i then
          Option.bind (CPartFile_FillGap (?a + of_nat (i * 184320)) (?a + of_nat (i * 184320) + of_nat (?sz - 1)) f) (\<lambda>f.
            recover_blocks (of_nat k) n ((i + 1) * 184320) v w (m + ?sz)
              (VerifiedData True (of_nat k) (i * 184320) (i * 184320 + ?sz - 1) (RemoveBlockFromList ?a (?a + of_nat (?sz - 1)) f)))
        else recover_blocks (of_nat k) n ((i + 1) * 184320) v w m (VerifiedData False (of_nat k) (i * 184320) (i * 184320 + ?sz - 1) f))"
      unfolding next_i(1) [symmetric]
      using True p q by (subst recover_blocks.simps) (simp add: Let_def EMBLOCKSIZE_def del: of_nat_mult)
    have st: "pf_gaplist (VerifiedData b x y z f) = pf_gaplist f" "pf_gaplist (RemoveBlockFromList c d f) = pf_gaplist f"
      "pf_known (VerifiedData b x y z f) = pf_known f" "pf_known (RemoveBlockFromList c d f) = pf_known f"
      "pf_corrupted_list (VerifiedData b x y z f) = pf_corrupted_list f" "pf_corrupted_list (RemoveBlockFromList c d f) = pf_corrupted_list f" for b x y z c d f
      by (simp_all add: VerifiedData_def RemoveBlockFromList_def)
    note ag = agreeing_step [OF True, of k "leaf_hashes w" "leaf_hashes v"]
    show ?thesis
    proof (cases "leaf_hashes w ! i = leaf_hashes v ! i")
      case False
      let ?f = "VerifiedData False (of_nat k) (i * 184320) (i * 184320 + ?sz - 1) f"
      from less.hyps [OF next_i(2), of ?f m] less.prems show ?thesis unfolding step ag using False by (simp add: st)
    next
      case same: True
      obtain g where g: "FillGap (?a + of_nat (i * 184320)) (?a + of_nat (i * 184320) + of_nat (?sz - 1)) (pf_gaplist f) = Some g"
          "gap_inv g" "file_size g = file_size (pf_gaplist f)" "missing g = missing (pf_gaplist f) - part_block k n i"
        using FillGap_block [OF less.prems(1) assms(8) less.prems(2) True assms(7) refl refl] by blast
      have fg: "CPartFile_FillGap (?a + of_nat (i * 184320)) (?a + of_nat (i * 184320) + of_nat (?sz - 1)) f = Some (set_gaplist f g)"
        using g(1) by (simp add: CPartFile_FillGap_def)
      let ?f = "VerifiedData True (of_nat k) (i * 184320) (i * 184320 + ?sz - 1) (RemoveBlockFromList ?a (?a + of_nat (?sz - 1)) (set_gaplist f g))"
      have sg: "pf_gaplist (set_gaplist f g) = g" "pf_known (set_gaplist f g) = pf_known f" "pf_corrupted_list (set_gaplist f g) = pf_corrupted_list f"
        by (simp_all add: set_gaplist_def)
      from less.hyps [OF next_i(2), of ?f "m + ?sz"] less.prems(2) g(2,3)
      show ?thesis unfolding step ag fg using same g(4) by (simp add: st sg Diff_eq ac_simps)
    qed
  qed
qed

subsection \<open>The whole recovery\<close>

lemma part_words:
  assumes "k < 65536" "n \<le> 9728000"
  shows "PARTSIZE * ucast (of_nat k :: u16) = (of_nat (k * 9728000) :: u64)" "ucast (of_nat k :: u16) * PARTSIZE = (of_nat (k * 9728000) :: u64)"
    "ucast (of_nat n :: u32) = (of_nat n :: u64)" "unat (of_nat n :: u32) = n" "unat (of_nat k :: u16) = k"
    "unat (of_nat (k * 9728000) + of_nat n :: u64) = k * 9728000 + n"
proof -
  have c: "ucast (of_nat k :: u16) = (of_nat k :: u64)" using assms(1) by (intro word_unat_eq_iff [THEN iffD2]) (simp add: unat_ucast_small unat_of_nat_small)
  show "PARTSIZE * ucast (of_nat k :: u16) = (of_nat (k * 9728000) :: u64)" "ucast (of_nat k :: u16) * PARTSIZE = (of_nat (k * 9728000) :: u64)"
    by (simp_all add: c PARTSIZE_def)
  show "ucast (of_nat n :: u32) = (of_nat n :: u64)"
    using assms(2) by (intro word_unat_eq_iff [THEN iffD2]) (simp add: unat_ucast_small unat_of_nat_small)
  show "unat (of_nat n :: u32) = n" "unat (of_nat k :: u16) = k" using assms by (intro unat_of_nat_small; simp)+
  have "unat (of_nat (k * 9728000 + n) :: u64) = k * 9728000 + n" using assms by (intro unat_of_nat_small) simp
  then show "unat (of_nat (k * 9728000) + of_nat n :: u64) = k * 9728000 + n" by (simp only: of_nat_add)
qed

definition expected_part_hash :: "CKnownFile \<Rightarrow> nat \<Rightarrow> CMD4Hash" where
  "expected_part_hash f k = (if unat (kf_iPartCount f) > 1 then kf_hashlist f ! k else kf_abyFileHash f)"

lemma part_in_file:
  assumes "gap_inv g" "k < part_count g" "n = min 9728000 (file_size g - k * 9728000)"
  shows "k < 65536" "0 < n" "n \<le> 9728000" "k * 9728000 + n \<le> file_size g" "of_nat k < m_iPartCount g"
    "unat (of_nat k :: u16) = k" "part_bytes g k = {k * 9728000 ..< k * 9728000 + n}"
proof -
  have k: "k * 9728000 < file_size g" using assms(1,2) by (auto simp: gap_inv_def)
  then show "0 < n" "n \<le> 9728000" "k * 9728000 + n \<le> file_size g" using assms(3) by auto
  show k16: "k < 65536" using assms(2) unat_lt_16 [of "m_iPartCount g"] unfolding part_count_def by linarith
  then show u: "unat (of_nat k :: u16) = k" by (intro unat_of_nat_small) simp
  show "of_nat k < m_iPartCount g" using assms(2) by (simp add: word_less_nat_alt u part_count_def)
  show "part_bytes g k = {k * 9728000 ..< k * 9728000 + n}"
    using k unfolding part_bytes_def assms(3) by (auto simp: min_def div_nat_eqI dividend_less_times_div)
qed

context byte_source
begin

lemma HashSinglePart_compares:
  assumes "ok s" "k < 65536" "0 < n" "n \<le> 9728000" "KnownFile_GetPartSize (pf_known f) (of_nat k) = of_nat n"
    and ours: "take n (drop (k * 9728000) (content s)) = ours" "length ours = n"
    and "unat (kf_iPartCount (pf_known f)) = 1 \<or> k < length (kf_hashlist (pf_known f))"
  shows "\<exists>s'. HashSinglePart h md4 V (of_nat k) f s = Some (Ok (md4 ours = expected_part_hash (pf_known f) k) s', f)"
proof -
  note w = part_words [OF assms(2,4)]
  have fit: "k * 9728000 + n \<le> length (content s)" using ours assms(3) by auto
  have len: "\<not> GetLength V s < unat (of_nat (k * 9728000) + of_nat n :: u64)" using size_law [OF assms(1)] fit w(6) by simp
  obtain s' where "CreateHashFromFile h md4 V (of_nat (k * 9728000)) (of_nat n) True None s = Ok (CreateHashFromInput h md4 ours True None) s'"
    using CreateHashFromFile_reads [OF assms(1) ours assms(3), of h md4 True None] assms(2,4) by auto
  then show ?thesis
    using assms(5,8) len by (auto simp: HashSinglePart_def Let_def w(1,3,5) expected_part_hash_def CreateHashFromInput_def simp del: of_nat_mult)
qed

end
lemma finish_part_recovery_result:
  assumes g: "gap_inv (pf_gaplist f)" "k < part_count (pf_gaplist f)" "n = min 9728000 (file_size (pf_gaplist f) - k * 9728000)"
    and s: "mem_inv s" "take n (drop (k * 9728000) (mem_content s)) = ours" "length ours = n"
    and f: "KnownFile_GetPartSize (pf_known f) (of_nat k) = of_nat n" "unat (kf_iPartCount (pf_known f)) = 1 \<or> k < length (kf_hashlist (pf_known f))"
  shows "\<exists>r s' f'. finish_part_recovery h md4 (mem_ops hp) (of_nat k) m f s = Some (Ok r s', f') \<and> gap_inv (pf_gaplist f') \<and>
    (if missing (pf_gaplist f) \<inter> part_bytes (pf_gaplist f) k \<noteq> {} then r = Recovered m False \<and> missing (pf_gaplist f') = missing (pf_gaplist f)
     else if md4 ours = expected_part_hash (pf_known f) k then r = Recovered m True \<and> missing (pf_gaplist f') = missing (pf_gaplist f)
     else r = StillCorrupt \<and> missing (pf_gaplist f') = missing (pf_gaplist f) \<union> part_bytes (pf_gaplist f) k \<and>
       m_eStatus (kf_pAICHHashSet (pf_known f')) = AICH_ERROR)"
proof -
  note part = part_in_file [OF g]
  let ?c = "missing (pf_gaplist f) \<inter> part_bytes (pf_gaplist f) k = {}"
  obtain g1 where g1: "IsComplete_part (of_nat k) (pf_gaplist f) = Some (?c, g1)" "gap_inv g1" "same_file g1 (pf_gaplist f)" "missing g1 = missing (pf_gaplist f)"
    using IsComplete_part_iff [OF g(1) part(5)] unfolding part(6) by blast
  have ic: "CPartFile_IsComplete (of_nat k) f = Some (?c, set_gaplist f g1)" using g1(1) by (simp add: CPartFile_IsComplete_def)
  have sg: "pf_gaplist (set_gaplist f x) = x" "pf_known (set_gaplist f x) = pf_known f" for f x by (simp_all add: set_gaplist_def)
  have pb: "part_bytes g1 k = part_bytes (pf_gaplist f) k" "of_nat k < m_iPartCount g1"
    using g1(3) part(5) by (simp_all add: same_file_def part_bytes_def file_size_def)
  have "\<exists>s'. HashSinglePart h md4 (mem_ops hp) (of_nat k) (set_gaplist f g1) s =
      Some (Ok (md4 ours = expected_part_hash (pf_known f) k) s', set_gaplist f g1)"
    using mem_in.HashSinglePart_compares [OF s(1) part(1-3), of "set_gaplist f g1" ours h md4 hp] f s(2,3) by (simp add: sg)
  then obtain s' where hash: "HashSinglePart h md4 (mem_ops hp) (of_nat k) (set_gaplist f g1) s =
      Some (Ok (md4 ours = expected_part_hash (pf_known f) k) s', set_gaplist f g1)" by blast
  obtain g2 where g2: "AddGap_part (of_nat k) g1 = Some g2" "gap_inv g2" "missing g2 = missing (pf_gaplist f) \<union> part_bytes (pf_gaplist f) k"
    using AddGap_part_correct [OF g1(2) pb(2)] unfolding part(6) pb(1) g1(4) by blast
  show ?thesis
    unfolding finish_part_recovery_def ic
    using hash g1(2,4) g2
    by (cases "md4 ours = expected_part_hash (pf_known f) k"; cases ?c) (auto simp: Let_def sg CPartFile_AddGap_part_def SetStatus_def)
qed
lemma nth_chunks: "0 < U \<Longrightarrow> i * U < length xs \<Longrightarrow> i < length (chunks U xs) \<and> chunks U xs ! i = take U (drop (i * U) xs)"
proof (induction i arbitrary: xs)
  case 0
  then show ?case by (simp add: chunks.simps [of U xs])
next
  case (Suc i)
  then have "xs \<noteq> []" "i * U < length (drop U xs)" by auto
  then show ?case using Suc.IH [of "drop U xs"] Suc.prems(1) by (simp add: chunks.simps [of U xs] add.commute)
qed

text \<open>Where the digest has no collision between the blocks, the bytes of agreeing blocks are the same.\<close>

lemma agreeing_bytes:
  assumes "length xs = n" "length ys = n" "inj_on sha1 (set (chunks 184320 xs) \<union> set (chunks 184320 ys))"
    and "x \<in> agreeing k n 0 (map sha1 (chunks 184320 xs)) (map sha1 (chunks 184320 ys))"
  shows "k * 9728000 \<le> x" "x < k * 9728000 + n" "xs ! (x - k * 9728000) = ys ! (x - k * 9728000)"
proof -
  obtain j where j: "j * 184320 < n" "map sha1 (chunks 184320 xs) ! j = map sha1 (chunks 184320 ys) ! j" "x \<in> part_block k n j"
    using assms(4) by (auto simp: agreeing_def)
  define y where "y = x - k * 9728000 - j * 184320"
  have b: "k * 9728000 + j * 184320 \<le> x" "x < k * 9728000 + min n (j * 184320 + 184320)" using j(3) by (simp_all add: part_block_def)
  have x1: "x = k * 9728000 + (j * 184320 + y)" using b(1) unfolding y_def by linarith
  have "k * 9728000 + (j * 184320 + y) < k * 9728000 + min n (j * 184320 + 184320)" using b(2) unfolding x1 .
  then have x2: "j * 184320 + y < n" "j * 184320 + y < j * 184320 + 184320" by (simp_all only: add_less_cancel_left min_less_iff_conj)
  note x = x1 x2(2) [unfolded add_less_cancel_left] x2(1)
  show "k * 9728000 \<le> x" "x < k * 9728000 + n" unfolding x1 using x2(1) by (simp_all only: add_less_cancel_left le_add1)
  have cx: "j < length (chunks 184320 xs)" "chunks 184320 xs ! j = take 184320 (drop (j * 184320) xs)"
    using nth_chunks [of 184320 j xs] j(1) unfolding assms(1) by simp_all
  have cy: "j < length (chunks 184320 ys)" "chunks 184320 ys ! j = take 184320 (drop (j * 184320) ys)"
    using nth_chunks [of 184320 j ys] j(1) unfolding assms(2) by simp_all
  have "sha1 (chunks 184320 xs ! j) = sha1 (chunks 184320 ys ! j)" using j(2) cx(1) cy(1) by (simp only: nth_map)
  then have "chunks 184320 xs ! j = chunks 184320 ys ! j"
    by (rule inj_onD [OF assms(3)]) (rule UnI1 UnI2, rule nth_mem, rule cx(1) cy(1))+
  then have "take 184320 (drop (j * 184320) xs) ! y = take 184320 (drop (j * 184320) ys) ! y" unfolding cx(2) cy(2) by simp
  moreover have "x - k * 9728000 = j * 184320 + y" using x(1) by simp
  ultimately show "xs ! (x - k * 9728000) = ys ! (x - k * 9728000)" using x(2,3) assms(1,2) by simp
qed

lemma agreeing_in_part: "agreeing k n i hs hs' \<subseteq> {k * 9728000 ..< k * 9728000 + n}"
  by (auto simp: agreeing_def part_block_def)

lemma GetPartSize_part:
  assumes "gap_inv g" "k < part_count g" "n = min 9728000 (file_size g - k * 9728000)"
    and "kf_iPartCount f = m_iPartCount g" "kf_sizeLastPart f = m_sizeLastPart g"
  shows "KnownFile_GetPartSize f (of_nat k) = of_nat n"
proof -
  note part = part_in_file [OF assms(1-3)]
  have g: "part_count g = (file_size g - 1) div 9728000 + 1" "unat (m_sizeLastPart g) = file_size g - (part_count g - 1) * 9728000" "0 < file_size g"
    using assms(1) by (simp_all add: gap_inv_def)
  show ?thesis
  proof (cases "k + 1 = part_count g")
    case True
    then have "k = (file_size g - 1) div 9728000" using g(1) by simp
    then have "file_size g - 1 < k * 9728000 + 9728000" by (simp add: dividend_less_div_times)
    then have "unat (m_sizeLastPart g) = n" using g(2,3) True assms(3) by auto
    then show ?thesis using True part(6) assms(4,5) unfolding KnownFile_GetPartSize_def part_count_def by (metis word_eq_of_nat)
  next
    case False
    then have "k + 1 \<le> (file_size g - 1) div 9728000" using assms(2) g(1) by simp
    then have "(k + 1) * 9728000 \<le> file_size g - 1" by (simp add: less_eq_div_iff_mult_less_eq)
    then have "n = 9728000" using assms(3) by simp
    then show ?thesis using False part(6) assms(4) by (simp add: KnownFile_GetPartSize_def part_count_def PARTSIZE_def)
  qed
qed

lemma recovered_part_node:
  assumes "honest alg u" "shaped u" "unat (m_nDataSize u) \<le> 2 ^ 38" "part_at u k n p"
  shows "\<exists>lev v. FindHash (of_nat (k * 9728000)) (of_nat n) 0 (recovered p u) = (Some p, lev, recovered p u) \<and>
    node_at p (recovered p u) = Some v \<and> node_at p u = Some v \<and> honest alg v \<and> shaped v \<and> m_nDataSize v = of_nat n"
proof -
  obtain lev where f: "FindHash (of_nat (k * 9728000)) (of_nat n) 0 u = (Some p, lev, u)" using assms(4) unfolding part_at_def by blast
  have n: "0 < n" "k * 9728000 + n \<le> unat (m_nDataSize u)" using assms(4) by (auto simp: part_at_def)
  have w: "unat (of_nat (k * 9728000) :: u64) = k * 9728000" "unat (of_nat n :: u64) = n"
    using n assms(3) by (intro unat_of_nat_small; simp)+
  have r: "FindHash (of_nat (k * 9728000)) (of_nat n) 0 (recovered p u) = (Some p, lev, recovered p u)" "node_at p (recovered p u) = node_at p u"
    using FindHash_recovered [OF assms(1,2) f f] n unfolding w by auto
  obtain v where v: "node_at p u = Some v" "m_nDataSize v = of_nat n" using FindHash_node [OF f assms(2)] by blast
  then show ?thesis using r honest_node [OF assms(1) v(1)] shaped_node [OF assms(2) v(1)] by auto
qed

lemma recover_start:
  assumes u: "honest alg u" "shaped u" "unat (m_nDataSize u) \<le> 2 ^ 38" "part_at u k n p" "file_tree (pf_known f) = recovered p u" "node_at p u = Some v"
    and g: "gap_inv (pf_gaplist f)" "k < part_count (pf_gaplist f)" "n = min 9728000 (file_size (pf_gaplist f) - k * 9728000)"
    and f: "kf_iPartCount (pf_known f) = m_iPartCount (pf_gaplist f)" "kf_sizeLastPart (pf_known f) = m_sizeLastPart (pf_gaplist f)"
      "missing (pf_gaplist f) \<inter> part_bytes (pf_gaplist f) k \<noteq> {}"
    and s: "mem_inv s" "take n (drop (k * 9728000) (mem_content s)) = ours" "length ours = n"
  shows "\<exists>w m f' s'. AICHRecoveryDataAvailable h md4 (mem_ops hp) (of_nat k) f s = finish_part_recovery h md4 (mem_ops hp) (of_nat k) m f' s' \<and>
    mem_inv s' \<and> mem_content s' = mem_content s \<and> gap_inv (pf_gaplist f') \<and> file_size (pf_gaplist f') = file_size (pf_gaplist f) \<and>
    pf_known f' = set_file_tree w (pf_known f) \<and>
    missing (pf_gaplist f') = missing (pf_gaplist f) - agreeing k n 0 (map sha1 (chunks 184320 ours)) (leaf_hashes v)"
proof -
  note part = part_in_file [OF g] and w = part_words [OF part_in_file(1,3) [OF g]]
  obtain lev v' where v': "FindHash (of_nat (k * 9728000)) (of_nat n) 0 (recovered p u) = (Some p, lev, recovered p u)"
      "node_at p (recovered p u) = Some v'" "node_at p u = Some v'" "honest alg v'" "shaped v'" "m_nDataSize v' = of_nat n"
    using recovered_part_node [OF u(1-4)] by blast
  then have v: "node_at p (recovered p u) = Some v" "honest alg v" "shaped v" "m_nDataSize v = of_nat n" using u(6) by simp_all
  have n64: "unat (of_nat n :: u64) = n" using part(3) by (intro unat_of_nat_small) simp
  note gp = GetPartSize_part [OF g f(1,2)]
  obtain g1 where g1: "IsComplete_part (of_nat k) (pf_gaplist f) = Some (False, g1)" "gap_inv g1" "same_file g1 (pf_gaplist f)" "missing g1 = missing (pf_gaplist f)"
    using IsComplete_part_iff [OF g(1) part(5)] f(3) unfolding part(6) by auto
  let ?f1 = "set_part_tree (recovered p u) (set_gaplist f g1)"
  let ?t = "CAICHHashTree (m_nDataSize v) (m_bIsLeftBranch v) (m_nBaseSize v)" and ?w = "hash_blocks h ours (CAICHHashTree (m_nDataSize v) (m_bIsLeftBranch v) (m_nBaseSize v))"
  have t: "shaped ?t" "m_nDataSize ?t = of_nat n" using shaped_new [of "m_nDataSize v"] shaped_base [OF v(3)] v(4) by (simp_all add: CAICHHashTree_def)
  have hb: "honest (GetNewHashAlgo h) ?w" "shaped ?w" "same_root ?t ?w" "leaf_hashes ?w = map sha1 (chunks 184320 ours)"
    using hash_blocks_tree [OF t(1), of ours h] t(2) n64 s(3) part(2,3) by auto
  have wsz: "unat (m_nDataSize ?w) = n" "m_bHashValid ?w" using hb(3) t(2) n64 honest_valid [OF hb(1)] by (simp_all add: same_root_def)
  have n32: "n < 2 ^ 32" and k63: "k * 9728000 < 2 ^ 63" using part(1,3) by simp_all
  obtain s' where s': "CreateHashFromFile h md4 (mem_ops hp) (of_nat (k * 9728000)) (of_nat n) False (Some ?t) s =
      Ok (CreateHashFromInput h md4 ours False (Some ?t)) s'" "mem_inv s'" "mem_content s' = mem_content s"
    using mem_in.CreateHashFromFile_reads [OF s part(2) n32 k63] by blast
  have gf: "gap_inv (pf_gaplist ?f1)" "file_size (pf_gaplist ?f1) = file_size (pf_gaplist f)" "missing (pf_gaplist ?f1) = missing (pf_gaplist f)"
    using g1(2-4) by (simp_all add: set_part_tree_def set_gaplist_def same_file_def file_size_def)
  obtain r f2 where f2: "recover_blocks (of_nat k) n (0 * 184320) v ?w 0 ?f1 = Some (r, v, f2)" "gap_inv (pf_gaplist f2)"
      "file_size (pf_gaplist f2) = file_size (pf_gaplist ?f1)" "pf_known f2 = pf_known ?f1"
      "missing (pf_gaplist f2) = missing (pf_gaplist ?f1) - agreeing k n 0 (leaf_hashes ?w) (leaf_hashes v)"
    using recover_blocks_fills [OF v(2,3) _ hb(1,2) wsz(1) part(3,1) gf(1)] part(4) gf(2) v(4) n64 by metis
  let ?f3 = "set_part_tree (update_at p (\<lambda>_. v) (recovered p u)) f2"
  have "\<not> kf_iPartCount (pf_known f) < of_nat k" using part(5) f(1) by auto
  then have "AICHRecoveryDataAvailable h md4 (mem_ops hp) (of_nat k) f s = finish_part_recovery h md4 (mem_ops hp) (of_nat k) r ?f3 s'"
    unfolding AICHRecoveryDataAvailable_def CPartFile_IsComplete_def g1(1)
    using gp v'(1) v(1) u(5) honest_valid [OF v(2)] s'(1) wsz(2) f2(1)
    by (simp add: Let_def w(1-4) CreateHashFromInput_def set_gaplist_def del: of_nat_mult)
  moreover have "pf_known ?f3 = set_file_tree (update_at p (\<lambda>_. v) (recovered p u)) (pf_known f)" "pf_gaplist ?f3 = pf_gaplist f2"
    using f2(4) by (simp_all add: set_part_tree_def set_gaplist_def set_file_tree_def)
  ultimately show ?thesis using s'(2,3) f2(2,3,5) gf hb(4) by metis
qed
text \<open>A client has verified recovery data for a part of which bytes are missing. Of the part's missing
  bytes exactly those in the blocks whose SHA-1 digest in its own file agrees with the digest of the real
  data are taken out of the gap list; the rest of the gap list stays as it is. When bytes of the part stay
  missing, the part is recovered as far as possible; when none does, the MD4 hash of the part decides: either
  the part is complete, or all of it is missing again and the hash set is marked as faulty. Every byte
  that is no longer missing is the right one, unless two different blocks have the same SHA-1 digest.\<close>

lemma recovery_decides:
  assumes u: "honest alg u" "shaped u" "m_nDataSize u \<le> MAX_FILE_SIZE" "part_at u k n p" "file_tree (pf_known f) = recovered p u"
    and real: "node_at p u = Some v" "leaf_hashes v = map sha1 (chunks 184320 real)" "length real = n"
    and g: "g = pf_gaplist f" "gap_inv g" "m_filesize g = m_nDataSize u" "missing g \<inter> part_bytes g k \<noteq> {}"
    and f: "kf_iPartCount (pf_known f) = m_iPartCount g" "kf_sizeLastPart (pf_known f) = m_sizeLastPart g"
      "unat (kf_iPartCount (pf_known f)) = 1 \<or> k < length (kf_hashlist (pf_known f))"
    and s: "mem_inv s" "take n (drop (k * 9728000) (mem_content s)) = ours" "length ours = n"
    and good: "good = agreeing k n 0 (map sha1 (chunks 184320 ours)) (map sha1 (chunks 184320 real))"
  shows "\<exists>r m s' f'. AICHRecoveryDataAvailable h md4 (mem_ops hp) (of_nat k) f s = Some (Ok r s', f') \<and> gap_inv (pf_gaplist f') \<and>
    (if \<not> missing g \<inter> part_bytes g k \<subseteq> good then r = Recovered m False \<and> missing (pf_gaplist f') = missing g - good
     else if md4 ours = expected_part_hash (pf_known f) k then r = Recovered m True \<and> missing (pf_gaplist f') = missing g - good
     else r = StillCorrupt \<and> missing (pf_gaplist f') = missing g \<union> part_bytes g k \<and> m_eStatus (kf_pAICHHashSet (pf_known f')) = AICH_ERROR) \<and>
    (inj_on sha1 (set (chunks 184320 ours) \<union> set (chunks 184320 real)) \<longrightarrow>
       (\<forall>x \<in> missing g - missing (pf_gaplist f'). mem_content s ! x = real ! (x - k * 9728000)))"
proof -
  have max: "unat (m_nDataSize u) \<le> 2 ^ 38" using u(3) by (simp add: MAX_FILE_SIZE_def word_le_nat_alt)
  have n: "k * 9728000 < file_size g" "n = min 9728000 (file_size g - k * 9728000)" using u(4) g(3) by (auto simp: part_at_def file_size_def)
  then have "k \<le> (file_size g - 1) div 9728000" by (simp add: less_eq_div_iff_mult_less_eq)
  then have k: "k < part_count g" using g(2) by (simp add: gap_inv_def)
  note part = part_in_file [OF g(2) k n(2)]
  obtain w m f1 s1 where f1: "AICHRecoveryDataAvailable h md4 (mem_ops hp) (of_nat k) f s = finish_part_recovery h md4 (mem_ops hp) (of_nat k) m f1 s1"
      "mem_inv s1" "mem_content s1 = mem_content s" "gap_inv (pf_gaplist f1)" "file_size (pf_gaplist f1) = file_size g"
      "pf_known f1 = set_file_tree w (pf_known f)" "missing (pf_gaplist f1) = missing g - good"
    using recover_start [OF u(1,2) max u(4,5) real(1) g(2) [unfolded g(1)] k [unfolded g(1)] n(2) [unfolded g(1)] f(1,2) [unfolded g(1)] g(4) [unfolded g(1)] s, of h md4 hp]
    unfolding real(2) good g(1) by blast
  have known: "kf_iPartCount (pf_known f1) = kf_iPartCount (pf_known f)" "kf_hashlist (pf_known f1) = kf_hashlist (pf_known f)"
    "expected_part_hash (pf_known f1) k = expected_part_hash (pf_known f) k"
    "KnownFile_GetPartSize (pf_known f1) (of_nat k) = of_nat n"
    using f1(6) GetPartSize_part [OF g(2) k n(2) f(1,2)] by (simp_all add: set_file_tree_def expected_part_hash_def KnownFile_GetPartSize_def split: if_splits)
  have pb: "part_bytes (pf_gaplist f1) k = part_bytes g k" using f1(5) by (simp add: part_bytes_def)
  have pc: "k < part_count (pf_gaplist f1)" "n = min 9728000 (file_size (pf_gaplist f1) - k * 9728000)"
    using f1(4,5) g(2) k n(2) by (simp_all add: gap_inv_def)
  obtain r s' f' where r: "finish_part_recovery h md4 (mem_ops hp) (of_nat k) m f1 s1 = Some (Ok r s', f')" "gap_inv (pf_gaplist f')"
    and cases: "if missing (pf_gaplist f1) \<inter> part_bytes (pf_gaplist f1) k \<noteq> {} then r = Recovered m False \<and> missing (pf_gaplist f') = missing (pf_gaplist f1)
     else if md4 ours = expected_part_hash (pf_known f1) k then r = Recovered m True \<and> missing (pf_gaplist f') = missing (pf_gaplist f1)
     else r = StillCorrupt \<and> missing (pf_gaplist f') = missing (pf_gaplist f1) \<union> part_bytes (pf_gaplist f1) k \<and>
       m_eStatus (kf_pAICHHashSet (pf_known f')) = AICH_ERROR"
    using finish_part_recovery_result [OF f1(4) pc f1(2) _ s(3) known(4), of h md4 hp m] f(3) s(2) f1(3) known(1,2) by auto
  have inside: "good \<subseteq> part_bytes g k" unfolding good part(7) by (rule agreeing_in_part)
  have some: "missing (pf_gaplist f1) \<inter> part_bytes (pf_gaplist f1) k \<noteq> {} \<longleftrightarrow> \<not> missing g \<inter> part_bytes g k \<subseteq> good"
    unfolding pb f1(7) by blast
  have "(missing g - good) \<union> part_bytes g k = missing g \<union> part_bytes g k" using inside by blast
  then have result: "if \<not> missing g \<inter> part_bytes g k \<subseteq> good then r = Recovered m False \<and> missing (pf_gaplist f') = missing g - good
     else if md4 ours = expected_part_hash (pf_known f) k then r = Recovered m True \<and> missing (pf_gaplist f') = missing g - good
     else r = StillCorrupt \<and> missing (pf_gaplist f') = missing g \<union> part_bytes g k \<and> m_eStatus (kf_pAICHHashSet (pf_known f')) = AICH_ERROR"
    using cases unfolding some unfolding f1(7) known(3) pb by simp
  have "mem_content s ! x = real ! (x - k * 9728000)"
    if inj: "inj_on sha1 (set (chunks 184320 ours) \<union> set (chunks 184320 real))" and x: "x \<in> missing g - missing (pf_gaplist f')" for x
  proof -
    have "x \<in> good" using x result by (auto split: if_splits)
    note a = agreeing_bytes [OF s(3) real(3) inj this [unfolded good]]
    have "x - k * 9728000 < n" using a(1,2) by linarith
    then have "take n (drop (k * 9728000) (mem_content s)) ! (x - k * 9728000) = drop (k * 9728000) (mem_content s) ! (x - k * 9728000)"
      by (rule nth_take)
    also have "\<dots> = mem_content s ! (k * 9728000 + (x - k * 9728000))"
      using arg_cong [OF s(2), of length] s(3) part(2) by (intro nth_drop) simp
    finally have "ours ! (x - k * 9728000) = mem_content s ! (k * 9728000 + (x - k * 9728000))" unfolding s(2) .
    then show ?thesis using a(1,3) by simp
  qed
  then show ?thesis using f1(1) r result by metis
qed

subsection \<open>The hashes of a part in those of the file\<close>

lemma length_units_blocks: "length (units 184320 n) = block_count n"
proof (induction "n" rule: less_induct)
  case (less n)
  show ?case
  proof (cases "n \<le> 184320")
    case True
    then show ?thesis by (cases "n = 184320") (auto simp: units.simps [of _ n] units.simps [of _ 184320] block_count_def)
  next
    case False
    then have "block_count n = 1 + block_count (n - 184320)" using block_count_add [of 1 "n - 184320"] by simp
    then show ?thesis using False less.IH [of "n - 184320"] by (simp add: units.simps [of _ n])
  qed
qed

lemma length_chunks_blocks: "length (chunks 184320 xs) = block_count (length xs)"
  using map_length_chunks [of 184320 xs] length_units_blocks by (metis length_map zero_less_numeral)

lemma file_blocks_part: "n \<le> 9728000 \<Longrightarrow> file_blocks n = block_count n"
  by (cases "n = 9728000") (auto simp: file_blocks_def block_count_def)

lemma block_count_le: "n \<le> 9728000 \<Longrightarrow> block_count n \<le> 53"
  using div_le_mono [of n 9728000 184320] by (cases "n div 184320 = 52") (auto simp: block_count_def)

lemma FindHash_part_leaves:
  assumes "honest alg t" "shaped t" "FindHash pos sz lev t = (Some q, lev', t')" "node_at q t = Some v"
    and "unat pos = k * 9728000" "unat sz = min 9728000 (unat (m_nDataSize t) - unat pos)" "unat pos < unat (m_nDataSize t)"
  shows "leaf_hashes v = take (file_blocks (unat sz)) (drop (53 * k) (leaf_hashes t))"
  using assms
proof (induction t arbitrary: pos lev q t' k)
  case (HashTree h ds bs lb vl pl pr)
  show ?case
  proof (cases "unat ds \<le> 9728000")
    case True
    then have "k = 0" using HashTree.prems(5,7) by (cases k) auto
    then have "unat pos = 0" "unat sz = unat ds" using HashTree.prems(5,6) True by simp_all
    then have p: "pos = 0" "sz = ds" unfolding unat_eq_zero word_unat_eq_iff by blast+
    from HashTree.prems(3) have "q = []" by (cases rule: FindHash_Some_cases) (use p in simp_all)
    moreover have "length (leaf_hashes (HashTree h ds bs lb vl pl pr)) = file_blocks (unat ds)"
      using leaf_count_file [OF HashTree.prems(1,2)] HashTree.prems(7) p(1) by simp
    ultimately show ?thesis using HashTree.prems(4) p(2) \<open>k = 0\<close> by auto
  next
    case False
    then have bs: "bs = 9728000" using HashTree.prems(2) by (simp add: shaped.simps child_base_def PARTSIZE_def word_le_nat_alt)
    from HashTree.prems(1) show ?thesis
    proof (cases rule: honest_cases)
      case leaf
      then show ?thesis using False bs by (simp add: word_le_nat_alt)
    next
      case (inner l r)
      define nl where "nl = unat (tree_nLeft ds bs lb)"
      have "1 < bs" by (simp add: bs)
      note half = split_halves [OF this inner(5) _ nl_def, of "unat ds"]
      obtain j where j: "nl = 9728000 * j" "0 < j" "nl < unat ds" using half(1) half(4) by (auto simp: bs)
      have sh: "shaped l" "m_nDataSize l = tree_nLeft ds bs lb" "shaped r" "m_nDataSize r = ds - tree_nLeft ds bs lb"
        using HashTree.prems(2) by (simp_all add: inner shaped.simps)
      have sz: "unat (m_nDataSize l) = nl" "unat (m_nDataSize r) = unat ds - nl" using sh j by (simp_all add: nl_def unat_sub_le word_le_nat_alt)
      have len: "length (leaf_hashes l) = 53 * j"
        using leaf_count_file [OF inner(7) sh(1)] sz(1) j file_blocks_add [of j 0] by (simp add: file_blocks_def block_count_def)
      have or: "or_new pl (tree_nLeft ds bs lb) True = l" "or_new pr (ds - tree_nLeft ds bs lb) False = r" by (simp_all add: inner or_new_def)
      have le: "file_blocks (unat sz) \<le> 53" using HashTree.prems(6) block_count_le [of "unat sz"] file_blocks_part [of "unat sz"] by simp
      from HashTree.prems(3) show ?thesis
      proof (cases rule: FindHash_Some_cases)
        case here
        then show ?thesis using False HashTree.prems(6) by simp
      next
        case (left q' c)
        then have "k < j" using HashTree.prems(5) j by (simp add: word_less_nat_alt nl_def [symmetric])
        then have fit: "k * 9728000 + 9728000 \<le> nl" "53 * k + 53 \<le> 53 * j" using j(1) by simp_all
        then have "unat sz = min 9728000 (unat (m_nDataSize l) - unat pos)" using HashTree.prems(5,6) sz(1) j(3) by simp
        then have "leaf_hashes v = take (file_blocks (unat sz)) (drop (53 * k) (leaf_hashes l))"
          using HashTree.IH(1) [of l pos "lev + 1" q' c k] inner sh sz j left or HashTree.prems(4,5) \<open>k < j\<close> by simp
        then show ?thesis using inner len le fit(2) by simp
      next
        case (right q' c)
        then have ge: "nl \<le> unat pos" by (simp add: word_less_nat_alt nl_def)
        then have "j \<le> k" using HashTree.prems(5) j by simp
        have up: "unat (pos - tree_nLeft ds bs lb) = (k - j) * 9728000"
          using ge HashTree.prems(5) j(1) by (simp add: unat_sub_le word_le_nat_alt nl_def diff_mult_distrib)
        then have "leaf_hashes v = take (file_blocks (unat sz)) (drop (53 * (k - j)) (leaf_hashes r))"
          using HashTree.IH(2) [of r "pos - tree_nLeft ds bs lb" "lev + 1" q' c "k - j"] inner sh sz j right or HashTree.prems(4-7) ge \<open>j \<le> k\<close>
          by (simp add: diff_mult_distrib)
        then show ?thesis using inner len \<open>j \<le> k\<close> by (simp add: diff_mult_distrib2)
      qed
    qed
  qed
qed

lemma concat_segment:
  assumes "k < length bs" "\<forall>i < k. length (F (bs ! i)) = c"
  shows "take (length (F (bs ! k))) (drop (c * k) (concat (map F bs))) = F (bs ! k)"
  using assms
proof (induction k arbitrary: bs)
  case 0
  then show ?case by (cases bs) auto
next
  case (Suc k)
  obtain b bs' where bs: "bs = b # bs'" using Suc.prems(1) by (cases bs) auto
  have "length (F b) = c" using Suc.prems(2) bs by force
  moreover have "take (length (F (bs' ! k))) (drop (c * k) (concat (map F bs'))) = F (bs' ! k)"
  proof (rule Suc.IH)
    show "\<forall>i < k. length (F (bs' ! i)) = c"
    proof (intro allI impI)
      fix i assume "i < k"
      then show "length (F (bs' ! i)) = c" using Suc.prems(2) [rule_format, of "Suc i"] bs by simp
    qed
  qed (use Suc.prems(1) bs in simp)
  ultimately show ?case by (simp add: bs)
qed

text \<open>In the tree of a file, the node of a part has the digests of the blocks of that part.\<close>

lemma part_leaf_hashes:
  assumes "honest alg u" "shaped u" "unat (m_nDataSize u) \<le> 2 ^ 38" "part_at u k n p" "node_at p u = Some v"
    and "leaf_hashes u = block_hashes data" "unat (m_nDataSize u) = length data"
  shows "leaf_hashes v = map sha1 (chunks 184320 (take n (drop (k * 9728000) data)))" "length (take n (drop (k * 9728000) data)) = n"
proof -
  let ?F = "\<lambda>part. map sha1 (chunks 184320 part)" and ?bs = "chunks 9728000 data"
  obtain lev where f: "FindHash (of_nat (k * 9728000)) (of_nat n) 0 u = (Some p, lev, u)" using assms(4) unfolding part_at_def by blast
  have n: "k * 9728000 < length data" "n = min 9728000 (length data - k * 9728000)" using assms(4,7) by (simp_all add: part_at_def)
  have w: "unat (of_nat (k * 9728000) :: u64) = k * 9728000" "unat (of_nat n :: u64) = n"
    using n assms(3,7) by (intro unat_of_nat_small; simp)+
  have v: "leaf_hashes v = take (file_blocks n) (drop (53 * k) (concat (map ?F ?bs)))"
    using FindHash_part_leaves [OF assms(1,2) f assms(5) w(1)] n w assms(6,7) by (simp add: block_hashes_def)
  note c = nth_chunks [of 9728000 _ data]
  have part: "?bs ! k = take n (drop (k * 9728000) data)" "k < length ?bs" using c [of k] n by (simp_all add: min_def)
  show len: "length (take n (drop (k * 9728000) data)) = n" using n by simp
  have "length (?F (?bs ! i)) = 53" if "i < k" for i
  proof -
    have "i * 9728000 + 9728000 \<le> length data" using that n(1) by simp
    then have "length (?bs ! i) = 9728000" using c [of i] by simp
    then show ?thesis by (simp add: length_chunks_blocks block_count_def)
  qed
  moreover have "file_blocks n = length (?F (?bs ! k))"
    unfolding part(1) length_map length_chunks_blocks len using n(2) by (simp add: file_blocks_part)
  ultimately show "leaf_hashes v = ?F (take n (drop (k * 9728000) data))"
    using concat_segment [OF part(2), of ?F 53] unfolding v part(1) by simp
qed

end
