(* ===== verification/Spec2Isabelle.thy ===== *)
theory Spec2Isabelle
  imports UInt128 RangeMap IPFilter NetworkFunctions Tag RLE NodesFile PartRecovery
begin

text \<open>
  Verification of the core of aMule 3.0.1, the C++ program under src/amule-3.0.1/src.

  \<^bold>\<open>The program.\<close> aMule is a client of the eDonkey and Kademlia file-sharing networks. A file is
  downloaded in parts of 9728000 bytes and blocks of 184320 bytes from many clients; what is still
  missing is kept in a gap list; damaged parts are repaired block by block with a tree of SHA-1
  hashes (AICH); other clients are found through servers and through a distributed hash table
  (Kademlia), whose nodes are kept in a routing table; addresses are checked against an IP filter;
  everything that is stored or sent is written through typed file access with little-endian
  integers, tags and, for the remote interface, a run-length coder.

  \<^bold>\<open>Theories and sources.\<close> Each theory translates its sources function by function under the
  names of the source; state is a record that each operation returns updated, exceptions are
  values, machine integers are words of their width.
  \<^item> \<open>Prelude\<close>, \<open>StdMap\<close>, \<open>Constants\<close>: shared lemmas on words and lists, \<open>std::map\<close> as a sorted
    association list, the sizes of include/protocol/ed2k/Constants.h.
  \<^item> \<open>GapList\<close> (GapList.cpp, GapList.h): the gaps of a part file and the parts that are complete.
  \<^item> \<open>ArchSpecific\<close> (ArchSpecific.h): peek and poke of integers on both byte orders.
  \<^item> \<open>UInt128\<close> (kademlia/utils/UInt128.cpp): 128-bit identifiers, arithmetic, comparison, text.
  \<^item> \<open>RangeMap\<close> (RangeMap.h): a map of disjoint ranges; \<open>IPFilter\<close> (IPFilter.cpp,
    IPFilterScanner): the table of blocked ranges and its search.
  \<^item> \<open>NetworkFunctions\<close> (NetworkFunctions.cpp): addresses as text and which addresses are usable.
  \<^item> \<open>MemFile\<close>, \<open>SafeFile\<close> (MemFile.cpp, SafeFile.cpp): files in memory and typed access to any
    file. The contract of a file is the locale \<open>byte_source\<close> (reading) and its extension
    \<open>byte_stream\<close> (writing); both are interpreted on the memory file.
  \<^item> \<open>Tag\<close> (Tag.cpp): the tags of the protocols and of the saved files.
  \<^item> \<open>RLE\<close> (RLE.cpp): the differential run-length coder of the remote interface.
  \<^item> \<open>Contact\<close>, \<open>RoutingBin\<close>, \<open>RoutingZone\<close>, \<open>RoutingTable\<close>, \<open>NodesFile\<close>
    (kademlia/routing/*.cpp): the routing table with its limits per address and network, the
    search for the closest contacts, the files nodes.dat.
  \<^item> \<open>SHA\<close> (SHA.cpp): the class \<open>CSHA\<close>; the interface \<open>CAICHHashAlgo\<close> is the locale \<open>hash_algo\<close>.
  \<^item> \<open>AICHHashTree\<close>, \<open>AICHRecovery\<close> (SHAHashSet.cpp, \<open>CAICHHashTree\<close>): the tree of hashes over a
    file, its verification, and what recovery data consists of.
  \<^item> \<open>AICHHashSet\<close>, \<open>AICHTransfer\<close>, \<open>Known2File\<close> (SHAHashSet.cpp, \<open>CAICHHashSet\<close>): which root hash
    is trusted, recovery data between clients, the file known2\_64.met.
  \<^item> \<open>AICHHashing\<close>, \<open>HashingTask\<close> (KnownFile.cpp, ThreadTasks.cpp): hashing data block by block, a file part
    by part, and the task that hashes a file, saves its hash set and posts the result.
  \<^item> \<open>PartRecovery\<close> (PartFile.cpp): what a part file does with recovery data, on its gap list, its hash
    set and its file; the theorem below is the whole repair across two clients.

  \<^bold>\<open>What is shown.\<close> For each container an abstract specification that its operations implement: the
  gap list is a set of missing bytes, the range map a partial function on addresses, the identifier
  arithmetic is arithmetic modulo $2^{128}$, the coder transfers a sequence of states, \<open>CSHA\<close>
  computes SHA-1, the choice of a root hash is an election over the received messages, the hashes of a
  file are those of its pieces. For each
  format a round trip: integers, strings, tags, nodes.dat, known2\_64.met, recovery data from the
  client that shares a file to one that only knows its root hash. The composition of these: a
  corrupt part is repaired with the recovery data of another client exactly in its good blocks. Invariants: the routing table's
  limits and structure under every sequence of operations, the gap list, the memory file, the
  shape of hash trees. Bounds: table sizes, depth of hash trees, no overflow of counters. Error
  behaviour: reading past the end, truncated strings, and the places where the code does not do
  what it is meant to do, which the manifest lists as findings.

  \<^bold>\<open>Bounds and fuel.\<close> Loops whose end the data do not show have fuel: the decoder of \<open>RLE\<close> makes two
  passes, which is shown to be enough for any bytes; the loops over known2\_64.met have the size of
  the file as fuel, and every turn consumes at least 24 bytes. The loop of the gap list over part
  numbers is a partial function, and its result is shown to exist. All other recursions have termination
  proofs. Files are at most \<open>MAX_FILE_SIZE\<close> ($2^{38}$ bytes) where a theorem says so, as in the
  program; memory files are shorter than $2^{63}$ bytes.

  \<^bold>\<open>Parameters.\<close> The host's byte order; whether an allocation succeeds; the conversions of
  wxWidgets between encodings; the preferences that an operation reads; the digest function, where
  a statement holds for any; the current time and random numbers; what opening a file yields.

  \<^bold>\<open>Not modelled.\<close> Sockets, threads, timers and the user interface, which are calls of wxWidgets,
  boost and the operating system; encryption and MD4, which are calls of Crypto++ (the MD4 digest is a
  parameter); reading through memory-mapped files; buffering and the threads of part files; the client,
  server, search, upload and download queues, whose code is mostly packet handlers over sockets;
  the remote protocol apart from its coder; the web server and the command-line programs; the Rust
  and Swift programs of the repository; generated and vendored code. Log messages and assertions
  have no effect in a release build and are left out; locks are left out because every operation of
  the model is one step.
\<close>

subsection \<open>A corrupt part is repaired\<close>

text \<open>C1: the whole way of a repair. One client shares a file and has the complete hash tree over its blocks,
  which hashing the file yields. Another one downloads the file, trusts the root hash, and misses bytes of a
  part. The first client writes the recovery data for the part, the second reads it successfully and uses it.
  Then the missing bytes of the part that lie in blocks with the same SHA-1 digest in both files, and only
  these, are no longer missing; if that completes the part, its MD4 hash decides whether it is accepted or
  is missing altogether again. Every byte that is no longer missing is that of the shared file, unless two
  different blocks have the same digest.\<close>

theorem corrupt_part_repaired:
  assumes u: "alg = GetNewHashAlgo h" "honest alg u" "shaped u" "m_bIsLeftBranch u" "leaf_hashes u = block_hashes data"
      "unat (m_nDataSize u) = length data" "184320 < length data" "length data \<le> 2 ^ 38"
    and part: "k * 9728000 < length data" "n = min 9728000 (length data - k * 9728000)" "a = of_nat (k * 9728000)" "real = take n (drop (k * 9728000) data)"
    and sender: "m_pHashTree hs = u" "m_pOwner hs = \<lparr>IsPartFile = False, m_nFileSize = m_nDataSize u\<rparr>" "m_eStatus hs = AICH_HASHSETCOMPLETE"
    and receiver: "rs = kf_pAICHHashSet (pf_known f)" "m_pHashTree rs = HashTree (m_Hash u) (m_nDataSize u) (m_nBaseSize u) True True None None"
      "m_nFileSize (m_pOwner rs) = m_nDataSize u" "m_eStatus rs \<in> {AICH_TRUSTED, AICH_VERIFIED}"
    and q: "mem_open q" "m_position q = m_fileSize q" "m_fileSize q < 2 ^ 63" "V = mem_ops (total_heap j)"
    and g: "g = pf_gaplist f" "gap_inv g" "m_filesize g = m_nDataSize u" "missing g \<inter> part_bytes g k \<noteq> {}"
    and f: "kf_iPartCount (pf_known f) = m_iPartCount g" "kf_sizeLastPart (pf_known f) = m_sizeLastPart g"
      "unat (kf_iPartCount (pf_known f)) = 1 \<or> k < length (kf_hashlist (pf_known f))"
    and s: "mem_inv s" "take n (drop (k * 9728000) (mem_content s)) = ours" "length ours = n"
    and good: "good = agreeing k n 0 (map sha1 (chunks 184320 ours)) (map sha1 (chunks 184320 real))"
  shows "\<exists>q1 q2 rs' r m s' f'. CreateSetRecoveryData alg known exists opened V a True hs c q = (Ok True q1, hs, c) \<and>
    ReadRecoveryData alg V a rs (q1\<lparr>m_position := m_position q\<rparr>) = (Ok True q2, rs') \<and>
    AICHRecoveryDataAvailable h digest (mem_ops hp) (of_nat k) (f\<lparr>pf_known := (pf_known f)\<lparr>kf_pAICHHashSet := rs'\<rparr>\<rparr>) s = Some (Ok r s', f') \<and>
    gap_inv (pf_gaplist f') \<and>
    (if \<not> missing g \<inter> part_bytes g k \<subseteq> good then r = Recovered m False \<and> missing (pf_gaplist f') = missing g - good
     else if digest ours = expected_part_hash (pf_known f) k then r = Recovered m True \<and> missing (pf_gaplist f') = missing g - good
     else r = StillCorrupt \<and> missing (pf_gaplist f') = missing g \<union> part_bytes g k \<and> m_eStatus (kf_pAICHHashSet (pf_known f')) = AICH_ERROR) \<and>
    (inj_on sha1 (set (chunks 184320 ours) \<union> set (chunks 184320 real)) \<longrightarrow>
       (\<forall>x \<in> missing g - missing (pf_gaplist f'). mem_content s ! x = data ! x))"
proof -
  have max: "unat (m_nDataSize u) \<le> 2 ^ 38" "m_nDataSize u \<le> MAX_FILE_SIZE" "EMBLOCKSIZE < m_nDataSize u"
    using u(6-8) by (simp_all add: MAX_FILE_SIZE_def EMBLOCKSIZE_def word_le_nat_alt word_less_nat_alt)
  obtain p where p: "part_at u k n p" using part_exists [OF u(2,3) max(1)] part(1,2) u(6) by metis
  obtain v where v: "node_at p u = Some v" using recovered_part_node [OF u(2,3) max(1) p] by blast
  note real = part_leaf_hashes [OF u(2,3) max(1) p v u(5,6), folded part(4)]
  obtain q1 q2 where w: "write_recovery V a hs q = (Ok True q1, hs)"
    and r: "ReadRecoveryData alg V a rs (q1\<lparr>m_position := m_position q\<rparr>) = (Ok True q2, rs\<lparr>m_pHashTree := recovered p u\<rparr>)"
    using sent_data_arrives [OF u(2-4) max(3,2) p sender(1,2) receiver(2-4) q] unfolding part(3) by blast
  have c: "CreateSetRecoveryData alg known exists opened V a True hs c q = (Ok True q1, hs, c)"
    using w sender max(3) unfolding CreateSetRecoveryData_def by auto
  let ?f = "f\<lparr>pf_known := (pf_known f)\<lparr>kf_pAICHHashSet := rs\<lparr>m_pHashTree := recovered p u\<rparr>\<rparr>\<rparr>"
  have k: "file_tree (pf_known ?f) = recovered p u" "pf_gaplist ?f = g" "kf_iPartCount (pf_known ?f) = m_iPartCount g"
    "kf_sizeLastPart (pf_known ?f) = m_sizeLastPart g" "unat (kf_iPartCount (pf_known ?f)) = 1 \<or> k < length (kf_hashlist (pf_known ?f))"
    "expected_part_hash (pf_known ?f) k = expected_part_hash (pf_known f) k"
    using f g(1) by (simp_all add: file_tree_def expected_part_hash_def)
  obtain r' m s' f' where r': "AICHRecoveryDataAvailable h digest (mem_ops hp) (of_nat k) ?f s = Some (Ok r' s', f')" "gap_inv (pf_gaplist f')"
    and res: "if \<not> missing g \<inter> part_bytes g k \<subseteq> good then r' = Recovered m False \<and> missing (pf_gaplist f') = missing g - good
     else if digest ours = expected_part_hash (pf_known f) k then r' = Recovered m True \<and> missing (pf_gaplist f') = missing g - good
     else r' = StillCorrupt \<and> missing (pf_gaplist f') = missing g \<union> part_bytes g k \<and> m_eStatus (kf_pAICHHashSet (pf_known f')) = AICH_ERROR"
    and bytes: "inj_on sha1 (set (chunks 184320 ours) \<union> set (chunks 184320 real)) \<longrightarrow>
       (\<forall>x \<in> missing g - missing (pf_gaplist f'). mem_content s ! x = real ! (x - k * 9728000))"
    using recovery_decides [OF u(2,3) max(2) p k(1) v real k(2) [symmetric] g(2-4) k(3-5) s good, of h digest hp] unfolding k(6) by blast
  have "data ! x = real ! (x - k * 9728000)" if "x \<in> good" for x
  proof -
    have "x \<in> {k * 9728000 ..< k * 9728000 + n}" using that agreeing_in_part unfolding good by blast
    then have x: "x = k * 9728000 + (x - k * 9728000)" "x - k * 9728000 < n" unfolding atLeastLessThan_iff by linarith+
    have "real ! (x - k * 9728000) = data ! (k * 9728000 + (x - k * 9728000))" unfolding part(4) nth_take [OF x(2)] using part(1) by (intro nth_drop) simp
    then show ?thesis using x(1) by simp
  qed
  moreover have "missing g - missing (pf_gaplist f') \<subseteq> good" using res by (auto split: if_splits)
  ultimately have "inj_on sha1 (set (chunks 184320 ours) \<union> set (chunks 184320 real)) \<longrightarrow>
       (\<forall>x \<in> missing g - missing (pf_gaplist f'). mem_content s ! x = data ! x)" using bytes by (metis subsetD)
  then show ?thesis using c r r' res by blast
qed

text \<open>A file of 200000 bytes of which the second client has all bytes and misses all in its gap list.\<close>

definition sevens :: "u8 list" where
  "sevens = replicate 200000 7"

definition lost_file :: "gaplist \<Rightarrow> aich_tree \<Rightarrow> CPartFile" where
  "lost_file g u =
     \<lparr>pf_known = CKnownFile_new\<lparr>kf_iPartCount := 1, kf_sizeLastPart := 200000, kf_pAICHHashSet :=
        \<lparr>m_pOwner = \<lparr>IsPartFile = True, m_nFileSize = 200000\<rparr>, m_eStatus = AICH_TRUSTED, m_aUntrustedHashs = [],
         m_pHashTree = HashTree (m_Hash u) 200000 (m_nBaseSize u) True True None None\<rparr>\<rparr>,
      pf_gaplist = g, pf_requestedblocks_list = [], pf_corrupted_list = [0], pf_hashsetneeded = False, pf_PS_ERROR = False,
      pf_VerifiedData = []\<rparr>"

definition sharing_file :: "aich_tree \<Rightarrow> CAICHHashSet" where
  "sharing_file u = \<lparr>m_pOwner = \<lparr>IsPartFile = False, m_nFileSize = 200000\<rparr>, m_eStatus = AICH_HASHSETCOMPLETE, m_aUntrustedHashs = [], m_pHashTree = u\<rparr>"

lemma sevens_tree:
  "\<exists>u. honest (GetNewHashAlgo h) u \<and> shaped u \<and> m_bIsLeftBranch u \<and> leaf_hashes u = block_hashes sevens \<and> m_nDataSize u = 200000"
proof -
  let ?f = "KnownFile_SetFileSize (of_nat (length sevens)) CKnownFile_new"
  have len: "length sevens = 200000" by (simp add: sevens_def)
  have t: "m_nDataSize (file_tree ?f) = 200000" "m_bIsLeftBranch (file_tree ?f)"
    using KnownFile_SetFileSize_tree(2) [OF refl, of 200000]
    by (simp_all add: len KnownFile_SetFileSize_def CKnownFile_new_def CAICHHashSet_new_def SetFileSize_def file_tree_def Let_def CAICHHashTree_def)
  show ?thesis
    using with_parts_completes [of sevens ?f h "\<lambda>_. []" True] len t unfolding completes_def same_root_def by auto
qed

theorem corrupt_part_repaired_witness:
  "\<exists>g u q1 q2 rs' m s' f'. Init 200000 True = Some g \<and> leaf_hashes u = block_hashes sevens \<and>
    CreateSetRecoveryData (GetNewHashAlgo LittleEndian) (mem_ops (total_heap (\<lambda>_. 0))) False None (mem_ops (total_heap (\<lambda>_. 0))) 0 True (sharing_file u)
      \<lparr>s_rootHashCache = Map.empty, s_rootHashCacheLoaded = False\<rparr> (CMemFile_new 0) = (Ok True q1, sharing_file u, \<lparr>s_rootHashCache = Map.empty, s_rootHashCacheLoaded = False\<rparr>) \<and>
    ReadRecoveryData (GetNewHashAlgo LittleEndian) (mem_ops (total_heap (\<lambda>_. 0))) 0 (kf_pAICHHashSet (pf_known (lost_file g u))) (q1\<lparr>m_position := 0\<rparr>) = (Ok True q2, rs') \<and>
    AICHRecoveryDataAvailable LittleEndian (\<lambda>_. replicate 16 0) (mem_ops (total_heap (\<lambda>_. 0))) 0
      ((lost_file g u)\<lparr>pf_known := (pf_known (lost_file g u))\<lparr>kf_pAICHHashSet := rs'\<rparr>\<rparr>) (CMemFile_const sevens) = Some (Ok (Recovered m True) s', f') \<and>
    missing (pf_gaplist f') = {}"
proof -
  let ?alg = "GetNewHashAlgo LittleEndian"
  obtain u where u: "honest ?alg u" "shaped u" "m_bIsLeftBranch u" "leaf_hashes u = block_hashes sevens" "m_nDataSize u = 200000"
    using sevens_tree by blast
  have "0 < unat (200000 :: u64)" "unat (200000 :: u64) \<le> unat MAX_FILE_SIZE" by (simp_all add: MAX_FILE_SIZE_def)
  from Init_correct [OF this, of True] obtain g where g: "Init 200000 True = Some g" "gap_inv g" "file_size g = 200000" "missing g = {..<200000}" by auto
  let ?f = "lost_file g u" and ?good = "agreeing 0 200000 0 (map sha1 (chunks 184320 sevens)) (map sha1 (chunks 184320 sevens))"
  have len: "length sevens = 200000" by (simp add: sevens_def)
  have gf: "m_filesize g = 200000" "m_iPartCount g = 1" "m_sizeLastPart g = 200000"
  proof -
    have "unat (m_filesize g) = 200000" "unat (m_iPartCount g) = 1" "unat (m_sizeLastPart g) = 200000"
      using g(2,3) by (simp_all add: gap_inv_def file_size_def part_count_def)
    then show "m_filesize g = 200000" "m_iPartCount g = 1" "m_sizeLastPart g = 200000" using word_eq_of_nat by fastforce+
  qed
  have pb: "part_bytes g 0 = {..<200000}" using g(3) by (auto simp: part_bytes_def)
  have good: "{..<200000} \<subseteq> ?good"
  proof
    fix x :: nat assume x: "x \<in> {..<200000}"
    define i where "i = x div 184320"
    have "i * 184320 \<le> x" "x < i * 184320 + 184320" unfolding i_def by (simp_all add: dividend_less_div_times)
    then show "x \<in> ?good" using x unfolding agreeing_def part_block_def by (intro UN_I [of i]) auto
  qed
  have ex: "expected_part_hash (pf_known ?f) 0 = replicate 16 0" by (simp add: lost_file_def CKnownFile_new_def expected_part_hash_def)
  have k: "kf_pAICHHashSet (pf_known ?f) = \<lparr>m_pOwner = \<lparr>IsPartFile = True, m_nFileSize = 200000\<rparr>, m_eStatus = AICH_TRUSTED, m_aUntrustedHashs = [],
        m_pHashTree = HashTree (m_Hash u) 200000 (m_nBaseSize u) True True None None\<rparr>"
      "pf_gaplist ?f = g" "kf_iPartCount (pf_known ?f) = 1" "kf_sizeLastPart (pf_known ?f) = 200000"
    by (simp_all add: lost_file_def)
  have pre_u: "unat (m_nDataSize u) = length sevens" "184320 < length sevens" "length sevens \<le> 2 ^ 38" using u(5) len by simp_all
  have pre_part: "0 * 9728000 < length sevens" "200000 = min 9728000 (length sevens - 0 * 9728000)" "0 = of_nat (0 * 9728000)"
    "sevens = take 200000 (drop (0 * 9728000) sevens)" using len by simp_all
  have pre_hs: "m_pHashTree (sharing_file u) = u" "m_pOwner (sharing_file u) = \<lparr>IsPartFile = False, m_nFileSize = m_nDataSize u\<rparr>"
    "m_eStatus (sharing_file u) = AICH_HASHSETCOMPLETE" using u(5) by (simp_all add: sharing_file_def)
  have pre_rs: "m_pHashTree (kf_pAICHHashSet (pf_known ?f)) = HashTree (m_Hash u) (m_nDataSize u) (m_nBaseSize u) True True None None"
    "m_nFileSize (m_pOwner (kf_pAICHHashSet (pf_known ?f))) = m_nDataSize u" "m_eStatus (kf_pAICHHashSet (pf_known ?f)) \<in> {AICH_TRUSTED, AICH_VERIFIED}"
    unfolding k(1) using u(5) by simp_all
  have pre_q: "mem_open (CMemFile_new 0)" "m_position (CMemFile_new 0) = m_fileSize (CMemFile_new 0)" "m_fileSize (CMemFile_new 0) < 2 ^ 63"
    by (simp_all add: mem_open_def mem_inv_def CMemFile_new_def)
  have "(0 :: nat) \<in> {..<200000} \<inter> {..<200000}" by simp
  then have "missing g \<inter> part_bytes g 0 \<noteq> {}" unfolding g(4) pb by blast
  then have pre_g: "g = pf_gaplist ?f" "gap_inv g" "m_filesize g = m_nDataSize u" "missing g \<inter> part_bytes g 0 \<noteq> {}"
    using g(2) gf(1) u(5) k(2) by simp_all
  have pre_f: "kf_iPartCount (pf_known ?f) = m_iPartCount g" "kf_sizeLastPart (pf_known ?f) = m_sizeLastPart g"
    "unat (kf_iPartCount (pf_known ?f)) = 1 \<or> 0 < length (kf_hashlist (pf_known ?f))" using k(3,4) gf by simp_all
  have pre_s: "mem_inv (CMemFile_const sevens)" "take 200000 (drop (0 * 9728000) (mem_content (CMemFile_const sevens))) = sevens" "length sevens = 200000"
    using len by (simp_all add: const_file)
  note t = corrupt_part_repaired [OF refl u(1-4) pre_u pre_part pre_hs refl pre_rs pre_q refl pre_g pre_f pre_s refl,
    where known = "mem_ops (total_heap (\<lambda>_. 0))" and exists = False and opened = None and j = "\<lambda>_. 0"
      and c = "\<lparr>s_rootHashCache = Map.empty, s_rootHashCacheLoaded = False\<rparr>" and digest = "\<lambda>_. replicate 16 0" and hp = "total_heap (\<lambda>_. 0)"]
  have all: "missing g \<inter> part_bytes g 0 \<subseteq> ?good" "missing g - ?good = {}" using good unfolding g(4) pb by blast+
  have z: "of_nat 0 = (0 :: u16)" "m_position (CMemFile_new 0) = 0" by (simp_all add: CMemFile_new_def)
  from t show ?thesis unfolding ex z using all g(1) u(4) by (simp only: simp_thms if_True if_False not_True_eq_False) blast
qed

end
